(* ===== verification/Scanf.thy ===== *)
theory Scanf
  imports Main "HOL-Library.Monad_Syntax"
begin

text \<open>
  The part of the C library's \<open>fscanf\<close> that the key file reader uses: white space, literal characters and the
  conversions \<open>%c\<close>, \<open>%d\<close>, \<open>%i\<close>, \<open>%u\<close> and \<open>%x\<close>, on a stream given by the characters that are left in it. Numbers
  printed in base 10 or 16 are read back.
\<close>

section \<open>Formats\<close>

definition isspace :: "char \<Rightarrow> bool" where
  "isspace c \<longleftrightarrow> (of_char c :: nat) \<in> {9, 10, 11, 12, 13, 32}"

datatype directive = Space | Lit char | Conv char

text \<open>A format string as directives; adjacent white space is one directive.\<close>

fun directives :: "string \<Rightarrow> directive list" where
  "directives [] = []"
| "directives [c] = [if isspace c then Space else Lit c]"
| "directives (c # d # fmt) =
     (if c = CHR ''%'' then Conv d # directives fmt
      else if isspace c then (if isspace d then directives (d # fmt) else Space # directives (d # fmt))
      else Lit c # directives (d # fmt))"

section \<open>Numbers\<close>

definition digit_value :: "char \<Rightarrow> nat option" where
  "digit_value c =
     (let n = of_char c :: nat in
      if 48 \<le> n \<and> n \<le> 57 then Some (n - 48)
      else if 97 \<le> n \<and> n \<le> 102 then Some (n - 87)
      else if 65 \<le> n \<and> n \<le> 70 then Some (n - 55)
      else None)"

definition is_digit :: "nat \<Rightarrow> char \<Rightarrow> bool" where
  "is_digit base c \<longleftrightarrow> (case digit_value c of None \<Rightarrow> False | Some d \<Rightarrow> d < base)"

fun scan_digits :: "nat \<Rightarrow> nat \<Rightarrow> string \<Rightarrow> nat \<times> string" where
  "scan_digits base n [] = (n, [])"
| "scan_digits base n (c # cs) =
     (if is_digit base c then scan_digits base (n * base + the (digit_value c)) cs else (n, c # cs))"

definition has_digit :: "nat \<Rightarrow> string \<Rightarrow> bool" where
  "has_digit base s \<longleftrightarrow> (case s of [] \<Rightarrow> False | c # _ \<Rightarrow> is_digit base c)"

definition hex_prefix :: "string \<Rightarrow> bool" where
  "hex_prefix s \<longleftrightarrow> take 2 s = ''0x'' \<or> take 2 s = ''0X''"

text \<open>The digits in the given base; base 0 stands for the notation of C constants. \<open>None\<close> is a matching failure.\<close>

definition scan_magnitude :: "nat \<Rightarrow> string \<Rightarrow> nat option \<times> string" where
  "scan_magnitude base s =
     (let (base, s) =
        (if (base = 0 \<or> base = 16) \<and> hex_prefix s then (16, drop 2 s)
         else if base = 0 then (if take 1 s = ''0'' then 8 else 10, s)
         else (base, s))
      in if has_digit base s then (let (n, s) = scan_digits base 0 s in (Some n, s)) else (None, s))"

definition scan_number :: "nat \<Rightarrow> string \<Rightarrow> int option \<times> string" where
  "scan_number base s =
     (let s = dropWhile isspace s;
          (sign, s) = (if take 1 s = ''-'' then (- 1, drop 1 s) else if take 1 s = ''+'' then (1, drop 1 s) else (1, s));
          (n, s) = scan_magnitude base s
      in (map_option (\<lambda>n. sign * int n) n, s))"

section \<open>Scanning\<close>

text \<open>
  The value a conversion stores; \<open>None\<close> if the number does not fit the type of the argument, where C leaves the
  behaviour undefined. A negative number read by \<open>%u\<close> or \<open>%x\<close> is stored modulo \<open>2\<^sup>3\<^sup>2\<close>.
\<close>

definition conv_base :: "char \<Rightarrow> nat" where
  "conv_base c = (if c = CHR ''i'' then 0 else if c = CHR ''x'' then 16 else 10)"

definition conv_value :: "char \<Rightarrow> int \<Rightarrow> int option" where
  "conv_value c v =
     (if c = CHR ''d'' \<or> c = CHR ''i'' then (if - (2 ^ 31) \<le> v \<and> v < 2 ^ 31 then Some v else None)
      else if \<bar>v\<bar> < 2 ^ 32 then Some (v mod 2 ^ 32) else None)"

text \<open>
  The values stored, in order, and the rest of the stream. The number of values is the return value of \<open>fscanf\<close>,
  except that it returns \<open>EOF\<close> instead of 0 when the stream ends early; no caller tells the two apart.
\<close>

fun scanf :: "directive list \<Rightarrow> string \<Rightarrow> (int list \<times> string) option" where
  "scanf [] s = Some ([], s)"
| "scanf (Space # ds) s = scanf ds (dropWhile isspace s)"
| "scanf (Lit c # ds) s = (if take 1 s = [c] then scanf ds (drop 1 s) else Some ([], s))"
| "scanf (Conv c # ds) s =
     (if c = CHR ''c'' then
        (case s of
           [] \<Rightarrow> Some ([], s)
         | x # xs \<Rightarrow> do { (vs, s) \<leftarrow> scanf ds xs; Some (of_char x # vs, s) })
      else
        (case scan_number (conv_base c) s of
           (None, s) \<Rightarrow> Some ([], s)
         | (Some v, s) \<Rightarrow> do { v \<leftarrow> conv_value c v; (vs, s) \<leftarrow> scanf ds s; Some (v # vs, s) }))"

definition fscanf :: "string \<Rightarrow> string \<Rightarrow> (int list \<times> string) option" where
  "fscanf fmt s = scanf (directives fmt) s"

section \<open>Scanning never moves back\<close>

lemma length_scan_digits: "length (snd (scan_digits base n s)) \<le> length s"
  by (induction base n s rule: scan_digits.induct) (auto intro: le_SucI)

lemma length_scan_number: "length (snd (scan_number base s)) \<le> length s"
proof -
  have m: "length (snd (scan_magnitude base s)) \<le> length s" for s
    using length_scan_digits[of _ 0 s] length_scan_digits[of _ 0 "drop 2 s"]
    by (auto simp: scan_magnitude_def Let_def split: prod.splits) (metis diff_le_self le_trans snd_conv)+
  have "length (dropWhile isspace s) \<le> length s" by (rule length_dropWhile_le)
  then show ?thesis
    using m[of "dropWhile isspace s"] m[of "drop 1 (dropWhile isspace s)"]
    by (auto simp: scan_number_def Let_def split: prod.splits)
qed

lemma length_scanf: "scanf ds s = Some (vs, rest) \<Longrightarrow> length rest \<le> length s"
proof (induction ds s arbitrary: vs rest rule: scanf.induct)
  case (2 ds s)
  then show ?case using length_dropWhile_le[of isspace s] by fastforce
next
  case (4 c ds s)
  show ?case
  proof (cases "c = CHR ''c''")
    case True
    with "4.prems" "4.IH"(1) show ?thesis
      by (fastforce simp: bind_eq_Some_conv split: list.splits intro: le_SucI)
  next
    case False
    obtain n s' where n: "scan_number (conv_base c) s = (n, s')" by fastforce
    then have "length s' \<le> length s" using length_scan_number[of "conv_base c" s] by simp
    with "4.prems" "4.IH"(2) n False show ?thesis
      by (fastforce simp: bind_eq_Some_conv split: option.splits)
  qed
qed (auto split: if_splits)

lemma length_fscanf: "fscanf fmt s = Some (vs, rest) \<Longrightarrow> length rest \<le> length s"
  by (simp add: fscanf_def length_scanf)

section \<open>Printed numbers\<close>

definition digit_char :: "nat \<Rightarrow> char" where
  "digit_char d = (if d < 10 then char_of (48 + d) else char_of (87 + d))"

fun to_string :: "nat \<Rightarrow> nat \<Rightarrow> string" where
  "to_string base n =
     (if base < 2 \<or> n < base then [digit_char n] else to_string base (n div base) @ [digit_char (n mod base)])"

declare to_string.simps [simp del]

lemma digit_value_char: "d < 16 \<Longrightarrow> digit_value (digit_char d) = Some d"
  by (auto simp: digit_value_def digit_char_def Let_def)

lemma is_digit_char: "d < base \<Longrightarrow> base \<le> 16 \<Longrightarrow> is_digit base (digit_char d)"
  by (simp add: is_digit_def digit_value_char)

lemma scan_digits_to_string:
  assumes "2 \<le> base" "base \<le> 16"
  shows "scan_digits base 0 (to_string base n @ rest) = scan_digits base n rest"
  using assms
proof (induction base n arbitrary: rest rule: to_string.induct)
  case (1 base n)
  show ?case
  proof (cases "n < base")
    case True
    then show ?thesis using "1.prems" by (simp add: to_string.simps[of base n] is_digit_char digit_value_char)
  next
    case False
    then have "scan_digits base 0 (to_string base n @ rest) =
        scan_digits base (n div base * base + the (digit_value (digit_char (n mod base)))) rest"
      using "1.prems" by (simp add: to_string.simps[of base n] "1.IH" is_digit_char)
    moreover have "n mod base < 16" using "1.prems" mod_less_divisor[of base n] by linarith
    ultimately show ?thesis by (simp add: digit_value_char)
  qed
qed

lemma set_to_string: "2 \<le> base \<Longrightarrow> set (to_string base n) \<subseteq> digit_char ` {..<base}"
  by (induction base n rule: to_string.induct) (subst to_string.simps, auto)

lemma scan_digits_stop: "\<not> has_digit base rest \<Longrightarrow> scan_digits base n rest = (n, rest)"
  by (cases rest) (auto simp: has_digit_def)

lemma to_string_head:
  assumes "2 \<le> base" "base \<le> 16"
  obtains d cs where "to_string base n = digit_char d # cs" "d < base"
  using assms
proof (induction base n arbitrary: thesis rule: to_string.induct)
  case (1 base n)
  show ?case
  proof (cases "n < base")
    case True
    then show ?thesis using "1.prems" by (simp add: to_string.simps[of base n])
  next
    case False
    then obtain d cs where "to_string base (n div base) = digit_char d # cs" "d < base"
      using "1.IH" "1.prems"(2,3) by auto
    with False "1.prems" show ?thesis by (simp add: to_string.simps[of base n])
  qed
qed

lemma digit_char_plain:
  assumes "d < 16"
  shows "\<not> isspace (digit_char d)" "digit_char d \<noteq> CHR ''-''" "digit_char d \<noteq> CHR ''+''"
    "digit_char d \<noteq> CHR ''x''" "digit_char d \<noteq> CHR ''X''"
proof -
  have "(of_char (digit_char d) :: nat) = (if d < 10 then 48 + d else 87 + d)"
    using assms by (simp add: digit_char_def)
  then show "\<not> isspace (digit_char d)" "digit_char d \<noteq> CHR ''-''" "digit_char d \<noteq> CHR ''+''"
    "digit_char d \<noteq> CHR ''x''" "digit_char d \<noteq> CHR ''X''"
    using assms by (auto simp: isspace_def split: if_splits)
qed

text \<open>A decimal number is read back by \<open>%u\<close>, a hexadecimal one by \<open>%x\<close>.\<close>

lemma scan_number_decimal:
  assumes "\<not> has_digit 10 rest"
  shows "scan_number 10 (to_string 10 n @ rest) = (Some (int n), rest)"
proof -
  obtain d cs where d: "to_string 10 n = digit_char d # cs" "d < 10" by (rule to_string_head[of 10 n]) simp_all
  then have "dropWhile isspace (to_string 10 n @ rest) = to_string 10 n @ rest" "has_digit 10 (to_string 10 n @ rest)"
    "take 1 (to_string 10 n @ rest) \<notin> {''-'', ''+''}"
    using digit_char_plain[of d] by (auto simp: has_digit_def is_digit_char)
  then show ?thesis using scan_digits_to_string[of 10 n rest] scan_digits_stop[OF assms]
    by (simp add: scan_number_def scan_magnitude_def)
qed

lemma scan_number_hex:
  assumes "\<not> has_digit 16 rest" "rest \<noteq> []" "hd rest \<noteq> CHR ''x''" "hd rest \<noteq> CHR ''X''"
  shows "scan_number 16 (to_string 16 n @ rest) = (Some (int n), rest)"
proof -
  obtain d cs where d: "to_string 16 n = digit_char d # cs" "d < 16" by (rule to_string_head[of 16 n]) simp_all
  then have "dropWhile isspace (to_string 16 n @ rest) = to_string 16 n @ rest" "has_digit 16 (to_string 16 n @ rest)"
    "take 1 (to_string 16 n @ rest) \<notin> {''-'', ''+''}"
    using digit_char_plain[of d] by (auto simp: has_digit_def is_digit_char)
  moreover have "\<not> hex_prefix (to_string 16 n @ rest)"
  proof (cases cs)
    case Nil
    then show ?thesis using assms(2,3,4) d(1) by (cases rest) (auto simp: hex_prefix_def)
  next
    case (Cons c cs')
    then obtain e where "c = digit_char e" "e < 16" using set_to_string[of 16 n] d(1) by auto
    then show ?thesis using digit_char_plain[of e] d(1) Cons by (auto simp: hex_prefix_def)
  qed
  ultimately show ?thesis using scan_digits_to_string[of 16 n rest] scan_digits_stop[OF assms(1)]
    by (simp add: scan_number_def scan_magnitude_def)
qed

end
