(* ===== verification/Prelude.thy ===== *)
theory Prelude
  imports Main "HOL-Library.Word"
begin

unbundle bit_operations_syntax

text \<open>
  Shared material of the development: names for the C integer types, big-endian byte
  access, little-endian multi-digit numbers over 32-bit digits, and the arithmetic facts
  about 64-bit multiply-accumulate that the component proofs rest on.
\<close>

section \<open>C integer types\<close>

type_synonym u8 = "8 word"
type_synonym u32 = "32 word"
type_synonym u64 = "64 word"

named_theorems word_nat \<comment> \<open>facts that turn word arithmetic without overflow into nat arithmetic\<close>

section \<open>Big-endian bytes\<close>

text \<open>The four-byte big-endian load that the C code spells with shifts and ors.\<close>

definition be32 :: "u8 \<Rightarrow> u8 \<Rightarrow> u8 \<Rightarrow> u8 \<Rightarrow> u32" where
  "be32 a b c d = push_bit 24 (ucast a) OR push_bit 16 (ucast b) OR push_bit 8 (ucast c) OR ucast d"

text \<open>The four-byte big-endian store.\<close>

definition be32_bytes :: "u32 \<Rightarrow> u8 list" where
  "be32_bytes w = [ucast (drop_bit 24 w), ucast (drop_bit 16 w), ucast (drop_bit 8 w), ucast (drop_bit 0 w)]"

lemma length_be32_bytes [simp]: "length (be32_bytes w) = 4"
  by (simp add: be32_bytes_def)

lemma length_concat_be32_bytes [simp]: "length (concat (map be32_bytes ws)) = 4 * length ws"
  by (induction ws) auto

section \<open>Numbers in base \<open>2 ^ 32\<close>\<close>

text \<open>The value of a little-endian array of 32-bit digits.\<close>

fun bn :: "u32 list \<Rightarrow> nat" where
  "bn [] = 0"
| "bn (x # xs) = unat x + 2 ^ 32 * bn xs"

lemma u32_less: "unat (x :: u32) < 2 ^ 32"
  using unsigned_less[of x, where ?'a = nat] by simp

lemma u64_less: "unat (x :: u64) < 2 ^ 64"
  using unsigned_less[of x, where ?'a = nat] by simp

lemma bn_less: "bn xs < 2 ^ (32 * length xs)"
proof (induction xs)
  case (Cons x xs)
  have "unat x + 2 ^ 32 * bn xs < 2 ^ 32 + 2 ^ 32 * bn xs"
    using u32_less[of x] by linarith
  also have "\<dots> \<le> 2 ^ 32 * 2 ^ (32 * length xs)"
    using Cons.IH by simp
  finally show ?case by (simp add: power_add algebra_simps)
qed simp

lemma bn_append: "bn (xs @ ys) = bn xs + 2 ^ (32 * length xs) * bn ys"
  by (induction xs) (simp_all add: power_add algebra_simps)

lemma bn_inj: "length xs = length ys \<Longrightarrow> bn xs = bn ys \<Longrightarrow> xs = ys"
proof (induction xs ys rule: list_induct2)
  case (Cons x xs y ys)
  from Cons.prems have eq: "unat x + 2 ^ 32 * bn xs = unat y + 2 ^ 32 * bn ys" by simp
  then have "(unat x + 2 ^ 32 * bn xs) mod 2 ^ 32 = (unat y + 2 ^ 32 * bn ys) mod 2 ^ 32" by simp
  then have "unat x = unat y" by (simp add: u32_less[simplified])
  with eq Cons.IH show ?case by (simp add: word_unat_eq_iff)
qed simp

lemma bn_replicate_zero [simp]: "bn (replicate n 0) = 0"
  by (induction n) simp_all

section \<open>Multiply-accumulate without overflow\<close>

lemma unat_ucast_u32_u64 [simp, word_nat]: "unat (ucast (x :: u32) :: u64) = unat x"
  by (rule unsigned_ucast_eq [THEN trans]) (use u32_less[of x] in \<open>simp add: take_bit_nat_eq_self_iff\<close>)

lemma mac_bound:
  fixes a b c d m :: nat
  assumes "a < m" "b < m" "c < m" "d < m"
  shows "a * b + c + d < m * m"
proof -
  have "a * b \<le> (m - 1) * (m - 1)" using assms by (intro mult_mono) auto
  moreover have "(m - 1) * (m - 1) + (m - 1) + (m - 1) + 1 = m * m"
    using assms by (cases m) (auto simp: algebra_simps)
  ultimately show ?thesis using assms by linarith
qed

text \<open>The 64-bit accumulator \<open>a * b + c + carry\<close> of the digit loops never wraps.\<close>

lemma unat_mac [word_nat]:
  fixes a b c :: u32 and d :: u64
  assumes "unat d < 2 ^ 32"
  shows "unat (d + ucast a * ucast b + ucast c) = unat d + unat a * unat b + unat c"
proof -
  have lt: "unat a * unat b + unat c + unat d < 2 ^ 32 * 2 ^ 32"
    using assms by (intro mac_bound) (use u32_less in blast)+
  then have 1: "unat (ucast a * ucast b :: u64) = unat a * unat b"
    by (subst unat_mult_lem [THEN iffD1]) auto
  have 2: "unat (d + ucast a * ucast b) = unat d + unat a * unat b"
    using lt 1 by (subst unat_add_lem [THEN iffD1]) auto
  show ?thesis
    using lt 2 by (subst unat_add_lem [THEN iffD1]) auto
qed

lemma unat_shift32 [word_nat]: "unat (drop_bit 32 (x :: u64)) = unat x div 2 ^ 32"
  by (simp add: unat_drop_bit_eq) (simp add: drop_bit_eq_div)

lemma unat_shift32_less: "unat (drop_bit 32 (x :: u64)) < 2 ^ 32"
  using u64_less[of x] by (simp only: unat_shift32) (simp add: less_mult_imp_div_less)

lemma unat_low32 [word_nat]: "unat (ucast (x :: u64) :: u32) = unat x mod 2 ^ 32"
  by (simp add: unsigned_ucast_eq take_bit_eq_mod)

lemma low32_plus_shift32: "unat (ucast x :: u32) + 2 ^ 32 * unat (drop_bit 32 (x :: u64)) = unat x"
  by (simp only: unat_low32 unat_shift32) presburger

section \<open>Optional results\<close>

lemma bind_SomeE:
  assumes "Option.bind m f = Some y"
  obtains x where "m = Some x" "f x = Some y"
  using assms by (auto simp: bind_eq_Some_conv)

section \<open>Arrays filled in index order\<close>

text \<open>
  A loop that computes entry \<open>t\<close> of an array from the entries before it builds the table of
  the recursive function it unrolls.
\<close>

lemma foldl_extend:
  assumes "\<And>t. a \<le> t \<Longrightarrow> g (map w [0..<t]) t = w t" and "a \<le> b"
  shows "foldl (\<lambda>W t. W @ [g W t]) (map w [0..<a]) [a..<b] = map w [0..<b]"
  using assms(2)
proof (induction b)
  case (Suc b)
  show ?case
  proof (cases "a \<le> b")
    case True
    then show ?thesis using Suc.IH assms(1) by simp
  next
    case False
    with Suc.prems have "a = Suc b" by simp
    then show ?thesis by simp
  qed
qed simp

end
