(* ===== verification/Digits.thy ===== *)
theory Digits
  imports Prelude
begin

text \<open>
  The digit loops that \<^verbatim>\<open>rsa.c\<close> and \<^verbatim>\<open>p256.c\<close> are built from: addition with a 64-bit
  carry, subtraction with a signed 64-bit borrow, multiply-accumulate by one digit, and the
  big-endian byte order in which numbers enter and leave. Each loop is stated on its
  little-endian digit arrays with the C widths and then shown exact on the numbers the
  arrays denote.
\<close>

section \<open>The loops\<close>

text \<open>\<open>borrow += c[i]; borrow -= a[i]; c[i] = (uint32_t) borrow; borrow >>= 32\<close> (arithmetic shift).\<close>

fun sub_digits :: "u64 \<Rightarrow> u32 list \<Rightarrow> u32 list \<Rightarrow> u32 list \<times> u64" where
  "sub_digits borrow (c # cs) (a # as) =
     (let borrow = borrow + ucast c - ucast a;
          (r, borrow') = sub_digits (signed_drop_bit 32 borrow) cs as
      in (ucast borrow # r, borrow'))"
| "sub_digits borrow _ _ = ([], borrow)"

text \<open>\<open>carry += c[i]; carry += a[i]; c[i] = (uint32_t) carry; carry >>= 32\<close>.\<close>

fun add_digits :: "u64 \<Rightarrow> u32 list \<Rightarrow> u32 list \<Rightarrow> u32 list \<times> u64" where
  "add_digits carry (c # cs) (a # as) =
     (let carry = carry + ucast c + ucast a;
          (r, carry') = add_digits (drop_bit 32 carry) cs as
      in (ucast carry # r, carry'))"
| "add_digits carry _ _ = ([], carry)"

text \<open>\<open>carry += c[i]; carry += (uint64_t) a[i] * b; c[i] = (uint32_t) carry; carry >>= 32\<close>.\<close>

fun mac_digits :: "u64 \<Rightarrow> u32 list \<Rightarrow> u32 \<Rightarrow> u32 list \<Rightarrow> u32 list \<times> u64" where
  "mac_digits carry (a # as) b (c # cs) =
     (let carry = carry + ucast c + ucast a * ucast b;
          (r, carry') = mac_digits (drop_bit 32 carry) as b cs
      in (ucast carry # r, carry'))"
| "mac_digits carry _ _ _ = ([], carry)"

section \<open>What the loops compute\<close>

lemma int_u32_less: "int (unat (x :: u32)) < 4294967296"
proof -
  have "unat x < 4294967296" using u32_less[of x] by simp
  then show ?thesis by linarith
qed

lemma int_unat_nonneg: "0 \<le> int (unat (x :: u32))"
  by (rule of_nat_0_le_iff)

lemma signed_64_small: "- 8589934592 \<le> k \<Longrightarrow> k < 8589934592 \<Longrightarrow> signed_take_bit 63 k = k" for k :: int
  by (intro signed_take_bit_int_eq_self) simp_all

lemma sint_ucast_u32: "sint (ucast (x :: u32) :: u64) = int (unat x)"
proof -
  have "uint (ucast x :: u64) = int (unat x)" by (metis uint_nat unat_ucast_u32_u64)
  then have "sint (ucast x :: u64) = signed_take_bit 63 (int (unat x))" by (simp add: sint_uint)
  also have "\<dots> = int (unat x)"
    using int_u32_less[of x] int_unat_nonneg[of x] by (intro signed_64_small) linarith+
  finally show ?thesis .
qed

lemma sint_sub_step:
  assumes "sint (b :: u64) \<in> {-1, 0}"
  shows "sint (b + ucast (c :: u32) - ucast (a :: u32)) = sint b + int (unat c) - int (unat a)"
proof -
  note bounds = int_u32_less[of c] int_unat_nonneg[of c] int_u32_less[of a] int_unat_nonneg[of a]
  have b: "-1 \<le> sint b" "sint b \<le> 0" using assms by auto
  have "sint (b + ucast c) = signed_take_bit 63 (sint b + int (unat c))"
    by (simp add: sint_word_add sint_ucast_u32)
  also have "\<dots> = sint b + int (unat c)"
    using b bounds by (intro signed_64_small) linarith+
  finally have 1: "sint (b + ucast c) = sint b + int (unat c)" .
  have "sint (b + ucast c - ucast a) = signed_take_bit 63 (sint b + int (unat c) - int (unat a))"
    by (simp add: sint_word_diff sint_ucast_u32 1)
  also have "\<dots> = sint b + int (unat c) - int (unat a)"
    using b bounds by (intro signed_64_small) linarith+
  finally show ?thesis .
qed

lemma sint_asr32: "sint (signed_drop_bit 32 (x :: u64)) = sint x div 2 ^ 32"
  by (simp add: sint_signed_drop_bit_eq) (simp add: drop_bit_eq_div)

lemma uint_low32_sint: "int (unat (ucast (x :: u64) :: u32)) = sint x mod 2 ^ 32"
proof -
  have "int (unat (ucast x :: u32)) = take_bit 32 (uint x)"
    by (simp add: unsigned_ucast_eq of_nat_take_bit)
  also have "\<dots> = take_bit 32 (sint x)"
    by (simp add: sint_uint take_bit_signed_take_bit)
  finally show ?thesis by (simp only: take_bit_eq_mod)
qed

lemma low32_plus_asr32:
  "int (unat (ucast x :: u32)) + 2 ^ 32 * sint (signed_drop_bit 32 (x :: u64)) = sint x"
  by (simp only: uint_low32_sint sint_asr32) presburger

text \<open>Subtraction: the borrow stays in \<open>{-1, 0}\<close> and the digits are exact.\<close>

lemma sub_digits_correct:
  assumes "length cs = length as" "sint b \<in> {-1, 0}" "sub_digits b cs as = (r, b')"
  shows "length r = length cs \<and> sint b' \<in> {-1, 0} \<and>
    int (bn r) + 2 ^ (32 * length cs) * sint b' = int (bn cs) - int (bn as) + sint b"
  using assms
proof (induction cs as arbitrary: b r rule: list_induct2)
  case Nil
  then show ?case by simp
next
  case (Cons c cs a as)
  define w where "w = b + ucast c - ucast a"
  have w: "sint w = sint b + int (unat c) - int (unat a)"
    using Cons.prems by (simp add: w_def sint_sub_step)
  have range: "sint (signed_drop_bit 32 w) \<in> {-1, 0}"
  proof -
    have "-1 \<le> sint b" "sint b \<le> 0" using Cons.prems(1) by auto
    then have lo: "- 4294967296 \<le> sint w" and hi: "sint w \<le> 4294967295"
      using w int_u32_less[of c] int_u32_less[of a] int_unat_nonneg[of c] int_unat_nonneg[of a] by linarith+
    have "-1 \<le> sint w div 2 ^ 32" using zdiv_mono1[OF lo, of "2 ^ 32"] by simp
    moreover have "sint w div 2 ^ 32 \<le> 0" using zdiv_mono1[OF hi, of "2 ^ 32"] by simp
    ultimately show ?thesis by (simp only: sint_asr32) auto
  qed
  obtain r1 where r1: "sub_digits (signed_drop_bit 32 w) cs as = (r1, b')" and r: "r = ucast w # r1"
    using Cons.prems(2) by (auto simp: w_def Let_def split: prod.splits)
  from Cons.IH[OF range r1] have IH: "length r1 = length cs" "sint b' \<in> {-1, 0}"
    "int (bn r1) + 2 ^ (32 * length cs) * sint b' = int (bn cs) - int (bn as) + sint (signed_drop_bit 32 w)"
    by auto
  have "int (bn r) + 2 ^ (32 * length (c # cs)) * sint b'
    = int (unat (ucast w :: u32)) + 2 ^ 32 * (int (bn r1) + 2 ^ (32 * length cs) * sint b')"
    by (simp add: r power_add algebra_simps)
  also have "\<dots> = (int (unat (ucast w :: u32)) + 2 ^ 32 * sint (signed_drop_bit 32 w)) + 2 ^ 32 * (int (bn cs) - int (bn as))"
    by (simp only: IH(3)) algebra
  also have "\<dots> = int (bn (c # cs)) - int (bn (a # as)) + sint b"
    by (simp only: low32_plus_asr32 w) (simp add: algebra_simps)
  finally show ?case using IH r by simp
qed

text \<open>Addition and multiply-accumulate: the 64-bit accumulator never wraps and the digits are exact.\<close>

lemma unat_add3:
  fixes a c :: u32 and d :: u64
  assumes "unat d \<le> 1"
  shows "unat (d + ucast c + ucast a) = unat d + unat c + unat a"
proof -
  have lt: "unat d + unat c + unat a < 2 ^ 64"
    using assms u32_less[of a] u32_less[of c] by simp
  have "unat (d + ucast c) = unat d + unat c"
    using lt by (subst unat_add_lem [THEN iffD1]) auto
  then show ?thesis using lt by (subst unat_add_lem [THEN iffD1]) auto
qed

lemma add_digits_correct:
  assumes "length cs = length as" "unat k \<le> 1" "add_digits k cs as = (r, k')"
  shows "length r = length cs \<and> unat k' \<le> 1 \<and>
    bn r + 2 ^ (32 * length cs) * unat k' = bn cs + bn as + unat k"
  using assms
proof (induction cs as arbitrary: k r rule: list_induct2)
  case Nil
  then show ?case by simp
next
  case (Cons c cs a as)
  define w where "w = k + ucast c + ucast a"
  have w: "unat w = unat k + unat c + unat a" using Cons.prems by (simp add: w_def unat_add3)
  have range: "unat (drop_bit 32 w) \<le> 1"
  proof -
    have "unat w < 2 * 2 ^ 32" using w Cons.prems(1) u32_less[of c] u32_less[of a] by simp
    then have "unat w div 2 ^ 32 < 2" by (rule less_mult_imp_div_less)
    then show ?thesis by (simp only: unat_shift32)
  qed
  obtain r1 where r1: "add_digits (drop_bit 32 w) cs as = (r1, k')" and r: "r = ucast w # r1"
    using Cons.prems(2) by (auto simp: w_def Let_def split: prod.splits)
  from Cons.IH[OF range r1] have IH: "length r1 = length cs" "unat k' \<le> 1"
    "bn r1 + 2 ^ (32 * length cs) * unat k' = bn cs + bn as + unat (drop_bit 32 w)"
    by auto
  have "bn r + 2 ^ (32 * length (c # cs)) * unat k'
    = unat (ucast w :: u32) + 2 ^ 32 * (bn r1 + 2 ^ (32 * length cs) * unat k')"
    by (simp add: r power_add algebra_simps)
  also have "\<dots> = (unat (ucast w :: u32) + 2 ^ 32 * unat (drop_bit 32 w)) + 2 ^ 32 * (bn cs + bn as)"
    by (simp only: IH(3)) algebra
  also have "\<dots> = bn (c # cs) + bn (a # as) + unat k"
    by (simp only: low32_plus_shift32 w) (simp add: algebra_simps)
  finally show ?case using IH r by simp
qed

lemma mac_digits_correct:
  assumes "length as = length cs" "unat k < 2 ^ 32" "mac_digits k as b cs = (r, k')"
  shows "length r = length cs \<and> unat k' < 2 ^ 32 \<and>
    bn r + 2 ^ (32 * length cs) * unat k' = bn cs + bn as * unat b + unat k"
  using assms
proof (induction as cs arbitrary: k r rule: list_induct2)
  case Nil
  then show ?case by simp
next
  case (Cons a as c cs)
  define w where "w = k + ucast c + ucast a * ucast b"
  have "w = k + ucast a * ucast b + ucast c" by (simp add: w_def)
  then have w: "unat w = unat k + unat a * unat b + unat c"
    using unat_mac[OF Cons.prems(1), of a b c] by simp
  obtain r1 where r1: "mac_digits (drop_bit 32 w) as b cs = (r1, k')" and r: "r = ucast w # r1"
    using Cons.prems(2) by (auto simp: w_def Let_def split: prod.splits)
  from Cons.IH[OF unat_shift32_less r1] have IH: "length r1 = length cs" "unat k' < 2 ^ 32"
    "bn r1 + 2 ^ (32 * length cs) * unat k' = bn cs + bn as * unat b + unat (drop_bit 32 w)"
    by auto
  have "bn r + 2 ^ (32 * length (c # cs)) * unat k'
    = unat (ucast w :: u32) + 2 ^ 32 * (bn r1 + 2 ^ (32 * length cs) * unat k')"
    by (simp add: r power_add algebra_simps)
  also have "\<dots> = (unat (ucast w :: u32) + 2 ^ 32 * unat (drop_bit 32 w)) + 2 ^ 32 * (bn cs + bn as * unat b)"
    by (simp only: IH(3)) algebra
  also have "\<dots> = bn (c # cs) + bn (a # as) * unat b + unat k"
    by (simp only: low32_plus_shift32 w) (simp add: algebra_simps)
  finally show ?case using IH r by simp
qed

section \<open>Big-endian byte arrays\<close>

text \<open>The number a big-endian byte array denotes.\<close>

definition be_val :: "u8 list \<Rightarrow> nat" where
  "be_val bs = foldl (\<lambda>acc b. acc * 256 + unat b) 0 bs"

lemma be_val_foldl: "foldl (\<lambda>acc b. acc * 256 + unat (b :: u8)) x bs = x * 256 ^ length bs + be_val bs"
proof (induction bs arbitrary: x)
  case (Cons b bs)
  show ?case using Cons.IH[of "x * 256 + unat b"] Cons.IH[of "unat b"]
    by (simp add: be_val_def algebra_simps)
qed (simp add: be_val_def)

lemma be_val_append: "be_val (xs @ ys) = be_val xs * 256 ^ length ys + be_val ys"
  using be_val_foldl[of "be_val xs" ys] by (simp add: be_val_def)

lemma be_val_Nil [simp]: "be_val [] = 0"
  by (simp add: be_val_def)

lemma u8_less: "unat (x :: u8) < 256"
  using unsigned_less[of x, where ?'a = nat] by simp

lemma be_val_Cons: "be_val (x # xs) = unat x * 256 ^ length xs + be_val xs"
  using be_val_append[of "[x]" xs] by (simp add: be_val_def)

lemma unat_of_nat_u8: "n < 256 \<Longrightarrow> unat (of_nat n :: u8) = n"
  by (simp add: unat_of_nat take_bit_nat_eq_self)

lemma be_val_less: "be_val xs < 256 ^ length xs"
proof (induction xs rule: rev_induct)
  case (snoc x xs)
  have "be_val (xs @ [x]) = be_val xs * 256 + unat x"
    by (simp add: be_val_def)
  also have "\<dots> < (be_val xs + 1) * 256" using u8_less[of x] by simp
  also have "\<dots> \<le> 256 ^ length xs * 256" using snoc by (intro mult_le_mono) auto
  finally show ?case by simp
qed simp

lemma be_val_inj: "length xs = length ys \<Longrightarrow> be_val xs = be_val ys \<Longrightarrow> xs = ys"
proof (induction xs arbitrary: ys rule: rev_induct)
  case (snoc x xs)
  then obtain z zs where ys: "ys = zs @ [z]" by (cases ys rule: rev_cases) auto
  have snoc_val: "be_val (us @ [u]) = be_val us * 256 + unat u" for us u by (simp add: be_val_def)
  have eq: "be_val xs * 256 + unat x = be_val zs * 256 + unat z"
    using snoc.prems ys by (simp add: snoc_val)
  then have "(be_val xs * 256 + unat x) mod 256 = (be_val zs * 256 + unat z) mod 256" by simp
  then have "unat x = unat z" using u8_less[of x] u8_less[of z] by simp
  with eq snoc ys show ?case by (auto simp: word_unat_eq_iff)
qed simp

lemma ucast_u8_u32: "unat (ucast (x :: u8) :: u32) = unat x"
  by (rule unsigned_ucast_eq [THEN trans])
    (use unsigned_less[of x, where ?'a = nat] in \<open>simp add: take_bit_nat_eq_self_iff\<close>)

lemma unat_push_u8:
  assumes "k \<le> 24"
  shows "unat (push_bit k (ucast (x :: u8) :: u32)) = unat x * 2 ^ k"
proof -
  have "unat x * 2 ^ k < 2 ^ 8 * 2 ^ k" using u8_less[of x] by simp
  also have "\<dots> \<le> 2 ^ 32"
    using power_increasing[of "8 + k" 32 "2 :: nat"] assms by (simp add: power_add)
  finally have "unat x * 2 ^ k < 2 ^ 32" .
  then show ?thesis
    by (simp add: unsigned_push_bit_eq ucast_u8_u32 push_bit_eq_mult[of k "unat x"] take_bit_nat_eq_self_iff)
qed

lemma unat_be32: "unat (be32 a b c d) = be_val [a, b, c, d]"
proof -
  have "be32 a b c d = push_bit 24 (ucast a) + push_bit 16 (ucast b) + push_bit 8 (ucast c) + ucast d"
  proof -
    have 1: "push_bit 24 (ucast a :: u32) OR push_bit 16 (ucast b) OR push_bit 8 (ucast c) OR ucast d
      = push_bit 24 (ucast a) + (push_bit 16 (ucast b) OR push_bit 8 (ucast c) OR ucast d)"
      by (rule disjunctive_add_eq_or[symmetric], rule bit_word_eqI)
        (auto simp: bit_simps dest!: bit_imp_le_length)
    have 2: "push_bit 16 (ucast b :: u32) OR push_bit 8 (ucast c) OR ucast d
      = push_bit 16 (ucast b) + (push_bit 8 (ucast c) OR ucast d)"
      by (rule disjunctive_add_eq_or[symmetric], rule bit_word_eqI)
        (auto simp: bit_simps dest!: bit_imp_le_length)
    have 3: "push_bit 8 (ucast c :: u32) OR ucast d = push_bit 8 (ucast c) + ucast d"
      by (rule disjunctive_add_eq_or[symmetric], rule bit_word_eqI)
        (auto simp: bit_simps dest!: bit_imp_le_length)
    show ?thesis unfolding be32_def by (subst 1, subst 2, subst 3) (simp only: add.assoc)
  qed
  moreover have "unat (push_bit 24 (ucast a) + push_bit 16 (ucast b) + push_bit 8 (ucast c) + ucast d :: u32)
    = unat a * 2 ^ 24 + unat b * 2 ^ 16 + unat c * 2 ^ 8 + unat d"
  proof -
    note lts = u8_less[of a] u8_less[of b] u8_less[of c] u8_less[of d]
    have "unat (push_bit 24 (ucast a) + push_bit 16 (ucast b) :: u32) = unat a * 2 ^ 24 + unat b * 2 ^ 16"
      using lts by (subst unat_add_lem [THEN iffD1]) (simp_all add: unat_push_u8)
    moreover from this have "unat (push_bit 24 (ucast a) + push_bit 16 (ucast b) + push_bit 8 (ucast c) :: u32)
       = unat a * 2 ^ 24 + unat b * 2 ^ 16 + unat c * 2 ^ 8"
      using lts by (subst unat_add_lem [THEN iffD1]) (simp_all add: unat_push_u8)
    ultimately show ?thesis
      using lts by (subst unat_add_lem [THEN iffD1]) (simp_all add: ucast_u8_u32)
  qed
  ultimately show ?thesis by (simp add: be_val_def)
qed

lemma be32_bytes_be32 [simp]: "be32_bytes (be32 a b c d) = [a, b, c, d]"
proof -
  have "ucast (drop_bit 24 (be32 a b c d)) = a" "ucast (drop_bit 16 (be32 a b c d)) = b"
    "ucast (drop_bit 8 (be32 a b c d)) = c" "ucast (be32 a b c d) = d"
    unfolding be32_def by (rule bit_word_eqI, auto simp: bit_simps dest: bit_imp_le_length)+
  then show ?thesis by (simp add: be32_bytes_def)
qed

lemma be32_be32_bytes:
  "be32 (ucast (drop_bit 24 w)) (ucast (drop_bit 16 w)) (ucast (drop_bit 8 w)) (ucast w) = w"
proof (rule bit_word_eqI)
  fix i assume "i < LENGTH(32)"
  then consider "i < 8" | "8 \<le> i" "i < 16" | "16 \<le> i" "i < 24" | "24 \<le> i" "i < 32" by fastforce
  then show "bit (be32 (ucast (drop_bit 24 w)) (ucast (drop_bit 16 w)) (ucast (drop_bit 8 w)) (ucast w)) i = bit w i"
    by cases (auto simp: be32_def bit_simps)
qed

lemma be_val_be32_bytes: "be_val (be32_bytes w) = unat w"
  using unat_be32[of "ucast (drop_bit 24 w)" "ucast (drop_bit 16 w)" "ucast (drop_bit 8 w)" "ucast w"]
  by (simp add: be32_be32_bytes be32_bytes_def)

text \<open>Writing a little-endian digit array from its most significant digit gives its big-endian bytes.\<close>

lemma be_val_store: "be_val (concat (map be32_bytes (rev ws))) = bn ws"
  by (induction ws) (simp_all add: be_val_append be_val_be32_bytes)

text \<open>Reading digit \<open>i\<close> from the four bytes at \<open>4 * (len - 1 - i)\<close>.\<close>

definition be_digits :: "nat \<Rightarrow> u8 list \<Rightarrow> u32 list" where
  "be_digits len p = map (\<lambda>i. be32 (p ! ((len - 1 - i) * 4 + 0)) (p ! ((len - 1 - i) * 4 + 1))
     (p ! ((len - 1 - i) * 4 + 2)) (p ! ((len - 1 - i) * 4 + 3))) [0..<len]"

lemma length_be_digits [simp]: "length (be_digits len p) = len"
  by (simp add: be_digits_def)

lemma be_digits_step:
  assumes "length p = 4 * len"
  shows "be_digits (Suc len) (p @ [a, b, c, d]) = be32 a b c d # be_digits len p"
proof (rule nth_equalityI)
  fix i assume i: "i < length (be_digits (Suc len) (p @ [a, b, c, d]))"
  show "be_digits (Suc len) (p @ [a, b, c, d]) ! i = (be32 a b c d # be_digits len p) ! i"
  proof (cases i)
    case 0
    have "(p @ [a, b, c, d]) ! (len * 4 + k) = [a, b, c, d] ! k" for k
      using assms nth_append_length_plus[of p "[a, b, c, d]" k] by (simp add: mult.commute)
    from this[of 0] this[of 1] this[of 2] this[of 3] 0 show ?thesis
      by (simp add: be_digits_def del: upt_Suc)
  next
    case (Suc j)
    then have j: "j < len" using i by simp
    then have k: "(len - Suc j) * 4 + 3 < length p" using assms by auto
    then show ?thesis using Suc j by (simp add: be_digits_def nth_append del: upt_Suc)
  qed
qed simp

lemma bn_be_digits: "length p = 4 * len \<Longrightarrow> bn (be_digits len p) = be_val p"
proof (induction len arbitrary: p)
  case 0
  then show ?case by (simp add: be_digits_def)
next
  case (Suc len)
  obtain q a b c d where p: "p = q @ [a, b, c, d]" and q: "length q = 4 * len"
  proof -
    define q r where "q = take (4 * len) p" and "r = drop (4 * len) p"
    have r: "length r = 4" and q: "length q = 4 * len" and p: "p = q @ r"
      using Suc.prems by (simp_all add: q_def r_def)
    from r obtain a b c d where "r = [a, b, c, d]" by (auto simp: numeral_eq_Suc length_Suc_conv)
    with p q show thesis using that[of q a b c d] by simp
  qed
  show ?case using Suc.IH[OF q] q
    by (simp add: p be_digits_step unat_be32 be_val_append)
qed

end
