(* ===== verification/Mincrypt_Hash.thy ===== *)
theory Mincrypt_Hash
  imports Prelude
begin

text \<open>
  The streaming hash framework of libmincrypt (\<^verbatim>\<open>includes/mincrypt/hash-internal.h\<close>,
  and the update, final and hash functions that \<^verbatim>\<open>sha.c\<close> and \<^verbatim>\<open>sha256.c\<close> share
  line by line). The context record, the byte loop of the update function and the padding
  loop of the final function are modelled over an arbitrary block transform. The locale
  \<open>md_stream\<close> states what a transform promises and proves, once for both hashes, that the
  streaming code computes the padded one-shot hash.
\<close>

section \<open>The context and the shared loops\<close>

text \<open>\<open>ctx->f\<close> points at one of the two function tables; the pointer is modelled by its target.\<close>

datatype HASH_VTAB = SHA_VTAB | SHA256_VTAB

record HASH_CTX =
  ctx_f :: HASH_VTAB
  ctx_count :: u64
  ctx_buf :: "u8 list"
  ctx_state :: "u32 list"

type_synonym transform = "HASH_CTX \<Rightarrow> HASH_CTX"

text \<open>\<open>while (len--) { ctx->buf[i++] = *p++; if (i == 64) { Transform(ctx); i = 0; } }\<close>\<close>

fun update_loop :: "transform \<Rightarrow> nat \<Rightarrow> u8 list \<Rightarrow> HASH_CTX \<Rightarrow> HASH_CTX" where
  "update_loop T i [] ctx = ctx"
| "update_loop T i (p # ps) ctx =
     (let ctx = ctx\<lparr>ctx_buf := (ctx_buf ctx)[i := p]\<rparr>; i = i + 1
      in if i = 64 then update_loop T 0 ps (T ctx) else update_loop T i ps ctx)"

definition hash_update :: "transform \<Rightarrow> HASH_CTX \<Rightarrow> u8 list \<Rightarrow> HASH_CTX" where
  "hash_update T ctx data =
     (let i = unat (ctx_count ctx AND 63);
          ctx = ctx\<lparr>ctx_count := ctx_count ctx + of_nat (length data)\<rparr>
      in update_loop T i data ctx)"

text \<open>
  \<open>while ((ctx->count & 63) != 56) update(ctx, "\0", 1)\<close>. Each round adds one to the
  64-bit counter, so the loop makes at most 63 rounds; \<open>pad_loop\<close> takes that bound as its
  first argument and \<open>pad_loop_stops\<close> shows that it is never what ends the loop.
\<close>

fun pad_loop :: "nat \<Rightarrow> transform \<Rightarrow> HASH_CTX \<Rightarrow> HASH_CTX" where
  "pad_loop 0 T ctx = ctx"
| "pad_loop (Suc fuel) T ctx =
     (if ctx_count ctx AND 63 \<noteq> 56 then pad_loop fuel T (hash_update T ctx [0]) else ctx)"

text \<open>The eight length bytes: \<open>tmp = (uint8_t) (cnt >> ((7 - i) * 8)); update(ctx, &tmp, 1)\<close>.\<close>

definition length_loop :: "transform \<Rightarrow> u64 \<Rightarrow> HASH_CTX \<Rightarrow> HASH_CTX" where
  "length_loop T cnt ctx =
     foldl (\<lambda>ctx i. hash_update T ctx [ucast (drop_bit ((7 - i) * 8) cnt)]) ctx [0..<8]"

text \<open>The final function up to the digest: padding, then length.\<close>

definition hash_pad :: "transform \<Rightarrow> HASH_CTX \<Rightarrow> HASH_CTX" where
  "hash_pad T ctx =
     (let cnt = ctx_count ctx * 8;
          ctx = hash_update T ctx [0x80];
          ctx = pad_loop 63 T ctx
      in length_loop T cnt ctx)"

text \<open>The digest overwrites the front of the buffer, \<open>n\<close> words in big-endian order.\<close>

definition store_digest :: "nat \<Rightarrow> HASH_CTX \<Rightarrow> HASH_CTX" where
  "store_digest n ctx =
     ctx\<lparr>ctx_buf := concat (map be32_bytes (take n (ctx_state ctx))) @ drop (4 * n) (ctx_buf ctx)\<rparr>"

section \<open>One-shot specification\<close>

text \<open>A message is absorbed block by block; an incomplete last block is left alone.\<close>

function absorb :: "(u32 list \<Rightarrow> u8 list \<Rightarrow> u32 list) \<Rightarrow> u32 list \<Rightarrow> u8 list \<Rightarrow> u32 list" where
  "absorb C h m = (if length m < 64 then h else absorb C (C h (take 64 m)) (drop 64 m))"
  by pat_completeness auto
termination by (relation "measure (\<lambda>(C, h, m). length m)") auto

declare absorb.simps [simp del]

definition be64_bytes :: "u64 \<Rightarrow> u8 list" where
  "be64_bytes w = map (\<lambda>i. ucast (drop_bit ((7 - i) * 8) w)) [0..<8]"

text \<open>The padded message: a one bit, zeros up to 56 modulo 64, the bit length in 64 bits.\<close>

definition md_pad :: "u8 list \<Rightarrow> u8 list" where
  "md_pad m = m @ [0x80] @ replicate ((119 - length m mod 64) mod 64) 0 @
     be64_bytes (of_nat (length m) * 8)"

definition md_digest :: "(u32 list \<Rightarrow> u8 list \<Rightarrow> u32 list) \<Rightarrow> u32 list \<Rightarrow> u8 list \<Rightarrow> u8 list" where
  "md_digest C h m = concat (map be32_bytes (absorb C h (md_pad m)))"

lemma pad_length: "(n + 1 + (119 - n mod 64) mod 64) mod 64 = (56 :: nat)"
proof -
  define r q where "r = n mod 64" and "q = n div 64"
  then have n: "n = 64 * q + r" and r: "r < 64" by simp_all
  show ?thesis
  proof (cases "r \<le> 55")
    case True
    then have "(119 - r) mod 64 = 55 - r" by (simp add: le_mod_geq)
    with True n have "n + 1 + (119 - n mod 64) mod 64 = 64 * q + 56" by (simp add: r_def[symmetric])
    then show ?thesis by simp
  next
    case False
    with r have "(119 - r) mod 64 = 119 - r" by simp
    with False r n have "n + 1 + (119 - n mod 64) mod 64 = 64 * (q + 1) + 56"
      by (simp add: r_def[symmetric])
    moreover have "(64 * (q + 1) + 56) mod 64 = (56 :: nat)" by presburger
    ultimately show ?thesis by simp
  qed
qed

lemma zeros_needed: "r < 64 \<Longrightarrow> (120 - r) mod 64 = (if r \<le> 56 then 56 - r else 120 - r)" for r :: nat
  by (simp add: le_mod_geq)

lemma zeros_needed_Suc:
  "x mod 64 \<noteq> 56 \<Longrightarrow> (120 - x mod 64) mod 64 = Suc ((120 - Suc x mod 64) mod 64)" for x :: nat
proof (cases "x mod 64 = 63")
  case True
  then show ?thesis by (simp add: mod_Suc)
next
  case False
  define r where "r = x mod 64"
  assume "x mod 64 \<noteq> 56"
  with False have r: "r < 64" "r \<noteq> 63" "r \<noteq> 56" by (simp_all add: r_def)
  have "Suc x mod 64 = Suc r" using False by (simp add: mod_Suc r_def)
  moreover have "(120 - r) mod 64 = Suc ((120 - Suc r) mod 64)"
    using r zeros_needed[of r] zeros_needed[of "Suc r"] by (simp split: if_splits)
  ultimately show ?thesis by (simp only: r_def)
qed

lemma zeros_needed_0: "(120 - x mod 64) mod 64 = 0 \<Longrightarrow> x mod 64 = 56" for x :: nat
  using mod_less_divisor[of 64 x] by (simp add: zeros_needed split: if_splits)

lemma zeros_needed_pad: "(120 - Suc x mod 64) mod 64 = (119 - x mod 64) mod 64" for x :: nat
proof (cases "x mod 64 = 63")
  case True
  then show ?thesis by (simp add: mod_Suc)
next
  case False
  then have "Suc x mod 64 = Suc (x mod 64)" by (simp add: mod_Suc)
  then show ?thesis by (simp only: diff_Suc_eq_diff_pred) simp
qed

lemma length_be64_bytes [simp]: "length (be64_bytes w) = 8"
  by (simp add: be64_bytes_def)

lemma length_md_pad: "length (md_pad m) mod 64 = 0"
proof -
  have "length (md_pad m) = (length m + 1 + (119 - length m mod 64) mod 64) + 8"
    by (simp add: md_pad_def)
  moreover have "(x + 8) mod 64 = 0" if "x mod 64 = 56" for x :: nat using that by presburger
  ultimately show ?thesis by (simp only: pad_length)
qed

lemma count_mod_64: "unat ((of_nat n :: u64) AND 63) = n mod 64"
proof -
  have "(of_nat n :: u64) AND 63 = take_bit 6 (of_nat n)"
    by (simp add: take_bit_eq_mask mask_eq_decr_exp)
  then have "unat ((of_nat n :: u64) AND 63) = take_bit 6 (take_bit 64 n)"
    by (simp add: unsigned_take_bit_eq unsigned_of_nat)
  then show ?thesis by (simp only: take_bit_take_bit) (simp add: take_bit_eq_mod)
qed

lemma count_is_56: "((of_nat n :: u64) AND 63 = 56) = (n mod 64 = 56)"
proof -
  have "((of_nat n :: u64) AND 63 = 56) = (unat ((of_nat n :: u64) AND 63) = unat (56 :: u64))"
    by (rule word_unat_eq_iff)
  then show ?thesis by (simp only: count_mod_64) simp
qed

text \<open>Absorbing one more byte: a complete block is compressed, otherwise nothing changes.\<close>

lemma length_absorb:
  "(\<And>h m. length (C h m) = n) \<Longrightarrow> length h = n \<Longrightarrow> length (absorb C h m) = n"
proof (induction C h m rule: absorb.induct)
  case (1 C h m)
  then show ?case by (subst absorb.simps) simp
qed

lemma absorb_append_block:
  assumes "length b = 64" "length m mod 64 = 0"
  shows "absorb C h (m @ b) = C (absorb C h m) b"
  using assms
proof (induction C h m rule: absorb.induct)
  case (1 C h m)
  show ?case
  proof (cases "length m < 64")
    case True
    with "1.prems" have "m = []" by simp
    with "1.prems" show ?thesis by (simp add: absorb.simps[of C _ b] absorb.simps[of _ _ "[]"])
  next
    case False
    then have "length (drop 64 m) mod 64 = 0" using "1.prems" by (simp add: le_mod_geq)
    with "1.IH" False "1.prems" have
      "absorb C (C h (take 64 m)) (drop 64 m @ b) = C (absorb C (C h (take 64 m)) (drop 64 m)) b"
      by simp
    with False show ?thesis by (simp add: absorb.simps[of C h "m @ b"] absorb.simps[of C h m])
  qed
qed

lemma absorb_append_short:
  assumes "length r < 64" "length m mod 64 = 0"
  shows "absorb C h (m @ r) = absorb C h m"
  using assms
proof (induction C h m rule: absorb.induct)
  case (1 C h m)
  show ?case
  proof (cases "length m < 64")
    case True
    with "1.prems" have "m = []" by simp
    with "1.prems" show ?thesis by (simp add: absorb.simps[of C _ r] absorb.simps[of _ _ "[]"])
  next
    case False
    then have "length (drop 64 m) mod 64 = 0" using "1.prems" by (simp add: le_mod_geq)
    with "1.IH" False "1.prems" have
      "absorb C (C h (take 64 m)) (drop 64 m @ r) = absorb C (C h (take 64 m)) (drop 64 m)"
      by simp
    with False show ?thesis by (simp add: absorb.simps[of C h "m @ r"] absorb.simps[of C h m])
  qed
qed

section \<open>What a block transform promises, and what follows for the streaming code\<close>

text \<open>
  The interface between the streaming code and a block transform: on a context with a
  64-byte buffer and eight state words the transform compresses the buffer into the first
  \<open>n\<close> state words and leaves the rest of the context alone.
\<close>

definition ctx_ok :: "HASH_CTX \<Rightarrow> bool" where
  "ctx_ok ctx \<longleftrightarrow> length (ctx_buf ctx) = 64 \<and> length (ctx_state ctx) = 8"

text \<open>
  The context represents the message \<open>m\<close> hashed so far: the counter, the bytes of the
  incomplete block, and the state after the complete blocks.
\<close>

definition represents ::
  "(u32 list \<Rightarrow> u8 list \<Rightarrow> u32 list) \<Rightarrow> nat \<Rightarrow> u32 list \<Rightarrow> HASH_CTX \<Rightarrow> u8 list \<Rightarrow> bool" where
  "represents C n h ctx m \<longleftrightarrow> ctx_ok ctx \<and> ctx_count ctx = of_nat (length m) \<and>
     take (length m mod 64) (ctx_buf ctx) = drop (64 * (length m div 64)) m \<and>
     take n (ctx_state ctx) = absorb C h (take (64 * (length m div 64)) m)"

locale md_stream =
  fixes T :: transform
    and C :: "u32 list \<Rightarrow> u8 list \<Rightarrow> u32 list"
    and n :: nat
  assumes T_ok: "ctx_ok ctx \<Longrightarrow> ctx_ok (T ctx)"
    and T_count: "ctx_count (T ctx) = ctx_count ctx"
    and T_buf: "ctx_buf (T ctx) = ctx_buf ctx"
    and T_state: "ctx_ok ctx \<Longrightarrow> take n (ctx_state (T ctx)) = C (take n (ctx_state ctx)) (ctx_buf ctx)"
begin

text \<open>The loop invariant: all of \<open>represents\<close> but the counter, which is advanced up front.\<close>

definition loop_inv :: "u32 list \<Rightarrow> HASH_CTX \<Rightarrow> u8 list \<Rightarrow> bool" where
  "loop_inv h ctx m \<longleftrightarrow> ctx_ok ctx \<and>
     take (length m mod 64) (ctx_buf ctx) = drop (64 * (length m div 64)) m \<and>
     take n (ctx_state ctx) = absorb C h (take (64 * (length m div 64)) m)"

lemma loop_inv_byte:
  assumes inv: "loop_inv h ctx m"
  shows "loop_inv h
    (let ctx' = ctx\<lparr>ctx_buf := (ctx_buf ctx)[length m mod 64 := b]\<rparr>
     in if length m mod 64 + 1 = 64 then T ctx' else ctx') (m @ [b])"
proof -
  let ?i = "length m mod 64" and ?k = "64 * (length m div 64)"
  let ?c = "ctx\<lparr>ctx_buf := (ctx_buf ctx)[?i := b]\<rparr>"
  have ok: "ctx_ok ctx" "ctx_ok ?c" and buf: "take ?i (ctx_buf ctx) = drop ?k m"
    and st: "take n (ctx_state ctx) = absorb C h (take ?k m)"
    using inv by (auto simp: loop_inv_def ctx_ok_def)
  have i: "?i < length (ctx_buf ctx)" using ok by (simp add: ctx_ok_def)
  have k: "?k \<le> length m" by simp
  have tk: "take (?i + 1) (ctx_buf ?c) = drop ?k (m @ [b])"
    using i buf k by (simp add: take_Suc_conv_app_nth)
  show ?thesis
  proof (cases "?i + 1 = 64")
    case False
    then have i': "length (m @ [b]) mod 64 = ?i + 1" and k': "length (m @ [b]) div 64 = length m div 64"
      by (simp_all add: mod_Suc div_Suc)
    show ?thesis unfolding loop_inv_def i' k' using False ok tk st k by simp
  next
    case True
    then have i': "length (m @ [b]) mod 64 = 0" and k': "length (m @ [b]) div 64 = length m div 64 + 1"
      by (simp_all add: mod_Suc div_Suc)
    have "length m = ?k + ?i" by simp
    with True have len: "length (m @ [b]) = ?k + 64" by (metis add.assoc length_append_singleton Suc_eq_plus1)
    have blk: "ctx_buf ?c = drop ?k (m @ [b])" using tk True ok(2) by (simp add: ctx_ok_def)
    have "take n (ctx_state (T ?c)) = C (absorb C h (take ?k m)) (drop ?k (m @ [b]))"
      using T_state[OF ok(2)] st blk by simp
    also have "\<dots> = absorb C h (take ?k m @ drop ?k (m @ [b]))"
      using len by (intro absorb_append_block[symmetric]) auto
    also have "take ?k m @ drop ?k (m @ [b]) = m @ [b]"
      using k by (metis append_assoc append_take_drop_id drop_append diff_is_0_eq' drop_0)
    finally have "take n (ctx_state (T ?c)) = absorb C h (m @ [b])" .
    then show ?thesis unfolding loop_inv_def i' k' using True ok T_ok[OF ok(2)] len by simp
  qed
qed

lemma update_loop_inv:
  "loop_inv h ctx m \<Longrightarrow> loop_inv h (update_loop T (length m mod 64) data ctx) (m @ data)
     \<and> ctx_count (update_loop T (length m mod 64) data ctx) = ctx_count ctx"
proof (induction data arbitrary: ctx m)
  case Nil
  then show ?case by simp
next
  case (Cons b data)
  have i: "length (m @ [b]) mod 64 = (if length m mod 64 + 1 = 64 then 0 else length m mod 64 + 1)"
    by (simp add: mod_Suc)
  show ?case
    using Cons.IH[OF loop_inv_byte[OF Cons.prems, of b]] i
    by (auto simp: Let_def T_count)
qed

theorem update_represents:
  assumes "represents C n h ctx m"
  shows "represents C n h (hash_update T ctx data) (m @ data)"
proof -
  let ?c = "ctx\<lparr>ctx_count := ctx_count ctx + of_nat (length data)\<rparr>"
  have cnt: "ctx_count ctx = of_nat (length m)" and inv: "loop_inv h ?c m"
    using assms by (auto simp: represents_def loop_inv_def ctx_ok_def)
  have "hash_update T ctx data = update_loop T (length m mod 64) data ?c"
    by (simp add: hash_update_def Let_def cnt count_mod_64)
  with update_loop_inv[OF inv, of data] cnt show ?thesis
    by (auto simp: represents_def loop_inv_def)
qed

text \<open>The padding loop always ends because the counter reaches 56 modulo 64, never for lack of rounds.\<close>

lemma pad_loop_stops:
  assumes "represents C n h ctx m" and "(120 - length m mod 64) mod 64 \<le> fuel"
  shows "represents C n h (pad_loop fuel T ctx) (m @ replicate ((120 - length m mod 64) mod 64) 0)
     \<and> ctx_count (pad_loop fuel T ctx) AND 63 = 56"
  using assms
proof (induction fuel arbitrary: ctx m)
  case 0
  then have "length m mod 64 = 56" by (intro zeros_needed_0) simp
  with 0 show ?case by (auto simp: represents_def count_is_56)
next
  case (Suc fuel)
  have cnt: "ctx_count ctx = of_nat (length m)" using Suc.prems by (simp add: represents_def)
  show ?case
  proof (cases "length m mod 64 = 56")
    case True
    then show ?thesis using Suc.prems cnt by (simp add: count_is_56)
  next
    case False
    define k where "k = (120 - length (m @ [0 :: u8]) mod 64) mod 64"
    have k: "(120 - length m mod 64) mod 64 = Suc k"
      using zeros_needed_Suc[OF False] by (simp only: k_def length_append list.size add_0 One_nat_def add_Suc_right add_0_right)
    have rep: "represents C n h (hash_update T ctx [0]) (m @ [0])"
      by (rule update_represents) (rule Suc.prems)
    have "represents C n h (pad_loop fuel T (hash_update T ctx [0])) ((m @ [0]) @ replicate k 0)
        \<and> ctx_count (pad_loop fuel T (hash_update T ctx [0])) AND 63 = 56"
      using Suc.IH[OF rep] Suc.prems(2) k by (simp add: k_def)
    then show ?thesis using False cnt k by (simp add: count_is_56)
  qed
qed

lemma length_loop_represents:
  assumes "represents C n h ctx m"
  shows "represents C n h (length_loop T cnt ctx) (m @ be64_bytes cnt)"
proof -
  have "represents C n h (foldl (\<lambda>ctx i. hash_update T ctx [g i]) ctx is) (m @ map g is)"
    for g :: "nat \<Rightarrow> u8" and "is"
    using assms
  proof (induction "is" arbitrary: ctx m)
    case (Cons i "is")
    show ?case using Cons.IH[OF update_represents[OF Cons.prems, of "[g i]"]] by simp
  qed simp
  then show ?thesis unfolding length_loop_def be64_bytes_def .
qed

theorem pad_represents:
  assumes "represents C n h ctx m"
  shows "represents C n h (hash_pad T ctx) (md_pad m)"
proof -
  have cnt: "ctx_count ctx = of_nat (length m)" using assms by (simp add: represents_def)
  have "(120 - length (m @ [0x80 :: u8]) mod 64) mod 64 = (119 - length m mod 64) mod 64"
    using zeros_needed_pad[of "length m"] by simp
  then show ?thesis
    using length_loop_represents[OF conjunct1[OF pad_loop_stops[OF update_represents[OF assms, of "[0x80]"], of 63]]]
    by (simp add: hash_pad_def Let_def cnt md_pad_def)
qed

text \<open>Streaming equals one-shot: after any sequence of updates the digest is that of the whole message.\<close>

theorem final_digest:
  assumes "represents C n h ctx m" and "n \<le> 8" and "length (absorb C h (md_pad m)) = n"
  shows "take (4 * n) (ctx_buf (store_digest n (hash_pad T ctx))) = md_digest C h m"
proof -
  have rep: "represents C n h (hash_pad T ctx) (md_pad m)"
    by (rule pad_represents) (rule assms(1))
  have "64 * (length (md_pad m) div 64) = length (md_pad m)"
    using length_md_pad[of m] by (metis dvd_div_mult_self mod_0_imp_dvd mult.commute)
  with rep have st: "take n (ctx_state (hash_pad T ctx)) = absorb C h (md_pad m)"
    by (simp add: represents_def)
  then show ?thesis using assms(3) by (simp add: store_digest_def md_digest_def)
qed

end

text \<open>A fresh context represents the empty message.\<close>

lemma represents_Nil:
  "ctx_ok ctx \<Longrightarrow> ctx_count ctx = 0 \<Longrightarrow> take n (ctx_state ctx) = h \<Longrightarrow> represents C n h ctx []"
  by (simp add: represents_def absorb.simps[of _ _ "[]"])

end
