(* ===== verification/Sha1.thy ===== *)
theory Sha1
  imports Mincrypt_Hash
begin

text \<open>
  SHA-1 of libmincrypt (\<^verbatim>\<open>sha.c\<close>): the block transform with its message schedule and
  eighty rounds, and the init, update, final and hash entry points. The transform is shown
  to be the compression function of FIPS 180-4 (section 6.1.2), whose functions and
  constants are written out below, and the entry points to compute the FIPS hash of the
  whole message whatever the chunking and whatever the uninitialised context held.
\<close>

section \<open>The code\<close>

definition SHA_DIGEST_SIZE :: nat where
  "SHA_DIGEST_SIZE = 20"

definition rol :: "nat \<Rightarrow> u32 \<Rightarrow> u32" where
  "rol bits val = push_bit bits val OR drop_bit (32 - bits) val"

text \<open>\<open>W[0..15]\<close>, then \<open>W[16..79]\<close> appended in order.\<close>

definition SHA1_load :: "u8 list \<Rightarrow> u32 list" where
  "SHA1_load p = map (\<lambda>t. be32 (p ! (4 * t)) (p ! (4 * t + 1)) (p ! (4 * t + 2)) (p ! (4 * t + 3))) [0..<16]"

definition SHA1_schedule :: "u32 list \<Rightarrow> u32 list" where
  "SHA1_schedule W =
     foldl (\<lambda>W t. W @ [rol 1 (W ! (t - 3) XOR W ! (t - 8) XOR W ! (t - 14) XOR W ! (t - 16))]) W [16..<80]"

type_synonym sha1_vars = "u32 \<times> u32 \<times> u32 \<times> u32 \<times> u32"

definition SHA1_round :: "u32 list \<Rightarrow> sha1_vars \<Rightarrow> nat \<Rightarrow> sha1_vars" where
  "SHA1_round W = (\<lambda>(A, B, C, D, E) t.
     let tmp = rol 5 A + E + W ! t;
         tmp = tmp +
           (if t < 20 then (D XOR (B AND (C XOR D))) + 0x5A827999
            else if t < 40 then (B XOR C XOR D) + 0x6ED9EBA1
            else if t < 60 then ((B AND C) OR (D AND (B OR C))) + 0x8F1BBCDC
            else (B XOR C XOR D) + 0xCA62C1D6)
     in (tmp, A, rol 30 B, C, D))"

definition SHA1_Transform :: "HASH_CTX \<Rightarrow> HASH_CTX" where
  "SHA1_Transform ctx =
     (let p = ctx_buf ctx;
          W = SHA1_schedule (SHA1_load p);
          st = ctx_state ctx;
          (A, B, C, D, E) =
            foldl (SHA1_round W) (st ! 0, st ! 1, st ! 2, st ! 3, st ! 4) [0..<80]
      in ctx\<lparr>ctx_state := st[0 := st ! 0 + A, 1 := st ! 1 + B, 2 := st ! 2 + C,
                              3 := st ! 3 + D, 4 := st ! 4 + E]\<rparr>)"

definition SHA_init :: "HASH_CTX \<Rightarrow> HASH_CTX" where
  "SHA_init ctx = ctx\<lparr>ctx_f := SHA_VTAB,
     ctx_state := (ctx_state ctx)[0 := 0x67452301, 1 := 0xEFCDAB89, 2 := 0x98BADCFE,
                                  3 := 0x10325476, 4 := 0xC3D2E1F0],
     ctx_count := 0\<rparr>"

definition SHA_update :: "HASH_CTX \<Rightarrow> u8 list \<Rightarrow> HASH_CTX" where
  "SHA_update ctx data = hash_update SHA1_Transform ctx data"

text \<open>\<open>SHA_final\<close> returns \<open>ctx->buf\<close>, whose first twenty bytes are the digest.\<close>

definition SHA_final :: "HASH_CTX \<Rightarrow> HASH_CTX" where
  "SHA_final ctx = store_digest 5 (hash_pad SHA1_Transform ctx)"

text \<open>The local context of \<open>SHA_hash\<close> is uninitialised: it is an argument of the model.\<close>

definition SHA_hash :: "HASH_CTX \<Rightarrow> u8 list \<Rightarrow> u8 list" where
  "SHA_hash ctx data = take SHA_DIGEST_SIZE (ctx_buf (SHA_final (SHA_update (SHA_init ctx) data)))"

section \<open>FIPS 180-4\<close>

definition fips_Ch :: "u32 \<Rightarrow> u32 \<Rightarrow> u32 \<Rightarrow> u32" where
  "fips_Ch x y z = (x AND y) XOR (NOT x AND z)"

definition fips_Parity :: "u32 \<Rightarrow> u32 \<Rightarrow> u32 \<Rightarrow> u32" where
  "fips_Parity x y z = x XOR y XOR z"

definition fips_Maj :: "u32 \<Rightarrow> u32 \<Rightarrow> u32 \<Rightarrow> u32" where
  "fips_Maj x y z = (x AND y) XOR (x AND z) XOR (y AND z)"

definition fips1_f :: "nat \<Rightarrow> u32 \<Rightarrow> u32 \<Rightarrow> u32 \<Rightarrow> u32" where
  "fips1_f t = (if t < 20 then fips_Ch else if t < 40 then fips_Parity
                else if t < 60 then fips_Maj else fips_Parity)"

definition fips1_K :: "nat \<Rightarrow> u32" where
  "fips1_K t = (if t < 20 then 0x5A827999 else if t < 40 then 0x6ED9EBA1
                else if t < 60 then 0x8F1BBCDC else 0xCA62C1D6)"

text \<open>Word \<open>t\<close> of the message schedule of a 64-byte block.\<close>

function fips1_W :: "u8 list \<Rightarrow> nat \<Rightarrow> u32" where
  "fips1_W M t =
     (if t < 16 then be32 (M ! (4 * t)) (M ! (4 * t + 1)) (M ! (4 * t + 2)) (M ! (4 * t + 3))
      else word_rotl 1 (fips1_W M (t - 3) XOR fips1_W M (t - 8) XOR fips1_W M (t - 14) XOR fips1_W M (t - 16)))"
  by pat_completeness auto
termination by (relation "measure snd") auto

declare fips1_W.simps [simp del]

definition fips1_step :: "u8 list \<Rightarrow> sha1_vars \<Rightarrow> nat \<Rightarrow> sha1_vars" where
  "fips1_step M = (\<lambda>(a, b, c, d, e) t.
     (word_rotl 5 a + fips1_f t b c d + e + fips1_K t + fips1_W M t, a, word_rotl 30 b, c, d))"

definition fips1_compress :: "u32 list \<Rightarrow> u8 list \<Rightarrow> u32 list" where
  "fips1_compress H M =
     (let (a, b, c, d, e) = foldl (fips1_step M) (H ! 0, H ! 1, H ! 2, H ! 3, H ! 4) [0..<80]
      in [H ! 0 + a, H ! 1 + b, H ! 2 + c, H ! 3 + d, H ! 4 + e])"

definition fips1_H0 :: "u32 list" where
  "fips1_H0 = [0x67452301, 0xEFCDAB89, 0x98BADCFE, 0x10325476, 0xC3D2E1F0]"

section \<open>The transform is the FIPS compression function\<close>

lemma rol_word_rotl:
  assumes "0 < n" "n < 32"
  shows "rol n x = word_rotl n x"
proof (rule bit_word_eqI)
  fix i assume i: "i < LENGTH(32)"
  show "bit (rol n x) i = bit (word_rotl n x) i"
  proof (cases "n \<le> i")
    case True
    then have "(i + 32 - n) mod 32 = i - n" using i by (simp add: le_mod_geq)
    moreover have "\<not> bit x (32 + i - n)" using True bit_imp_le_length[of x "32 + i - n"] by auto
    ultimately show ?thesis using True i assms by (simp add: rol_def bit_simps)
  next
    case False
    then have "(i + 32 - n) mod 32 = 32 + i - n" using assms by simp
    then show ?thesis using False i assms by (simp add: rol_def bit_simps)
  qed
qed

lemma fips1_W_load:
  "t < 16 \<Longrightarrow> fips1_W M t = be32 (M ! (4 * t)) (M ! (4 * t + 1)) (M ! (4 * t + 2)) (M ! (4 * t + 3))"
  by (subst fips1_W.simps) simp

text \<open>The schedule array, index by index.\<close>

lemma fips1_W_step:
  "16 \<le> t \<Longrightarrow> rol 1 (map (fips1_W M) [0..<t] ! (t - 3) XOR map (fips1_W M) [0..<t] ! (t - 8)
     XOR map (fips1_W M) [0..<t] ! (t - 14) XOR map (fips1_W M) [0..<t] ! (t - 16)) = fips1_W M t"
  by (subst fips1_W.simps[of M t]) (simp add: rol_word_rotl)

lemma SHA1_load_W: "SHA1_load M = map (fips1_W M) [0..<16]"
  unfolding SHA1_load_def by (rule map_cong[OF refl]) (simp add: fips1_W_load)

lemma SHA1_schedule_W: "SHA1_schedule (SHA1_load M) = map (fips1_W M) [0..<80]"
  unfolding SHA1_schedule_def SHA1_load_W by (rule foldl_extend) (rule fips1_W_step, simp_all)

lemma ch_opt: "D XOR (B AND (C XOR D)) = fips_Ch B C D"
  unfolding fips_Ch_def by (rule bit_word_eqI) (auto simp: bit_simps)

lemma maj_opt: "(B AND C) OR (D AND (B OR C)) = fips_Maj B C D"
  unfolding fips_Maj_def by (rule bit_word_eqI) (auto simp: bit_simps)

lemma SHA1_round_fips:
  "t < 80 \<Longrightarrow> SHA1_round (SHA1_schedule (SHA1_load M)) v t = fips1_step M v t"
  by (cases v) (simp add: SHA1_round_def fips1_step_def SHA1_schedule_W ch_opt maj_opt
      fips1_f_def fips1_K_def fips_Parity_def rol_word_rotl algebra_simps del: upt_rec_numeral)

lemma SHA1_rounds_fips:
  "k \<le> 80 \<Longrightarrow> foldl (SHA1_round (SHA1_schedule (SHA1_load M))) v [0..<k] = foldl (fips1_step M) v [0..<k]"
  by (induction k) (simp_all add: SHA1_round_fips)

lemma SHA1_Transform_fips:
  assumes "length (ctx_state ctx) = 8"
  shows "take 5 (ctx_state (SHA1_Transform ctx)) = fips1_compress (take 5 (ctx_state ctx)) (ctx_buf ctx)"
proof -
  obtain s0 s1 s2 s3 s4 s5 s6 s7 where st: "ctx_state ctx = [s0, s1, s2, s3, s4, s5, s6, s7]"
    using assms by (auto simp: numeral_eq_Suc length_Suc_conv)
  show ?thesis
    by (simp add: SHA1_Transform_def fips1_compress_def st SHA1_rounds_fips split: prod.splits)
qed

interpretation sha1: md_stream SHA1_Transform fips1_compress 5
proof
  fix ctx
  show "ctx_count (SHA1_Transform ctx) = ctx_count ctx" "ctx_buf (SHA1_Transform ctx) = ctx_buf ctx"
    by (simp_all add: SHA1_Transform_def Let_def split: prod.splits)
  assume ok: "ctx_ok ctx"
  then show "ctx_ok (SHA1_Transform ctx)"
    by (simp add: SHA1_Transform_def Let_def ctx_ok_def split: prod.splits)
  show "take 5 (ctx_state (SHA1_Transform ctx)) = fips1_compress (take 5 (ctx_state ctx)) (ctx_buf ctx)"
    using ok by (intro SHA1_Transform_fips) (simp add: ctx_ok_def)
qed

lemma length_fips1_compress [simp]: "length (fips1_compress h m) = 5"
  by (simp add: fips1_compress_def split: prod.splits)

lemma SHA_init_represents:
  assumes "ctx_ok ctx"
  shows "represents fips1_compress 5 fips1_H0 (SHA_init ctx) []"
proof (rule represents_Nil)
  obtain s0 s1 s2 s3 s4 s5 s6 s7 where st: "ctx_state ctx = [s0, s1, s2, s3, s4, s5, s6, s7]"
    using assms by (auto simp: ctx_ok_def numeral_eq_Suc length_Suc_conv)
  show "ctx_ok (SHA_init ctx)" "ctx_count (SHA_init ctx) = 0"
    using assms by (simp_all add: SHA_init_def ctx_ok_def)
  show "take 5 (ctx_state (SHA_init ctx)) = fips1_H0"
    by (simp add: SHA_init_def st fips1_H0_def)
qed

lemma SHA_stream:
  assumes "represents fips1_compress 5 fips1_H0 ctx m"
  shows "take SHA_DIGEST_SIZE (ctx_buf (SHA_final (foldl SHA_update ctx pieces)))
    = md_digest fips1_compress fips1_H0 (m @ concat pieces)"
proof -
  have "represents fips1_compress 5 fips1_H0 (foldl SHA_update ctx pieces) (m @ concat pieces)"
    using assms
  proof (induction pieces arbitrary: ctx m)
    case (Cons p ps)
    show ?case
      using Cons.IH[OF sha1.update_represents[OF Cons.prems, of p]] by (simp add: SHA_update_def)
  qed simp
  then show ?thesis
    unfolding SHA_final_def SHA_DIGEST_SIZE_def
    using sha1.final_digest[of fips1_H0 _ "m @ concat pieces"]
    by (simp add: length_absorb fips1_H0_def)
qed

text \<open>
  C19. \<open>SHA_hash\<close> computes FIPS 180-4 SHA-1 of its input, padding and 64-bit length included,
  whatever the uninitialised context on its stack held.
\<close>

theorem SHA_hash_correct:
  "ctx_ok ctx \<Longrightarrow> SHA_hash ctx data = md_digest fips1_compress fips1_H0 data"
  using SHA_stream[OF SHA_init_represents, of ctx "[data]"] by (simp add: SHA_hash_def)

text \<open>The context as it may lie on the stack: nothing of it is initialised.\<close>

definition stack_ctx :: HASH_CTX where
  "stack_ctx = \<lparr>ctx_f = SHA_VTAB, ctx_count = 7, ctx_buf = replicate 64 1, ctx_state = replicate 8 9\<rparr>"

theorem SHA_hash_witness:
  "SHA_hash stack_ctx [0x61, 0x62, 0x63] = md_digest fips1_compress fips1_H0 [0x61, 0x62, 0x63]"
  by (rule SHA_hash_correct) (simp add: ctx_ok_def stack_ctx_def)

end
