(* ===== verification/Sha256.thy ===== *)
theory Sha256
  imports Sha1
begin

text \<open>
  SHA-256 of libmincrypt (\<^verbatim>\<open>sha256.c\<close>): the round constants, the block transform and the
  init, update, final and hash entry points, shown to be FIPS 180-4 SHA-256 (section 6.2.2).
  The end of the theory models the function table dispatch of
  \<^verbatim>\<open>includes/mincrypt/hash-internal.h\<close>, through which callers reach either hash.
\<close>

section \<open>The code\<close>

definition SHA256_DIGEST_SIZE :: nat where
  "SHA256_DIGEST_SIZE = 32"

definition ror :: "u32 \<Rightarrow> nat \<Rightarrow> u32" where
  "ror val bits = drop_bit bits val OR push_bit (32 - bits) val"

definition shr :: "u32 \<Rightarrow> nat \<Rightarrow> u32" where
  "shr val bits = drop_bit bits val"

text \<open>The table \<open>K\<close>, one row of eight entries per line.\<close>

definition K256 :: "u32 list" where
  "K256 = concat [
    [0x428a2f98, 0x71374491, 0xb5c0fbcf, 0xe9b5dba5, 0x3956c25b, 0x59f111f1, 0x923f82a4, 0xab1c5ed5],
    [0xd807aa98, 0x12835b01, 0x243185be, 0x550c7dc3, 0x72be5d74, 0x80deb1fe, 0x9bdc06a7, 0xc19bf174],
    [0xe49b69c1, 0xefbe4786, 0x0fc19dc6, 0x240ca1cc, 0x2de92c6f, 0x4a7484aa, 0x5cb0a9dc, 0x76f988da],
    [0x983e5152, 0xa831c66d, 0xb00327c8, 0xbf597fc7, 0xc6e00bf3, 0xd5a79147, 0x06ca6351, 0x14292967],
    [0x27b70a85, 0x2e1b2138, 0x4d2c6dfc, 0x53380d13, 0x650a7354, 0x766a0abb, 0x81c2c92e, 0x92722c85],
    [0xa2bfe8a1, 0xa81a664b, 0xc24b8b70, 0xc76c51a3, 0xd192e819, 0xd6990624, 0xf40e3585, 0x106aa070],
    [0x19a4c116, 0x1e376c08, 0x2748774c, 0x34b0bcb5, 0x391c0cb3, 0x4ed8aa4a, 0x5b9cca4f, 0x682e6ff3],
    [0x748f82ee, 0x78a5636f, 0x84c87814, 0x8cc70208, 0x90befffa, 0xa4506ceb, 0xbef9a3f7, 0xc67178f2]]"

definition SHA256_load :: "u8 list \<Rightarrow> u32 list" where
  "SHA256_load p = map (\<lambda>t. be32 (p ! (4 * t)) (p ! (4 * t + 1)) (p ! (4 * t + 2)) (p ! (4 * t + 3))) [0..<16]"

definition SHA256_entry :: "u32 list \<Rightarrow> nat \<Rightarrow> u32" where
  "SHA256_entry W t =
     (let s0 = ror (W ! (t - 15)) 7 XOR ror (W ! (t - 15)) 18 XOR shr (W ! (t - 15)) 3;
          s1 = ror (W ! (t - 2)) 17 XOR ror (W ! (t - 2)) 19 XOR shr (W ! (t - 2)) 10
      in W ! (t - 16) + s0 + W ! (t - 7) + s1)"

definition SHA256_schedule :: "u32 list \<Rightarrow> u32 list" where
  "SHA256_schedule W = foldl (\<lambda>W t. W @ [SHA256_entry W t]) W [16..<64]"

type_synonym sha256_vars = "u32 \<times> u32 \<times> u32 \<times> u32 \<times> u32 \<times> u32 \<times> u32 \<times> u32"

definition SHA256_round :: "u32 list \<Rightarrow> sha256_vars \<Rightarrow> nat \<Rightarrow> sha256_vars" where
  "SHA256_round W = (\<lambda>(A, B, C, D, E, F, G, H) t.
     let s0 = ror A 2 XOR ror A 13 XOR ror A 22;
         maj = (A AND B) XOR (A AND C) XOR (B AND C);
         t2 = s0 + maj;
         s1 = ror E 6 XOR ror E 11 XOR ror E 25;
         ch = (E AND F) XOR (NOT E AND G);
         t1 = H + s1 + ch + K256 ! t + W ! t
     in (t1 + t2, A, B, C, D + t1, E, F, G))"

definition SHA256_Transform :: "HASH_CTX \<Rightarrow> HASH_CTX" where
  "SHA256_Transform ctx =
     (let p = ctx_buf ctx;
          W = SHA256_schedule (SHA256_load p);
          st = ctx_state ctx;
          (A, B, C, D, E, F, G, H) =
            foldl (SHA256_round W)
              (st ! 0, st ! 1, st ! 2, st ! 3, st ! 4, st ! 5, st ! 6, st ! 7) [0..<64]
      in ctx\<lparr>ctx_state := st[0 := st ! 0 + A, 1 := st ! 1 + B, 2 := st ! 2 + C, 3 := st ! 3 + D,
                              4 := st ! 4 + E, 5 := st ! 5 + F, 6 := st ! 6 + G, 7 := st ! 7 + H]\<rparr>)"

definition SHA256_init :: "HASH_CTX \<Rightarrow> HASH_CTX" where
  "SHA256_init ctx = ctx\<lparr>ctx_f := SHA256_VTAB,
     ctx_state := (ctx_state ctx)[0 := 0x6a09e667, 1 := 0xbb67ae85, 2 := 0x3c6ef372, 3 := 0xa54ff53a,
                                  4 := 0x510e527f, 5 := 0x9b05688c, 6 := 0x1f83d9ab, 7 := 0x5be0cd19],
     ctx_count := 0\<rparr>"

definition SHA256_update :: "HASH_CTX \<Rightarrow> u8 list \<Rightarrow> HASH_CTX" where
  "SHA256_update ctx data = hash_update SHA256_Transform ctx data"

definition SHA256_final :: "HASH_CTX \<Rightarrow> HASH_CTX" where
  "SHA256_final ctx = store_digest 8 (hash_pad SHA256_Transform ctx)"

definition SHA256_hash :: "HASH_CTX \<Rightarrow> u8 list \<Rightarrow> u8 list" where
  "SHA256_hash ctx data =
     take SHA256_DIGEST_SIZE (ctx_buf (SHA256_final (SHA256_update (SHA256_init ctx) data)))"

text \<open>The dispatch macros \<open>HASH_init\<close>, \<open>HASH_update\<close>, \<open>HASH_final\<close> and \<open>HASH_size\<close> of the header.\<close>

definition HASH_init :: "HASH_CTX \<Rightarrow> HASH_CTX" where
  "HASH_init ctx = (case ctx_f ctx of SHA_VTAB \<Rightarrow> SHA_init ctx | SHA256_VTAB \<Rightarrow> SHA256_init ctx)"

definition HASH_update :: "HASH_CTX \<Rightarrow> u8 list \<Rightarrow> HASH_CTX" where
  "HASH_update ctx data =
     (case ctx_f ctx of SHA_VTAB \<Rightarrow> SHA_update ctx data | SHA256_VTAB \<Rightarrow> SHA256_update ctx data)"

definition HASH_final :: "HASH_CTX \<Rightarrow> HASH_CTX" where
  "HASH_final ctx = (case ctx_f ctx of SHA_VTAB \<Rightarrow> SHA_final ctx | SHA256_VTAB \<Rightarrow> SHA256_final ctx)"

definition HASH_size :: "HASH_CTX \<Rightarrow> nat" where
  "HASH_size ctx =
     (case ctx_f ctx of SHA_VTAB \<Rightarrow> SHA_DIGEST_SIZE | SHA256_VTAB \<Rightarrow> SHA256_DIGEST_SIZE)"

section \<open>FIPS 180-4\<close>

definition fips256_Sigma0 :: "u32 \<Rightarrow> u32" where
  "fips256_Sigma0 x = word_rotr 2 x XOR word_rotr 13 x XOR word_rotr 22 x"

definition fips256_Sigma1 :: "u32 \<Rightarrow> u32" where
  "fips256_Sigma1 x = word_rotr 6 x XOR word_rotr 11 x XOR word_rotr 25 x"

definition fips256_sigma0 :: "u32 \<Rightarrow> u32" where
  "fips256_sigma0 x = word_rotr 7 x XOR word_rotr 18 x XOR drop_bit 3 x"

definition fips256_sigma1 :: "u32 \<Rightarrow> u32" where
  "fips256_sigma1 x = word_rotr 17 x XOR word_rotr 19 x XOR drop_bit 10 x"

text \<open>
  The FIPS 180-4 constants: the first 32 bits of the fractional parts of the cube roots of the first
  64 primes, as the integer part of \<open>2\<^sup>3\<^sup>2\<close> times the root, modulo \<open>2\<^sup>3\<^sup>2\<close>.
\<close>

definition fips_primes :: "nat list" where
  "fips_primes = [
    2, 3, 5, 7, 11, 13, 17, 19, 23, 29, 31, 37, 41, 43, 47, 53,
    59, 61, 67, 71, 73, 79, 83, 89, 97, 101, 103, 107, 109, 113, 127, 131,
    137, 139, 149, 151, 157, 163, 167, 173, 179, 181, 191, 193, 197, 199, 211, 223,
    227, 229, 233, 239, 241, 251, 257, 263, 269, 271, 277, 281, 283, 293, 307, 311]"

definition cube_root :: "nat \<Rightarrow> nat" where
  "cube_root n = (GREATEST k. k ^ 3 \<le> n)"

definition fips256_K :: "nat \<Rightarrow> u32" where
  "fips256_K t = of_nat (cube_root (fips_primes ! t * 2 ^ 96))"

lemma cube_root_eqI:
  assumes "k ^ 3 \<le> n" "n < (k + 1) ^ 3"
  shows "cube_root n = k"
  unfolding cube_root_def
proof (rule Greatest_equality)
  fix y :: nat assume y: "y ^ 3 \<le> n"
  show "y \<le> k"
  proof (rule ccontr)
    assume "\<not> y \<le> k"
    then have "(k + 1) ^ 3 \<le> y ^ 3" by (intro power_mono) auto
    with y assms(2) show False by linarith
  qed
qed (rule assms(1))

text \<open>The integer cube roots, and that the table of the code holds their low words.\<close>

lemma fips_cube_roots:
  "map (\<lambda>p. cube_root (p * 2 ^ 96)) fips_primes = [
    5411319704, 6194414737, 7344290767, 8215976869, 9551921755, 10098905585,
    11043570340, 11460697813, 12214315672, 13195500289, 13492127166, 14311783875,
    14809980276, 15046980094, 15499789991, 16133124468, 16720292289, 16907126662,
    17444216262, 17784676812, 17950125167, 18429019306, 18734950876, 19175934170,
    19734090066, 20001703533, 20132865992, 20390182855, 20516441075, 20764397895,
    21588763473, 21813078375, 22141143685, 22248366392, 22769593852, 22871018771,
    23170020180, 23461497531, 23651862830, 23931792517, 24205322401, 24295138891,
    24734567280, 24820601251, 24990902297, 25075189284, 25569408389, 26045227120,
    26200031510, 26276752392, 26428864332, 26653801653, 26727943347, 27092625994,
    27306805839, 27517677555, 27725365998, 27793908591, 27997534228, 28131656200,
    28198240250, 28526537963, 28973835255, 29099129074]"
  by (simp add: fips_primes_def) (intro conjI cube_root_eqI; simp)

lemma length_fips_primes: "length fips_primes = 64"
  by (simp add: fips_primes_def)

lemma K256_fips: "map fips256_K [0..<64] = K256"
proof -
  have "map fips256_K [0..<64] = map of_nat (map (\<lambda>p. cube_root (p * 2 ^ 96)) fips_primes)"
    by (rule nth_equalityI) (simp_all add: fips256_K_def length_fips_primes del: upt_rec_numeral)
  also have "\<dots> = K256"
    unfolding fips_cube_roots by (simp add: K256_def)
  finally show ?thesis .
qed

lemma K256_nth: "t < 64 \<Longrightarrow> K256 ! t = fips256_K t"
  unfolding K256_fips[symmetric] by simp

function fips256_W :: "u8 list \<Rightarrow> nat \<Rightarrow> u32" where
  "fips256_W M t =
     (if t < 16 then be32 (M ! (4 * t)) (M ! (4 * t + 1)) (M ! (4 * t + 2)) (M ! (4 * t + 3))
      else fips256_sigma1 (fips256_W M (t - 2)) + fips256_W M (t - 7)
         + fips256_sigma0 (fips256_W M (t - 15)) + fips256_W M (t - 16))"
  by pat_completeness auto
termination by (relation "measure snd") auto

declare fips256_W.simps [simp del]

definition fips256_step :: "u8 list \<Rightarrow> sha256_vars \<Rightarrow> nat \<Rightarrow> sha256_vars" where
  "fips256_step M = (\<lambda>(a, b, c, d, e, f, g, h) t.
     let T1 = h + fips256_Sigma1 e + fips_Ch e f g + fips256_K t + fips256_W M t;
         T2 = fips256_Sigma0 a + fips_Maj a b c
     in (T1 + T2, a, b, c, d + T1, e, f, g))"

definition fips256_compress :: "u32 list \<Rightarrow> u8 list \<Rightarrow> u32 list" where
  "fips256_compress H M =
     (let (a, b, c, d, e, f, g, h) =
            foldl (fips256_step M) (H ! 0, H ! 1, H ! 2, H ! 3, H ! 4, H ! 5, H ! 6, H ! 7) [0..<64]
      in [H ! 0 + a, H ! 1 + b, H ! 2 + c, H ! 3 + d, H ! 4 + e, H ! 5 + f, H ! 6 + g, H ! 7 + h])"

definition fips256_H0 :: "u32 list" where
  "fips256_H0 = [0x6a09e667, 0xbb67ae85, 0x3c6ef372, 0xa54ff53a,
                 0x510e527f, 0x9b05688c, 0x1f83d9ab, 0x5be0cd19]"

section \<open>The transform is the FIPS compression function\<close>

lemma ror_word_rotr:
  assumes "0 < n" "n < 32"
  shows "ror x n = word_rotr n x"
proof (rule bit_word_eqI)
  fix i assume i: "i < LENGTH(32)"
  show "bit (ror x n) i = bit (word_rotr n x) i"
  proof (cases "i + n < 32")
    case True
    then have "\<not> 32 - n \<le> i" by simp
    then show ?thesis using True i assms by (simp add: ror_def bit_simps add.commute)
  next
    case False
    then have "(i + n) mod 32 = i + n - 32" using i assms by (simp add: le_mod_geq)
    moreover have "32 - n \<le> i" using False by simp
    moreover have "\<not> bit x (n + i)" using False bit_imp_le_length[of x "n + i"] by auto
    ultimately show ?thesis using False i assms by (simp add: ror_def bit_simps)
  qed
qed

lemma fips256_W_load:
  "t < 16 \<Longrightarrow> fips256_W M t = be32 (M ! (4 * t)) (M ! (4 * t + 1)) (M ! (4 * t + 2)) (M ! (4 * t + 3))"
  by (subst fips256_W.simps) simp

lemma fips256_W_step: "16 \<le> t \<Longrightarrow> SHA256_entry (map (fips256_W M) [0..<t]) t = fips256_W M t"
  by (subst fips256_W.simps[of M t])
    (simp add: SHA256_entry_def ror_word_rotr shr_def fips256_sigma0_def fips256_sigma1_def algebra_simps)

lemma SHA256_load_W: "SHA256_load M = map (fips256_W M) [0..<16]"
  unfolding SHA256_load_def by (rule map_cong[OF refl]) (simp add: fips256_W_load)

lemma SHA256_schedule_W: "SHA256_schedule (SHA256_load M) = map (fips256_W M) [0..<64]"
  unfolding SHA256_schedule_def SHA256_load_W
  by (rule foldl_extend) (rule fips256_W_step, simp_all)

lemma SHA256_round_fips:
  "t < 64 \<Longrightarrow> SHA256_round (SHA256_schedule (SHA256_load M)) v t = fips256_step M v t"
  by (simp add: SHA256_round_def fips256_step_def SHA256_schedule_W K256_nth fips_Ch_def fips_Maj_def
      fips256_Sigma0_def fips256_Sigma1_def ror_word_rotr del: upt_rec_numeral split: prod.split)

lemma SHA256_rounds_fips:
  "k \<le> 64 \<Longrightarrow> foldl (SHA256_round (SHA256_schedule (SHA256_load M))) v [0..<k]
     = foldl (fips256_step M) v [0..<k]"
  by (induction k) (simp_all add: SHA256_round_fips)

lemma SHA256_Transform_fips:
  assumes "length (ctx_state ctx) = 8"
  shows "ctx_state (SHA256_Transform ctx) = fips256_compress (ctx_state ctx) (ctx_buf ctx)"
proof -
  obtain s0 s1 s2 s3 s4 s5 s6 s7 where st: "ctx_state ctx = [s0, s1, s2, s3, s4, s5, s6, s7]"
    using assms by (auto simp: numeral_eq_Suc length_Suc_conv)
  show ?thesis
    by (simp add: SHA256_Transform_def fips256_compress_def st SHA256_rounds_fips split: prod.splits)
qed

interpretation sha256: md_stream SHA256_Transform fips256_compress 8
proof
  fix ctx
  show "ctx_count (SHA256_Transform ctx) = ctx_count ctx" "ctx_buf (SHA256_Transform ctx) = ctx_buf ctx"
    by (simp_all add: SHA256_Transform_def Let_def split: prod.splits)
  assume ok: "ctx_ok ctx"
  then show ok': "ctx_ok (SHA256_Transform ctx)"
    by (simp add: SHA256_Transform_def Let_def ctx_ok_def split: prod.splits)
  show "take 8 (ctx_state (SHA256_Transform ctx)) = fips256_compress (take 8 (ctx_state ctx)) (ctx_buf ctx)"
    using ok ok' SHA256_Transform_fips[of ctx] by (simp add: ctx_ok_def)
qed

lemma length_fips256_compress [simp]: "length (fips256_compress h m) = 8"
  by (simp add: fips256_compress_def split: prod.splits)

lemma SHA256_init_represents:
  assumes "ctx_ok ctx"
  shows "represents fips256_compress 8 fips256_H0 (SHA256_init ctx) []"
proof (rule represents_Nil)
  obtain s0 s1 s2 s3 s4 s5 s6 s7 where st: "ctx_state ctx = [s0, s1, s2, s3, s4, s5, s6, s7]"
    using assms by (auto simp: ctx_ok_def numeral_eq_Suc length_Suc_conv)
  show "ctx_ok (SHA256_init ctx)" "ctx_count (SHA256_init ctx) = 0"
    using assms by (simp_all add: SHA256_init_def ctx_ok_def)
  show "take 8 (ctx_state (SHA256_init ctx)) = fips256_H0"
    by (simp add: SHA256_init_def st fips256_H0_def)
qed

lemma SHA256_stream:
  assumes "represents fips256_compress 8 fips256_H0 ctx m"
  shows "take SHA256_DIGEST_SIZE (ctx_buf (SHA256_final (foldl SHA256_update ctx pieces)))
    = md_digest fips256_compress fips256_H0 (m @ concat pieces)"
proof -
  have "represents fips256_compress 8 fips256_H0 (foldl SHA256_update ctx pieces) (m @ concat pieces)"
    using assms
  proof (induction pieces arbitrary: ctx m)
    case (Cons p ps)
    show ?case
      using Cons.IH[OF sha256.update_represents[OF Cons.prems, of p]] by (simp add: SHA256_update_def)
  qed simp
  then show ?thesis
    unfolding SHA256_final_def SHA256_DIGEST_SIZE_def
    using sha256.final_digest[of fips256_H0 _ "m @ concat pieces"]
    by (simp add: length_absorb fips256_H0_def)
qed

text \<open>
  C20. \<open>SHA256_hash\<close> computes FIPS 180-4 SHA-256 of its input, whatever the uninitialised
  context on its stack held.
\<close>

theorem SHA256_hash_correct:
  "ctx_ok ctx \<Longrightarrow> SHA256_hash ctx data = md_digest fips256_compress fips256_H0 data"
  using SHA256_stream[OF SHA256_init_represents, of ctx "[data]"] by (simp add: SHA256_hash_def)

theorem SHA256_hash_witness:
  "SHA256_hash stack_ctx [0x61, 0x62, 0x63] = md_digest fips256_compress fips256_H0 [0x61, 0x62, 0x63]"
  by (rule SHA256_hash_correct) (simp add: ctx_ok_def stack_ctx_def)

lemma update_loop_f:
  assumes "\<And>c. ctx_f (T c) = ctx_f c"
  shows "ctx_f (update_loop T i data ctx) = ctx_f ctx"
  by (induction data arbitrary: i ctx) (simp_all add: assms Let_def)

lemma hash_update_f [simp]: "ctx_f (SHA_update ctx p) = ctx_f ctx" "ctx_f (SHA256_update ctx p) = ctx_f ctx"
  by (simp_all add: SHA_update_def SHA256_update_def hash_update_def Let_def update_loop_f
      SHA1_Transform_def SHA256_Transform_def split: prod.splits)

lemma HASH_update_sha1:
  "ctx_f ctx = SHA_VTAB \<Longrightarrow> foldl HASH_update ctx ps = foldl SHA_update ctx ps
     \<and> ctx_f (foldl SHA_update ctx ps) = SHA_VTAB"
  by (induction ps arbitrary: ctx) (simp_all add: HASH_update_def)

lemma HASH_update_sha256:
  "ctx_f ctx = SHA256_VTAB \<Longrightarrow> foldl HASH_update ctx ps = foldl SHA256_update ctx ps
     \<and> ctx_f (foldl SHA256_update ctx ps) = SHA256_VTAB"
  by (induction ps arbitrary: ctx) (simp_all add: HASH_update_def)

text \<open>
  C21. Hashing through the function table is independent of the chunking: after \<open>HASH_init\<close>,
  one \<open>HASH_update\<close> per piece and \<open>HASH_final\<close>, the first \<open>HASH_size\<close> bytes of the buffer are the
  digest of the concatenated pieces under the hash that the table selects.
\<close>

theorem HASH_stream_correct:
  assumes "ctx_ok ctx"
  shows "let ctx' = foldl HASH_update (HASH_init ctx) pieces
    in take (HASH_size ctx') (ctx_buf (HASH_final ctx')) =
      (case ctx_f ctx of
         SHA_VTAB \<Rightarrow> md_digest fips1_compress fips1_H0 (concat pieces)
       | SHA256_VTAB \<Rightarrow> md_digest fips256_compress fips256_H0 (concat pieces))"
proof (cases "ctx_f ctx")
  case SHA_VTAB
  have "ctx_f (SHA_init ctx) = SHA_VTAB" by (simp add: SHA_init_def)
  with SHA_VTAB HASH_update_sha1[of "SHA_init ctx" pieces] SHA_stream[OF SHA_init_represents[OF assms], of pieces]
  show ?thesis by (simp add: HASH_init_def HASH_final_def HASH_size_def)
next
  case SHA256_VTAB
  have "ctx_f (SHA256_init ctx) = SHA256_VTAB" by (simp add: SHA256_init_def)
  with SHA256_VTAB HASH_update_sha256[of "SHA256_init ctx" pieces]
    SHA256_stream[OF SHA256_init_represents[OF assms], of pieces]
  show ?thesis by (simp add: HASH_init_def HASH_final_def HASH_size_def)
qed

theorem HASH_stream_witness:
  "let ctx' = foldl HASH_update (HASH_init stack_ctx) [[0x61], [], [0x62, 0x63]]
   in take (HASH_size ctx') (ctx_buf (HASH_final ctx')) = md_digest fips1_compress fips1_H0 [0x61, 0x62, 0x63]"
proof -
  have "ctx_ok stack_ctx" by (simp add: ctx_ok_def stack_ctx_def)
  from HASH_stream_correct[OF this, of "[[0x61], [], [0x62, 0x63]]"] show ?thesis
    by (simp add: stack_ctx_def)
qed

end
