(* ===== verification/Rsa.thy ===== *)
theory Rsa
  imports Digits Sha256
begin

text \<open>
  RSA PKCS1.5 signature verification of libmincrypt (\<^verbatim>\<open>rsa.c\<close>): Montgomery arithmetic on
  32-bit digit arrays, the two public exponentiations (3 and 65537), and \<open>RSA_verify\<close>. The
  exponentiation is shown to be modular exponentiation for every well-formed public key.
\<close>

section \<open>The code\<close>

definition RSANUMBYTES :: nat where "RSANUMBYTES = 256"
definition RSANUMWORDS :: nat where "RSANUMWORDS = 64"

record RSAPublicKey =
  key_len :: nat
  key_n0inv :: u32
  key_n :: "u32 list"
  key_rr :: "u32 list"
  key_exponent :: int

text \<open>\<open>a[] -= mod\<close>; the final borrow is dropped.\<close>

definition rsa_subM :: "RSAPublicKey \<Rightarrow> u32 list \<Rightarrow> u32 list" where
  "rsa_subM key a =
     fst (sub_digits 0 (take (key_len key) a) (take (key_len key) (key_n key))) @ drop (key_len key) a"

text \<open>\<open>return a[] >= mod\<close>: the digits are compared from the most significant one.\<close>

fun geM_loop :: "u32 list \<Rightarrow> u32 list \<Rightarrow> nat \<Rightarrow> bool" where
  "geM_loop n a 0 = True"
| "geM_loop n a (Suc i) =
     (if a ! i < n ! i then False else if a ! i > n ! i then True else geM_loop n a i)"

definition geM :: "RSAPublicKey \<Rightarrow> u32 list \<Rightarrow> bool" where
  "geM key a = geM_loop (key_n key) a (key_len key)"

text \<open>The loop of \<open>montMulAdd\<close>: digits \<open>1 .. len - 1\<close> of \<open>b\<close>, \<open>n\<close> and \<open>c\<close>, with the two accumulators.\<close>

fun montMulAdd_loop ::
  "u32 \<Rightarrow> u32 \<Rightarrow> u64 \<Rightarrow> u64 \<Rightarrow> u32 list \<Rightarrow> u32 list \<Rightarrow> u32 list \<Rightarrow> u32 list \<times> u64 \<times> u64" where
  "montMulAdd_loop a d0 A B (b # bs) (n # ns) (c # cs) =
     (let A = drop_bit 32 A + ucast a * ucast b + ucast c;
          B = drop_bit 32 B + ucast d0 * ucast n + ucast (ucast A :: u32);
          (r, A', B') = montMulAdd_loop a d0 A B bs ns cs
      in (ucast B # r, A', B'))"
| "montMulAdd_loop a d0 A B _ _ _ = ([], A, B)"

definition montMulAdd :: "RSAPublicKey \<Rightarrow> u32 list \<Rightarrow> u32 \<Rightarrow> u32 list \<Rightarrow> u32 list" where
  "montMulAdd key c a b =
     (let len = key_len key; n = key_n key;
          A = ucast a * ucast (b ! 0) + ucast (c ! 0) :: u64;
          d0 = ucast A * key_n0inv key :: u32;
          B = ucast d0 * ucast (n ! 0) + ucast (ucast A :: u32) :: u64;
          (r, A, B) = montMulAdd_loop a d0 A B (take (len - 1) (drop 1 b)) (take (len - 1) (drop 1 n))
                        (take (len - 1) (drop 1 c));
          A = drop_bit 32 A + drop_bit 32 B;
          c = r @ [ucast A] @ drop len c
      in if drop_bit 32 A \<noteq> 0 then rsa_subM key c else c)"

text \<open>\<open>c[]\<close> is cleared, then one \<open>montMulAdd\<close> per digit of \<open>a\<close>.\<close>

definition montMul :: "RSAPublicKey \<Rightarrow> u32 list \<Rightarrow> u32 list \<Rightarrow> u32 list" where
  "montMul key a b =
     foldl (\<lambda>c i. montMulAdd key c (a ! i) b) (replicate (key_len key) 0) [0..<key_len key]"

text \<open>One round of the square loop: \<open>aaR = aR * aR / R\<close>, \<open>aR = aaR * aaR / R\<close>.\<close>

definition square_twice :: "RSAPublicKey \<Rightarrow> u32 list \<Rightarrow> u32 list" where
  "square_twice key aR = (let aaR = montMul key aR aR in montMul key aaR aaR)"

text \<open>
  \<open>modpow\<close>. \<open>RSA_verify\<close> calls it only with exponent 3 or 65537; with any other exponent
  \<open>aaa\<close> stays the null pointer that the following \<open>geM\<close> would dereference, which is \<open>None\<close> here.
\<close>

definition modpow :: "RSAPublicKey \<Rightarrow> u8 list \<Rightarrow> u8 list option" where
  "modpow key inout =
     (let a = be_digits (key_len key) inout;
          aaa =
            (if key_exponent key = 65537 then
               let aR = montMul key a (key_rr key);
                   aR = ((square_twice key) ^^ 8) aR
               in Some (montMul key aR a)
             else if key_exponent key = 3 then
               let aR = montMul key a (key_rr key);
                   aaR = montMul key aR aR
               in Some (montMul key aaR a)
             else None)
      in case aaa of
           None \<Rightarrow> None
         | Some aaa \<Rightarrow>
             let aaa = (if geM key aaa then rsa_subM key aaa else aaa)
             in Some (concat (map be32_bytes (rev (take (key_len key) aaa)))))"

text \<open>\<open>SHA-1\<close> and \<open>SHA-256\<close> of the PKCS1.5 padding with zeros at the place of the hash.\<close>

definition kExpectedPadShaRsa2048 :: "u8 list" where
  "kExpectedPadShaRsa2048 = [
    0xdc, 0xbd, 0xbe, 0x42, 0xd5, 0xf5, 0xa7, 0x2e,
    0x6e, 0xfc, 0xf5, 0x5d, 0xaf, 0x9d, 0xea, 0x68,
    0x7c, 0xfb, 0xf1, 0x67]"

definition kExpectedPadSha256Rsa2048 :: "u8 list" where
  "kExpectedPadSha256Rsa2048 = [
    0xab, 0x28, 0x8d, 0x8a, 0xd7, 0xd9, 0x59, 0x92,
    0xba, 0xcc, 0xf8, 0x67, 0x20, 0xe1, 0x15, 0x2e,
    0x39, 0x8d, 0x80, 0x36, 0xd6, 0x6f, 0xf0, 0xfd,
    0x90, 0xe8, 0x7d, 0x8b, 0xe1, 0x7c, 0x87, 0x59]"

text \<open>
  \<open>RSA_verify\<close> returns 1 or 0 (\<open>True\<close> or \<open>False\<close>); \<open>len\<close> and \<open>hash_len\<close> are the lengths of the
  two arrays. The contexts of the two hash functions are uninitialised stack memory.
\<close>

definition RSA_verify :: "HASH_CTX \<Rightarrow> RSAPublicKey \<Rightarrow> u8 list \<Rightarrow> u8 list \<Rightarrow> bool" where
  "RSA_verify ctx key signature hash =
     (let len = length signature; hash_len = length hash in
      if key_len key \<noteq> RSANUMWORDS then False
      else if len \<noteq> RSANUMBYTES then False
      else if hash_len \<noteq> SHA_DIGEST_SIZE \<and> hash_len \<noteq> SHA256_DIGEST_SIZE then False
      else if key_exponent key \<noteq> 3 \<and> key_exponent key \<noteq> 65537 then False
      else case modpow key signature of
          None \<Rightarrow> False
        | Some buf \<Rightarrow>
            let buf = take (len - hash_len) buf @ map2 (XOR) (drop (len - hash_len) buf) hash
            in if hash_len = SHA_DIGEST_SIZE
               then take hash_len (SHA_hash ctx buf) = kExpectedPadShaRsa2048
               else take hash_len (SHA256_hash ctx buf) = kExpectedPadSha256Rsa2048)"

section \<open>Montgomery multiplication\<close>

text \<open>
  A well-formed key: the digit arrays have \<open>len\<close> digits, \<open>n0inv\<close> is \<open>- 1 / n[0]\<close> modulo \<open>2 ^ 32\<close>,
  \<open>rr\<close> is \<open>R\<^sup>2\<close> modulo \<open>n\<close> for \<open>R = 2 ^ (32 * len)\<close>, and the modulus uses its top bit.
\<close>

definition mont_R :: "RSAPublicKey \<Rightarrow> nat" where
  "mont_R key = 2 ^ (32 * key_len key)"

definition key_ok :: "RSAPublicKey \<Rightarrow> bool" where
  "key_ok key \<longleftrightarrow> 0 < key_len key \<and> length (key_n key) = key_len key \<and> length (key_rr key) = key_len key
     \<and> (unat (key_n0inv key) * unat (key_n key ! 0) + 1) mod 2 ^ 32 = 0
     \<and> bn (key_rr key) mod bn (key_n key) = (mont_R key)\<^sup>2 mod bn (key_n key)
     \<and> mont_R key \<le> 2 * bn (key_n key)"

lemma montMulAdd_loop_correct:
  assumes "length bs = length ns" "length ns = length cs"
    and "montMulAdd_loop a d0 A B bs ns cs = (r, A', B')"
  shows "length r = length cs \<and>
    bn r + 2 ^ (32 * length cs) * (unat (drop_bit 32 A') + unat (drop_bit 32 B')) =
      unat (drop_bit 32 A) + unat (drop_bit 32 B) + unat a * bn bs + unat d0 * bn ns + bn cs"
  using assms
proof (induction bs ns cs arbitrary: A B r rule: list_induct3)
  case Nil
  then show ?case by simp
next
  case (Cons b bs n ns c cs)
  define A1 where "A1 = drop_bit 32 A + ucast a * ucast b + ucast c"
  define B1 where "B1 = drop_bit 32 B + ucast d0 * ucast n + ucast (ucast A1 :: u32)"
  have A1: "unat A1 = unat (drop_bit 32 A) + unat a * unat b + unat c"
    unfolding A1_def by (rule unat_mac[OF unat_shift32_less])
  have B1: "unat B1 = unat (drop_bit 32 B) + unat d0 * unat n + unat (ucast A1 :: u32)"
    unfolding B1_def by (rule unat_mac[OF unat_shift32_less])
  obtain r1 where r1: "montMulAdd_loop a d0 A1 B1 bs ns cs = (r1, A', B')" and r: "r = ucast B1 # r1"
    using Cons.prems by (auto simp: A1_def B1_def Let_def split: prod.splits)
  from Cons.IH[OF r1] have len: "length r1 = length cs" and IH:
    "bn r1 + 2 ^ (32 * length cs) * (unat (drop_bit 32 A') + unat (drop_bit 32 B')) =
      unat (drop_bit 32 A1) + unat (drop_bit 32 B1) + unat a * bn bs + unat d0 * bn ns + bn cs"
    by auto
  have "bn r + 2 ^ (32 * length (c # cs)) * (unat (drop_bit 32 A') + unat (drop_bit 32 B'))
    = unat (ucast B1 :: u32) + 2 ^ 32 *
        (bn r1 + 2 ^ (32 * length cs) * (unat (drop_bit 32 A') + unat (drop_bit 32 B')))"
    by (simp add: r power_add algebra_simps)
  also have "\<dots> = (unat (ucast B1 :: u32) + 2 ^ 32 * unat (drop_bit 32 B1)) + 2 ^ 32 * unat (drop_bit 32 A1)
      + 2 ^ 32 * (unat a * bn bs + unat d0 * bn ns + bn cs)"
    by (simp only: IH) algebra
  also have "\<dots> = unat (drop_bit 32 B) + unat d0 * unat n
      + (unat (ucast A1 :: u32) + 2 ^ 32 * unat (drop_bit 32 A1))
      + 2 ^ 32 * (unat a * bn bs + unat d0 * bn ns + bn cs)"
    by (simp only: low32_plus_shift32[of B1] B1)
  also have "\<dots> = unat (drop_bit 32 A) + unat (drop_bit 32 B) + unat a * bn (b # bs) + unat d0 * bn (n # ns)
      + bn (c # cs)"
    by (simp only: low32_plus_shift32[of A1] A1) (simp add: algebra_simps)
  finally show ?case using len r by simp
qed

text \<open>\<open>rsa_subM\<close> computes the difference modulo \<open>R\<close>.\<close>

lemma rsa_subM_correct:
  assumes "length a = key_len key" "length (key_n key) = key_len key"
  shows "length (rsa_subM key a) = key_len key"
    and "int (bn (rsa_subM key a)) = (int (bn a) - int (bn (key_n key))) mod int (mont_R key)"
proof -
  obtain r b' where r: "sub_digits 0 a (key_n key) = (r, b')" by fastforce
  have *: "length r = key_len key"
    "int (bn r) + 2 ^ (32 * key_len key) * sint b' = int (bn a) - int (bn (key_n key))"
    using sub_digits_correct[OF _ _ r] assms by simp_all
  have sub: "rsa_subM key a = r" using assms r by (simp add: rsa_subM_def)
  from * sub show "length (rsa_subM key a) = key_len key" by simp
  have "bn r < mont_R key" using bn_less[of r] * by (simp add: mont_R_def)
  then have "int (bn r) = int (bn r) mod int (mont_R key)" by simp
  also have "\<dots> = (int (bn r) + int (mont_R key) * sint b') mod int (mont_R key)" by simp
  also have "int (bn r) + int (mont_R key) * sint b' = int (bn a) - int (bn (key_n key))"
    using *(2) by (simp add: mont_R_def)
  finally show "int (bn (rsa_subM key a)) = (int (bn a) - int (bn (key_n key))) mod int (mont_R key)"
    by (simp only: sub)
qed

text \<open>The choice of \<open>d0\<close> clears the low digit of the second accumulator.\<close>

lemma mont_low_zero:
  assumes "(ninv * n0 + 1) mod M = 0" "d0 mod M = (A mod M * ninv) mod M"
  shows "(d0 * n0 + A mod M) mod M = (0 :: nat)"
proof -
  have "(d0 * n0 + A mod M) mod M = ((A mod M * ninv) mod M * n0 + A mod M) mod M"
    using assms(2) by (metis mod_add_left_eq mod_mult_left_eq)
  also have "\<dots> = (A mod M * ninv * n0 + A mod M) mod M"
    by (metis mod_add_left_eq mod_mult_left_eq)
  also have "A mod M * ninv * n0 + A mod M = A mod M * (ninv * n0 + 1)" by (simp add: algebra_simps)
  also have "\<dots> mod M = 0" using assms(1) by (metis mod_mult_right_eq mult_0_right mod_0)
  finally show ?thesis .
qed

text \<open>The accumulated value before the optional subtraction, and its bound.\<close>

lemma mont_value_bound:
  fixes V R n :: nat
  assumes "2 ^ 32 * V = c + a * b + d0 * n" "c < R" "b < R" "a < 2 ^ 32" "d0 < 2 ^ 32" "0 < n"
  shows "V < R + n"
proof -
  have "a * b \<le> (2 ^ 32 - 1) * (R - 1)" using assms by (intro mult_mono) auto
  moreover have "d0 * n \<le> (2 ^ 32 - 1) * n" using assms by (intro mult_mono) auto
  ultimately have "2 ^ 32 * V \<le> (R - 1) + (2 ^ 32 - 1) * (R - 1) + (2 ^ 32 - 1) * n"
    using assms by linarith
  also have "(R - 1) + (2 ^ 32 - 1) * (R - 1) = 2 ^ 32 * (R - 1)" by simp
  also have "2 ^ 32 * (R - 1) + (2 ^ 32 - 1) * n < 2 ^ 32 * (R + n)"
    using assms by (simp add: algebra_simps diff_mult_distrib)
  finally show ?thesis by simp
qed

lemma unat_add_shift32: "unat (drop_bit 32 x + drop_bit 32 y) = unat (drop_bit 32 (x :: u64)) + unat (drop_bit 32 y)"
proof -
  have "unat (drop_bit 32 x) + unat (drop_bit 32 y) < 2 ^ 64"
    using unat_shift32_less[of x] unat_shift32_less[of y] by simp
  then show ?thesis by (subst unat_add_lem [THEN iffD1]) auto
qed

text \<open>The two accumulators add a multiple of \<open>n\<close> that makes the low digit of the sum zero.\<close>

lemma montMulAdd_first_digit:
  fixes a b0 c0 n0 :: u32 and A0 B0 :: u64
  assumes inv: "(unat (key_n0inv key) * unat n0 + 1) mod 2 ^ 32 = 0"
    and "A0 = ucast a * ucast b0 + ucast c0" "d0 = ucast A0 * key_n0inv key"
    and "B0 = ucast d0 * ucast n0 + ucast (ucast A0 :: u32)"
  shows "2 ^ 32 * (unat (drop_bit 32 A0) + unat (drop_bit 32 B0)) = unat a * unat b0 + unat c0 + unat d0 * unat n0"
proof -
  have A0: "unat A0 = unat a * unat b0 + unat c0"
    using unat_mac[of 0 a b0 c0] assms(2) by simp
  have B0: "unat B0 = unat d0 * unat n0 + unat (ucast A0 :: u32)"
    using unat_mac[of 0 d0 n0 "ucast A0"] assms(4) by simp
  have "unat d0 mod 2 ^ 32 = (unat A0 mod 2 ^ 32 * unat (key_n0inv key)) mod 2 ^ 32"
    by (simp add: assms(3) unat_word_ariths unat_low32)
  then have "unat B0 mod 2 ^ 32 = 0"
    using mont_low_zero[OF inv, of "unat d0" "unat A0"] by (simp only: B0 unat_low32)
  then have "unat (ucast B0 :: u32) = 0" by (simp only: unat_low32)
  then show ?thesis
    using low32_plus_shift32[of A0] low32_plus_shift32[of B0] A0 B0 by (simp only: distrib_left)
qed

text \<open>The accumulated digits \<open>c'\<close> with the overflow word \<open>h\<close> above them, before the subtraction.\<close>

lemma montMulAdd_accumulate:
  assumes ok: "key_ok key" and len: "length b = key_len key" "length c = key_len key"
  obtains c' h d0 where "montMulAdd key c a b = (if h \<noteq> 0 then rsa_subM key c' else c')"
    "length c' = key_len key"
    "2 ^ 32 * (bn c' + mont_R key * unat (h :: u64)) = bn c + unat a * bn b + unat (d0 :: u32) * bn (key_n key)"
proof -
  let ?L = "key_len key"
  from ok have L: "0 < ?L" "length (key_n key) = ?L"
    and inv: "(unat (key_n0inv key) * unat (key_n key ! 0) + 1) mod 2 ^ 32 = 0"
    by (auto simp: key_ok_def)
  obtain b0 bs where b: "b = b0 # bs" using len L by (cases b) auto
  obtain c0 cs where c: "c = c0 # cs" using len L by (cases c) auto
  obtain n0 ns where n: "key_n key = n0 # ns" using L by (cases "key_n key") auto
  have lens: "length bs = ?L - 1" "length cs = ?L - 1" "length ns = ?L - 1"
    using len L b c n by auto
  define A0 where "A0 = (ucast a * ucast b0 + ucast c0 :: u64)"
  define d0 where "d0 = (ucast A0 * key_n0inv key :: u32)"
  define B0 where "B0 = (ucast d0 * ucast n0 + ucast (ucast A0 :: u32) :: u64)"
  obtain r A1 B1 where loop: "montMulAdd_loop a d0 A0 B0 bs ns cs = (r, A1, B1)"
    by (metis prod_cases3)
  define Af where "Af = drop_bit 32 A1 + drop_bit 32 B1"
  define c' where "c' = r @ [ucast Af :: u32]"
  have first: "2 ^ 32 * (unat (drop_bit 32 A0) + unat (drop_bit 32 B0)) = unat a * unat b0 + unat c0 + unat d0 * unat n0"
    by (rule montMulAdd_first_digit[OF _ A0_def d0_def B0_def]) (use inv n in simp)
  have lr: "length r = ?L - 1" and val: "bn r + 2 ^ (32 * (?L - 1)) * unat Af =
      unat (drop_bit 32 A0) + unat (drop_bit 32 B0) + unat a * bn bs + unat d0 * bn ns + bn cs"
    using montMulAdd_loop_correct[OF _ _ loop] lens by (simp_all add: Af_def unat_add_shift32)
  have R: "mont_R key = 2 ^ (32 * (?L - 1)) * 2 ^ 32"
    using L by (cases "key_len key") (simp_all add: mont_R_def power_add)
  have "bn c' + mont_R key * unat (drop_bit 32 Af)
    = bn r + 2 ^ (32 * (?L - 1)) * (unat (ucast Af :: u32) + 2 ^ 32 * unat (drop_bit 32 Af))"
    by (simp add: c'_def bn_append lr R algebra_simps)
  also have "\<dots> = bn r + 2 ^ (32 * (?L - 1)) * unat Af" by (simp only: low32_plus_shift32)
  finally have "2 ^ 32 * (bn c' + mont_R key * unat (drop_bit 32 Af))
    = 2 ^ 32 * (unat (drop_bit 32 A0) + unat (drop_bit 32 B0)) + 2 ^ 32 * (unat a * bn bs + unat d0 * bn ns + bn cs)"
    by (simp only: val) (simp add: algebra_simps)
  then have "2 ^ 32 * (bn c' + mont_R key * unat (drop_bit 32 Af)) = bn c + unat a * bn b + unat d0 * bn (key_n key)"
    by (simp only: first) (simp add: b c n algebra_simps)
  moreover have "montMulAdd key c a b = (if drop_bit 32 Af \<noteq> 0 then rsa_subM key c' else c')"
    using loop lens len by (simp add: montMulAdd_def b c n A0_def[symmetric] d0_def[symmetric]
        B0_def[symmetric] Af_def[symmetric] c'_def[symmetric] Let_def)
  moreover have "length c' = ?L" using lr L by (simp add: c'_def)
  ultimately show ?thesis by (intro that)
qed

text \<open>One subtraction takes the overflow away.\<close>

lemma mont_overflow_sub:
  assumes "length c' = key_len key" "length (key_n key) = key_len key"
    and V: "bn c' + mont_R key * h < mont_R key + bn (key_n key)" and "h \<noteq> 0"
  shows "bn (rsa_subM key c') + bn (key_n key) = bn c' + mont_R key * h"
proof -
  let ?R = "mont_R key" and ?n = "bn (key_n key)"
  have n: "?n < ?R" using bn_less[of "key_n key"] assms(2) by (simp add: mont_R_def)
  have "h < 2"
  proof (rule ccontr)
    assume "\<not> ?thesis"
    then have "?R * 2 \<le> ?R * h" by (intro mult_le_mono) auto
    with V n show False by linarith
  qed
  with assms(4) have h: "h = 1" by simp
  have "int (bn (rsa_subM key c')) = (int (bn c') - int ?n) mod int ?R"
    by (rule rsa_subM_correct(2)) (use assms in auto)
  also have "\<dots> = (int (bn c') - int ?n + int ?R) mod int ?R" by simp
  also have "\<dots> = int (bn c') - int ?n + int ?R"
    using V h n by (intro mod_pos_pos_trivial) simp_all
  finally show ?thesis using h by simp
qed

lemma montMulAdd_correct:
  assumes ok: "key_ok key" and len: "length b = key_len key" "length c = key_len key"
  shows "length (montMulAdd key c a b) = key_len key \<and>
    (2 ^ 32 * bn (montMulAdd key c a b)) mod bn (key_n key) = (bn c + unat a * bn b) mod bn (key_n key)"
proof -
  let ?n = "bn (key_n key)" and ?R = "mont_R key"
  from ok have L: "length (key_n key) = key_len key" and RR: "?R \<le> 2 * ?n"
    by (auto simp: key_ok_def)
  obtain c' h d0 where res: "montMulAdd key c a b = (if h \<noteq> 0 then rsa_subM key c' else c')"
    and c': "length c' = key_len key"
    and V: "2 ^ 32 * (bn c' + ?R * unat (h :: u64)) = bn c + unat a * bn b + unat (d0 :: u32) * ?n"
    by (rule montMulAdd_accumulate[OF ok len])
  have "0 < ?R" by (simp add: mont_R_def)
  with RR have npos: "0 < ?n" by linarith
  have bounds: "bn c < ?R" "bn b < ?R"
    using bn_less[of c] bn_less[of b] len by (simp_all add: mont_R_def)
  have VR: "bn c' + ?R * unat h < ?R + ?n"
    by (rule mont_value_bound[OF V bounds u32_less u32_less npos])
  show ?thesis
  proof (cases "h = 0")
    case True
    then show ?thesis using res V c' by simp
  next
    case False
    then have "bn (rsa_subM key c') + ?n = bn c' + ?R * unat h"
      using mont_overflow_sub[OF c' L VR] by (simp add: unat_eq_0)
    then have "2 ^ 32 * bn (rsa_subM key c') + 2 ^ 32 * ?n = bn c + unat a * bn b + unat d0 * ?n"
      using V by (metis distrib_left)
    then have "(2 ^ 32 * bn (rsa_subM key c')) mod ?n = (bn c + unat a * bn b) mod ?n"
      by (metis mod_mult_self1)
    moreover have "length (rsa_subM key c') = key_len key" by (rule rsa_subM_correct(1)) (use c' L in auto)
    ultimately show ?thesis using False res by simp
  qed
qed

text \<open>\<open>montMul\<close>: after \<open>i\<close> digits of \<open>a\<close> the accumulator is \<open>a mod 2 ^ (32 i)\<close> times \<open>b\<close>, shifted.\<close>

lemma bn_take_Suc:
  "i < length a \<Longrightarrow> bn (take (Suc i) a) = bn (take i a) + 2 ^ (32 * i) * unat (a ! i)"
  by (simp add: take_Suc_conv_app_nth bn_append)

lemma montMul_prefix:
  assumes ok: "key_ok key" and len: "length a = key_len key" "length b = key_len key"
    and i: "i \<le> key_len key"
  shows "let c = foldl (\<lambda>c i. montMulAdd key c (a ! i) b) (replicate (key_len key) 0) [0..<i]
    in length c = key_len key \<and>
       (2 ^ (32 * i) * bn c) mod bn (key_n key) = (bn (take i a) * bn b) mod bn (key_n key)"
  using i
proof (induction i)
  case 0
  then show ?case by simp
next
  case (Suc i)
  let ?f = "\<lambda>c i. montMulAdd key c (a ! i) b" and ?n = "bn (key_n key)"
  define c where "c = foldl ?f (replicate (key_len key) 0) [0..<i]"
  define c1 where "c1 = montMulAdd key c (a ! i) b"
  have IH: "length c = key_len key" "(2 ^ (32 * i) * bn c) mod ?n = (bn (take i a) * bn b) mod ?n"
    using Suc by (simp_all add: c_def Let_def)
  have c1: "length c1 = key_len key" "(2 ^ 32 * bn c1) mod ?n = (bn c + unat (a ! i) * bn b) mod ?n"
    unfolding c1_def using montMulAdd_correct[OF ok len(2) IH(1), of "a ! i"] by simp_all
  have "(2 ^ (32 * Suc i) * bn c1) mod ?n = (2 ^ (32 * i) * (2 ^ 32 * bn c1)) mod ?n"
    by (simp add: power_add ac_simps)
  also have "\<dots> = (2 ^ (32 * i) * (bn c + unat (a ! i) * bn b)) mod ?n"
    using c1(2) by (metis mod_mult_right_eq)
  also have "\<dots> = (2 ^ (32 * i) * bn c + 2 ^ (32 * i) * unat (a ! i) * bn b) mod ?n"
    by (simp add: algebra_simps)
  also have "\<dots> = (bn (take i a) * bn b + 2 ^ (32 * i) * unat (a ! i) * bn b) mod ?n"
    using IH(2) by (metis mod_add_left_eq)
  also have "\<dots> = (bn (take (Suc i) a) * bn b) mod ?n"
    using Suc.prems len by (simp add: bn_take_Suc algebra_simps)
  finally show ?case using c1(1) by (simp add: c_def c1_def Let_def)
qed

lemma montMul_correct:
  assumes "key_ok key" "length a = key_len key" "length b = key_len key"
  shows "length (montMul key a b) = key_len key"
    and "(mont_R key * bn (montMul key a b)) mod bn (key_n key) = (bn a * bn b) mod bn (key_n key)"
  using montMul_prefix[OF assms order_refl] assms(2)
  by (simp_all add: montMul_def Let_def mont_R_def)

section \<open>Modular exponentiation\<close>

lemma mod_mult_cancel_coprime:
  fixes R x y n :: nat
  assumes "coprime R n" "(R * x) mod n = (R * y) mod n"
  shows "x mod n = y mod n"
proof -
  have "int n dvd int (R * x) - int (R * y)"
    using assms(2) by (metis mod_eq_dvd_iff zmod_int)
  then have "int n dvd int R * (int x - int y)" by (simp add: algebra_simps)
  then have "int n dvd int x - int y"
    using assms(1) by (simp add: coprime_commute coprime_dvd_mult_right_iff)
  then have "int x mod int n = int y mod int n" by (simp add: mod_eq_dvd_iff)
  then show ?thesis by (metis zmod_int of_nat_eq_iff)
qed

lemma key_coprime:
  assumes "key_ok key"
  shows "coprime (mont_R key) (bn (key_n key))"
proof -
  obtain n0 ns where n: "key_n key = n0 # ns" using assms by (cases "key_n key") (auto simp: key_ok_def)
  have inv: "(unat (key_n0inv key) * unat n0 + 1) mod 2 ^ 32 = 0"
    using assms n by (simp add: key_ok_def)
  have "odd (unat n0)"
  proof
    assume "even (unat n0)"
    then have "odd (unat (key_n0inv key) * unat n0 + 1)" by simp
    moreover have "even (unat (key_n0inv key) * unat n0 + 1)"
      using inv by (metis dvd_trans mod_0_imp_dvd dvd_power zero_less_numeral)
    ultimately show False by blast
  qed
  then have "odd (bn (key_n key))" by (simp add: n)
  then show ?thesis by (simp add: mont_R_def coprime_commute coprime_right_2_iff_odd)
qed

text \<open>\<open>x\<close> holds \<open>v\<close> in Montgomery form.\<close>

definition mont_form :: "RSAPublicKey \<Rightarrow> u32 list \<Rightarrow> nat \<Rightarrow> bool" where
  "mont_form key x v \<longleftrightarrow> length x = key_len key \<and> bn x mod bn (key_n key) = (v * mont_R key) mod bn (key_n key)"

lemma montMul_enter:
  assumes "key_ok key" "length a = key_len key"
  shows "mont_form key (montMul key a (key_rr key)) (bn a)"
proof -
  let ?n = "bn (key_n key)" and ?R = "mont_R key"
  have rr: "length (key_rr key) = key_len key" "bn (key_rr key) mod ?n = ?R\<^sup>2 mod ?n"
    using assms(1) by (auto simp: key_ok_def)
  have "(?R * bn (montMul key a (key_rr key))) mod ?n = (bn a * bn (key_rr key)) mod ?n"
    by (rule montMul_correct(2)) (use assms rr in auto)
  also have "\<dots> = (bn a * ?R\<^sup>2) mod ?n" using rr(2) by (metis mod_mult_right_eq)
  also have "bn a * ?R\<^sup>2 = ?R * (bn a * ?R)" by (simp add: power2_eq_square ac_simps)
  finally have eq: "(?R * bn (montMul key a (key_rr key))) mod ?n = (?R * (bn a * ?R)) mod ?n" .
  from mod_mult_cancel_coprime[OF key_coprime[OF assms(1)] eq] montMul_correct(1)[OF assms rr(1)]
  show ?thesis unfolding mont_form_def by blast
qed

lemma montMul_form:
  assumes "key_ok key" "mont_form key x v" "mont_form key y w"
  shows "mont_form key (montMul key x y) (v * w)"
proof -
  let ?n = "bn (key_n key)" and ?R = "mont_R key"
  have "(?R * bn (montMul key x y)) mod ?n = (bn x * bn y) mod ?n"
    by (rule montMul_correct(2)) (use assms in \<open>auto simp: mont_form_def\<close>)
  also have "\<dots> = ((v * ?R) * (w * ?R)) mod ?n"
    using assms(2,3) by (intro mod_mult_cong) (simp_all only: mont_form_def)
  also have "(v * ?R) * (w * ?R) = ?R * (v * w * ?R)" by (simp add: ac_simps)
  finally have eq: "(?R * bn (montMul key x y)) mod ?n = (?R * (v * w * ?R)) mod ?n" .
  have "length (montMul key x y) = key_len key"
    by (rule montMul_correct(1)) (use assms in \<open>auto simp: mont_form_def\<close>)
  with mod_mult_cancel_coprime[OF key_coprime[OF assms(1)] eq] show ?thesis
    unfolding mont_form_def by blast
qed

lemma montMul_leave:
  assumes "key_ok key" "mont_form key x v" "length a = key_len key"
  shows "length (montMul key x a) = key_len key \<and> bn (montMul key x a) mod bn (key_n key) = (v * bn a) mod bn (key_n key)"
proof -
  let ?n = "bn (key_n key)" and ?R = "mont_R key"
  have "(?R * bn (montMul key x a)) mod ?n = (bn x * bn a) mod ?n"
    by (rule montMul_correct(2)) (use assms in \<open>auto simp: mont_form_def\<close>)
  also have "\<dots> = (v * ?R * bn a) mod ?n"
    using assms(2) by (intro mod_mult_cong) (simp_all only: mont_form_def)
  also have "v * ?R * bn a = ?R * (v * bn a)" by (simp add: ac_simps)
  finally have eq: "(?R * bn (montMul key x a)) mod ?n = (?R * (v * bn a)) mod ?n" .
  have "length (montMul key x a) = key_len key"
    by (rule montMul_correct(1)) (use assms in \<open>auto simp: mont_form_def\<close>)
  with mod_mult_cancel_coprime[OF key_coprime[OF assms(1)] eq] show ?thesis by blast
qed

lemma square_twice_form:
  assumes "key_ok key" "mont_form key x v"
  shows "mont_form key ((square_twice key ^^ k) x) (v ^ (4 ^ k))"
proof (induction k)
  case (Suc k)
  have "4 ^ k + 4 ^ k + (4 ^ k + 4 ^ k) = (4 :: nat) ^ Suc k" by simp
  then have "v ^ 4 ^ k * v ^ 4 ^ k * (v ^ 4 ^ k * v ^ 4 ^ k) = v ^ 4 ^ Suc k"
    by (simp only: flip: power_add)
  with montMul_form[OF assms(1) montMul_form[OF assms(1) Suc Suc] montMul_form[OF assms(1) Suc Suc]]
  show ?case by (simp add: square_twice_def Let_def)
qed (use assms in simp)

text \<open>\<open>geM\<close> compares the numbers, and one conditional subtraction reduces.\<close>

lemma geM_loop_correct:
  assumes "i \<le> length n" "i \<le> length a"
  shows "geM_loop n a i = (bn (take i n) \<le> bn (take i a))"
  using assms
proof (induction i)
  case 0
  then show ?case by simp
next
  case (Suc i)
  have lt: "bn (take i n) < 2 ^ (32 * i)" "bn (take i a) < 2 ^ (32 * i)"
    using bn_less[of "take i n"] bn_less[of "take i a"] Suc.prems by simp_all
  have step: "x + M * p < y + M * q" if "p < q" "x < M" for x y M p q :: nat
  proof -
    have "x + M * p < M * Suc p" using that by simp
    also have "\<dots> \<le> M * q" using that by (intro mult_le_mono) auto
    finally show ?thesis by simp
  qed
  show ?case
    using Suc step[of "unat (a ! i)" "unat (n ! i)" "bn (take i a)" "2 ^ (32 * i)" "bn (take i n)"]
      step[of "unat (n ! i)" "unat (a ! i)" "bn (take i n)" "2 ^ (32 * i)" "bn (take i a)"] lt
    by (auto simp: bn_take_Suc word_less_nat_alt word_unat_eq_iff not_less dest: order_antisym)
qed

lemma final_reduction:
  assumes ok: "key_ok key" and len: "length x = key_len key"
  shows "let y = (if geM key x then rsa_subM key x else x)
    in length y = key_len key \<and> bn y = bn x mod bn (key_n key)"
proof -
  let ?n = "bn (key_n key)" and ?R = "mont_R key"
  have n: "length (key_n key) = key_len key" and RR: "?R \<le> 2 * ?n" using ok by (auto simp: key_ok_def)
  have x: "bn x < ?R" using bn_less[of x] len by (simp add: mont_R_def)
  have ge: "geM key x = (?n \<le> bn x)"
    using geM_loop_correct[of "key_len key" "key_n key" x] n len by (simp add: geM_def)
  show ?thesis
  proof (cases "?n \<le> bn x")
    case True
    have "int (bn (rsa_subM key x)) = (int (bn x) - int ?n) mod int ?R"
      by (rule rsa_subM_correct(2)) (use len n in auto)
    also have "\<dots> = int (bn x) - int ?n" using True x by (intro mod_pos_pos_trivial) auto
    finally have "bn (rsa_subM key x) = bn x - ?n" using True by linarith
    moreover have "bn x mod ?n = bn x - ?n"
      using True x RR by (simp add: le_mod_geq)
    ultimately show ?thesis using True ge rsa_subM_correct(1)[OF len n] by simp
  next
    case False
    then show ?thesis using ge len by simp
  qed
qed

lemma modpow_power:
  assumes ok: "key_ok key" and e: "key_exponent key = 3 \<or> key_exponent key = 65537"
    and len: "length inout = 4 * key_len key"
  shows "\<exists>out. modpow key inout = Some out \<and> length out = length inout \<and>
    be_val out = be_val inout ^ nat (key_exponent key) mod bn (key_n key)"
proof -
  let ?n = "bn (key_n key)" and ?v = "be_val inout"
  define a where "a = be_digits (key_len key) inout"
  have a: "length a = key_len key" "bn a = ?v" using len by (simp_all add: a_def bn_be_digits)
  define aR where "aR = montMul key a (key_rr key)"
  have aR: "mont_form key aR ?v" using montMul_enter[OF ok a(1)] a by (simp add: aR_def)
  define aaa where "aaa = (if key_exponent key = 65537 then montMul key (((square_twice key) ^^ 8) aR) a
    else montMul key (montMul key aR aR) a)"
  have aaa: "length aaa = key_len key \<and> bn aaa mod ?n = ?v ^ nat (key_exponent key) mod ?n"
  proof (cases "key_exponent key = 65537")
    case True
    have "mont_form key (((square_twice key) ^^ 8) aR) (?v ^ 65536)"
      using square_twice_form[OF ok aR, of 8] by simp
    from montMul_leave[OF ok this a(1)] True show ?thesis
      by (simp add: aaa_def a(2) flip: power_Suc2)
  next
    case False
    from montMul_leave[OF ok montMul_form[OF ok aR aR] a(1)] False e show ?thesis
      by (simp add: aaa_def a(2) numeral_3_eq_3 mult.assoc)
  qed
  define y where "y = (if geM key aaa then rsa_subM key aaa else aaa)"
  have y: "length y = key_len key" "bn y = ?v ^ nat (key_exponent key) mod ?n"
    using final_reduction[OF ok, of aaa] aaa by (simp_all add: y_def Let_def)
  have "modpow key inout = Some (concat (map be32_bytes (rev y)))"
    using e y(1) by (auto simp: modpow_def Let_def aaa_def y_def aR_def a_def)
  then show ?thesis using y len by (auto simp: be_val_store)
qed

section \<open>Signature verification\<close>

text \<open>The hash bytes are xored onto the tail of the decoded signature.\<close>

definition xor_tail :: "u8 list \<Rightarrow> u8 list \<Rightarrow> u8 list" where
  "xor_tail em hash = take (length em - length hash) em @ map2 (XOR) (drop (length em - length hash) em) hash"

lemma length_md_digest_sha:
  "length (md_digest fips1_compress fips1_H0 m) = 20"
  "length (md_digest fips256_compress fips256_H0 m) = 32"
  by (simp_all add: md_digest_def length_absorb fips1_H0_def fips256_H0_def)

lemma SHA_hash_digest: "ctx_ok ctx \<Longrightarrow> SHA_hash ctx m = md_digest fips1_compress fips1_H0 m"
  using SHA_stream[OF SHA_init_represents, of ctx "[m]"] by (simp add: SHA_hash_def)

lemma SHA256_hash_digest: "ctx_ok ctx \<Longrightarrow> SHA256_hash ctx m = md_digest fips256_compress fips256_H0 m"
  using SHA256_stream[OF SHA256_init_represents, of ctx "[m]"] by (simp add: SHA256_hash_def)

lemma RSA_verify_power:
  assumes "ctx_ok ctx" and ok: "key_ok key"
  shows "RSA_verify ctx key sig hash \<longleftrightarrow>
    key_len key = RSANUMWORDS \<and> length sig = RSANUMBYTES \<and>
    (key_exponent key = 3 \<or> key_exponent key = 65537) \<and>
    (\<exists>em. length em = RSANUMBYTES \<and>
       be_val em = be_val sig ^ nat (key_exponent key) mod bn (key_n key) \<and>
       (length hash = SHA_DIGEST_SIZE \<and>
          md_digest fips1_compress fips1_H0 (xor_tail em hash) = kExpectedPadShaRsa2048 \<or>
        length hash = SHA256_DIGEST_SIZE \<and>
          md_digest fips256_compress fips256_H0 (xor_tail em hash) = kExpectedPadSha256Rsa2048))"
    (is "?lhs \<longleftrightarrow> ?rhs")
proof (cases "key_len key = RSANUMWORDS \<and> length sig = RSANUMBYTES \<and> (key_exponent key = 3 \<or> key_exponent key = 65537)")
  case False
  then show ?thesis by (auto simp: RSA_verify_def Let_def)
next
  case True
  then obtain em where em: "modpow key sig = Some em" "length em = RSANUMBYTES"
    "be_val em = be_val sig ^ nat (key_exponent key) mod bn (key_n key)"
    using modpow_power[OF ok, of sig] by (auto simp: RSANUMWORDS_def RSANUMBYTES_def)
  have uniq: "em' = em" if "length em' = RSANUMBYTES"
    "be_val em' = be_val sig ^ nat (key_exponent key) mod bn (key_n key)" for em'
    by (rule be_val_inj) (use that em in auto)
  have "?lhs \<longleftrightarrow>
    (length hash = SHA_DIGEST_SIZE \<and>
       md_digest fips1_compress fips1_H0 (xor_tail em hash) = kExpectedPadShaRsa2048 \<or>
     length hash = SHA256_DIGEST_SIZE \<and>
       md_digest fips256_compress fips256_H0 (xor_tail em hash) = kExpectedPadSha256Rsa2048)"
    using True em(1,2) assms(1)
    by (auto simp: RSA_verify_def Let_def xor_tail_def SHA_hash_digest SHA256_hash_digest length_md_digest_sha
        SHA_DIGEST_SIZE_def SHA256_DIGEST_SIZE_def)
  then show ?thesis using True em uniq by blast
qed

text \<open>
  C22. \<open>RSA_verify\<close> accepts exactly when the key is a 2048-bit key with a supported exponent, the
  signature has 256 bytes, the hash 20 or 32 bytes, and the \<open>e\<close>-th power of the signature modulo
  \<open>n\<close>, written in 256 bytes with the hash xored onto its tail, has the expected SHA-1 or SHA-256
  padding digest.
\<close>

theorem RSA_verify_iff:
  assumes "ctx_ok ctx" and ok: "key_ok key"
  shows "RSA_verify ctx key sig hash \<longleftrightarrow>
    key_len key = RSANUMWORDS \<and> length sig = RSANUMBYTES \<and>
    (key_exponent key = 3 \<or> key_exponent key = 65537) \<and>
    (\<exists>em. length em = RSANUMBYTES \<and>
       be_val em = be_val sig ^ nat (key_exponent key) mod bn (key_n key) \<and>
       (length hash = SHA_DIGEST_SIZE \<and>
          md_digest fips1_compress fips1_H0 (xor_tail em hash) = kExpectedPadShaRsa2048 \<or>
        length hash = SHA256_DIGEST_SIZE \<and>
          md_digest fips256_compress fips256_H0 (xor_tail em hash) = kExpectedPadSha256Rsa2048))"
  using assms by (rule RSA_verify_power)

text \<open>A 2048-bit key whose modulus has all bits set: \<open>R mod n\<close> is 1, and so is \<open>rr\<close>.\<close>

definition ones_key :: RSAPublicKey where
  "ones_key = \<lparr>key_len = 64, key_n0inv = 1, key_n = replicate 64 0xffffffff,
     key_rr = 1 # replicate 63 0, key_exponent = 3\<rparr>"

lemma bn_ones: "bn (replicate k 0xffffffff) + 1 = 2 ^ (32 * k)"
  by (induction k) (simp_all add: power_add)

lemma ones_key_ok: "key_ok ones_key"
proof -
  let ?n = "bn (replicate 64 0xffffffff)"
  have R: "mont_R ones_key = ?n + 1"
    using bn_ones[of 64] by (simp add: mont_R_def ones_key_def)
  have "(?n + 1)\<^sup>2 = 1 + ?n * (?n + 2)" by (simp add: power2_eq_square algebra_simps)
  then have "(?n + 1)\<^sup>2 mod ?n = 1 mod ?n" by (metis mod_mult_self2)
  moreover have "bn (1 # replicate 63 0) = 1" by simp
  moreover have "1 \<le> ?n" using bn_ones[of 64] by simp
  ultimately show ?thesis
    unfolding key_ok_def R by (simp add: ones_key_def del: replicate.simps)
qed

theorem RSA_verify_witness:
  "RSA_verify stack_ctx ones_key (replicate 255 0 @ [2]) (replicate 20 0) \<longleftrightarrow>
    (\<exists>em. length em = 256 \<and> be_val em = 8 \<and> md_digest fips1_compress fips1_H0 (xor_tail em (replicate 20 0)) = kExpectedPadShaRsa2048)"
proof -
  have "be_val (replicate k 0) = 0" for k by (induction k) (simp_all add: be_val_def)
  then have v: "be_val (replicate 255 0 @ [2]) = 2" by (simp only: be_val_append) (simp add: be_val_def)
  have "8 < bn (replicate 64 0xffffffff)" using bn_ones[of 64] by simp
  then have m: "be_val (replicate 255 0 @ [2]) ^ nat (key_exponent ones_key) mod bn (key_n ones_key) = 8"
    unfolding v by (simp add: ones_key_def del: replicate.simps)
  have "ctx_ok stack_ctx" by (simp add: stack_ctx_def ctx_ok_def)
  from RSA_verify_iff[OF this ones_key_ok, of "replicate 255 0 @ [2]" "replicate 20 0", unfolded m] show ?thesis
    by (simp add: RSANUMWORDS_def RSANUMBYTES_def SHA_DIGEST_SIZE_def SHA256_DIGEST_SIZE_def
      ones_key_def del: replicate.simps)
qed

end
