(* ===== verification/P256.thy ===== *)
theory P256
  imports Digits
begin

text \<open>
  256-bit modular arithmetic of libmincrypt (\<^verbatim>\<open>p256.c\<close>): digit-array helpers, comparison,
  addition and subtraction, modular multiplication by digit-wise reduction, the binary
  Euclid inversion, and the curve equation check. The \<open>assert\<close>s of the source are \<open>None\<close>
  results; the theorems show they never fire.
\<close>

section \<open>The code\<close>

type_synonym p256_digit = u32
type_synonym p256_int = "u32 list" \<comment> \<open>\<open>P256_NDIGITS\<close> digits, least significant first\<close>

definition P256_NDIGITS :: nat where "P256_NDIGITS = 8"
definition P256_NBYTES :: nat where "P256_NBYTES = 32"

definition SECP256r1_n :: p256_int where
  "SECP256r1_n = [0xfc632551, 0xf3b9cac2, 0xa7179e84, 0xbce6faad, -1, -1, 0, -1]"

definition SECP256r1_p :: p256_int where
  "SECP256r1_p = [-1, -1, -1, 0, 0, 0, 1, -1]"

definition SECP256r1_b :: p256_int where
  "SECP256r1_b = [0x27d2604b, 0x3bce3c3e, 0xcc53b0f6, 0x651d06b0,
                  0x769886bc, 0xb3ebbd55, 0xaa3a93e7, 0x5ac635d8]"

definition p256_init :: "p256_int" where
  "p256_init = replicate 8 0"

definition p256_clear :: "p256_int" where
  "p256_clear = p256_init"

definition P256_ZERO :: "p256_int" where "P256_ZERO = replicate 8 0"
definition P256_ONE :: "p256_int" where "P256_ONE = 1 # replicate 7 0"

definition p256_get_bit :: "p256_int \<Rightarrow> nat \<Rightarrow> u32" where
  "p256_get_bit scalar k = drop_bit (k mod 32) (scalar ! (k div 32)) AND 1"

definition p256_is_zero :: "p256_int \<Rightarrow> bool" where
  "p256_is_zero a = (foldl (OR) 0 a = 0)"

text \<open>\<open>tp, c[] += a[] * b\<close>: the new digits and the new top (\<open>tp\<close>).\<close>

definition mulAdd :: "p256_int \<Rightarrow> p256_digit \<Rightarrow> p256_digit \<Rightarrow> u32 list \<Rightarrow> u32 list \<times> p256_digit" where
  "mulAdd a b tp c = (let (c, carry) = mac_digits 0 a b c in (c, tp + ucast carry))"

text \<open>\<open>tp, c[] -= top_a, a[]\<close>; \<open>None\<close> where \<open>assert((borrow >> P256_BITSPERDIGIT) == 0)\<close> fails.\<close>

definition subTop :: "p256_digit \<Rightarrow> u32 list \<Rightarrow> p256_digit \<Rightarrow> u32 list \<Rightarrow> (u32 list \<times> p256_digit) option" where
  "subTop top_a a top_c c =
     (let (c, borrow) = sub_digits 0 c a;
          borrow = borrow + ucast top_c - ucast top_a
      in if signed_drop_bit 32 borrow = 0 then Some (c, ucast borrow) else None)"

text \<open>\<open>tp, c[] -= MOD[] & msk\<close> and \<open>tp, c[] += MOD[] & msk\<close>.\<close>

definition subM :: "p256_int \<Rightarrow> p256_digit \<Rightarrow> u32 list \<Rightarrow> p256_digit \<Rightarrow> u32 list \<times> p256_digit" where
  "subM MOD tp c msk = (let (c, borrow) = sub_digits 0 c (map (\<lambda>d. d AND msk) MOD) in (c, tp + ucast borrow))"

definition addM :: "p256_int \<Rightarrow> p256_digit \<Rightarrow> u32 list \<Rightarrow> p256_digit \<Rightarrow> u32 list \<times> p256_digit" where
  "addM MOD tp c msk = (let (c, carry) = add_digits 0 c (map (\<lambda>d. d AND msk) MOD) in (c, tp + ucast carry))"

text \<open>The eight digits of the work array from position \<open>i\<close>, read and written.\<close>

definition window :: "nat \<Rightarrow> u32 list \<Rightarrow> u32 list" where
  "window i tmp = take 8 (drop i tmp)"

definition set_window :: "nat \<Rightarrow> u32 list \<Rightarrow> u32 list \<Rightarrow> u32 list" where
  "set_window i tmp c = take i tmp @ c @ drop (i + 8) tmp"

definition modmul_mul :: "p256_int \<Rightarrow> p256_digit list \<Rightarrow> nat \<Rightarrow> u32 list \<times> p256_digit \<Rightarrow> u32 list \<times> p256_digit" where
  "modmul_mul a b i = (\<lambda>(tmp, tp).
     let tmp = (if i \<noteq> 0 then tmp[i + 7 := tp] else tmp);
         (c, tp) = mulAdd a (b ! i) 0 (window i tmp)
     in (set_window i tmp c, tp))"

text \<open>The reduction loop \<open>for (; i >= 0; --i)\<close>; the argument is \<open>i + 1\<close>.\<close>

fun modmul_reduce :: "p256_int \<Rightarrow> nat \<Rightarrow> u32 list \<Rightarrow> p256_digit \<Rightarrow> u32 list option" where
  "modmul_reduce MOD 0 tmp tp = Some tmp"
| "modmul_reduce MOD (Suc i) tmp tp =
     (let (reducer, top_reducer) = mulAdd MOD tp 0 (replicate 8 0) in
      case subTop top_reducer reducer tp (window i tmp) of
        None \<Rightarrow> None
      | Some (c, tp) \<Rightarrow>
          if \<not> tp \<le> 1 then None
          else let (c, tp) = subM MOD tp c (NOT (tp - 1));
                   tmp = set_window i tmp c
               in if tp \<noteq> 0 then None else modmul_reduce MOD i tmp (tmp ! (i + 7)))"

text \<open>
  \<open>c = a * b mod MOD\<close>, where \<open>b\<close> has the ninth digit \<open>top_b\<close>. The products of the digits of \<open>b\<close> and
  of \<open>top_b\<close> go through the same code, first the loop, then once more after it.
\<close>

definition p256_modmul :: "p256_int \<Rightarrow> p256_int \<Rightarrow> p256_digit \<Rightarrow> p256_int \<Rightarrow> p256_int option" where
  "p256_modmul MOD a top_b b =
     (let (tmp, tp) = foldl (\<lambda>s i. modmul_mul a b i s) (replicate 17 0, 0) [0..<8];
          tmp = tmp[8 + 7 := tp];
          (c, tp) = mulAdd a top_b 0 (window 8 tmp);
          tmp = set_window 8 tmp c
      in case modmul_reduce MOD 9 tmp tp of
           None \<Rightarrow> None
         | Some tmp \<Rightarrow>
             let (c, msk) = subM MOD 0 (take 8 tmp) (-1);
                 (c, _) = addM MOD 0 c msk
             in Some c)"

definition p256_is_odd :: "p256_int \<Rightarrow> bool" where
  "p256_is_odd a = (a ! 0 AND 1 \<noteq> 0)"

definition p256_is_even :: "p256_int \<Rightarrow> bool" where
  "p256_is_even a = (\<not> (a ! 0 AND 1 \<noteq> 0))"

text \<open>
  Shifts by \<open>n % P256_BITSPERDIGIT\<close> bits. A count that is a multiple of 32 makes the source shift a
  32-bit digit by 32, which C leaves undefined: \<open>None\<close>.
\<close>

definition p256_shl :: "p256_int \<Rightarrow> nat \<Rightarrow> (p256_int \<times> p256_digit) option" where
  "p256_shl a n =
     (let n = n mod 32 in
      if n = 0 then None
      else let b = push_bit n (a ! 0) #
                   map (\<lambda>i. push_bit n (a ! i) OR drop_bit (32 - n) (a ! (i - 1))) [1..<8];
               tp = ucast (drop_bit 32 (push_bit n (ucast (a ! 7) :: u64)))
           in Some (b, tp))"

definition p256_shr :: "p256_int \<Rightarrow> nat \<Rightarrow> p256_int option" where
  "p256_shr a n =
     (let n = n mod 32 in
      if n = 0 then None
      else Some (map (\<lambda>i. drop_bit n (a ! i) OR push_bit (32 - n) (a ! (i + 1))) [0..<7] @ [drop_bit n (a ! 7)]))"

definition p256_shr1 :: "p256_int \<Rightarrow> u32 \<Rightarrow> p256_int" where
  "p256_shr1 a highbit =
     map (\<lambda>i. drop_bit 1 (a ! i) OR push_bit 31 (a ! (i + 1))) [0..<7] @
     [drop_bit 1 (a ! 7) OR push_bit 31 highbit]"

text \<open>The digits of \<open>a - b\<close> with the running borrow, and whether any of them is not zero.\<close>

fun cmp_loop :: "u64 \<Rightarrow> u32 \<Rightarrow> u32 list \<Rightarrow> u32 list \<Rightarrow> u64 \<times> u32" where
  "cmp_loop borrow notzero (a # as) (b # bs) =
     (let borrow = borrow + (ucast a - ucast b);
          notzero = notzero OR (if (ucast borrow :: u32) \<noteq> 0 then 1 else 0)
      in cmp_loop (signed_drop_bit 32 borrow) notzero as bs)"
| "cmp_loop borrow notzero _ _ = (borrow, notzero)"

definition p256_cmp :: "p256_int \<Rightarrow> p256_int \<Rightarrow> int" where
  "p256_cmp a b = (let (borrow, notzero) = cmp_loop 0 0 a b in sint (ucast borrow OR notzero :: u32))"

text \<open>\<open>c = a - b\<close> and the borrow (0 or -1); \<open>c = a + b\<close> and the carry (0 or 1).\<close>

definition p256_sub :: "p256_int \<Rightarrow> p256_int \<Rightarrow> p256_int \<times> int" where
  "p256_sub a b = (let (c, borrow) = sub_digits 0 a b in (c, sint (ucast borrow :: u32)))"

definition p256_add :: "p256_int \<Rightarrow> p256_int \<Rightarrow> p256_int \<times> u32" where
  "p256_add a b = (let (c, carry) = add_digits 0 a b in (c, ucast carry))"

fun add_d_loop :: "u64 \<Rightarrow> u32 list \<Rightarrow> u32 list \<times> u64" where
  "add_d_loop carry [] = ([], carry)"
| "add_d_loop carry (a # as) =
     (let carry = carry + ucast a;
          (r, carry') = add_d_loop (drop_bit 32 carry) as
      in (ucast carry # r, carry'))"

definition p256_add_d :: "p256_int \<Rightarrow> p256_digit \<Rightarrow> p256_int \<times> u32" where
  "p256_add_d a d = (let (b, carry) = add_d_loop (ucast d) a in (b, ucast carry))"

definition p256_mod :: "p256_int \<Rightarrow> p256_int \<Rightarrow> p256_int" where
  "p256_mod MOD a =
     (let (c, msk) = subM MOD 0 a (-1);
          (c, _) = addM MOD 0 c msk
      in c)"

text \<open>
  \<open>b = 1/a mod MOD\<close>, binary Euclid. The loop has no bound in the source and runs forever on
  \<open>a = 0\<close>: not returning is \<open>None\<close>.
\<close>

definition halve_mod :: "p256_int \<Rightarrow> p256_int \<Rightarrow> p256_int" where
  "halve_mod MOD R =
     (if p256_is_even R then p256_shr1 R 0
      else let (R, carry) = p256_add R MOD in p256_shr1 R carry)"

definition sub_mod :: "p256_int \<Rightarrow> p256_int \<Rightarrow> p256_int \<Rightarrow> p256_int" where
  "sub_mod MOD S R = (let (S, borrow) = p256_sub S R in if borrow \<noteq> 0 then fst (p256_add S MOD) else S)"

partial_function (option) modinv_loop ::
  "p256_int \<Rightarrow> p256_int \<Rightarrow> p256_int \<Rightarrow> p256_int \<Rightarrow> p256_int \<Rightarrow> p256_int option" where
  "modinv_loop MOD R S U V =
     (if p256_is_even U then modinv_loop MOD (halve_mod MOD R) S (p256_shr1 U 0) V
      else if p256_is_even V then modinv_loop MOD R (halve_mod MOD S) U (p256_shr1 V 0)
      else if snd (p256_sub V U) = 0 then
        (let V = fst (p256_sub V U); S = sub_mod MOD S R
         in if p256_is_zero V then Some R else modinv_loop MOD R S U V)
      else modinv_loop MOD (sub_mod MOD R S) S (fst (p256_sub U V)) V)"

definition p256_modinv_vartime :: "p256_int \<Rightarrow> p256_int \<Rightarrow> p256_int option" where
  "p256_modinv_vartime MOD a =
     (case modinv_loop MOD P256_ZERO P256_ONE MOD a of
        None \<Rightarrow> None
      | Some R \<Rightarrow> Some (p256_mod MOD R))"

text \<open>\<open>y\<^sup>2 = x\<^sup>3 - 3 x + b\<close> modulo \<open>p\<close>, with \<open>0 < x < p\<close> and \<open>0 < y < p\<close>.\<close>

definition p256_is_valid_point :: "p256_int \<Rightarrow> p256_int \<Rightarrow> bool option" where
  "p256_is_valid_point x y =
     (if p256_cmp SECP256r1_p x \<le> 0 \<or> p256_cmp SECP256r1_p y \<le> 0 \<or> p256_is_zero x \<or> p256_is_zero y
      then Some False
      else case p256_modmul SECP256r1_p y 0 y of None \<Rightarrow> None | Some y2 \<Rightarrow>
        (case p256_modmul SECP256r1_p x 0 x of None \<Rightarrow> None | Some x3 \<Rightarrow>
        (case p256_modmul SECP256r1_p x 0 x3 of None \<Rightarrow> None | Some x3 \<Rightarrow>
          let x3 = sub_mod SECP256r1_p x3 x;
              x3 = sub_mod SECP256r1_p x3 x;
              x3 = sub_mod SECP256r1_p x3 x;
              (x3, carry) = p256_add x3 SECP256r1_b;
              x3 = (if carry \<noteq> 0 then fst (p256_sub x3 SECP256r1_p) else x3)
          in Some (p256_cmp y2 x3 = 0))))"

definition p256_from_bin :: "u8 list \<Rightarrow> p256_int" where
  "p256_from_bin src = be_digits 8 src"

section \<open>Subtraction, addition and masks\<close>

abbreviation M256 :: nat where "M256 \<equiv> 2 ^ 256"

definition p256_ok :: "p256_int \<Rightarrow> bool" where
  "p256_ok a \<longleftrightarrow> length a = 8"

lemma p256_less: "p256_ok a \<Longrightarrow> bn a < M256"
  using bn_less[of a] by (simp add: p256_ok_def)

lemma int_bn_less: "length c = 8 \<Longrightarrow> int (bn c) < 2 ^ 256"
  using bn_less[of c] by simp

text \<open>The two moduli of the library, and every modulus \<open>p256_modmul\<close> is meant for: top digit all ones.\<close>

definition mod_ok :: "p256_int \<Rightarrow> bool" where
  "mod_ok MOD \<longleftrightarrow> p256_ok MOD \<and> M256 \<le> bn MOD + 2 ^ 224"

lemma mod_okD: "mod_ok MOD \<Longrightarrow> length MOD = 8 \<and> bn MOD < M256 \<and> M256 - 2 ^ 224 \<le> bn MOD"
  using p256_less[of MOD] by (auto simp: mod_ok_def p256_ok_def)

lemma sint_borrow: "sint (b :: u64) \<in> {-1, 0} \<Longrightarrow> b = -1 \<or> b = 0"
proof -
  assume "sint b \<in> {-1, 0}"
  then have "sint b = -1 \<or> sint b = 0" by blast
  moreover have b: "(of_int (sint b) :: u64) = b" by simp
  ultimately show ?thesis using b[symmetric] by (elim disjE) simp_all
qed

lemma ucast_borrow [simp]: "ucast (-1 :: u64) = (-1 :: u32)"
  by (rule bit_word_eqI) (simp add: bit_simps)

lemma map_mask [simp]: "map (\<lambda>d. d AND (-1 :: u32)) MOD = MOD" "bn (map (\<lambda>d. 0) MOD) = 0"
  by (induction MOD) simp_all

lemma subM_correct:
  assumes "length c = length MOD"
  shows "\<exists>r b. subM MOD tp c msk = (r, tp + b) \<and> length r = length c \<and>
    (b = 0 \<and> int (bn r) = int (bn c) - int (bn (map (\<lambda>d. d AND msk) MOD)) \<or>
     b = -1 \<and> int (bn r) = int (bn c) - int (bn (map (\<lambda>d. d AND msk) MOD)) + 2 ^ (32 * length c))"
proof -
  obtain r b where r: "sub_digits 0 c (map (\<lambda>d. d AND msk) MOD) = (r, b)" by fastforce
  have *: "length r = length c" "sint b \<in> {-1, 0}"
    "int (bn r) + 2 ^ (32 * length c) * sint b = int (bn c) - int (bn (map (\<lambda>d. d AND msk) MOD))"
    using sub_digits_correct[OF _ _ r] assms by simp_all
  from sint_borrow[OF *(2)] show ?thesis
  proof
    assume "b = -1"
    then show ?thesis using r * by (intro exI[of _ r] exI[of _ "-1"]) (simp add: subM_def)
  next
    assume "b = 0"
    then show ?thesis using r * by (intro exI[of _ r] exI[of _ 0]) (simp add: subM_def)
  qed
qed

lemma addM_correct:
  assumes "length c = length MOD"
  shows "\<exists>r k. addM MOD tp c msk = (r, tp + ucast k) \<and> length r = length c \<and> unat (k :: u64) \<le> 1 \<and>
    bn r + 2 ^ (32 * length c) * unat k = bn c + bn (map (\<lambda>d. d AND msk) MOD)"
proof -
  obtain r k where r: "add_digits 0 c (map (\<lambda>d. d AND msk) MOD) = (r, k)" by fastforce
  show ?thesis using add_digits_correct[OF _ _ r] assms r
    by (intro exI[of _ r] exI[of _ k]) (simp add: addM_def)
qed

text \<open>Subtract the modulus and add it back if that borrowed: one conditional reduction.\<close>

lemma cond_reduce:
  assumes "length c = 8" "length MOD = 8"
  shows "\<exists>r. (let (c', msk) = subM MOD 0 c (-1); (c'', _) = addM MOD 0 c' msk in c'') = r
    \<and> length r = 8 \<and> bn r = (if bn MOD \<le> bn c then bn c - bn MOD else bn c)"
proof -
  obtain r b where s: "subM MOD 0 c (-1) = (r, b)" "length r = 8" and
    cases: "b = 0 \<and> int (bn r) = int (bn c) - int (bn MOD) \<or>
      b = -1 \<and> int (bn r) = int (bn c) - int (bn MOD) + 2 ^ 256"
    using subM_correct[of c MOD 0 "-1"] assms by auto
  obtain r2 k where a: "addM MOD 0 r b = (r2, ucast k)" "length r2 = 8" "unat (k :: u64) \<le> 1"
    "bn r2 + 2 ^ 256 * unat k = bn r + bn (map (\<lambda>d. d AND b) MOD)"
    using addM_correct[of r MOD 0 b] assms s by auto
  have lt: "bn r < 2 ^ 256" "bn r2 < 2 ^ 256" "bn c < 2 ^ 256"
    using bn_less[of r] bn_less[of r2] bn_less[of c] s a assms by simp_all
  have "bn r2 = (if bn MOD \<le> bn c then bn c - bn MOD else bn c)"
    using cases
  proof
    assume b: "b = 0 \<and> int (bn r) = int (bn c) - int (bn MOD)"
    then have "bn r2 + 2 ^ 256 * unat k = bn r" using a by simp
    with lt have "bn r2 = bn r" by (cases "unat k") auto
    with b show ?thesis by auto
  next
    assume b: "b = -1 \<and> int (bn r) = int (bn c) - int (bn MOD) + 2 ^ 256"
    then have "bn r2 + 2 ^ 256 * unat k = bn r + bn MOD" using a by simp
    moreover have sum: "bn r + bn MOD = bn c + 2 ^ 256"
    proof -
      have "int (bn r + bn MOD) = int (bn c + 2 ^ 256)" using b by simp
      then show ?thesis by (simp only: of_nat_eq_iff)
    qed
    ultimately have eq: "bn r2 + 2 ^ 256 * unat k = bn c + 2 ^ 256" by simp
    then have "unat k = 1" using lt a(3) by (cases "unat k") auto
    then have "bn r2 = bn c" using eq by simp
    moreover have "bn c < bn MOD" using sum lt(1) by linarith
    ultimately show ?thesis by simp
  qed
  then show ?thesis using s a by simp
qed

section \<open>Modular multiplication\<close>

lemma mulAdd_correct:
  assumes "length a = length c" "mulAdd a b 0 c = (r, t)"
  shows "length r = length c \<and> bn r + 2 ^ (32 * length c) * unat t = bn c + bn a * unat b"
proof -
  obtain k where m: "mac_digits 0 a b c = (r, k)" and t: "t = ucast k"
    using assms(2) by (auto simp: mulAdd_def split: prod.splits)
  have *: "length r = length c" "unat k < 2 ^ 32" "bn r + 2 ^ (32 * length c) * unat k = bn c + bn a * unat b"
    using mac_digits_correct[OF assms(1) _ m] by simp_all
  then show ?thesis by (simp add: t unat_low32)
qed

lemma bn_take_window:
  assumes "i + 8 \<le> length tmp"
  shows "bn (take (i + 8) tmp) = bn (take i tmp) + 2 ^ (32 * i) * bn (window i tmp)"
proof -
  have "take (i + 8) tmp = take i tmp @ window i tmp" by (simp add: window_def take_add)
  then show ?thesis using assms by (simp add: bn_append)
qed

lemma set_window_facts:
  assumes "i + 8 \<le> length tmp" "length c = 8"
  shows "length (set_window i tmp c) = length tmp" "take i (set_window i tmp c) = take i tmp"
    "window i (set_window i tmp c) = c"
  using assms by (simp_all add: set_window_def window_def)

lemma bn_take_top:
  "j < length xs \<Longrightarrow> bn (take (Suc j) (xs[j := d])) = bn (take j xs) + 2 ^ (32 * j) * unat d"
  by (simp add: take_Suc_conv_app_nth bn_append)

lemma mul_step:
  assumes len: "length tmp = 17" "length a = 8" "i \<le> 8"
    and m: "mulAdd a d 0 (window i (tmp[i + 7 := tp])) = (c, tp')"
  defines "tmp2 \<equiv> set_window i (tmp[i + 7 := tp]) c"
  shows "length tmp2 = 17 \<and> bn (take (i + 8) tmp2) + 2 ^ (32 * (i + 8)) * unat tp' =
    bn (take (i + 7) tmp) + 2 ^ (32 * (i + 7)) * unat tp + 2 ^ (32 * i) * (bn a * unat d)"
proof -
  let ?t1 = "tmp[i + 7 := tp]"
  have i: "i + 8 \<le> length ?t1" using len by simp
  have w: "length (window i ?t1) = 8" using len by (simp add: window_def)
  have c: "length c = 8" "bn c + 2 ^ 256 * unat tp' = bn (window i ?t1) + bn a * unat d"
    using mulAdd_correct[OF _ m] w len by simp_all
  have "bn (take (i + 8) tmp2) + 2 ^ (32 * (i + 8)) * unat tp'
    = bn (take i ?t1) + 2 ^ (32 * i) * (bn c + 2 ^ 256 * unat tp')"
    using i c(1) by (simp add: tmp2_def bn_take_window set_window_facts algebra_simps power_add)
  also have "\<dots> = (bn (take i ?t1) + 2 ^ (32 * i) * bn (window i ?t1)) + 2 ^ (32 * i) * (bn a * unat d)"
    by (simp only: c(2)) (simp add: algebra_simps)
  also have "\<dots> = bn (take (Suc (i + 7)) ?t1) + 2 ^ (32 * i) * (bn a * unat d)"
    using bn_take_window[OF i] by (simp add: add.commute)
  also have "\<dots> = bn (take (i + 7) tmp) + 2 ^ (32 * (i + 7)) * unat tp + 2 ^ (32 * i) * (bn a * unat d)"
    using len by (simp only: bn_take_top)
  finally show ?thesis using i c(1) len by (simp add: tmp2_def set_window_facts)
qed

lemma modmul_mul_prefix:
  assumes len: "length a = 8" "length b = 8" and i: "i \<le> 8"
  shows "let (tmp, tp) = foldl (\<lambda>s i. modmul_mul a b i s) (replicate 17 0, 0) [0..<i]
    in length tmp = 17 \<and> (i = 0 \<longrightarrow> tmp ! 7 = 0 \<and> tp = 0) \<and>
       bn (take (i + 7) tmp) + 2 ^ (32 * (i + 7)) * unat tp = bn a * bn (take i b)"
  using i
proof (induction i)
  case 0
  then show ?case by simp
next
  case (Suc i)
  obtain tmp tp where s: "foldl (\<lambda>s i. modmul_mul a b i s) (replicate 17 0, 0) [0..<i] = (tmp, tp)" by fastforce
  have IH: "length tmp = 17" "i = 0 \<longrightarrow> tmp ! 7 = 0 \<and> tp = 0"
    "bn (take (i + 7) tmp) + 2 ^ (32 * (i + 7)) * unat tp = bn a * bn (take i b)"
    using Suc s by (simp_all add: Let_def)
  have upd: "(if i \<noteq> 0 then tmp[i + 7 := tp] else tmp) = tmp[i + 7 := tp]"
  proof (cases "i = 0")
    case True
    then have "tp = tmp ! 7" using IH(2) by simp
    then show ?thesis using True by simp
  qed simp
  obtain c tp' where m: "mulAdd a (b ! i) 0 (window i (tmp[i + 7 := tp])) = (c, tp')" by fastforce
  have step: "modmul_mul a b i (tmp, tp) = (set_window i (tmp[i + 7 := tp]) c, tp')"
    unfolding modmul_mul_def using m upd by simp
  have "2 ^ (32 * i) * (bn a * unat (b ! i)) + bn a * bn (take i b) = bn a * bn (take (Suc i) b)"
    using Suc.prems len by (simp add: take_Suc_conv_app_nth bn_append algebra_simps)
  then show ?case
    using mul_step[OF IH(1) len(1) _ m] Suc.prems IH(3) s step by (simp add: Let_def add.commute)
qed

text \<open>One reduction round: the asserts hold and a multiple of the modulus is taken off.\<close>

lemma sint_ucast_small: "sint b \<in> {0, 1} \<Longrightarrow> unat (ucast (b :: u64) :: u32) = nat (sint b) \<and> signed_drop_bit 32 b = 0"
proof -
  assume "sint b \<in> {0, 1}"
  then have "sint b = 0 \<or> sint b = 1" by blast
  moreover have b: "(of_int (sint b) :: u64) = b" by simp
  ultimately have "b = 0 \<or> b = 1" using b[symmetric] by (elim disjE) simp_all
  then show ?thesis by auto
qed

lemma reduce_sub:
  assumes "mod_ok MOD" "length c = 8" "mulAdd MOD tp 0 (replicate 8 0) = (red, tr)"
  shows "\<exists>c' t. subTop tr red tp c = Some (c', t) \<and> length c' = 8 \<and> t \<le> 1 \<and>
    bn c' + 2 ^ 256 * unat t + unat tp * bn MOD = bn c + 2 ^ 256 * unat tp"
proof -
  have M: "length MOD = 8" "bn MOD < M256" "M256 - 2 ^ 224 \<le> bn MOD" using mod_okD[OF assms(1)] by auto
  have red: "length red = 8" "bn red + 2 ^ 256 * unat tr = bn MOD * unat tp"
    using mulAdd_correct[OF _ assms(3)] M(1) bn_replicate_zero[of 8] by simp_all
  obtain c' b where sd: "sub_digits 0 c red = (c', b)" by fastforce
  have c': "length c' = 8" "sint b \<in> {-1, 0}" "int (bn c') + 2 ^ 256 * sint b = int (bn c) - int (bn red)"
    using sub_digits_correct[OF _ _ sd] assms(2) red(1) by simp_all
  define w where "w = b + ucast tp - ucast tr"
  have w: "sint w = sint b + int (unat tp) - int (unat tr)" unfolding w_def by (rule sint_sub_step[OF c'(2)])
  have "int (bn red) + 2 ^ 256 * int (unat tr) = int (bn MOD * unat tp)"
    using red(2) by (metis of_nat_add of_nat_mult of_nat_numeral of_nat_power)
  then have val: "int (bn c') + 2 ^ 256 * sint w = int (bn c) + 2 ^ 256 * int (unat tp) - int (bn MOD) * int (unat tp)"
    using c'(3) by (simp add: w algebra_simps)
  have range: "sint w \<in> {0, 1}"
  proof -
    have lt: "int (bn c) < 2 ^ 256" "int (bn c') < 2 ^ 256"
      using int_bn_less assms(2) c'(1) by blast+
    have up: "2 ^ 256 * int (unat tp) - int (bn MOD) * int (unat tp) < 2 ^ 256" and
      lo: "0 \<le> 2 ^ 256 * int (unat tp) - int (bn MOD) * int (unat tp)"
    proof -
      have "(2 ^ 256 - int (bn MOD)) * int (unat tp) \<le> 2 ^ 224 * int (unat tp)"
        using M(3) by (intro mult_right_mono) simp_all
      also have "\<dots> < 2 ^ 224 * 4294967296" using int_u32_less[of tp] by simp
      finally show "2 ^ 256 * int (unat tp) - int (bn MOD) * int (unat tp) < 2 ^ 256"
        by (simp add: algebra_simps)
      have "int (bn MOD) \<le> 2 ^ 256" using M(2) by simp
      then have "int (bn MOD) * int (unat tp) \<le> 2 ^ 256 * int (unat tp)" by (intro mult_right_mono) simp_all
      then show "0 \<le> 2 ^ 256 * int (unat tp) - int (bn MOD) * int (unat tp)" by simp
    qed
    have "2 ^ 256 * sint w < 2 * 2 ^ 256" "- (2 ^ 256) < 2 ^ 256 * sint w"
      using val lt up lo by linarith+
    then show ?thesis by simp arith
  qed
  then have t: "unat (ucast w :: u32) = nat (sint w)" "signed_drop_bit 32 w = 0"
    using sint_ucast_small by blast+
  have "subTop tr red tp c = Some (c', ucast w)"
    using sd t(2) by (simp add: subTop_def w_def)
  moreover have "(ucast w :: u32) \<le> 1" using t(1) range by (auto simp: word_le_nat_alt)
  moreover have "bn c' + 2 ^ 256 * unat (ucast w :: u32) + unat tp * bn MOD = bn c + 2 ^ 256 * unat tp"
  proof -
    have "int (bn c' + 2 ^ 256 * unat (ucast w :: u32) + unat tp * bn MOD) = int (bn c + 2 ^ 256 * unat tp)"
      using val range t(1) by (auto simp: algebra_simps)
    then show ?thesis by (simp only: of_nat_eq_iff)
  qed
  ultimately show ?thesis using c'(1) by blast
qed

lemma reduce_clear:
  assumes "mod_ok MOD" "length c = 8" "t \<le> 1"
    and lt: "bn c + 2 ^ 256 * unat t < 2 ^ 256 + bn MOD"
  shows "\<exists>r. subM MOD t c (NOT (t - 1)) = (r, 0) \<and> length r = 8 \<and>
    bn r + unat t * bn MOD = bn c + 2 ^ 256 * unat t"
proof -
  have M: "length MOD = 8" using mod_okD[OF assms(1)] by auto
  have "t = 0 \<or> t = 1" using assms(3) by (auto simp: word_le_nat_alt word_unat_eq_iff)
  then show ?thesis
  proof
    assume t: "t = 0"
    obtain r b where s: "subM MOD 0 c 0 = (r, b)" "length r = 8" and
      cases: "b = 0 \<and> int (bn r) = int (bn c) \<or> b = -1 \<and> int (bn r) = int (bn c) + 2 ^ 256"
      using subM_correct[of c MOD 0 0] assms(2) M by auto
    have "int (bn r) < 2 ^ 256" using int_bn_less s(2) by blast
    then show ?thesis using cases s t by auto
  next
    assume t: "t = 1"
    obtain r b where s: "subM MOD 1 c (-1) = (r, 1 + b)" "length r = 8" and
      cases: "b = 0 \<and> int (bn r) = int (bn c) - int (bn MOD) \<or>
        b = -1 \<and> int (bn r) = int (bn c) - int (bn MOD) + 2 ^ 256"
      using subM_correct[of c MOD 1 "-1"] assms(2) M by auto
    have less: "bn c < bn MOD" using lt t by simp
    with cases have b: "b = -1" and v: "int (bn r) = int (bn c) - int (bn MOD) + 2 ^ 256" by auto
    have "int (bn r + bn MOD) = int (bn c + 2 ^ 256)" using v by simp
    then have "bn r + bn MOD = bn c + 2 ^ 256" by (simp only: of_nat_eq_iff)
    then show ?thesis using s b t by simp
  qed
qed

text \<open>One round takes \<open>tp + t\<close> times the modulus off the window and clears the digit above it.\<close>

lemma reduce_round:
  assumes "mod_ok MOD" "length c = 8"
  obtains red tr c1 t c2 where "mulAdd MOD tp 0 (replicate 8 0) = (red, tr)"
    "subTop tr red tp c = Some (c1, t)" "t \<le> 1" "subM MOD t c1 (NOT (t - 1)) = (c2, 0)"
    "length c2 = 8" "bn c2 + (unat tp + unat t) * bn MOD = bn c + 2 ^ 256 * unat tp"
proof -
  obtain red tr where m: "mulAdd MOD tp 0 (replicate 8 0) = (red, tr)" by fastforce
  obtain c1 t where s: "subTop tr red tp c = Some (c1, t)" "length c1 = 8" "t \<le> 1"
    and v: "bn c1 + 2 ^ 256 * unat t + unat tp * bn MOD = bn c + 2 ^ 256 * unat tp"
    using reduce_sub[OF assms m] by blast
  have "bn c1 + 2 ^ 256 * unat t < 2 ^ 256 + bn MOD"
  proof -
    have M: "M256 - 2 ^ 224 \<le> bn MOD" using mod_okD[OF assms(1)] by auto
    have "2 ^ 256 * unat tp \<le> (bn MOD + 2 ^ 224) * unat tp" using M by (intro mult_right_mono) simp_all
    then have "2 ^ 256 * unat tp \<le> unat tp * bn MOD + 2 ^ 224 * unat tp" by (simp add: algebra_simps)
    moreover have "2 ^ 224 * unat tp \<le> 2 ^ 224 * 4294967295" using u32_less[of tp] by (intro mult_left_mono) simp_all
    moreover have "bn c < 2 ^ 256" using bn_less[of c] assms(2) by simp
    moreover have "(2 :: nat) ^ 224 * 4294967295 = 2 ^ 256 - 2 ^ 224" by simp
    ultimately show ?thesis using v M by linarith
  qed
  then obtain c2 where c2: "subM MOD t c1 (NOT (t - 1)) = (c2, 0)" "length c2 = 8"
    "bn c2 + unat t * bn MOD = bn c1 + 2 ^ 256 * unat t"
    using reduce_clear[OF assms(1) s(2,3)] by blast
  then have "bn c2 + (unat tp + unat t) * bn MOD = bn c + 2 ^ 256 * unat tp"
    using v by (simp add: algebra_simps)
  with m s c2 show thesis using that by blast
qed

lemma modmul_reduce_correct:
  assumes "mod_ok MOD" "length tmp = 17" "k \<le> 9" "k = 0 \<longrightarrow> tp = tmp ! 7"
  shows "\<exists>tmp'. modmul_reduce MOD k tmp tp = Some tmp' \<and> length tmp' = 17 \<and>
    bn (take 8 tmp') mod bn MOD = (bn (take (k + 7) tmp) + 2 ^ (32 * (k + 7)) * unat tp) mod bn MOD"
  using assms(2-)
proof (induction k arbitrary: tmp tp)
  case 0
  then have "bn (take (Suc 7) (tmp[7 := tp])) = bn (take 7 tmp) + 2 ^ (32 * 7) * unat tp"
    by (intro bn_take_top) simp
  with 0 show ?case by simp
next
  case (Suc i)
  have w: "length (window i tmp) = 8" "i + 8 \<le> length tmp" using Suc.prems by (simp_all add: window_def)
  obtain red tr c1 t c2 where r: "mulAdd MOD tp 0 (replicate 8 0) = (red, tr)"
    "subTop tr red tp (window i tmp) = Some (c1, t)" "t \<le> 1" "subM MOD t c1 (NOT (t - 1)) = (c2, 0)"
    "length c2 = 8" "bn c2 + (unat tp + unat t) * bn MOD = bn (window i tmp) + 2 ^ 256 * unat tp"
    using reduce_round[OF assms(1) w(1)] by metis
  define tmp2 where "tmp2 = set_window i tmp c2"
  have l2: "length tmp2 = 17" using w r(5) Suc.prems by (simp add: tmp2_def set_window_facts)
  have step: "modmul_reduce MOD (Suc i) tmp tp = modmul_reduce MOD i tmp2 (tmp2 ! (i + 7))"
    using r by (simp add: tmp2_def Let_def)
  have "bn (take (i + 7) tmp2) + 2 ^ (32 * (i + 7)) * unat (tmp2 ! (i + 7)) = bn (take (i + 8) tmp2)"
    using bn_take_top[of "i + 7" tmp2 "tmp2 ! (i + 7)"] l2 Suc.prems by (simp add: add.commute)
  also have "\<dots> = bn (take i tmp) + 2 ^ (32 * i) * bn c2"
    using bn_take_window[of i tmp2] w r(5) l2 Suc.prems by (simp add: tmp2_def set_window_facts)
  finally have val: "bn (take (i + 7) tmp2) + 2 ^ (32 * (i + 7)) * unat (tmp2 ! (i + 7)) + 2 ^ (32 * i) * (unat tp + unat t) * bn MOD
    = bn (take i tmp) + 2 ^ (32 * i) * (bn c2 + (unat tp + unat t) * bn MOD)"
    by (simp add: algebra_simps)
  also have "\<dots> = bn (take (i + 8) tmp) + 2 ^ (32 * (i + 8)) * unat tp"
    unfolding r(6) bn_take_window[OF w(2)] by (simp add: algebra_simps power_add)
  finally have cong: "bn (take (i + 7) tmp2) + 2 ^ (32 * (i + 7)) * unat (tmp2 ! (i + 7)) + 2 ^ (32 * i) * (unat tp + unat t) * bn MOD
    = bn (take (i + 8) tmp) + 2 ^ (32 * (i + 8)) * unat tp" .
  obtain tmp' where t: "modmul_reduce MOD i tmp2 (tmp2 ! (i + 7)) = Some tmp'" "length tmp' = 17"
    "bn (take 8 tmp') mod bn MOD = (bn (take (i + 7) tmp2) + 2 ^ (32 * (i + 7)) * unat (tmp2 ! (i + 7))) mod bn MOD"
    using Suc.IH[OF l2, of "tmp2 ! (i + 7)"] Suc.prems by auto
  have "bn (take 8 tmp') mod bn MOD = (bn (take (i + 8) tmp) + 2 ^ (32 * (i + 8)) * unat tp) mod bn MOD"
    unfolding t(3) cong[symmetric] by (rule mod_mult_self1[symmetric])
  moreover have "Suc i + 7 = i + 8" by simp
  ultimately show ?case using t(1,2) unfolding step by metis
qed

lemma p256_modmul_value:
  assumes "mod_ok MOD" "p256_ok a" "p256_ok b"
  shows "\<exists>c. p256_modmul MOD a top_b b = Some c \<and> p256_ok c \<and>
    bn c = bn a * (bn b + 2 ^ 256 * unat top_b) mod bn MOD"
proof -
  have len: "length a = 8" "length b = 8" "length MOD = 8" and M: "bn MOD < M256" "M256 - 2 ^ 224 \<le> bn MOD"
    using assms mod_okD by (auto simp: p256_ok_def)
  obtain tmp tp where f: "foldl (\<lambda>s i. modmul_mul a b i s) (replicate 17 0, 0) [0..<8] = (tmp, tp)" by fastforce
  have t: "length tmp = 17" "bn (take 15 tmp) + 2 ^ 480 * unat tp = bn a * bn b"
    using modmul_mul_prefix[OF len(1,2), of 8] f len by (simp_all add: Let_def)
  obtain c tp' where m: "mulAdd a top_b 0 (window 8 (tmp[8 + 7 := tp])) = (c, tp')" by fastforce
  define tmp2 where "tmp2 = set_window 8 (tmp[8 + 7 := tp]) c"
  have t2: "length tmp2 = 17" "bn (take (8 + 8) tmp2) + 2 ^ (32 * (8 + 8)) * unat tp' =
      bn a * bn b + 2 ^ (32 * 8) * (bn a * unat top_b)"
    using mul_step[OF t(1) len(1) _ m] t(2) by (simp_all add: tmp2_def)
  obtain tmp' where r: "modmul_reduce MOD 9 tmp2 tp' = Some tmp'" "length tmp' = 17"
    "bn (take 8 tmp') mod bn MOD = bn a * (bn b + 2 ^ 256 * unat top_b) mod bn MOD"
    using modmul_reduce_correct[OF assms(1) t2(1), of 9 tp'] t2(2) by (auto simp: algebra_simps)
  obtain res where c: "(let (c, msk) = subM MOD 0 (take 8 tmp') (-1); (c, _) = addM MOD 0 c msk in c) = res"
    "length res = 8" "bn res = (if bn MOD \<le> bn (take 8 tmp') then bn (take 8 tmp') - bn MOD else bn (take 8 tmp'))"
    using cond_reduce[of "take 8 tmp'" MOD] r(2) len by auto
  have "bn res = bn (take 8 tmp') mod bn MOD"
  proof -
    have "bn (take 8 tmp') < 2 * bn MOD" using bn_less[of "take 8 tmp'"] r(2) M by simp
    then show ?thesis using c(3) by (simp add: mod_if le_mod_geq)
  qed
  then show ?thesis using f m r c by (simp add: p256_modmul_def tmp2_def p256_ok_def Let_def split: prod.splits)
qed

end
