(* ===== verification/P256_Linear.thy ===== *)
theory P256_Linear
  imports P256
begin

text \<open>
  The digit-array routines of \<^verbatim>\<open>p256.c\<close> other than multiplication, as arithmetic on the numbers
  the arrays denote: comparison, addition and subtraction with their carries, the shifts, the
  bit and parity tests, reduction below the modulus, and the byte order of \<open>p256_from_bin\<close>.
\<close>

section \<open>Addition, subtraction, comparison\<close>

lemma sint_neg_one_u32: "sint (ucast (-1 :: u64) :: u32) = -1"
  by simp

lemma p256_sub_value:
  assumes "p256_ok a" "p256_ok b"
  obtains c where "p256_sub a b = (c, 0)" "p256_ok c" "bn b \<le> bn a" "bn c = bn a - bn b"
  | c where "p256_sub a b = (c, -1)" "p256_ok c" "bn a < bn b" "bn c + bn b = bn a + M256"
proof -
  obtain c k where s: "sub_digits 0 a b = (c, k)" by fastforce
  have c: "length c = 8" "sint k \<in> {-1, 0}" "int (bn c) + 2 ^ 256 * sint k = int (bn a) - int (bn b)"
    using sub_digits_correct[OF _ _ s] assms by (simp_all add: p256_ok_def)
  have lt: "int (bn c) < 2 ^ 256" using c(1) by (rule int_bn_less)
  from sint_borrow[OF c(2)] show thesis
  proof
    assume k: "k = 0"
    with c(3) have "int (bn a) = int (bn c + bn b)" by simp
    then have "bn a = bn c + bn b" by (simp only: of_nat_eq_iff)
    moreover have "p256_sub a b = (c, 0)" using s k by (simp add: p256_sub_def)
    ultimately show thesis using c(1) by (intro that(1)[of c]) (simp_all add: p256_ok_def)
  next
    assume k: "k = -1"
    with c(3) have "int (bn c + bn b) = int (bn a + M256)" by simp
    then have eq: "bn c + bn b = bn a + M256" by (simp only: of_nat_eq_iff)
    moreover have "bn c < M256" using bn_less[of c] c(1) by simp
    ultimately have "bn a < bn b" by linarith
    moreover have "p256_sub a b = (c, -1)" using s k by (simp add: p256_sub_def)
    ultimately show thesis using c(1) eq by (intro that(2)[of c]) (simp_all only: p256_ok_def)
  qed
qed

lemma p256_add_value:
  assumes "p256_ok a" "p256_ok b"
  obtains c k where "p256_add a b = (c, k)" "p256_ok c" "k = 0 \<or> k = 1"
    "bn c + M256 * unat k = bn a + bn b"
proof -
  obtain c k where s: "add_digits 0 a b = (c, k)" by fastforce
  have c: "length c = 8" "unat k \<le> 1" "bn c + 2 ^ 256 * unat k = bn a + bn b"
    using add_digits_correct[OF _ _ s] assms by (simp_all add: p256_ok_def)
  have "unat k = 0 \<or> unat k = 1" using c(2) by linarith
  then have k: "k = 0 \<or> k = 1" by (auto simp: word_unat_eq_iff)
  then have "unat (ucast k :: u32) = unat k" "(ucast k :: u32) = 0 \<or> (ucast k :: u32) = 1" by auto
  then show thesis using that[of c "ucast k"] s c by (simp add: p256_add_def p256_ok_def)
qed

lemma p256_add_d_loop:
  assumes "unat k < 2 ^ 32" "add_d_loop k as = (r, k')"
  shows "length r = length as \<and> unat k' < 2 ^ 32 \<and> bn r + 2 ^ (32 * length as) * unat k' = bn as + unat k
    \<and> (as \<noteq> [] \<longrightarrow> unat k' \<le> 1)"
  using assms
proof (induction as arbitrary: k r)
  case (Cons a as)
  define w where "w = k + ucast a"
  have w: "unat w = unat k + unat a"
  proof -
    have "unat k + unat a < 2 ^ 64" using Cons.prems(1) u32_less[of a] by simp
    then show ?thesis unfolding w_def by (subst unat_add_lem [THEN iffD1]) auto
  qed
  obtain r1 where r1: "add_d_loop (drop_bit 32 w) as = (r1, k')" and r: "r = ucast w # r1"
    using Cons.prems(2) by (auto simp: w_def Let_def split: prod.splits)
  have one: "unat (drop_bit 32 w) \<le> 1"
  proof -
    have "unat w < 2 * 2 ^ 32" using w Cons.prems(1) u32_less[of a] by simp
    then have "unat w div 2 ^ 32 < 2" by (rule less_mult_imp_div_less)
    then show ?thesis by (simp only: unat_shift32)
  qed
  from Cons.IH[OF unat_shift32_less r1] have IH: "length r1 = length as" "unat k' < 2 ^ 32"
    "bn r1 + 2 ^ (32 * length as) * unat k' = bn as + unat (drop_bit 32 w)" "as \<noteq> [] \<longrightarrow> unat k' \<le> 1"
    by auto
  have "bn r + 2 ^ (32 * length (a # as)) * unat k'
    = unat (ucast w :: u32) + 2 ^ 32 * (bn r1 + 2 ^ (32 * length as) * unat k')"
    by (simp add: r power_add algebra_simps)
  also have "\<dots> = (unat (ucast w :: u32) + 2 ^ 32 * unat (drop_bit 32 w)) + 2 ^ 32 * bn as"
    by (simp only: IH(3)) algebra
  also have "\<dots> = bn (a # as) + unat k"
    by (simp only: low32_plus_shift32 w) (simp add: algebra_simps)
  finally have "bn r + 2 ^ (32 * length (a # as)) * unat k' = bn (a # as) + unat k" .
  moreover have "unat k' \<le> 1" using IH(4) r1 one by (cases as) simp_all
  ultimately show ?case using IH(1,2) by (simp add: r)
qed simp

lemma cmp_loop_sub:
  assumes "length as = length bs" "sub_digits b as bs = (r, b')"
  shows "cmp_loop b nz as bs = (b', nz OR (if \<exists>d\<in>set r. d \<noteq> 0 then 1 else 0))"
  using assms
proof (induction as bs arbitrary: b nz r rule: list_induct2)
  case (Cons x xs y ys)
  obtain r1 where r1: "sub_digits (signed_drop_bit 32 (b + ucast x - ucast y)) xs ys = (r1, b')"
    and r: "r = ucast (b + ucast x - ucast y) # r1"
    using Cons.prems by (auto simp: Let_def split: prod.splits)
  have "b + (ucast x - ucast y) = b + ucast x - ucast y" by simp
  then show ?case using Cons.IH[OF r1] r by (auto simp: Let_def or.assoc add_diff_eq)
qed simp

lemma bn_eq_0_iff: "bn xs = 0 \<longleftrightarrow> (\<forall>d\<in>set xs. d = 0)"
  by (induction xs) (auto simp: word_unat_eq_iff)

lemma p256_cmp_value:
  assumes "p256_ok a" "p256_ok b"
  shows "p256_cmp a b = (if bn a < bn b then -1 else if bn a = bn b then 0 else 1)"
proof -
  obtain c k where s: "sub_digits 0 a b = (c, k)" by fastforce
  have len: "length a = length b" using assms by (simp add: p256_ok_def)
  have k: "p256_sub a b = (c, sint (ucast k :: u32))" using s by (simp add: p256_sub_def)
  have cmp: "p256_cmp a b = sint (ucast k OR (if bn c \<noteq> 0 then 1 else 0) :: u32)"
    using cmp_loop_sub[OF len s] by (auto simp: p256_cmp_def bn_eq_0_iff)
  have "sint k \<in> {-1, 0}" using sub_digits_correct[OF len _ s] by simp
  then have "k = -1 \<or> k = 0" by (rule sint_borrow)
  then show ?thesis
    using assms cmp k by (elim disjE; cases rule: p256_sub_value[OF assms]) auto
qed

lemma p256_is_zero_iff: "p256_is_zero a \<longleftrightarrow> bn a = 0"
proof -
  have "foldl (OR) x a = 0 \<longleftrightarrow> x = 0 \<and> (\<forall>d\<in>set a. d = 0)" for x
    by (induction a arbitrary: x) (auto simp: or_eq_0_iff)
  then show ?thesis by (simp add: p256_is_zero_def bn_eq_0_iff)
qed

lemma p256_is_even_iff: "p256_ok a \<Longrightarrow> p256_is_even a \<longleftrightarrow> even (bn a)"
  by (cases a) (simp_all add: p256_ok_def p256_is_even_def and_one_eq word_unat_eq_iff unat_mod flip: even_iff_mod_2_eq_zero)

section \<open>Shifts and bits\<close>

lemma unat_drop_bit_u32: "unat (drop_bit n (x :: u32)) = unat x div 2 ^ n"
  by (simp add: unat_drop_bit_eq) (simp add: drop_bit_eq_div)

lemma unat_shr_digit:
  assumes "0 < n" "n < 32"
  shows "unat (drop_bit n x OR push_bit (32 - n) y :: u32) = unat x div 2 ^ n + 2 ^ (32 - n) * (unat y mod 2 ^ n)"
proof -
  have "drop_bit n x OR push_bit (32 - n) y = drop_bit n x + push_bit (32 - n) y"
    by (rule disjunctive_add_eq_or[symmetric], rule bit_word_eqI) (auto simp: bit_simps dest!: bit_imp_le_length)
  moreover have hi: "unat (push_bit (32 - n) y) = 2 ^ (32 - n) * (unat y mod 2 ^ n)"
  proof -
    have "unat (push_bit (32 - n) y) = (unat y * 2 ^ (32 - n)) mod (2 ^ n * 2 ^ (32 - n))"
      using assms by (simp add: unsigned_push_bit_eq flip: power_add) (simp add: push_bit_eq_mult take_bit_eq_mod)
    then show ?thesis by (simp only: mod_mult_mult2 mult.commute)
  qed
  moreover have "unat x div 2 ^ n + 2 ^ (32 - n) * (unat y mod 2 ^ n) < 2 ^ 32"
  proof -
    have pow: "(2 :: nat) ^ 32 = 2 ^ (32 - n) * 2 ^ n" using assms by (simp flip: power_add)
    have "unat x div 2 ^ n < 2 ^ (32 - n)" using u32_less[of x] by (intro less_mult_imp_div_less) (simp flip: pow)
    moreover have "2 ^ (32 - n) * (unat y mod 2 ^ n) \<le> 2 ^ (32 - n) * (2 ^ n - 1)"
      by (intro mult_le_mono) (simp_all add: less_Suc_eq_le[symmetric])
    moreover have "(2 :: nat) ^ (32 - n) * (2 ^ n - 1) = 2 ^ 32 - 2 ^ (32 - n)"
      by (simp only: pow diff_mult_distrib2)
    moreover have "(2 :: nat) ^ (32 - n) \<le> 2 ^ 32" by (rule power_increasing) simp_all
    ultimately show ?thesis by linarith
  qed
  ultimately show ?thesis by (simp add: unat_add_lem[THEN iffD1] unat_drop_bit_u32)
qed

fun shr_digits :: "nat \<Rightarrow> u32 list \<Rightarrow> u32 \<Rightarrow> u32 list" where
  "shr_digits n [] h = []"
| "shr_digits n (x # xs) h = (drop_bit n x OR push_bit (32 - n) (hd (xs @ [h]))) # shr_digits n xs h"

lemma length_shr_digits [simp]: "length (shr_digits n xs h) = length xs"
  by (induction n xs h rule: shr_digits.induct) simp_all

lemma shr_digits_exact:
  assumes "0 < n" "n < 32"
  shows "2 ^ n * bn (shr_digits n xs h) + unat (hd (xs @ [h])) mod 2 ^ n
    = bn xs + 2 ^ (32 * length xs) * (unat h mod 2 ^ n)"
proof (induction xs)
  case (Cons x xs)
  let ?y = "hd (xs @ [h])"
  have pow: "(2 :: nat) ^ n * 2 ^ (32 - n) = 2 ^ 32" using assms by (simp flip: power_add)
  have "2 ^ n * bn (shr_digits n (x # xs) h) + unat (hd ((x # xs) @ [h])) mod 2 ^ n
    = (2 ^ n * (unat x div 2 ^ n) + unat x mod 2 ^ n) + (2 ^ n * 2 ^ (32 - n)) * (unat ?y mod 2 ^ n)
      + 2 ^ 32 * (2 ^ n * bn (shr_digits n xs h))"
    by (simp add: unat_shr_digit[OF assms] algebra_simps)
  also have "\<dots> = unat x + 2 ^ 32 * (2 ^ n * bn (shr_digits n xs h) + unat ?y mod 2 ^ n)"
    by (simp only: pow mult_div_mod_eq) algebra
  also have "\<dots> = bn (x # xs) + 2 ^ (32 * length (x # xs)) * (unat h mod 2 ^ n)"
    by (simp only: Cons.IH) (simp add: algebra_simps power_add)
  finally show ?case .
qed simp

lemma bn_shr_digits:
  assumes "0 < n" "n < 32"
  shows "bn (shr_digits n xs h) = (bn xs + 2 ^ (32 * length xs) * (unat h mod 2 ^ n)) div 2 ^ n"
proof (rule div_nat_eqI[symmetric])
  have "unat (hd (xs @ [h])) mod 2 ^ n < 2 ^ n" by simp
  with shr_digits_exact[OF assms, of xs h]
  show "bn xs + 2 ^ (32 * length xs) * (unat h mod 2 ^ n) < 2 ^ n * Suc (bn (shr_digits n xs h))"
    by (simp only: mult_Suc_right)
  show "2 ^ n * bn (shr_digits n xs h) \<le> bn xs + 2 ^ (32 * length xs) * (unat h mod 2 ^ n)"
    using shr_digits_exact[OF assms, of xs h] by linarith
qed

lemma p256_8: "p256_ok a \<Longrightarrow> \<exists>a0 a1 a2 a3 a4 a5 a6 a7. a = [a0, a1, a2, a3, a4, a5, a6, a7]"
  by (auto simp: p256_ok_def numeral_eq_Suc length_Suc_conv)

lemma upt_digits:
  "[0..<7] = [0, 1, 2, 3, 4, 5, 6]" "[1..<8] = [1, 2, 3, 4, 5, 6, 7]" "[Suc 0..<8] = [1, 2, 3, 4, 5, 6, 7]"
  by (simp_all add: upt_rec)

lemma p256_shr1_digits: "p256_ok a \<Longrightarrow> p256_shr1 a h = shr_digits 1 a h"
  using p256_8[of a] by (auto simp: p256_shr1_def upt_digits)

lemma p256_shr1_value:
  assumes "p256_ok a" "h = 0 \<or> h = 1"
  shows "p256_ok (p256_shr1 a h)" "bn (p256_shr1 a h) = (bn a + M256 * unat h) div 2"
  using assms bn_shr_digits[of 1 a h] by (auto simp: p256_shr1_digits p256_ok_def)

lemma p256_shr_value:
  assumes "p256_ok a" "n mod 32 \<noteq> 0"
  shows "\<exists>b. p256_shr a n = Some b \<and> p256_ok b \<and> bn b = bn a div 2 ^ (n mod 32)"
proof -
  have "p256_shr a n = Some (shr_digits (n mod 32) a 0)"
    using p256_8[OF assms(1)] assms(2) by (auto simp: p256_shr_def upt_digits Let_def)
  then show ?thesis using assms bn_shr_digits[of "n mod 32" a 0] by (simp add: p256_ok_def)
qed

fun shl_digits :: "nat \<Rightarrow> u32 \<Rightarrow> u32 list \<Rightarrow> u32 list" where
  "shl_digits n prev [] = []"
| "shl_digits n prev (x # xs) = (push_bit n x OR drop_bit (32 - n) prev) # shl_digits n x xs"

lemma length_shl_digits [simp]: "length (shl_digits n prev xs) = length xs"
  by (induction n prev xs rule: shl_digits.induct) simp_all

lemma shl_digits_exact:
  assumes "0 < n" "n < 32"
  shows "bn (shl_digits n prev xs) + 2 ^ (32 * length xs) * (unat (last (prev # xs)) div 2 ^ (32 - n))
    = 2 ^ n * bn xs + unat prev div 2 ^ (32 - n)"
proof (induction xs arbitrary: prev)
  case (Cons x xs)
  have pow: "(2 :: nat) ^ 32 = 2 ^ n * 2 ^ (32 - n)" using assms by (simp flip: power_add)
  have d: "unat (push_bit n x OR drop_bit (32 - n) prev) = unat prev div 2 ^ (32 - n) + 2 ^ n * (unat x mod 2 ^ (32 - n))"
    using unat_shr_digit[of "32 - n" prev x] assms by (simp add: or.commute)
  have "bn (shl_digits n prev (x # xs)) + 2 ^ (32 * length (x # xs)) * (unat (last (prev # x # xs)) div 2 ^ (32 - n))
    = unat prev div 2 ^ (32 - n) + 2 ^ n * (unat x mod 2 ^ (32 - n))
      + 2 ^ 32 * (bn (shl_digits n x xs) + 2 ^ (32 * length xs) * (unat (last (x # xs)) div 2 ^ (32 - n)))"
    by (simp add: d algebra_simps power_add)
  also have "\<dots> = unat prev div 2 ^ (32 - n) + 2 ^ n * (unat x mod 2 ^ (32 - n) + 2 ^ (32 - n) * (unat x div 2 ^ (32 - n)))
      + 2 ^ 32 * (2 ^ n * bn xs)"
    by (simp only: Cons.IH pow) algebra
  also have "\<dots> = 2 ^ n * bn (x # xs) + unat prev div 2 ^ (32 - n)"
    by (simp only: mod_mult_div_eq) (simp add: algebra_simps)
  finally show ?case .
qed simp

lemma unat_shl_top:
  assumes "m < 32"
  shows "unat (ucast (drop_bit 32 (push_bit m (ucast (x :: u32) :: u64))) :: u32) = unat x div 2 ^ (32 - m)"
proof -
  have lt: "unat x * 2 ^ m < 2 ^ 64"
  proof -
    have "(2 :: nat) ^ m \<le> 2 ^ 32" using assms by (intro power_increasing) simp_all
    then have "unat x * 2 ^ m < 2 ^ 32 * 2 ^ 32" using u32_less[of x] by (intro mult_less_le_imp_less) simp_all
    then show ?thesis by simp
  qed
  have "unat (push_bit m (ucast x :: u64)) = unat x * 2 ^ m"
    using lt by (simp add: unsigned_push_bit_eq) (simp add: push_bit_eq_mult take_bit_nat_eq_self)
  then have "unat (ucast (drop_bit 32 (push_bit m (ucast x :: u64))) :: u32) = (unat x * 2 ^ m) div 2 ^ 32"
    using unat_shift32_less[of "push_bit m (ucast x)"] by (simp only: unat_low32 unat_shift32) simp
  also have "(2 :: nat) ^ 32 = 2 ^ (32 - m) * 2 ^ m" using assms by (subst power_add[symmetric]) simp
  finally show ?thesis by (simp only: div_mult_mult2) simp
qed

lemma p256_shl_value:
  assumes "p256_ok a" "n mod 32 \<noteq> 0"
  shows "\<exists>b tp. p256_shl a n = Some (b, tp) \<and> p256_ok b \<and> bn b + M256 * unat tp = 2 ^ (n mod 32) * bn a"
proof -
  let ?m = "n mod 32"
  have m: "0 < ?m" "?m < 32" using assms(2) by simp_all
  obtain tp where s: "p256_shl a n = Some (shl_digits ?m 0 a, tp)"
    and tp: "tp = ucast (drop_bit 32 (push_bit ?m (ucast (last (0 # a)) :: u64)))"
    using p256_8[OF assms(1)] assms(2) by (auto simp: p256_shl_def upt_digits Let_def)
  have "unat tp = unat (last (0 # a)) div 2 ^ (32 - ?m)" unfolding tp by (rule unat_shl_top[OF m(2)])
  then show ?thesis using s shl_digits_exact[OF m, of 0 a] assms by (simp add: p256_ok_def)
qed

lemma bit_bn: "bit (bn xs) k \<longleftrightarrow> k div 32 < length xs \<and> bit (xs ! (k div 32)) (k mod 32)"
proof (induction xs arbitrary: k)
  case (Cons x xs)
  have high: "bn (x # xs) div 2 ^ k = bn xs div 2 ^ (k - 32)" if "32 \<le> k"
  proof -
    have "(2 :: nat) ^ k = 2 ^ 32 * 2 ^ (k - 32)" using that by (subst power_add[symmetric]) simp
    then have "bn (x # xs) div 2 ^ k = (unat x + 2 ^ 32 * bn xs) div 2 ^ 32 div 2 ^ (k - 32)"
      by (simp add: div_mult2_eq)
    also have "(unat x + 2 ^ 32 * bn xs) div 2 ^ 32 = bn xs" using u32_less[of x] by simp
    finally show ?thesis .
  qed
  have low: "bn (x # xs) div 2 ^ k = unat x div 2 ^ k + 2 * (2 ^ (31 - k) * bn xs)" if "k < 32"
  proof -
    have "(2 :: nat) ^ 32 = 2 ^ Suc (31 - k) * 2 ^ k" using that by (subst power_add[symmetric]) simp
    then have eq: "bn (x # xs) = unat x + (2 * (2 ^ (31 - k) * bn xs)) * 2 ^ k"
      by (simp only: bn.simps power_Suc) (simp only: ac_simps)
    show ?thesis unfolding eq by (subst div_mult_self1) simp_all
  qed
  show ?case
  proof (cases "k < 32")
    case True
    then have "bit (bn (x # xs)) k \<longleftrightarrow> odd (unat x div 2 ^ k)" by (simp add: bit_iff_odd low del: bn.simps)
    also have "\<dots> \<longleftrightarrow> bit x k" by (simp add: bit_unsigned_iff flip: bit_iff_odd)
    finally show ?thesis using True by simp
  next
    case False
    then have "bit (bn (x # xs)) k \<longleftrightarrow> bit (bn xs) (k - 32)" using high by (simp add: bit_iff_odd del: bn.simps)
    moreover have "k div 32 = Suc ((k - 32) div 32)" "k mod 32 = (k - 32) mod 32"
      using False by (simp_all add: div_if le_mod_geq)
    ultimately show ?thesis using Cons.IH[of "k - 32"] by simp
  qed
qed simp

lemma p256_get_bit_value:
  assumes "p256_ok a" "k < 256"
  shows "unat (p256_get_bit a k) = of_bool (bit (bn a) k)"
proof -
  have "k div 32 < 8" using assms(2) by (simp add: less_mult_imp_div_less)
  then have "bit (bn a) k \<longleftrightarrow> bit (a ! (k div 32)) (k mod 32)" using assms(1) by (simp add: bit_bn p256_ok_def)
  moreover have "p256_get_bit a k = of_bool (bit (a ! (k div 32)) (k mod 32))"
    by (rule bit_word_eqI) (auto simp: p256_get_bit_def bit_simps)
  ultimately show ?thesis by simp
qed

section \<open>Reduction and byte order\<close>

lemma p256_mod_value:
  assumes "p256_ok MOD" "p256_ok a"
  shows "p256_ok (p256_mod MOD a)" "bn (p256_mod MOD a) = (if bn MOD \<le> bn a then bn a - bn MOD else bn a)"
  using cond_reduce[of a MOD] assms by (simp_all add: p256_mod_def p256_ok_def)

lemma p256_from_bin_value:
  "length src = 32 \<Longrightarrow> p256_ok (p256_from_bin src) \<and> bn (p256_from_bin src) = be_val src"
  by (simp add: p256_from_bin_def p256_ok_def bn_be_digits)


end
