(* ===== verification/Key_File.thy ===== *)
theory Key_File
  imports Scanf Rsa P256_Linear
begin

text \<open>
  The file of trusted keys: its reader \<open>load_keys\<close> (\<^verbatim>\<open>verifier24/verifier.cpp\<close>) and the host tool that writes it
  (\<^verbatim>\<open>tools/dumpkey/DumpPublicKey.java\<close>). What the tool prints is read back, and the RSA keys so obtained are
  well-formed in the sense that \<open>RSA_verify\<close> relies on.
\<close>

section \<open>Reading keys\<close>

datatype KeyType = RSA | EC

record ECPublicKey =
  ec_x :: p256_int
  ec_y :: p256_int

record Certificate =
  hash_len :: nat
  key_type :: KeyType
  rsa :: "RSAPublicKey option"
  ec :: "ECPublicKey option"

text \<open>
  What \<open>cert\<close> holds before the numbers are read: an allocated RSA key with its exponent, an allocated EC key, or
  the zeroed structure, whose \<open>key_type\<close> is 0, that is \<open>RSA\<close>, and whose \<open>rsa\<close> is a null pointer.
\<close>

datatype key_start = Rsa_start int nat | Ec_start nat | Zero_start

text \<open>Results: \<open>None\<close> for undefined behaviour, \<open>Some (None, s)\<close> for \<open>goto exit\<close>.\<close>

definition read_start :: "string \<Rightarrow> (key_start option \<times> string) option" where
  "read_start f =
     do { (vs, f) \<leftarrow> fscanf '' %c'' f;
          if length vs \<noteq> 1 then Some (None, f)
          else let start_char = char_of (hd vs) in
          if start_char = CHR ''{'' then Some (Some (Rsa_start 3 SHA_DIGEST_SIZE), f)
          else if start_char = CHR ''v'' then do {
            (vs, f) \<leftarrow> fscanf ''%d {'' f;
            if length vs \<noteq> 1 then Some (None, f)
            else let version = hd vs in
            if version = 2 then Some (Some (Rsa_start 65537 SHA_DIGEST_SIZE), f)
            else if version = 3 then Some (Some (Rsa_start 3 SHA256_DIGEST_SIZE), f)
            else if version = 4 then Some (Some (Rsa_start 65537 SHA256_DIGEST_SIZE), f)
            else if version = 5 then Some (Some (Ec_start SHA256_DIGEST_SIZE), f)
            else Some (None, f) }
          else Some (Some Zero_start, f) }"

text \<open>The loops that read \<open>n\<close> more numbers, each after a comma.\<close>

fun read_list :: "nat \<Rightarrow> string \<Rightarrow> (int list option \<times> string) option" where
  "read_list 0 f = Some (Some [], f)"
| "read_list (Suc n) f =
     do { (vs, f) \<leftarrow> fscanf '' , %u'' f;
          if length vs \<noteq> 1 then Some (None, f)
          else do { (ws, f) \<leftarrow> read_list n f; Some (map_option (Cons (hd vs)) ws, f) } }"

definition read_rsa :: "int \<Rightarrow> nat \<Rightarrow> string \<Rightarrow> (Certificate option \<times> string) option" where
  "read_rsa exponent hlen f =
     do { (vs, f) \<leftarrow> fscanf '' %i , 0x%x , { %u'' f;
          if length vs \<noteq> 3 then Some (None, f)
          else if vs ! 0 \<noteq> int RSANUMWORDS then Some (None, f)
          else do {
          (n, f) \<leftarrow> read_list (RSANUMWORDS - 1) f;
          case n of None \<Rightarrow> Some (None, f) | Some n \<Rightarrow> do {
          (ws, f) \<leftarrow> fscanf '' } , { %u'' f;
          if length ws \<noteq> 1 then Some (None, f)
          else do {
          (rr, f) \<leftarrow> read_list (RSANUMWORDS - 1) f;
          case rr of None \<Rightarrow> Some (None, f) | Some rr \<Rightarrow> do {
          (_, f) \<leftarrow> fscanf '' } } '' f;
          Some (Some \<lparr>hash_len = hlen, key_type = RSA,
            rsa = Some \<lparr>key_len = RSANUMWORDS, key_n0inv = word_of_int (vs ! 1),
              key_n = map word_of_int (vs ! 2 # n), key_rr = map word_of_int (hd ws # rr), key_exponent = exponent\<rparr>,
            ec = None\<rparr>, f) } } } } }"

definition read_ec :: "nat \<Rightarrow> string \<Rightarrow> (Certificate option \<times> string) option" where
  "read_ec hlen f =
     do { (vs, f) \<leftarrow> fscanf '' %i , { %u'' f;
          if length vs \<noteq> 2 then Some (None, f)
          else if vs ! 0 \<noteq> 32 then Some (None, f)
          else do {
          (x, f) \<leftarrow> read_list 31 f;
          case x of None \<Rightarrow> Some (None, f) | Some x \<Rightarrow> do {
          (ws, f) \<leftarrow> fscanf '' } , { %u'' f;
          if length ws \<noteq> 1 then Some (None, f)
          else do {
          (y, f) \<leftarrow> read_list 31 f;
          case y of None \<Rightarrow> Some (None, f) | Some y \<Rightarrow> do {
          (_, f) \<leftarrow> fscanf '' } } '' f;
          let x_bytes = rev (map word_of_int (vs ! 1 # x)); \<comment> \<open>stored from index \<open>P256_NBYTES - 1\<close> down to 0\<close>
          let y_bytes = rev (map word_of_int (hd ws # y));
          Some (Some \<lparr>hash_len = hlen, key_type = EC, rsa = None,
            ec = Some \<lparr>ec_x = p256_from_bin x_bytes, ec_y = p256_from_bin y_bytes\<rparr>\<rparr>, f) } } } } }"

text \<open>Storing through the null pointer of a zeroed structure is undefined; without a number nothing is stored.\<close>

definition read_null :: "string \<Rightarrow> (Certificate option \<times> string) option" where
  "read_null f =
     do { (vs, f) \<leftarrow> fscanf '' %i , 0x%x , { %u'' f;
          if vs \<noteq> [] then None else Some (None, f) }"

definition read_key :: "string \<Rightarrow> (Certificate option \<times> string) option" where
  "read_key f =
     do { (start, f) \<leftarrow> read_start f;
          case start of
            None \<Rightarrow> Some (None, f)
          | Some (Rsa_start exponent hlen) \<Rightarrow> read_rsa exponent hlen f
          | Some (Ec_start hlen) \<Rightarrow> read_ec hlen f
          | Some Zero_start \<Rightarrow> read_null f }"

lemma length_read_list: "read_list n f = Some (ws, f') \<Longrightarrow> length f' \<le> length f"
  by (induction n arbitrary: f ws) (fastforce simp: bind_eq_Some_conv split: if_splits dest: length_fscanf)+

lemma length_read_start: "read_start f = Some (start, f') \<Longrightarrow> length f' \<le> length f"
  unfolding read_start_def Let_def
  by (erule bind_SomeE) (auto split: if_splits elim!: bind_SomeE dest!: length_fscanf)

lemma length_read_rsa: "read_rsa e h f = Some (cert, f') \<Longrightarrow> length f' \<le> length f"
  unfolding read_rsa_def
  by (auto split: if_splits option.splits elim!: bind_SomeE dest!: length_fscanf length_read_list)

lemma length_read_ec: "read_ec h f = Some (cert, f') \<Longrightarrow> length f' \<le> length f"
  unfolding read_ec_def Let_def
  by (auto split: if_splits option.splits elim!: bind_SomeE dest!: length_fscanf length_read_list)

lemma length_read_key: "read_key f = Some (cert, f') \<Longrightarrow> length f' \<le> length f"
  unfolding read_key_def read_null_def
  by (auto split: if_splits option.splits key_start.splits elim!: bind_SomeE
      dest!: length_fscanf length_read_start length_read_rsa length_read_ec)

text \<open>
  The loop over the keys. Allocation is taken to succeed: the code uses the results of \<open>realloc\<close> and \<open>malloc\<close>
  without a test.
\<close>

function load_loop :: "Certificate list \<Rightarrow> string \<Rightarrow> Certificate list option option" where
  "load_loop out f =
     (case read_key f of
        None \<Rightarrow> None
      | Some (None, _) \<Rightarrow> Some None
      | Some (Some cert, f) \<Rightarrow>
          (case f of
             [] \<Rightarrow> Some (Some (out @ [cert]))
           | c # f \<Rightarrow> if c = CHR '','' then load_loop (out @ [cert]) f else Some None))"
  by pat_completeness auto
termination by (relation "measure (\<lambda>(out, f). length f)") (auto dest: length_read_key)

declare load_loop.simps [simp del]

text \<open>\<open>load_keys\<close> on the contents of the file, \<open>None\<close> if it cannot be opened. The result \<open>Some None\<close> is \<open>NULL\<close>.\<close>

definition load_keys :: "string option \<Rightarrow> Certificate list option option" where
  "load_keys file = (case file of None \<Rightarrow> Some None | Some f \<Rightarrow> load_loop [] f)"

section \<open>Writing keys\<close>

text \<open>
  The public keys that the tool handles: an RSA key by modulus and exponent, an EC key by the coordinates of its point
  and the size of the field. An exception is \<open>None\<close>.
\<close>

datatype PublicKey = RSAKey nat nat | ECKey nat nat nat

fun bitLength :: "nat \<Rightarrow> nat" where
  "bitLength n = (if n = 0 then 0 else Suc (bitLength (n div 2)))"

declare bitLength.simps [simp del]

definition checkRSA :: "nat \<Rightarrow> nat \<Rightarrow> bool \<Rightarrow> nat option" where
  "checkRSA modulus pubexp useSHA256 =
     do { version \<leftarrow> (if pubexp = 3 then Some (if useSHA256 then 3 else 1)
                       else if pubexp = 65537 then Some (if useSHA256 then 4 else 2)
                       else None);
          if bitLength modulus \<noteq> 2048 then None else Some version }"

definition checkEC :: "nat \<Rightarrow> nat option" where
  "checkEC fieldSize = (if fieldSize \<noteq> 256 then None else Some 5)"

definition check :: "PublicKey \<Rightarrow> bool \<Rightarrow> nat option" where
  "check key useSHA256 =
     (case key of
        RSAKey modulus pubexp \<Rightarrow> checkRSA modulus pubexp useSHA256
      | ECKey x y fieldSize \<Rightarrow> if \<not> useSHA256 then None else checkEC fieldSize)"

text \<open>\<open>BigInteger.modInverse\<close>, which throws an exception if there is no inverse.\<close>

definition modInverse :: "nat \<Rightarrow> nat \<Rightarrow> nat option" where
  "modInverse a m = (if gcd a m \<noteq> 1 then None else Some (nat (fst (bezw a m) mod int m)))"

text \<open>The loops that take \<open>k\<close> digits in base \<open>b\<close> off a number, and print them.\<close>

fun digit_list :: "nat \<Rightarrow> nat \<Rightarrow> nat \<Rightarrow> nat list" where
  "digit_list b 0 n = []"
| "digit_list b (Suc k) n = n mod b # digit_list b k (n div b)"

fun commas :: "nat list \<Rightarrow> string" where
  "commas [] = []"
| "commas [n] = to_string 10 n"
| "commas (n # ns) = to_string 10 n @ '','' @ commas ns"

definition printRSA :: "nat \<Rightarrow> nat \<Rightarrow> bool \<Rightarrow> string option" where
  "printRSA modulus pubexp useSHA256 =
     do { version \<leftarrow> check (RSAKey modulus pubexp) useSHA256;
          let nwords = bitLength modulus div 32;
          let B = 2 ^ 32;
          inv \<leftarrow> modInverse modulus B;
          let N0inv = B - inv;
          let R = 2 ^ bitLength modulus;
          let RR = R * R mod modulus;
          Some ((if version > 1 then ''v'' @ to_string 10 version @ '' '' else []) @
            ''{'' @ to_string 10 nwords @ '',0x'' @ to_string 16 N0inv @
            '',{'' @ commas (digit_list B nwords modulus) @ ''}'' @
            '',{'' @ commas (digit_list B nwords RR) @ ''}'' @ ''}'') }"

definition printEC :: "nat \<Rightarrow> nat \<Rightarrow> nat \<Rightarrow> string option" where
  "printEC X Y fieldSize =
     do { version \<leftarrow> checkEC fieldSize;
          let nbytes = fieldSize div 8;
          let B = 2 ^ 8;
          Some (''v'' @ to_string 10 version @ '' '' @
            ''{'' @ to_string 10 nbytes @
            '',{'' @ commas (digit_list B nbytes X) @ ''}'' @
            '',{'' @ commas (digit_list B nbytes Y) @ ''}'' @ ''}'') }"

definition print :: "PublicKey \<Rightarrow> bool \<Rightarrow> string option" where
  "print key useSHA256 =
     (case key of
        RSAKey modulus pubexp \<Rightarrow> printRSA modulus pubexp useSHA256
      | ECKey x y fieldSize \<Rightarrow> printEC x y fieldSize)"

text \<open>The output of \<open>main\<close> for a list of keys, each with the hash its certificate asks for.\<close>

fun dump_keys :: "(PublicKey \<times> bool) list \<Rightarrow> string option" where
  "dump_keys [] = Some []"
| "dump_keys ((key, useSHA256) # ks) =
     do { _ \<leftarrow> check key useSHA256;
          s \<leftarrow> print key useSHA256;
          rest \<leftarrow> dump_keys ks;
          Some (s @ (if ks \<noteq> [] then '','' else []) @ [CHR 0x0A] @ rest) }"

section \<open>Reading what was written\<close>

lemma directives_simps:
  "directives '' , %u'' = [Space, Lit CHR '','', Space, Conv CHR ''u'']"
  "directives '' %c'' = [Space, Conv CHR ''c'']"
  "directives ''%d {'' = [Conv CHR ''d'', Space, Lit CHR ''{'']"
  "directives '' %i , 0x%x , { %u'' = [Space, Conv CHR ''i'', Space, Lit CHR '','', Space, Lit CHR ''0'', Lit CHR ''x'',
     Conv CHR ''x'', Space, Lit CHR '','', Space, Lit CHR ''{'', Space, Conv CHR ''u'']"
  "directives '' %i , { %u'' = [Space, Conv CHR ''i'', Space, Lit CHR '','', Space, Lit CHR ''{'', Space, Conv CHR ''u'']"
  "directives '' } , { %u'' = [Space, Lit CHR ''}'', Space, Lit CHR '','', Space, Lit CHR ''{'', Space, Conv CHR ''u'']"
  "directives '' } } '' = [Space, Lit CHR ''}'', Space, Lit CHR ''}'', Space]"
  by code_simp+

declare directives.simps [simp del]

lemma plain_chars: "\<not> isspace CHR '',''" "\<not> isspace CHR ''{''" "\<not> isspace CHR ''}''" "\<not> isspace CHR ''0''" "\<not> isspace CHR ''v''"
  "\<not> isspace CHR ''6''" "\<not> isspace CHR ''3''" "isspace CHR '' ''" "isspace CHR 0x0A"
  by code_simp+

lemma digit_chars: "\<not> is_digit 10 CHR '',''" "\<not> is_digit 10 CHR ''}''" "\<not> is_digit 16 CHR '',''" "\<not> is_digit 10 CHR '' ''"
  by code_simp+

lemma dropWhile_number:
  assumes "2 \<le> b" "b \<le> 16"
  shows "dropWhile isspace (to_string b n @ rest) = to_string b n @ rest"
proof -
  obtain d cs where "to_string b n = digit_char d # cs" "d < b" by (rule to_string_head[OF assms])
  then show ?thesis using digit_char_plain(1)[of d] assms by simp
qed

lemmas scan_simps = fscanf_def directives_simps plain_chars dropWhile_number

declare scanf.simps(4) [simp del]

lemma scanf_u:
  assumes "\<not> has_digit 10 rest" "n < 2 ^ 32"
  shows "scanf (Conv CHR ''u'' # ds) (to_string 10 n @ rest) = do { (vs, s) \<leftarrow> scanf ds rest; Some (int n # vs, s) }"
  using scan_number_decimal[OF assms(1), of n] assms(2) by (simp add: scanf.simps(4) conv_base_def conv_value_def)

lemma scanf_x:
  assumes "n < 2 ^ 32"
  shows "scanf (Conv CHR ''x'' # ds) (to_string 16 n @ CHR '','' # rest) =
    do { (vs, s) \<leftarrow> scanf ds (CHR '','' # rest); Some (int n # vs, s) }"
  using scan_number_hex[of "CHR '','' # rest" n] assms by (simp add: scanf.simps(4) conv_base_def conv_value_def has_digit_def digit_chars)

lemma commas_Cons: "commas (n # ns) = to_string 10 n @ concat (map (\<lambda>n. CHR '','' # to_string 10 n) ns)"
  by (induction "n # ns" arbitrary: n ns rule: commas.induct) auto

lemma read_list_commas:
  assumes "list_all (\<lambda>n. n < 2 ^ 32) ns" "\<not> has_digit 10 rest"
  shows "read_list (length ns) (concat (map (\<lambda>n. CHR '','' # to_string 10 n) ns) @ rest) = Some (Some (map int ns), rest)"
  using assms
proof (induction ns)
  case (Cons n ns)
  have "\<not> has_digit 10 (concat (map (\<lambda>n. CHR '','' # to_string 10 n) ns) @ rest)"
    using Cons.prems(2) by (cases ns) (simp_all add: has_digit_def digit_chars)
  with Cons show ?case
    by (simp add: scan_simps scanf_u)
qed simp


text \<open>What the reader makes of a printed key.\<close>

definition mont_rr :: "nat \<Rightarrow> nat" where
  "mont_rr modulus = 2 ^ 2048 * 2 ^ 2048 mod modulus"

definition rsa_cert :: "nat \<Rightarrow> nat \<Rightarrow> nat \<Rightarrow> bool \<Rightarrow> Certificate" where
  "rsa_cert ninv modulus pubexp useSHA256 =
     \<lparr>hash_len = if useSHA256 then SHA256_DIGEST_SIZE else SHA_DIGEST_SIZE, key_type = RSA,
      rsa = Some \<lparr>key_len = 64, key_n0inv = of_nat (2 ^ 32 - ninv), key_n = map of_nat (digit_list (2 ^ 32) 64 modulus),
        key_rr = map of_nat (digit_list (2 ^ 32) 64 (mont_rr modulus)), key_exponent = int pubexp\<rparr>,
      ec = None\<rparr>"

definition ec_cert :: "nat \<Rightarrow> nat \<Rightarrow> Certificate" where
  "ec_cert x y =
     \<lparr>hash_len = SHA256_DIGEST_SIZE, key_type = EC, rsa = None,
      ec = Some \<lparr>ec_x = p256_from_bin (rev (map of_nat (digit_list 256 32 x))),
        ec_y = p256_from_bin (rev (map of_nat (digit_list 256 32 y)))\<rparr>\<rparr>"

lemma length_digit_list: "length (digit_list b k n) = k"
  by (induction k arbitrary: n) auto

lemma digit_list_less: "0 < b \<Longrightarrow> list_all (\<lambda>d. d < b) (digit_list b k n)"
  by (induction k arbitrary: n) auto

lemma digit_list_Suc_pred: "0 < k \<Longrightarrow> digit_list b k n = n mod b # digit_list b (k - 1) (n div b)"
  by (cases k) auto

lemma scan_int_64: "scan_number 0 (CHR ''6'' # CHR ''4'' # CHR '','' # rest) = (Some 64, CHR '','' # rest)"
  by (simp add: scan_number_def scan_magnitude_def hex_prefix_def has_digit_def is_digit_def digit_value_def plain_chars)

lemma scan_int_32: "scan_number 0 (CHR ''3'' # CHR ''2'' # CHR '','' # rest) = (Some 32, CHR '','' # rest)"
  by (simp add: scan_number_def scan_magnitude_def hex_prefix_def has_digit_def is_digit_def digit_value_def plain_chars)

lemma number_list:
  assumes "0 < k" "1 < b" "b \<le> 2 ^ 32" "\<not> has_digit 10 rest"
  shows "scanf [Conv CHR ''u''] (commas (digit_list b k n) @ rest) =
      Some ([int (n mod b)], concat (map (\<lambda>n. CHR '','' # to_string 10 n) (digit_list b (k - 1) (n div b))) @ rest)"
    and "read_list (k - 1) (concat (map (\<lambda>n. CHR '','' # to_string 10 n) (digit_list b (k - 1) n)) @ rest) =
      Some (Some (map int (digit_list b (k - 1) n)), rest)"
    and "dropWhile isspace (commas (digit_list b k n) @ rest) = commas (digit_list b k n) @ rest"
proof -
  let ?tail = "\<lambda>n. concat (map (\<lambda>n. CHR '','' # to_string 10 n) (digit_list b (k - 1) n)) @ rest"
  have "list_all (\<lambda>d. d < b) (digit_list b (k - 1) n)" using assms(2) by (intro digit_list_less) simp
  then have "list_all (\<lambda>d. d < 2 ^ 32) (digit_list b (k - 1) n)" using assms(3) by (fastforce simp: list_all_iff)
  from read_list_commas[OF this assms(4)] show "read_list (k - 1) (?tail n) = Some (Some (map int (digit_list b (k - 1) n)), rest)"
    by (simp add: length_digit_list)
  have nd: "\<not> has_digit 10 (?tail m)" for m
    using assms(4) by (cases "digit_list b (k - 1) m") (simp_all add: has_digit_def digit_chars)
  have "n mod b < 2 ^ 32" using assms(2,3) mod_less_divisor[of b n] by linarith
  then show "scanf [Conv CHR ''u''] (commas (digit_list b k n) @ rest) = Some ([int (n mod b)], ?tail (n div b))"
    using scanf_u[OF nd] by (simp add: digit_list_Suc_pred[OF assms(1)] commas_Cons)
  show "dropWhile isspace (commas (digit_list b k n) @ rest) = commas (digit_list b k n) @ rest"
    by (simp add: digit_list_Suc_pred[OF assms(1)] commas_Cons dropWhile_number)
qed

lemma brace_digit: "\<not> has_digit 10 (CHR ''}'' # rest)"
  by (simp add: has_digit_def digit_chars)

lemma read_rsa_printed:
  assumes "0 < ninv"
  shows "read_rsa (int pubexp) (if useSHA256 then SHA256_DIGEST_SIZE else SHA_DIGEST_SIZE)
      (''64'' @ '',0x'' @ to_string 16 (2 ^ 32 - ninv) @ '',{'' @ commas (digit_list (2 ^ 32) 64 modulus) @ ''}'' @
       '',{'' @ commas (digit_list (2 ^ 32) 64 (mont_rr modulus)) @ ''}'' @ ''}'' @ rest) =
    Some (Some (rsa_cert ninv modulus pubexp useSHA256), dropWhile isspace rest)"
proof -
  define RR where "RR = mont_rr modulus"
  define B where "B = (2 :: nat) ^ 32"
  define n0 where "n0 = B - ninv"
  have B: "1 < B" "B \<le> 2 ^ 32" and n0: "n0 < 2 ^ 32" using assms by (simp_all add: B_def n0_def)
  have 64: "0 < (64 :: nat)" "(64 :: nat) - 1 = 63" by simp_all
  note numbers = number_list[OF 64(1) B brace_digit, unfolded 64(2)]
  have 1: "fscanf '' %i , 0x%x , { %u'' (''64'' @ '',0x'' @ to_string 16 n0 @ '',{'' @ commas (digit_list B 64 modulus) @ CHR ''}'' # cs) =
      Some ([64, int n0, int (modulus mod B)],
        concat (map (\<lambda>n. CHR '','' # to_string 10 n) (digit_list B 63 (modulus div B))) @ CHR ''}'' # cs)" for cs
    using n0 by (simp add: scan_simps scanf.simps(4)[of "CHR ''i''"] conv_base_def conv_value_def scan_int_64 scanf_x numbers)
  have 2: "fscanf '' } , { %u'' (CHR ''}'' # '',{'' @ commas (digit_list B 64 RR) @ CHR ''}'' # cs) =
      Some ([int (RR mod B)], concat (map (\<lambda>n. CHR '','' # to_string 10 n) (digit_list B 63 (RR div B))) @ CHR ''}'' # cs)" for cs
    by (simp add: scan_simps numbers)
  have 3: "fscanf '' } } '' (''}'' @ ''}'' @ rest) = Some ([], dropWhile isspace rest)"
    by (simp add: scan_simps)
  have d: "digit_list B 64 n = n mod B # digit_list B 63 (n div B)" for n using digit_list_Suc_pred[of 64 B n] by simp
  show ?thesis
    unfolding B_def[symmetric] RR_def[symmetric] n0_def[symmetric] read_rsa_def rsa_cert_def
    using 1[of "'',{'' @ commas (digit_list B 64 RR) @ CHR ''}'' # ''}'' @ rest"] 2[of "''}'' @ rest"] 3
    by (simp add: RSANUMWORDS_def numbers d)
qed


lemma read_ec_printed:
  "read_ec SHA256_DIGEST_SIZE
      (''32'' @ '',{'' @ commas (digit_list 256 32 x) @ ''}'' @ '',{'' @ commas (digit_list 256 32 y) @ ''}'' @ ''}'' @ rest) =
    Some (Some (ec_cert x y), dropWhile isspace rest)"
proof -
  have B: "1 < (256 :: nat)" "(256 :: nat) \<le> 2 ^ 32" and 32: "0 < (32 :: nat)" "(32 :: nat) - 1 = 31" by simp_all
  note numbers = number_list[OF 32(1) B brace_digit, unfolded 32(2)]
  have 1: "fscanf '' %i , { %u'' (''32'' @ '',{'' @ commas (digit_list 256 32 x) @ CHR ''}'' # cs) =
      Some ([32, int (x mod 256)], concat (map (\<lambda>n. CHR '','' # to_string 10 n) (digit_list 256 31 (x div 256))) @ CHR ''}'' # cs)" for cs
    by (simp add: scan_simps scanf.simps(4)[of "CHR ''i''"] conv_base_def conv_value_def scan_int_32 numbers)
  have 2: "fscanf '' } , { %u'' (CHR ''}'' # '',{'' @ commas (digit_list 256 32 y) @ CHR ''}'' # cs) =
      Some ([int (y mod 256)], concat (map (\<lambda>n. CHR '','' # to_string 10 n) (digit_list 256 31 (y div 256))) @ CHR ''}'' # cs)" for cs
    by (simp add: scan_simps numbers)
  have 3: "fscanf '' } } '' (''}'' @ ''}'' @ rest) = Some ([], dropWhile isspace rest)"
    by (simp add: scan_simps)
  have d: "digit_list 256 32 n = n mod 256 # digit_list 256 31 (n div 256)" for n using digit_list_Suc_pred[of 32 256 n] by simp
  show ?thesis
    unfolding read_ec_def ec_cert_def
    using 1[of "'',{'' @ commas (digit_list 256 32 y) @ CHR ''}'' # ''}'' @ rest"] 2[of "''}'' @ rest"] 3
    by (simp add: numbers d comp_def)
qed

lemma char_consts: "char_of (118 :: int) = CHR ''v''" "char_of (123 :: int) = CHR ''{''" "char_of (50 :: nat) = CHR ''2''"
  "char_of (51 :: nat) = CHR ''3''" "char_of (52 :: nat) = CHR ''4''" "char_of (54 :: nat) = CHR ''6''"
  by code_simp+

lemma read_start_version:
  assumes "dropWhile isspace f = ''v'' @ to_string 10 version @ '' '' @ ''{'' @ rest" "version < 2 ^ 31"
  shows "read_start f =
    (if version = 2 then Some (Some (Rsa_start 65537 SHA_DIGEST_SIZE), rest)
     else if version = 3 then Some (Some (Rsa_start 3 SHA256_DIGEST_SIZE), rest)
     else if version = 4 then Some (Some (Rsa_start 65537 SHA256_DIGEST_SIZE), rest)
     else if version = 5 then Some (Some (Ec_start SHA256_DIGEST_SIZE), rest)
     else Some (None, rest))"
proof -
  have 1: "fscanf '' %c'' f = Some ([of_char CHR ''v''], to_string 10 version @ CHR '' '' # CHR ''{'' # rest)"
    using assms(1) by (simp add: scan_simps scanf.simps(4))
  have "scan_number 10 (to_string 10 version @ CHR '' '' # CHR ''{'' # rest) = (Some (int version), CHR '' '' # CHR ''{'' # rest)"
    by (rule scan_number_decimal) (simp add: has_digit_def digit_chars)
  then have 2: "fscanf ''%d {'' (to_string 10 version @ CHR '' '' # CHR ''{'' # rest) = Some ([int version], rest)"
    using assms(2) by (simp add: scan_simps scanf.simps(4) conv_base_def conv_value_def)
  show ?thesis unfolding read_start_def using 1 2 by (simp add: char_consts)
qed

lemma read_start_brace:
  assumes "dropWhile isspace f = ''{'' @ rest"
  shows "read_start f = Some (Some (Rsa_start 3 SHA_DIGEST_SIZE), rest)"
proof -
  have "fscanf '' %c'' f = Some ([of_char CHR ''{''], rest)" using assms by (simp add: scan_simps scanf.simps(4))
  then show ?thesis by (simp add: read_start_def char_consts)
qed

lemma to_string_consts: "to_string 10 64 = ''64''" "to_string 10 32 = ''32''"
  by (simp_all add: to_string.simps digit_char_def char_consts)

text \<open>The certificate that the reader makes of a key; the inverse of the modulus is the one the tool computed.\<close>

definition cert_of :: "PublicKey \<times> bool \<Rightarrow> Certificate" where
  "cert_of k =
     (case k of
        (RSAKey modulus pubexp, useSHA256) \<Rightarrow> rsa_cert (the (modInverse modulus (2 ^ 32))) modulus pubexp useSHA256
      | (ECKey x y _, _) \<Rightarrow> ec_cert x y)"

lemma modInverse_pos:
  assumes "modInverse a m = Some ninv" "1 < m"
  shows "0 < ninv" "ninv < m" "a * ninv mod m = 1"
proof -
  let ?x = "fst (bezw a m)" and ?y = "snd (bezw a m)"
  have g: "gcd a m = 1" and i: "ninv = nat (?x mod int m)" using assms(1) by (auto simp: modInverse_def split: if_splits)
  have i': "int ninv = ?x mod int m" using assms(2) by (simp add: i)
  then show lt: "ninv < m" using assms(2) by (metis of_nat_0_less_iff of_nat_less_iff pos_mod_bound less_trans zero_less_one)
  have "?x * int a + ?y * int m = 1" using bezw_aux[of a m] g by simp
  then have "int a * ?x mod int m = 1 mod int m"
    by (metis mod_mult_self3 mult.commute add.commute)
  then have "int (a * ninv mod m) = 1" using assms(2) by (simp add: i' zmod_int mod_mult_right_eq)
  then show m: "a * ninv mod m = 1" by linarith
  then show "0 < ninv" by (cases ninv) auto
qed

lemma read_start_printed:
  assumes "v = (if pubexp = 3 then if sha then 3 else 1 else if sha then 4 else 2)" "pubexp = 3 \<or> pubexp = 65537"
    and f: "dropWhile isspace f = (if v > 1 then ''v'' @ to_string 10 v @ '' '' else []) @ ''{'' @ body"
  shows "read_start f = Some (Some (Rsa_start (int pubexp) (if sha then SHA256_DIGEST_SIZE else SHA_DIGEST_SIZE)), body)"
proof (cases "v = 1")
  case True
  then have "dropWhile isspace f = ''{'' @ body" using f by (simp only: less_irrefl if_False append_Nil)
  moreover have "pubexp = 3 \<and> \<not> sha" using assms(1) True by (simp split: if_splits)
  ultimately show ?thesis using read_start_brace[of f body] by simp
next
  case False
  then have "v > 1" "v < 2 ^ 31" using assms(1) by (auto split: if_splits)
  then have "dropWhile isspace f = ''v'' @ to_string 10 v @ '' '' @ ''{'' @ body" using f by (simp only: if_True append_assoc)
  note start = read_start_version[OF this \<open>v < 2 ^ 31\<close>]
  show ?thesis unfolding start using False assms(1,2) by (cases sha) (simp_all split: if_splits)
qed

lemma read_key_printed:
  assumes "check k sha = Some v" "print k sha = Some s" "dropWhile isspace f = s @ rest"
  shows "read_key f = Some (Some (cert_of (k, sha)), dropWhile isspace rest)"
proof (cases k)
  case (RSAKey modulus pubexp)
  then obtain ninv where c: "checkRSA modulus pubexp sha = Some v" and i: "modInverse modulus (2 ^ 32) = Some ninv"
    using assms(1,2) by (cases "modInverse modulus (2 ^ 32)") (auto simp: check_def print_def printRSA_def)
  from c have b: "bitLength modulus = 2048"
    and v: "v = (if pubexp = 3 then if sha then 3 else 1 else if sha then 4 else 2)" "pubexp = 3 \<or> pubexp = 65537"
    by (auto simp: checkRSA_def bind_eq_Some_conv split: if_splits)
  have pos: "0 < ninv" using modInverse_pos[OF i] by simp
  let ?body = "''64'' @ '',0x'' @ to_string 16 (2 ^ 32 - ninv) @ '',{'' @ commas (digit_list (2 ^ 32) 64 modulus) @ ''}'' @
       '',{'' @ commas (digit_list (2 ^ 32) 64 (mont_rr modulus)) @ ''}'' @ ''}'' @ rest"
  have f: "dropWhile isspace f = (if v > 1 then ''v'' @ to_string 10 v @ '' '' else []) @ ''{'' @ ?body"
  proof -
    have rr: "2 ^ bitLength modulus * 2 ^ bitLength modulus mod modulus = mont_rr modulus" by (simp only: b mont_rr_def)
    have "bitLength modulus div 32 = 64" by (simp add: b)
    then show ?thesis using assms(2,3) c i by (simp add: RSAKey print_def printRSA_def check_def rr to_string_consts)
  qed
  from read_start_printed[OF v f]
  show ?thesis using read_rsa_printed[OF pos, of pubexp sha modulus rest] i by (simp add: RSAKey read_key_def cert_of_def)
next
  case (ECKey x y fieldSize)
  then have f: "fieldSize = 256" "dropWhile isspace f = ''v'' @ to_string 10 5 @ '' '' @ ''{'' @ ''32'' @ '',{'' @
      commas (digit_list 256 32 x) @ ''}'' @ '',{'' @ commas (digit_list 256 32 y) @ ''}'' @ ''}'' @ rest"
    using assms by (auto simp: print_def printEC_def checkEC_def to_string_consts split: if_splits)
  show ?thesis
    using read_start_version[OF f(2)] read_ec_printed[of x y rest] by (simp add: ECKey read_key_def cert_of_def)
qed


lemma print_head:
  assumes "print k sha = Some s"
  obtains c cs where "s = c # cs" "\<not> isspace c"
  using assms
  by (cases k) (auto simp: print_def printRSA_def printEC_def bind_eq_Some_conv Let_def plain_chars intro: that split: if_splits)

lemma dropWhile_dump: "dump_keys ks = Some s \<Longrightarrow> dropWhile isspace s = s"
proof (induction ks)
  case (Cons k ks)
  obtain key sha where k: "k = (key, sha)" by fastforce
  with Cons.prems obtain p rest where "print key sha = Some p" "s = p @ rest"
    by (auto simp: bind_eq_Some_conv)
  then show ?case by (auto elim!: print_head)
qed simp

lemma load_loop_dump:
  assumes "dump_keys ks = Some s" "ks \<noteq> []" "dropWhile isspace f = s"
  shows "load_loop out f = Some (Some (out @ map cert_of ks))"
  using assms
proof (induction ks arbitrary: out f s)
  case (Cons k ks)
  obtain key sha where k: "k = (key, sha)" by fastforce
  with Cons.prems(1) obtain v p rest where p: "check key sha = Some v" "print key sha = Some p" "dump_keys ks = Some rest"
    and s: "s = p @ (if ks \<noteq> [] then '','' else []) @ [CHR 0x0A] @ rest"
    by (auto simp: bind_eq_Some_conv)
  have r: "read_key f = Some (Some (cert_of k), dropWhile isspace ((if ks \<noteq> [] then '','' else []) @ [CHR 0x0A] @ rest))"
    unfolding k by (rule read_key_printed[OF p(1,2)]) (simp add: Cons.prems(3) s)
  show ?case
  proof (cases "ks = []")
    case True
    then show ?thesis using r p(3) by (simp add: load_loop.simps[of out f] plain_chars)
  next
    case False
    have "load_loop (out @ [cert_of k]) (CHR 0x0A # rest) = Some (Some ((out @ [cert_of k]) @ map cert_of ks))"
      by (rule Cons.IH[OF p(3) False]) (simp add: plain_chars dropWhile_dump[OF p(3)])
    then show ?thesis using r False by (simp add: load_loop.simps[of out f] plain_chars)
  qed
qed simp

section \<open>Values of the keys that are read\<close>

lemma bn_digit_list: "bn (map of_nat (digit_list (2 ^ 32) k n)) = n mod 2 ^ (32 * k)"
proof (induction k arbitrary: n)
  case (Suc k)
  have "unat (of_nat (n mod 2 ^ 32) :: u32) = n mod 2 ^ 32" by (simp add: unat_of_nat take_bit_nat_eq_self)
  then have "bn (map of_nat (digit_list (2 ^ 32) (Suc k) n)) = n mod 2 ^ 32 + 2 ^ 32 * (n div 2 ^ 32 mod 2 ^ (32 * k))"
    using Suc.IH[of "n div 2 ^ 32"] by (simp only: digit_list.simps list.map bn.simps)
  also have "\<dots> = n mod (2 ^ 32 * 2 ^ (32 * k))" by (simp only: mod_mult2_eq)
  finally show ?case by (simp only: mult_Suc_right power_add)
qed simp

lemma be_val_digit_list: "be_val (rev (map of_nat (digit_list 256 k n))) = n mod 256 ^ k"
proof (induction k arbitrary: n)
  case (Suc k)
  have "unat (of_nat (n mod 256) :: u8) = n mod 256" by (simp add: unat_of_nat take_bit_nat_eq_self)
  then have "be_val (rev (map of_nat (digit_list 256 (Suc k) n))) = (n div 256 mod 256 ^ k) * 256 + n mod 256"
    using Suc.IH[of "n div 256"] by (simp add: be_val_append) (simp add: be_val_def)
  also have "\<dots> = n mod (256 * 256 ^ k)" by (simp only: mod_mult2_eq)
  finally show ?case by simp
qed simp

lemma bitLength_bounds: "bitLength n = Suc k \<Longrightarrow> 2 ^ k \<le> n \<and> n < 2 ^ Suc k"
proof (induction k arbitrary: n)
  case 0
  then have "n div 2 = 0" "n \<noteq> 0" using bitLength.simps[of n] bitLength.simps[of "n div 2"] by (auto split: if_splits)
  then show ?case by auto
next
  case (Suc k)
  then have "bitLength (n div 2) = Suc k" using bitLength.simps[of n] by (auto split: if_splits)
  from Suc.IH[OF this] show ?case by (simp add: less_mult_imp_div_less) linarith
qed


text \<open>The printed negated inverse is what Montgomery multiplication needs.\<close>

lemma negated_inverse:
  assumes "a * i mod m = 1" "0 < i" "i < m"
  shows "((m - i) * (a mod m) + 1) mod m = (0 :: nat)"
proof -
  have "((m - i) * (a mod m) + 1) mod m = ((m - i) * a + a * i) mod m"
    using assms(1) by (metis mod_add_left_eq mod_add_right_eq mod_mult_right_eq)
  also have "(m - i) * a + a * i = m * a" using assms(3) by (simp add: diff_mult_distrib algebra_simps)
  finally show ?thesis by simp
qed

lemma rsa_cert_ok:
  assumes "bitLength N = 2048" "modInverse N (2 ^ 32) = Some ninv"
  obtains key where "rsa (rsa_cert ninv N e sha) = Some key" "key_ok key" "bn (key_n key) = N" "key_exponent key = int e"
    "key_len key = RSANUMWORDS"
proof -
  define R where "R = (2 :: nat) ^ (32 * 64)"
  have R: "(2 :: nat) ^ 2048 = R" by (simp only: R_def) simp
  have "2 ^ 2047 \<le> N \<and> N < 2 ^ Suc 2047" by (rule bitLength_bounds) (simp add: assms(1))
  then have N: "R \<le> 2 * N" "N < R" unfolding R[symmetric] by (simp_all only: power_Suc[symmetric] eval_nat_numeral(3)) simp_all
  define key where "key = the (rsa (rsa_cert ninv N e sha))"
  have key: "rsa (rsa_cert ninv N e sha) = Some key" "key_len key = 64" "key_n0inv key = of_nat (2 ^ 32 - ninv)"
    "key_n key = map of_nat (digit_list (2 ^ 32) 64 N)" "key_rr key = map of_nat (digit_list (2 ^ 32) 64 (mont_rr N))"
    "key_exponent key = int e"
    by (simp_all only: key_def rsa_cert_def Certificate.select_convs RSAPublicKey.select_convs option.sel)
  have n: "bn (key_n key) = N" unfolding key bn_digit_list R_def[symmetric] using N(2) by (rule mod_less)
  have "0 < N" using N by linarith
  then have "mont_rr N < R" unfolding mont_rr_def by (rule less_trans[OF mod_less_divisor N(2)])
  then have rr: "bn (key_rr key) = mont_rr N" unfolding key bn_digit_list R_def[symmetric] by (rule mod_less)
  note inverse = modInverse_pos[OF assms(2)]
  have "unat (key_n key ! 0) = N mod 2 ^ 32"
    by (simp add: key digit_list_Suc_pred[of 64] unat_of_nat take_bit_nat_eq_self)
  moreover have "unat (key_n0inv key) = 2 ^ 32 - ninv" using inverse(1) by (simp add: key unat_of_nat take_bit_nat_eq_self)
  ultimately have "(unat (key_n0inv key) * unat (key_n key ! 0) + 1) mod 2 ^ 32 = 0"
    using negated_inverse[of N ninv "2 ^ 32"] inverse by simp
  moreover have "bn (key_rr key) mod bn (key_n key) = (mont_R key)\<^sup>2 mod bn (key_n key)"
    unfolding rr n mont_R_def key(2) R_def[symmetric] by (simp only: mont_rr_def R power2_eq_square mod_mod_trivial)
  moreover have "mont_R key \<le> 2 * bn (key_n key)" unfolding n mont_R_def key(2) R_def[symmetric] by (rule N(1))
  ultimately have "key_ok key" unfolding key_ok_def key(2) by (simp add: key(4,5) length_digit_list)
  then show thesis using that key n by (simp add: RSANUMWORDS_def)
qed

lemma ec_cert_ok:
  obtains key where "ec (ec_cert x y) = Some key" "p256_ok (ec_x key)" "p256_ok (ec_y key)"
    "bn (ec_x key) = x mod 2 ^ 256" "bn (ec_y key) = y mod 2 ^ 256"
proof -
  let ?p = "\<lambda>n. p256_from_bin (rev (map of_nat (digit_list 256 32 n)))"
  have v: "p256_ok (?p n) \<and> bn (?p n) = n mod 2 ^ 256" for n
    using p256_from_bin_value[of "rev (map of_nat (digit_list 256 32 n))"] be_val_digit_list[of 32 n]
    by (simp add: length_digit_list)
  show thesis by (rule that[of "\<lparr>ec_x = ?p x, ec_y = ?p y\<rparr>"]) (use v in \<open>simp_all add: ec_cert_def\<close>)
qed


section \<open>Properties\<close>

text \<open>The certificate holds the key: the values are those of the key, and an RSA key has the form that \<open>RSA_verify\<close> needs.\<close>

definition holds_key :: "PublicKey \<times> bool \<Rightarrow> Certificate \<Rightarrow> bool" where
  "holds_key k c \<longleftrightarrow>
     (case k of
        (RSAKey N e, useSHA256) \<Rightarrow>
          key_type c = RSA \<and> hash_len c = (if useSHA256 then SHA256_DIGEST_SIZE else SHA_DIGEST_SIZE) \<and>
          (\<exists>key. rsa c = Some key \<and> key_ok key \<and> key_len key = RSANUMWORDS \<and> bn (key_n key) = N \<and> key_exponent key = int e)
      | (ECKey x y _, _) \<Rightarrow>
          key_type c = EC \<and> hash_len c = SHA256_DIGEST_SIZE \<and>
          (\<exists>key. ec c = Some key \<and> p256_ok (ec_x key) \<and> p256_ok (ec_y key) \<and>
             bn (ec_x key) = x mod 2 ^ 256 \<and> bn (ec_y key) = y mod 2 ^ 256))"

lemma holds_key_cert:
  assumes "check key sha = Some v" "print key sha = Some s"
  shows "holds_key (key, sha) (cert_of (key, sha))"
proof (cases key)
  case (RSAKey N e)
  then obtain ninv where i: "modInverse N (2 ^ 32) = Some ninv"
    using assms by (cases "modInverse N (2 ^ 32)") (auto simp: check_def print_def printRSA_def)
  have "bitLength N = 2048" using assms(1) by (auto simp: RSAKey check_def checkRSA_def bind_eq_Some_conv split: if_splits)
  from rsa_cert_ok[OF this i, of e sha] show ?thesis using i
    by (fastforce simp: RSAKey holds_key_def cert_of_def rsa_cert_def)
next
  case (ECKey x y n)
  then show ?thesis using ec_cert_ok[of x y] by (fastforce simp: holds_key_def cert_of_def ec_cert_def)
qed

lemma dump_keys_ok: "dump_keys ks = Some s \<Longrightarrow> list_all2 holds_key ks (map cert_of ks)"
  by (induction ks arbitrary: s) (fastforce simp: bind_eq_Some_conv intro: holds_key_cert)+

lemma load_keys_dump:
  assumes "dump_keys ks = Some file" "ks \<noteq> []"
  shows "load_keys (Some file) = Some (Some (map cert_of ks))"
  using load_loop_dump[OF assms dropWhile_dump[OF assms(1)], of "[]"] by (simp add: load_keys_def)

text \<open>
  C6. \<open>load_keys\<close> reads every nonempty file of keys that \<open>DumpPublicKey\<close> writes, in order and completely; each certificate
  holds its key, and the RSA keys satisfy the precondition of Montgomery multiplication.
\<close>

theorem load_keys_round_trip:
  assumes "dump_keys ks = Some file" "ks \<noteq> []"
  shows "\<exists>certs. load_keys (Some file) = Some (Some certs) \<and> list_all2 holds_key ks certs"
  using load_keys_dump[OF assms] dump_keys_ok[OF assms(1)] by blast

definition sample_keys :: "(PublicKey \<times> bool) list" where
  "sample_keys = [(RSAKey (2 ^ 2048 - 1) 3, False), (ECKey 1 2 256, True)]"

lemma bitLength_eqI: "2 ^ k \<le> n \<Longrightarrow> n < 2 ^ Suc k \<Longrightarrow> bitLength n = Suc k"
proof (induction k arbitrary: n)
  case 0
  then have "n = 1" by simp
  then show ?case by (simp add: bitLength.simps)
next
  case (Suc k)
  then have "2 * 2 ^ k \<le> n" "n < 2 * (2 * 2 ^ k)" by simp_all
  then have "2 ^ k \<le> n div 2" "n div 2 < 2 ^ Suc k" by simp_all
  then have "bitLength (n div 2) = Suc k" by (rule Suc.IH)
  then show ?case using Suc.prems by (simp add: bitLength.simps[of n])
qed

lemma dump_pair:
  assumes "bitLength N = 2048" "gcd N (2 ^ 32) = 1"
  shows "dump_keys [(RSAKey N 3, False), (ECKey x y 256, True)] \<noteq> None"
  using assms by (simp add: print_def check_def printRSA_def printEC_def checkRSA_def checkEC_def modInverse_def Let_def del: power_mult_numeral)

lemma sample_keys_dump: "dump_keys sample_keys = Some (the (dump_keys sample_keys))"
proof -
  define k where "k = (2047 :: nat)"
  have k: "2048 = Suc k" by (simp add: k_def)
  have "bitLength (2 ^ Suc k - 1) = Suc k" by (rule bitLength_eqI) (simp_all add: Suc_leI)
  moreover have "odd ((2 :: nat) ^ Suc k - 1)" by simp
  then have "gcd ((2 :: nat) ^ Suc k - 1) (2 ^ 32) = 1"
    by (simp only: coprime_iff_gcd_eq_1[symmetric] coprime_power_right_iff coprime_right_2_iff_odd simp_thms)
  ultimately have "dump_keys sample_keys \<noteq> None"
    unfolding sample_keys_def by (intro dump_pair) (simp_all only: k)
  then show ?thesis by simp
qed

theorem load_keys_round_trip_witness:
  "\<exists>certs. load_keys (Some (the (dump_keys sample_keys))) = Some (Some certs) \<and> list_all2 holds_key sample_keys certs"
  by (rule load_keys_round_trip[OF sample_keys_dump]) (simp only: sample_keys_def list.distinct not_False_eq_True)

text \<open>
  C7. A key that starts with a character other than \<open>{\<close> and \<open>v\<close> is not rejected: the zeroed certificate passes for an RSA
  key, and the number that follows is stored through a null pointer.
\<close>

theorem load_keys_null_pointer:
  assumes "\<not> isspace c" "c \<noteq> CHR ''{''" "c \<noteq> CHR ''v''"
  shows "load_keys (Some (c # ''64,'' @ rest)) = None"
proof -
  have s: "read_start (c # ''64,'' @ rest) = Some (Some Zero_start, ''64,'' @ rest)"
    using assms by (simp add: read_start_def scan_simps scanf.simps(4))
  have "vs \<noteq> []" if "fscanf '' %i , 0x%x , { %u'' (''64,'' @ rest) = Some (vs, f)" for vs f
    using that by (auto simp: scan_simps scanf.simps(4)[of "CHR ''i''"] conv_base_def conv_value_def scan_int_64 bind_eq_Some_conv)
  then have "read_null (''64,'' @ rest) = None"
    by (cases "fscanf '' %i , 0x%x , { %u'' (''64,'' @ rest)") (auto simp: read_null_def)
  then show ?thesis using s by (simp add: load_keys_def load_loop.simps read_key_def)
qed

theorem load_keys_null_pointer_witness: "load_keys (Some ''[64,'') = None"
  using load_keys_null_pointer[of "CHR ''[''" "[]"] by (simp add: isspace_def)

end
