(* ===== verification/Mapped.thy ===== *)
theory Mapped
  imports Digits
begin

text \<open>
  A file mapped into memory, given by its bytes. Pointers into it are integer offsets, which may run before or past the
  file; an access there has no value. Shared by the package verifier and the Zip parser.
\<close>

text \<open>\<open>*p\<close> for a pointer into the mapped file; \<open>None\<close> outside of it.\<close>

definition deref :: "u8 list \<Rightarrow> int \<Rightarrow> u8 option" where
  "deref mem p = (if 0 \<le> p \<and> p < int (length mem) then Some (mem ! nat p) else None)"

text \<open>The \<open>n\<close> bytes from a pointer on.\<close>

definition piece :: "u8 list \<Rightarrow> int \<Rightarrow> nat \<Rightarrow> u8 list option" where
  "piece mem p n = (if 0 \<le> p \<and> p + int n \<le> int (length mem) then Some (take n (drop (nat p) mem)) else None)"

lemma deref_nth: "i < length mem \<Longrightarrow> deref mem (int i) = Some (mem ! i)"
  by (simp add: deref_def)

end
