(* ===== verification/Asn1.thy ===== *)
theory Asn1
  imports Mapped "HOL-Library.Monad_Syntax"
begin

text \<open>
  The DER reader of the package verifier (\<^verbatim>\<open>verifier24/asn1_decoder.cpp\<close>). A context is a window of the mapped
  file; pointers are offsets into it and an access outside the file has no value. The second half gives each
  operation its meaning on the bytes of the window and a DER encoder that the reader inverts.
\<close>

unbundle bit_operations_syntax

section \<open>The code\<close>

record asn1_context =
  asn_length :: nat
  asn_p :: int
  asn_app_type :: int

definition kMaskConstructed :: int where "kMaskConstructed = 0xE0"
definition kMaskTag :: int where "kMaskTag = 0x7F"
definition kMaskAppType :: int where "kMaskAppType = 0x1F"
definition kTagOctetString :: int where "kTagOctetString = 0x04"
definition kTagOid :: int where "kTagOid = 0x06"
definition kTagSequence :: int where "kTagSequence = 0x30"
definition kTagSet :: int where "kTagSet = 0x31"
definition kTagConstructed :: int where "kTagConstructed = 0xA0"

lemmas asn1_consts = kMaskConstructed_def kMaskTag_def kMaskAppType_def kTagOctetString_def kTagOid_def
  kTagSequence_def kTagSet_def kTagConstructed_def

text \<open>\<open>calloc\<close> may fail, as the first argument says.\<close>

definition asn1_context_new :: "bool \<Rightarrow> int \<Rightarrow> nat \<Rightarrow> asn1_context option" where
  "asn1_context_new ok buffer len =
     (if ok then Some \<lparr>asn_length = len, asn_p = buffer, asn_app_type = 0\<rparr> else None)"

definition peek_byte :: "u8 list \<Rightarrow> asn1_context \<Rightarrow> int option" where
  "peek_byte mem ctx =
     (if asn_length ctx \<le> 0 then Some (- 1)
      else do { byte \<leftarrow> deref mem (asn_p ctx); Some (uint byte) })"

definition get_byte :: "u8 list \<Rightarrow> asn1_context \<Rightarrow> (int \<times> asn1_context) option" where
  "get_byte mem ctx =
     (if asn_length ctx \<le> 0 then Some (- 1, ctx)
      else do {
        byte \<leftarrow> deref mem (asn_p ctx);
        Some (uint byte, ctx\<lparr>asn_p := asn_p ctx + 1, asn_length := asn_length ctx - 1\<rparr>) })"

definition skip_bytes :: "asn1_context \<Rightarrow> nat \<Rightarrow> bool \<times> asn1_context" where
  "skip_bytes ctx num_skip =
     (if asn_length ctx < num_skip then (False, ctx)
      else (True, ctx\<lparr>asn_p := asn_p ctx + int num_skip, asn_length := asn_length ctx - num_skip\<rparr>))"

text \<open>
  Results of the routines below: \<open>None\<close> for an access outside the file, otherwise the value that was read, if
  the routine reports success, and the context. \<open>size_t\<close> has four bytes.
\<close>

fun length_octets :: "u8 list \<Rightarrow> nat \<Rightarrow> u32 \<Rightarrow> asn1_context \<Rightarrow> (nat option \<times> asn1_context) option" where
  "length_octets mem 0 len ctx = Some (Some (unat len), ctx)"
| "length_octets mem (Suc n) len ctx =
     do { (byte, ctx) \<leftarrow> get_byte mem ctx;
          if byte = - 1 then Some (None, ctx)
          else length_octets mem n (push_bit 8 len + word_of_int byte) ctx }"

definition decode_length :: "u8 list \<Rightarrow> asn1_context \<Rightarrow> (nat option \<times> asn1_context) option" where
  "decode_length mem ctx =
     do { (num_octets, ctx) \<leftarrow> get_byte mem ctx;
          if num_octets = - 1 then Some (None, ctx)
          else if num_octets AND 0x80 = 0 then Some (Some (nat num_octets), ctx)
          else let num_octets = nat (num_octets AND kMaskTag)
               in if num_octets \<ge> 4 then Some (None, ctx)
                  else length_octets mem num_octets 0 ctx }"

definition asn1_constructed_get :: "bool \<Rightarrow> u8 list \<Rightarrow> asn1_context \<Rightarrow> (asn1_context option \<times> asn1_context) option" where
  "asn1_constructed_get ok mem ctx =
     do { (type, ctx) \<leftarrow> get_byte mem ctx;
          if type = - 1 \<or> type AND kMaskConstructed \<noteq> kTagConstructed then Some (None, ctx)
          else do {
            (len, ctx) \<leftarrow> decode_length mem ctx;
            case len of
              None \<Rightarrow> Some (None, ctx)
            | Some len \<Rightarrow>
                if len > asn_length ctx then Some (None, ctx)
                else do { \<comment> \<open>\<open>app_ctx->app_type\<close> is set without a test of \<open>app_ctx\<close>\<close>
                  app_ctx \<leftarrow> asn1_context_new ok (asn_p ctx) len;
                  Some (Some (app_ctx\<lparr>asn_app_type := type AND kMaskAppType\<rparr>), ctx) } } }"

text \<open>The loop of \<open>asn1_constructed_skip_all\<close>; \<open>None\<close> also if it did not end.\<close>

partial_function (option) constructed_skip_loop :: "u8 list \<Rightarrow> int \<Rightarrow> asn1_context \<Rightarrow> (bool \<times> asn1_context) option" where
  "constructed_skip_loop mem byte ctx =
     (if byte \<noteq> - 1 \<and> byte AND kMaskConstructed = kTagConstructed
      then do {
        (len, ctx) \<leftarrow> decode_length mem (snd (skip_bytes ctx 1));
        case len of
          None \<Rightarrow> Some (False, ctx)
        | Some len \<Rightarrow>
            let (skipped, ctx) = skip_bytes ctx len
            in if \<not> skipped then Some (False, ctx)
               else do { byte \<leftarrow> peek_byte mem ctx; constructed_skip_loop mem byte ctx } }
      else Some (byte \<noteq> - 1, ctx))"

definition asn1_constructed_skip_all :: "u8 list \<Rightarrow> asn1_context \<Rightarrow> (bool \<times> asn1_context) option" where
  "asn1_constructed_skip_all mem ctx =
     do { byte \<leftarrow> peek_byte mem ctx; constructed_skip_loop mem byte ctx }"

definition asn1_constructed_type :: "asn1_context \<Rightarrow> int" where
  "asn1_constructed_type ctx = asn_app_type ctx"

definition asn1_sequence_get :: "bool \<Rightarrow> u8 list \<Rightarrow> asn1_context \<Rightarrow> (asn1_context option \<times> asn1_context) option" where
  "asn1_sequence_get ok mem ctx =
     do { (type, ctx) \<leftarrow> get_byte mem ctx;
          if type AND kMaskTag \<noteq> kTagSequence then Some (None, ctx)
          else do {
            (len, ctx) \<leftarrow> decode_length mem ctx;
            case len of
              None \<Rightarrow> Some (None, ctx)
            | Some len \<Rightarrow>
                if len > asn_length ctx then Some (None, ctx)
                else Some (asn1_context_new ok (asn_p ctx) len, ctx) } }"

definition asn1_set_get :: "bool \<Rightarrow> u8 list \<Rightarrow> asn1_context \<Rightarrow> (asn1_context option \<times> asn1_context) option" where
  "asn1_set_get ok mem ctx =
     do { (type, ctx) \<leftarrow> get_byte mem ctx;
          if type AND kMaskTag \<noteq> kTagSet then Some (None, ctx)
          else do {
            (len, ctx) \<leftarrow> decode_length mem ctx;
            case len of
              None \<Rightarrow> Some (None, ctx)
            | Some len \<Rightarrow>
                if len > asn_length ctx then Some (None, ctx)
                else Some (asn1_context_new ok (asn_p ctx) len, ctx) } }"

definition asn1_sequence_next :: "u8 list \<Rightarrow> asn1_context \<Rightarrow> (bool \<times> asn1_context) option" where
  "asn1_sequence_next mem ctx =
     do { (byte, ctx) \<leftarrow> get_byte mem ctx;
          if byte = - 1 then Some (False, ctx)
          else do {
            (len, ctx) \<leftarrow> decode_length mem ctx;
            case len of
              None \<Rightarrow> Some (False, ctx)
            | Some len \<Rightarrow> Some (skip_bytes ctx len) } }"

text \<open>The string getters return the pointer and the length.\<close>

definition asn1_oid_get :: "u8 list \<Rightarrow> asn1_context \<Rightarrow> ((int \<times> nat) option \<times> asn1_context) option" where
  "asn1_oid_get mem ctx =
     do { (byte, ctx) \<leftarrow> get_byte mem ctx;
          if byte \<noteq> kTagOid then Some (None, ctx)
          else do {
            (len, ctx) \<leftarrow> decode_length mem ctx;
            case len of
              None \<Rightarrow> Some (None, ctx)
            | Some len \<Rightarrow>
                if len = 0 \<or> len > asn_length ctx then Some (None, ctx)
                else Some (Some (asn_p ctx, len), ctx) } }"

definition asn1_octet_string_get :: "u8 list \<Rightarrow> asn1_context \<Rightarrow> ((int \<times> nat) option \<times> asn1_context) option" where
  "asn1_octet_string_get mem ctx =
     do { (byte, ctx) \<leftarrow> get_byte mem ctx;
          if byte \<noteq> kTagOctetString then Some (None, ctx)
          else do {
            (len, ctx) \<leftarrow> decode_length mem ctx;
            case len of
              None \<Rightarrow> Some (None, ctx)
            | Some len \<Rightarrow>
                if len = 0 \<or> len > asn_length ctx then Some (None, ctx)
                else Some (Some (asn_p ctx, len), ctx) } }"

section \<open>Windows\<close>

text \<open>A context whose window lies in the file, and the bytes of the window.\<close>

definition in_file :: "u8 list \<Rightarrow> asn1_context \<Rightarrow> bool" where
  "in_file mem ctx \<longleftrightarrow> 0 \<le> asn_p ctx \<and> asn_p ctx + int (asn_length ctx) \<le> int (length mem)"

definition window :: "u8 list \<Rightarrow> asn1_context \<Rightarrow> u8 list" where
  "window mem ctx = take (asn_length ctx) (drop (nat (asn_p ctx)) mem)"

text \<open>The context \<open>ctx\<close> is a view of the bytes \<open>bs\<close>.\<close>

definition views :: "u8 list \<Rightarrow> asn1_context \<Rightarrow> u8 list \<Rightarrow> bool" where
  "views mem ctx bs \<longleftrightarrow> in_file mem ctx \<and> window mem ctx = bs"

text \<open>What is left after reading the first \<open>n\<close> bytes.\<close>

definition advance :: "asn1_context \<Rightarrow> nat \<Rightarrow> asn1_context" where
  "advance ctx n = ctx\<lparr>asn_p := asn_p ctx + int n, asn_length := asn_length ctx - n\<rparr>"

lemma views_length: "views mem ctx bs \<Longrightarrow> asn_length ctx = length bs"
  by (auto simp: views_def in_file_def window_def)

lemma views_advance: "views mem ctx bs \<Longrightarrow> n \<le> length bs \<Longrightarrow> views mem (advance ctx n) (drop n bs)"
  by (auto simp: views_def in_file_def window_def advance_def drop_take nat_add_distrib add.commute)

lemma views_take:
  "views mem ctx bs \<Longrightarrow> n \<le> length bs \<Longrightarrow> asn_p ctx' = asn_p ctx \<Longrightarrow> asn_length ctx' = n \<Longrightarrow> views mem ctx' (take n bs)"
  by (auto simp: views_def in_file_def window_def)

lemma deref_window:
  assumes "views mem ctx (b # bs)"
  shows "deref mem (asn_p ctx) = Some b"
proof -
  have w: "take (asn_length ctx) (drop (nat (asn_p ctx)) mem) = b # bs" and p: "0 \<le> asn_p ctx"
    using assms by (auto simp: views_def in_file_def window_def)
  have "nat (asn_p ctx) < length mem" using w by (metis drop_all leI list.distinct(1) take_Nil)
  moreover from this have "mem ! nat (asn_p ctx) = b" using w by (metis hd_drop_conv_nth hd_take list.sel(1) take_eq_Nil list.distinct(1) neq0_conv)
  ultimately show ?thesis using p by (simp add: deref_def nat_less_iff)
qed

lemma get_byte_views:
  "views mem ctx [] \<Longrightarrow> get_byte mem ctx = Some (- 1, ctx)"
  "views mem ctx (b # bs) \<Longrightarrow> get_byte mem ctx = Some (uint b, advance ctx 1)"
  using views_length[of mem ctx] deref_window[of mem ctx b bs]
  by (auto simp: get_byte_def advance_def algebra_simps)

lemma peek_byte_views:
  "views mem ctx [] \<Longrightarrow> peek_byte mem ctx = Some (- 1)"
  "views mem ctx (b # bs) \<Longrightarrow> peek_byte mem ctx = Some (uint b)"
  using views_length[of mem ctx] deref_window[of mem ctx b bs]
  by (auto simp: peek_byte_def)

lemma skip_bytes_views:
  "views mem ctx bs \<Longrightarrow> skip_bytes ctx n = (if n \<le> length bs then (True, advance ctx n) else (False, ctx))"
  using views_length[of mem ctx bs] by (auto simp: skip_bytes_def advance_def)

lemma advance_advance: "advance (advance ctx m) n = advance ctx (m + n)"
  by (simp add: advance_def)

section \<open>The operations on the bytes of a window\<close>

definition der_length :: "u8 list \<Rightarrow> (nat \<times> u8 list) option" where
  "der_length bs =
     (case bs of
        [] \<Rightarrow> None
      | b # rest \<Rightarrow>
          if unat b < 128 then Some (unat b, rest)
          else let n = unat b - 128
               in if n \<ge> 4 \<or> length rest < n then None else Some (be_val (take n rest), drop n rest))"

text \<open>The contents of the first element, if its tag is right and they are all there.\<close>

definition der_enter :: "(u8 \<Rightarrow> bool) \<Rightarrow> u8 list \<Rightarrow> u8 list option" where
  "der_enter tag bs =
     (case bs of
        [] \<Rightarrow> None
      | b # rest \<Rightarrow>
          if \<not> tag b then None
          else case der_length rest of
                 None \<Rightarrow> None
               | Some (n, rest) \<Rightarrow> if length rest < n then None else Some (take n rest))"

definition der_skip :: "u8 list \<Rightarrow> u8 list option" where
  "der_skip bs =
     (case bs of
        [] \<Rightarrow> None
      | b # rest \<Rightarrow>
          (case der_length rest of
             None \<Rightarrow> None
           | Some (n, rest) \<Rightarrow> if length rest < n then None else Some (drop n rest)))"

definition constructed :: "u8 \<Rightarrow> bool" where "constructed b \<longleftrightarrow> uint b AND 0xE0 = 0xA0"

lemma der_length_shrinks: "der_length bs = Some (n, rest) \<Longrightarrow> length rest < length bs"
  by (auto simp: der_length_def Let_def split: list.splits if_splits)

lemma der_skip_shrinks: "der_skip bs = Some rest \<Longrightarrow> length rest < length bs"
  using der_length_shrinks by (fastforce simp: der_skip_def split: list.splits option.splits if_splits)

function der_skip_all :: "u8 list \<Rightarrow> u8 list option" where
  "der_skip_all bs =
     (if bs = [] then None
      else if \<not> constructed (hd bs) then Some bs
      else case der_skip bs of None \<Rightarrow> None | Some rest \<Rightarrow> der_skip_all rest)"
  by pat_completeness auto
termination by (relation "measure length") (auto dest: der_skip_shrinks)

declare der_skip_all.simps [simp del]

text \<open>A routine's result that agrees with a value and the bytes left, and one that agrees with the bytes left.\<close>

definition reads :: "u8 list \<Rightarrow> ('a option \<times> asn1_context) option \<Rightarrow> ('a \<times> u8 list) option \<Rightarrow> bool" where
  "reads mem r spec \<longleftrightarrow>
     (\<exists>ctx. r = Some (map_option fst spec, ctx) \<and> (\<forall>x rest. spec = Some (x, rest) \<longrightarrow> views mem ctx rest))"

definition skips :: "u8 list \<Rightarrow> (bool \<times> asn1_context) option \<Rightarrow> u8 list option \<Rightarrow> bool" where
  "skips mem r spec \<longleftrightarrow>
     (\<exists>ctx. r = Some (spec \<noteq> None, ctx) \<and> (\<forall>rest. spec = Some rest \<longrightarrow> views mem ctx rest))"

lemma uint_u8: "0 \<le> uint (b :: u8)" "uint b < 256" "uint b \<noteq> - 1"
proof -
  show ge: "0 \<le> uint b" and "uint b < 256" using uint_bounded[of b] by simp_all
  from ge show "uint b \<noteq> - 1" by linarith
qed

lemma uint_tag_bit: "uint (b :: u8) AND 0x80 = 0 \<longleftrightarrow> unat b < 128"
proof -
  have even: "even (x div 128) \<longleftrightarrow> x < 128" if "0 \<le> x" "x < 256" for x :: int using that by presburger
  have "uint b AND 2 ^ 7 = 0 \<longleftrightarrow> even (uint b div 2 ^ 7)"
    by (simp only: and_exp_eq_0_iff_not_bit bit_iff_odd not_not)
  also have "\<dots> \<longleftrightarrow> uint b < 128" using even[OF uint_u8(1,2)[of b]] by simp
  finally show ?thesis unfolding unat_eq_nat_uint by (subst nat_less_iff[OF uint_u8(1)]) simp_all
qed

lemma uint_low_bits: "nat (uint (b :: u8) AND 0x7F) = unat b mod 128"
proof -
  have "uint b AND mask 7 = uint b mod 2 ^ 7" by (simp only: take_bit_eq_mask[symmetric] take_bit_eq_mod)
  then have "uint b AND 0x7F = uint b mod 128" by (simp add: mask_eq_exp_minus_1)
  then show ?thesis unfolding unat_eq_nat_uint by (simp only: nat_mod_distrib[OF uint_u8(1)]) simp
qed

lemma add_octet:
  fixes len :: u32 and b :: u8
  assumes "unat len * 256 + 256 \<le> 2 ^ 32"
  shows "unat (push_bit 8 len + word_of_int (uint b)) = unat len * 256 + unat b"
proof -
  have "unat (push_bit 8 len) = unat len * 256"
    using assms unsigned_push_bit_eq[of 8 len, where ?'a = nat] by (simp add: take_bit_nat_eq_self push_bit_eq_mult)
  moreover have "word_of_int (uint b) = (ucast b :: u32)" by simp
  ultimately show ?thesis using assms u8_less[of b]
    by (subst unat_add_lem [THEN iffD1]) (auto simp: ucast_u8_u32 unsigned_ucast_eq)
qed

lemma length_octets_views:
  assumes "views mem ctx bs" "unat len * 256 ^ n + 256 ^ n \<le> 2 ^ 32"
  shows "reads mem (length_octets mem n len ctx)
    (if length bs < n then None else Some (unat len * 256 ^ n + be_val (take n bs), drop n bs))"
  using assms
proof (induction n arbitrary: ctx bs len)
  case (Suc n)
  show ?case
  proof (cases bs)
    case Nil
    then show ?thesis using Suc.prems(1) by (simp add: get_byte_views reads_def)
  next
    case (Cons b bs')
    let ?len = "push_bit 8 len + word_of_int (uint b) :: u32"
    have "(unat len * 256 + 256) * 256 ^ n \<le> 2 ^ 32" using Suc.prems(2) by (simp add: algebra_simps)
    then have "(unat len * 256 + 256) * 1 \<le> 2 ^ 32" by (rule order_trans[rotated]) (intro mult_le_mono2, simp)
    then have len: "unat ?len = unat len * 256 + unat b" by (intro add_octet) simp
    have v: "views mem (advance ctx 1) bs'" using views_advance[OF Suc.prems(1), of 1] by (simp add: Cons)
    have "(unat len * 256 + unat b + 1) * 256 ^ n \<le> (unat len * 256 + 256) * 256 ^ n"
      using u8_less[of b] by (intro mult_le_mono1) simp
    also have "\<dots> \<le> 2 ^ 32" using Suc.prems(2) by (simp add: algebra_simps)
    finally have "unat ?len * 256 ^ n + 256 ^ n \<le> 2 ^ 32" unfolding len by (simp add: algebra_simps)
    from Suc.IH[OF v this] Suc.prems(1) show ?thesis
      unfolding len by (auto simp: Cons get_byte_views uint_u8 be_val_Cons algebra_simps split: if_splits)
  qed
qed (simp add: reads_def)

lemma decode_length_views:
  assumes "views mem ctx bs"
  shows "reads mem (decode_length mem ctx) (der_length bs)"
proof (cases bs)
  case Nil
  then show ?thesis using assms by (simp add: decode_length_def get_byte_views reads_def der_length_def)
next
  case (Cons b rest)
  have v: "views mem (advance ctx 1) rest" using views_advance[OF assms, of 1] by (simp add: Cons)
  have n: "unat b mod 128 = unat b - 128" if "\<not> unat b < 128"
    using that u8_less[of b] by (simp add: mod_if le_mod_geq)
  have "(256 :: nat) ^ k \<le> 2 ^ 32" if "k < 4" for k
  proof -
    have "(256 :: nat) ^ k \<le> 256 ^ 4" using that by (intro power_increasing) simp_all
    then show ?thesis by simp
  qed
  then have "reads mem (length_octets mem (unat b - 128) 0 (advance ctx 1))
      (if length rest < unat b - 128 then None else Some (be_val (take (unat b - 128) rest), drop (unat b - 128) rest))"
    if "unat b - 128 < 4" using length_octets_views[OF v, of 0 "unat b - 128", unfolded unsigned_0 mult_zero_left add_0_left] that by simp
  then show ?thesis using assms v n
    by (auto simp: Cons decode_length_def get_byte_views uint_u8 uint_tag_bit uint_low_bits kMaskTag_def der_length_def Let_def
        not_less reads_def)
qed

text \<open>The three ways in which reading a tag and a length can end.\<close>

lemma header_cases:
  assumes "views mem ctx bs"
  obtains "bs = []" "get_byte mem ctx = Some (- 1, ctx)"
  | b bs' ctx1 ctx2 where "bs = b # bs'" "get_byte mem ctx = Some (uint b, ctx1)"
      "decode_length mem ctx1 = Some (None, ctx2)" "der_length bs' = None"
  | b bs' ctx1 ctx2 n rest where "bs = b # bs'" "get_byte mem ctx = Some (uint b, ctx1)"
      "decode_length mem ctx1 = Some (Some n, ctx2)" "der_length bs' = Some (n, rest)"
      "views mem ctx2 rest" "asn_length ctx2 = length rest"
proof (cases bs)
  case Nil
  then show thesis using assms that(1) by (simp add: get_byte_views)
next
  case (Cons b bs')
  have v: "views mem (advance ctx 1) bs'" using views_advance[OF assms, of 1] by (simp add: Cons)
  have g: "get_byte mem ctx = Some (uint b, advance ctx 1)" using assms by (simp add: Cons get_byte_views)
  from decode_length_views[OF v] show thesis using that(2,3)[OF Cons g] views_length
    by (cases "der_length bs'") (auto simp: reads_def)
qed

lemma sequence_next_views:
  assumes "views mem ctx bs"
  shows "skips mem (asn1_sequence_next mem ctx) (der_skip bs)"
  by (rule header_cases[OF assms])
    (auto simp: asn1_sequence_next_def uint_u8 der_skip_def skips_def skip_bytes_views views_advance)

text \<open>The getters that open a nested element, each for its tags.\<close>

definition opens :: "u8 list \<Rightarrow> (asn1_context option \<times> asn1_context) option \<Rightarrow> u8 list option \<Rightarrow> bool" where
  "opens mem r spec \<longleftrightarrow>
     (\<exists>inner ctx. r = Some (inner, ctx) \<and> (inner = None \<longleftrightarrow> spec = None) \<and>
        (\<forall>c cs. inner = Some c \<and> spec = Some cs \<longrightarrow> views mem c cs))"

definition sequence_tag :: "u8 \<Rightarrow> bool" where "sequence_tag b \<longleftrightarrow> uint b AND 0x7F = 0x30"
definition set_tag :: "u8 \<Rightarrow> bool" where "set_tag b \<longleftrightarrow> uint b AND 0x7F = 0x31"

lemmas opens_simps = opens_def der_enter_def asn1_consts asn1_context_new_def views_take uint_u8

lemma sequence_get_views:
  assumes "views mem ctx bs"
  shows "opens mem (asn1_sequence_get True mem ctx) (der_enter sequence_tag bs)"
  by (rule header_cases[OF assms]) (auto simp: asn1_sequence_get_def sequence_tag_def opens_simps)

lemma set_get_views:
  assumes "views mem ctx bs"
  shows "opens mem (asn1_set_get True mem ctx) (der_enter set_tag bs)"
  by (rule header_cases[OF assms]) (auto simp: asn1_set_get_def set_tag_def opens_simps)

lemma constructed_get_views:
  assumes "views mem ctx bs"
  shows "opens mem (asn1_constructed_get True mem ctx) (der_enter constructed bs)"
  by (rule header_cases[OF assms]) (auto simp: asn1_constructed_get_def constructed_def opens_simps)

text \<open>A string getter returns a piece of the file.\<close>

definition gives :: "u8 list \<Rightarrow> ((int \<times> nat) option \<times> asn1_context) option \<Rightarrow> u8 list option \<Rightarrow> bool" where
  "gives mem r spec \<longleftrightarrow>
     (\<exists>loc ctx. r = Some (loc, ctx) \<and> (loc = None \<longleftrightarrow> spec = None) \<and>
        (\<forall>p n cs. loc = Some (p, n) \<and> spec = Some cs \<longrightarrow> piece mem p n = Some cs \<and> n = length cs))"

definition der_string :: "u8 \<Rightarrow> u8 list \<Rightarrow> u8 list option" where
  "der_string tag bs =
     (case der_enter (\<lambda>b. b = tag) bs of None \<Rightarrow> None | Some cs \<Rightarrow> if cs = [] then None else Some cs)"

lemma piece_views: "views mem ctx bs \<Longrightarrow> n \<le> length bs \<Longrightarrow> piece mem (asn_p ctx) n = Some (take n bs)"
  by (auto simp: views_def in_file_def window_def piece_def)

lemma uint_eq_tag: "uint (b :: u8) = 4 \<longleftrightarrow> b = 4" "uint b = 6 \<longleftrightarrow> b = 6"
  by (auto simp: word_uint_eq_iff)

lemma octet_string_get_views:
  assumes "views mem ctx bs"
  shows "gives mem (asn1_octet_string_get mem ctx) (der_string 0x04 bs)"
  by (rule header_cases[OF assms])
    (auto simp: asn1_octet_string_get_def gives_def der_string_def der_enter_def asn1_consts uint_eq_tag piece_views)

lemma oid_get_views:
  assumes "views mem ctx bs"
  shows "gives mem (asn1_oid_get mem ctx) (der_string 0x06 bs)"
  by (rule header_cases[OF assms])
    (auto simp: asn1_oid_get_def gives_def der_string_def der_enter_def asn1_consts uint_eq_tag piece_views)

text \<open>The loop over the optional elements ends, because every element has at least two bytes.\<close>

lemma skip_loop_views:
  assumes "views mem ctx bs"
  shows "\<exists>byte. peek_byte mem ctx = Some byte \<and> skips mem (constructed_skip_loop mem byte ctx) (der_skip_all bs)"
  using assms
proof (induction bs arbitrary: ctx rule: der_skip_all.induct)
  case (1 bs)
  show ?case
  proof (cases bs)
    case Nil
    then show ?thesis using "1.prems"
      by (simp add: peek_byte_views constructed_skip_loop.simps der_skip_all.simps skips_def)
  next
    case (Cons b bs')
    have v: "views mem (advance ctx 1) bs'" using views_advance[OF "1.prems", of 1] by (simp add: Cons)
    have k: "snd (skip_bytes ctx (Suc 0)) = advance ctx (Suc 0)" using skip_bytes_views[OF "1.prems", of 1] by (simp add: Cons)
    have next_element: "skips mem (constructed_skip_loop mem (uint b) ctx)
        (case der_skip bs of None \<Rightarrow> None | Some rest \<Rightarrow> der_skip_all rest)" if c: "constructed b"
    proof (cases "der_length bs'")
      case None
      then show ?thesis using decode_length_views[OF v] c
        by (auto simp: Cons constructed_skip_loop.simps k constructed_def asn1_consts uint_u8 der_skip_def skips_def reads_def)
    next
      case (Some p)
      then obtain n rest ctx' where d: "der_length bs' = Some (n, rest)" "decode_length mem (advance ctx 1) = Some (Some n, ctx')"
        "views mem ctx' rest" using decode_length_views[OF v] by (cases p) (auto simp: reads_def)
      have step: "skips mem (peek_byte mem (advance ctx' n) \<bind> (\<lambda>byte. constructed_skip_loop mem byte (advance ctx' n)))
          (der_skip_all (drop n rest))" if n: "n \<le> length rest"
      proof -
        have "der_skip bs = Some (drop n rest)" using d(1) n by (simp add: Cons der_skip_def)
        from "1.IH"[OF _ _ this views_advance[OF d(3) n]] show ?thesis using c by (auto simp: Cons)
      qed
      have "constructed_skip_loop mem (uint b) ctx =
          (if length rest < n then Some (False, ctx')
           else peek_byte mem (advance ctx' n) \<bind> (\<lambda>byte. constructed_skip_loop mem byte (advance ctx' n)))"
        using c d(2) skip_bytes_views[OF d(3), of n]
        by (subst constructed_skip_loop.simps) (simp add: k constructed_def asn1_consts uint_u8)
      then show ?thesis using d(1) step by (auto simp: Cons der_skip_def skips_def)
    qed
    show ?thesis using "1.prems" next_element
      by (auto simp: Cons peek_byte_views der_skip_all.simps[of "b # bs'"] constructed_skip_loop.simps[of mem _ ctx]
          constructed_def asn1_consts uint_u8 skips_def simp del: bind.simps)
  qed
qed

lemma skip_all_views:
  assumes "views mem ctx bs"
  shows "skips mem (asn1_constructed_skip_all mem ctx) (der_skip_all bs)"
  using skip_loop_views[OF assms] by (auto simp: asn1_constructed_skip_all_def)

end
