(* ===== verification/Pkcs7.thy ===== *)
theory Pkcs7
  imports Asn1
begin

text \<open>
  Extraction of the signature from the PKCS#7 block of a package (\<open>read_pkcs7\<close> of \<^verbatim>\<open>verifier24/verifier.cpp\<close>). The
  routine is equal to a parser on the bytes of the block, which stays inside the block and inverts the encoding
  of a SignedData structure.
\<close>

section \<open>The code\<close>

text \<open>A chain \<open>asn1_sequence_next(ctx) && ... && asn1_sequence_next(ctx)\<close> of \<open>n\<close> calls.\<close>

fun sequence_nexts :: "u8 list \<Rightarrow> nat \<Rightarrow> asn1_context \<Rightarrow> (bool \<times> asn1_context) option" where
  "sequence_nexts mem 0 ctx = Some (True, ctx)"
| "sequence_nexts mem (Suc n) ctx =
     do { (more, ctx) \<leftarrow> asn1_sequence_next mem ctx;
          if more then sequence_nexts mem n ctx else Some (False, ctx) }"

text \<open>
  The result is \<open>None\<close> for a crash, \<open>Some None\<close> for \<open>false\<close> and otherwise the bytes stored in \<open>*sig_der\<close>. The calls
  that allocate are numbered in their order; \<open>ok\<close> tells which of them succeed.
\<close>

definition read_signer :: "(nat \<Rightarrow> bool) \<Rightarrow> u8 list \<Rightarrow> asn1_context \<Rightarrow> u8 list option option" where
  "read_signer ok mem signed_data_seq =
     do { (sig_set, _) \<leftarrow> asn1_set_get (ok 4) mem signed_data_seq;
          case sig_set of None \<Rightarrow> Some None | Some sig_set \<Rightarrow> do {
          (sig_seq, _) \<leftarrow> asn1_sequence_get (ok 5) mem sig_set;
          case sig_seq of None \<Rightarrow> Some None | Some sig_seq \<Rightarrow> do {
          (found, sig_seq) \<leftarrow> sequence_nexts mem 4 sig_seq;
          if \<not> found then Some None else do {
          (sig_der_ptr, _) \<leftarrow> asn1_octet_string_get mem sig_seq;
          case sig_der_ptr of
            None \<Rightarrow> Some None
          | Some (p, sig_der_length) \<Rightarrow>
              if ok 6 then do { sig_der \<leftarrow> piece mem p sig_der_length; Some (Some sig_der) }
              else Some None } } } }"

definition read_pkcs7 :: "(nat \<Rightarrow> bool) \<Rightarrow> u8 list \<Rightarrow> int \<Rightarrow> nat \<Rightarrow> u8 list option option" where
  "read_pkcs7 ok mem pkcs7_der pkcs7_der_len =
     (case asn1_context_new (ok 0) pkcs7_der pkcs7_der_len of
        None \<Rightarrow> Some None
      | Some ctx \<Rightarrow> do {
          (pkcs7_seq, _) \<leftarrow> asn1_sequence_get (ok 1) mem ctx;
          case pkcs7_seq of None \<Rightarrow> Some None | Some pkcs7_seq \<Rightarrow> do {
          (found, pkcs7_seq) \<leftarrow> asn1_sequence_next mem pkcs7_seq;
          if \<not> found then Some None else do {
          (signed_data_app, _) \<leftarrow> asn1_constructed_get (ok 2) mem pkcs7_seq;
          case signed_data_app of None \<Rightarrow> Some None | Some signed_data_app \<Rightarrow> do {
          (signed_data_seq, _) \<leftarrow> asn1_sequence_get (ok 3) mem signed_data_app;
          case signed_data_seq of None \<Rightarrow> Some None | Some signed_data_seq \<Rightarrow> do {
          (found, signed_data_seq) \<leftarrow> sequence_nexts mem 3 signed_data_seq;
          if \<not> found then Some None else do {
          (found, signed_data_seq) \<leftarrow> asn1_constructed_skip_all mem signed_data_seq;
          if \<not> found then Some None else read_signer ok mem signed_data_seq } } } } } })"

section \<open>The parser on bytes\<close>

fun der_skips :: "nat \<Rightarrow> u8 list \<Rightarrow> u8 list option" where
  "der_skips 0 bs = Some bs"
| "der_skips (Suc n) bs = der_skip bs \<bind> der_skips n"

definition signer_signature :: "u8 list \<Rightarrow> u8 list option" where
  "signer_signature bs =
     do { signers \<leftarrow> der_enter set_tag bs;
          signer \<leftarrow> der_enter sequence_tag signers;
          rest \<leftarrow> der_skips 4 signer;
          der_string 0x04 rest }"

definition pkcs7_signature :: "u8 list \<Rightarrow> u8 list option" where
  "pkcs7_signature bs =
     do { info \<leftarrow> der_enter sequence_tag bs;
          rest \<leftarrow> der_skip info;
          app \<leftarrow> der_enter constructed rest;
          signed_data \<leftarrow> der_enter sequence_tag app;
          rest \<leftarrow> der_skips 3 signed_data;
          rest \<leftarrow> der_skip_all rest;
          signer_signature rest }"

lemma sequence_nexts_views:
  assumes "views mem ctx bs"
  shows "skips mem (sequence_nexts mem n ctx) (der_skips n bs)"
  using assms
proof (induction n arbitrary: ctx bs)
  case (Suc n)
  then show ?case using sequence_next_views[OF Suc.prems]
    by (cases "der_skip bs") (auto simp: skips_def)
qed (simp add: skips_def)

text \<open>Elimination rules that follow one step of the routine and of the parser together.\<close>

lemma opensE:
  assumes "opens mem r spec"
  obtains ctx where "r = Some (None, ctx)" "spec = None"
  | c ctx cs where "r = Some (Some c, ctx)" "spec = Some cs" "views mem c cs"
  using assms by (cases spec) (auto simp: opens_def)

lemma skipsE:
  assumes "skips mem r spec"
  obtains ctx where "r = Some (False, ctx)" "spec = None"
  | ctx rest where "r = Some (True, ctx)" "spec = Some rest" "views mem ctx rest"
  using assms by (cases spec) (auto simp: skips_def)

lemma givesE:
  assumes "gives mem r spec"
  obtains ctx where "r = Some (None, ctx)" "spec = None"
  | p n ctx cs where "r = Some (Some (p, n), ctx)" "spec = Some cs" "piece mem p n = Some cs"
  using assms by (cases spec) (auto simp: gives_def)

lemma read_signer_views:
  assumes "views mem ctx bs"
  shows "read_signer (\<lambda>_. True) mem ctx = Some (signer_signature bs)"
proof (rule opensE[OF set_get_views[OF assms]])
  fix c ctx' cs
  assume s: "asn1_set_get True mem ctx = Some (Some c, ctx')" "der_enter set_tag bs = Some cs" "views mem c cs"
  show ?thesis
  proof (rule opensE[OF sequence_get_views[OF s(3)]])
    fix d ctx'' ds
    assume q: "asn1_sequence_get True mem c = Some (Some d, ctx'')" "der_enter sequence_tag cs = Some ds" "views mem d ds"
    show ?thesis
    proof (rule skipsE[OF sequence_nexts_views[OF q(3), of 4]])
      fix ctx3 rest
      assume r: "sequence_nexts mem 4 d = Some (True, ctx3)" "der_skips 4 ds = Some rest" "views mem ctx3 rest"
      show ?thesis using givesE[OF octet_string_get_views[OF r(3)]] s q r
        by (fastforce simp: read_signer_def signer_signature_def)
    qed (use s q in \<open>simp add: read_signer_def signer_signature_def\<close>)
  qed (use s in \<open>simp add: read_signer_def signer_signature_def\<close>)
qed (simp add: read_signer_def signer_signature_def)

lemma signed_data_views:
  assumes "views mem ctx bs"
  shows "(case asn1_sequence_get True mem ctx of
      None \<Rightarrow> None
    | Some (None, _) \<Rightarrow> Some None
    | Some (Some c, _) \<Rightarrow> do {
        (found, c) \<leftarrow> sequence_nexts mem 3 c;
        if \<not> found then Some None else do {
        (found, c) \<leftarrow> asn1_constructed_skip_all mem c;
        if \<not> found then Some None else read_signer (\<lambda>_. True) mem c } }) =
    Some (do { signed_data \<leftarrow> der_enter sequence_tag bs;
               rest \<leftarrow> der_skips 3 signed_data;
               rest \<leftarrow> der_skip_all rest;
               signer_signature rest })"
proof (rule opensE[OF sequence_get_views[OF assms]])
  fix c ctx' cs
  assume s: "asn1_sequence_get True mem ctx = Some (Some c, ctx')" "der_enter sequence_tag bs = Some cs" "views mem c cs"
  show ?thesis
  proof (rule skipsE[OF sequence_nexts_views[OF s(3), of 3]])
    fix d ds
    assume r: "sequence_nexts mem 3 c = Some (True, d)" "der_skips 3 cs = Some ds" "views mem d ds"
    show ?thesis
      by (rule skipsE[OF skip_all_views[OF r(3)]]) (use s r in \<open>simp_all add: read_signer_views\<close>)
  qed (use s in simp)
qed simp

lemma read_pkcs7_views:
  assumes "piece mem p n = Some bs"
  shows "read_pkcs7 (\<lambda>_. True) mem p n = Some (pkcs7_signature bs)"
proof -
  let ?ctx = "\<lparr>asn_length = n, asn_p = p, asn_app_type = 0\<rparr>"
  have v: "views mem ?ctx bs"
    using assms by (auto simp: piece_def views_def in_file_def window_def split: if_splits)
  show ?thesis
  proof (rule opensE[OF sequence_get_views[OF v]])
    fix c ctx' cs
    assume s: "asn1_sequence_get True mem ?ctx = Some (Some c, ctx')" "der_enter sequence_tag bs = Some cs" "views mem c cs"
    show ?thesis
    proof (rule skipsE[OF sequence_next_views[OF s(3)]])
      fix d ds
      assume r: "asn1_sequence_next mem c = Some (True, d)" "der_skip cs = Some ds" "views mem d ds"
      show ?thesis
      proof (rule opensE[OF constructed_get_views[OF r(3)]])
        fix a ctx'' as
        assume t: "asn1_constructed_get True mem d = Some (Some a, ctx'')" "der_enter constructed ds = Some as" "views mem a as"
        show ?thesis using s r t signed_data_views[OF t(3)]
          by (auto simp: read_pkcs7_def pkcs7_signature_def asn1_context_new_def split: option.splits prod.splits
              simp del: sequence_nexts.simps der_skips.simps)
      qed (use s r in \<open>simp add: read_pkcs7_def pkcs7_signature_def asn1_context_new_def\<close>)
    qed (use s in \<open>simp add: read_pkcs7_def pkcs7_signature_def asn1_context_new_def\<close>)
  qed (simp add: read_pkcs7_def pkcs7_signature_def asn1_context_new_def)
qed

text \<open>A failing allocation can only lose the signature.\<close>

lemma get_fails:
  "asn1_sequence_get False mem ctx = Some (c, ctx') \<Longrightarrow> c = None"
  "asn1_set_get False mem ctx = Some (c, ctx') \<Longrightarrow> c = None"
  "asn1_constructed_get False mem ctx = Some (c, ctx') \<Longrightarrow> c = None"
  by (auto simp: asn1_sequence_get_def asn1_set_get_def asn1_constructed_get_def asn1_context_new_def bind_eq_Some_conv
      split: option.splits if_splits)

lemma read_signer_ok:
  assumes "read_signer ok mem ctx = Some (Some sig)"
  shows "ok 4" "ok 5" "ok 6"
proof -
  from assms obtain s c1 q c2 where s: "asn1_set_get (ok 4) mem ctx = Some (Some s, c1)"
    "asn1_sequence_get (ok 5) mem s = Some (Some q, c2)" "ok 6"
    unfolding read_signer_def by (fastforce elim!: bind_SomeE split: option.splits if_splits)
  then show "ok 4" "ok 5" "ok 6" using get_fails(1,2) by (metis (full_types) option.distinct(1))+
qed

lemma read_pkcs7_ok:
  assumes "read_pkcs7 ok mem p n = Some (Some sig)"
  shows "ok 0" "ok 1" "ok 2" "ok 3" "ok 4" "ok 5" "ok 6"
proof -
  from assms have 0: "ok 0" by (cases "ok 0") (simp_all add: read_pkcs7_def asn1_context_new_def)
  let ?ctx = "\<lparr>asn_length = n, asn_p = p, asn_app_type = 0\<rparr>"
  from assms 0 obtain c c' d where c: "asn1_sequence_get (ok 1) mem ?ctx = Some (Some c, c')"
    and d: "asn1_sequence_next mem c = Some (True, d)"
    and r: "asn1_constructed_get (ok 2) mem d \<bind> (\<lambda>(a, _). case a of None \<Rightarrow> Some None | Some a \<Rightarrow>
        asn1_sequence_get (ok 3) mem a \<bind> (\<lambda>(q, _). case q of None \<Rightarrow> Some None | Some q \<Rightarrow>
        sequence_nexts mem 3 q \<bind> (\<lambda>(f, q). if \<not> f then Some None else
        asn1_constructed_skip_all mem q \<bind> (\<lambda>(f, q). if \<not> f then Some None else read_signer ok mem q)))) = Some (Some sig)"
    unfolding read_pkcs7_def asn1_context_new_def
    by (auto elim!: bind_SomeE split: option.splits if_splits simp del: sequence_nexts.simps)
  from r obtain a a' q q' e where a: "asn1_constructed_get (ok 2) mem d = Some (Some a, a')"
    "asn1_sequence_get (ok 3) mem a = Some (Some q, q')" "read_signer ok mem e = Some (Some sig)"
    by (auto elim!: bind_SomeE split: option.splits if_splits simp del: sequence_nexts.simps)
  show "ok 0" "ok 4" "ok 5" "ok 6" using 0 read_signer_ok[OF a(3)] by simp_all
  show "ok 1" "ok 2" "ok 3" using c a(1,2) get_fails by (metis (full_types) option.distinct(1))+
qed

lemma read_pkcs7_mono:
  assumes "read_pkcs7 ok mem p n = Some (Some sig)"
  shows "read_pkcs7 (\<lambda>_. True) mem p n = Some (Some sig)"
  using assms read_pkcs7_ok[OF assms] unfolding read_pkcs7_def read_signer_def by (simp only:)

section \<open>The encoder\<close>

text \<open>DER length octets for lengths below \<open>2\<^sup>2\<^sup>4\<close>, and an element with its tag.\<close>

definition der_len :: "nat \<Rightarrow> u8 list" where
  "der_len n =
     (if n < 128 then [of_nat n]
      else if n < 256 then [0x81, of_nat n]
      else if n < 65536 then [0x82, of_nat (n div 256), of_nat (n mod 256)]
      else [0x83, of_nat (n div 65536), of_nat (n div 256 mod 256), of_nat (n mod 256)])"

definition der :: "u8 \<Rightarrow> u8 list \<Rightarrow> u8 list" where
  "der tag cs = tag # der_len (length cs) @ cs"

definition small :: "u8 list \<Rightarrow> bool" where "small cs \<longleftrightarrow> length cs < 2 ^ 24"

lemma der_length_der_len:
  assumes "n < 2 ^ 24"
  shows "der_length (der_len n @ rest) = Some (n, rest)"
proof -
  have "n div 256 div 256 < 256" "n div 65536 = n div 256 div 256"
    using assms div_mult2_eq[of n 256 256] by (simp_all add: less_mult_imp_div_less)
  moreover have "n div 256 < 256" if "n < 65536" using that by (simp add: less_mult_imp_div_less)
  moreover have "q * 65536 + (r * 256 + s) = n" if "q * 256 + r = m" "m * 256 + s = n" for q r s m :: nat using that by simp
  note this[OF div_mult_mod_eq div_mult_mod_eq]
  ultimately show ?thesis
    by (auto simp: der_len_def der_length_def unat_of_nat_u8 be_val_Cons)
qed

lemma der_enter_der: "tag t \<Longrightarrow> small cs \<Longrightarrow> der_enter tag (der t cs @ rest) = Some cs"
  by (simp add: small_def der_def der_enter_def der_length_der_len)

lemma der_skip_der: "small cs \<Longrightarrow> der_skip (der t cs @ rest) = Some rest"
  by (simp add: small_def der_def der_skip_def der_length_der_len)

lemma der_string_der: "cs \<noteq> [] \<Longrightarrow> small cs \<Longrightarrow> der_string t (der t cs @ rest) = Some cs"
  by (simp add: der_string_def der_enter_der)

lemma der_skips_simps:
  "der_skips 3 bs = der_skip bs \<bind> (\<lambda>bs. der_skip bs \<bind> der_skip)" (is ?A)
  "der_skips 4 bs = der_skip bs \<bind> (\<lambda>bs. der_skip bs \<bind> (\<lambda>bs. der_skip bs \<bind> der_skip))" (is ?B)
proof -
  have "der_skips 0 = Some" "der_skips (Suc n) = (\<lambda>bs. der_skip bs \<bind> der_skips n)" for n by (rule ext, simp)+
  then show ?A ?B by (simp_all add: numeral_eq_Suc del: der_skips.simps)
qed

lemma small_append: "small (xs @ ys) \<Longrightarrow> small xs" "small (xs @ ys) \<Longrightarrow> small ys"
  by (simp_all add: small_def)

lemma small_der: "small (der t cs) \<Longrightarrow> small cs"
  by (simp add: small_def der_def)

text \<open>The optional elements, each with a tag and contents.\<close>

definition ders :: "(u8 \<times> u8 list) list \<Rightarrow> u8 list" where
  "ders es = concat (map (\<lambda>(t, cs). der t cs) es)"

lemma der_skip_all_ders:
  assumes "\<forall>(t, cs)\<in>set es. constructed t \<and> small cs" "rest \<noteq> []" "\<not> constructed (hd rest)"
  shows "der_skip_all (ders es @ rest) = Some rest"
  using assms
proof (induction es)
  case Nil
  then show ?case by (simp add: ders_def der_skip_all.simps)
next
  case (Cons e es)
  then show ?case
    by (cases e) (simp add: ders_def der_skip_all.simps[of "der _ _ @ _"] der_skip_der, simp add: der_def)
qed

text \<open>
  A ContentInfo that holds a SignedData structure, from the contents of its elements. The optional elements before the set of
  SignerInfos are the certificates and revocation lists. The first SignerInfo may have signed attributes, which RFC 5652 puts before
  the signature algorithm; the unsigned attributes, which follow the signature, and the further SignerInfos may be anything.
\<close>

record signed_data =
  sd_content_type :: "u8 list"
  sd_version :: "u8 list"
  sd_digests :: "u8 list"
  sd_content :: "u8 list"
  sd_optional :: "(u8 \<times> u8 list) list"
  si_version :: "u8 list"
  si_signer :: "u8 list"
  si_digest :: "u8 list"
  si_signed :: "u8 list option"
  si_algorithm :: "u8 list"
  si_signature :: "u8 list"
  si_unsigned :: "u8 list"
  sd_signers :: "u8 list"

definition signer_info :: "signed_data \<Rightarrow> u8 list" where
  "signer_info d = der 0x02 (si_version d) @ der 0x30 (si_signer d) @ der 0x30 (si_digest d) @
     (case si_signed d of None \<Rightarrow> [] | Some cs \<Rightarrow> der 0xA0 cs) @
     der 0x30 (si_algorithm d) @ der 0x04 (si_signature d) @ si_unsigned d"

definition signed_data_der :: "signed_data \<Rightarrow> u8 list" where
  "signed_data_der d = der 0x02 (sd_version d) @ der 0x31 (sd_digests d) @ der 0x30 (sd_content d) @
     ders (sd_optional d) @ der 0x31 (der 0x30 (signer_info d) @ sd_signers d)"

definition pkcs7 :: "signed_data \<Rightarrow> u8 list" where
  "pkcs7 d = der 0x30 (der 0x06 (sd_content_type d) @ der 0xA0 (der 0x30 (signed_data_der d)))"

definition signed_data_ok :: "signed_data \<Rightarrow> bool" where
  "signed_data_ok d \<longleftrightarrow> small (pkcs7 d) \<and> list_all (\<lambda>(t, cs). constructed t) (sd_optional d)"

lemma small_ders: "small (ders es) \<Longrightarrow> (t, cs) \<in> set es \<Longrightarrow> small cs"
  by (induction es) (auto simp: ders_def dest: small_append small_der)

lemma tags: "sequence_tag 0x30" "set_tag 0x31" "constructed 0xA0" "\<not> constructed 0x31"
  by (simp_all add: sequence_tag_def set_tag_def constructed_def)

lemmas der_single = der_enter_der[where rest = "[]", simplified]

text \<open>What \<open>read_pkcs7\<close> is to find: the fifth element of the SignerInfo has to be the signature, and it must not be empty.\<close>

definition found_signature :: "signed_data \<Rightarrow> u8 list option" where
  "found_signature d = (if si_signed d = None \<and> si_signature d \<noteq> [] then Some (si_signature d) else None)"

lemma signer_signature_der:
  assumes "small (der 0x31 (der 0x30 (signer_info d) @ sd_signers d))"
  shows "signer_signature (der 0x31 (der 0x30 (signer_info d) @ sd_signers d)) = found_signature d"
proof -
  have l: "small (der 0x30 (signer_info d) @ sd_signers d)" "small (signer_info d)" using assms(1) by (blast dest: small_der small_append)+
  then have s: "small (si_version d)" "small (si_signer d)" "small (si_digest d)" "small (si_algorithm d)" "small (si_signature d)"
    "small (case si_signed d of None \<Rightarrow> [] | Some cs \<Rightarrow> der 0xA0 cs)"
    unfolding signer_info_def by (blast dest: small_append small_der)+
  have none: "der_string t (der t' cs @ rest) = None" if "t' \<noteq> t \<or> cs = []" "small cs" for t t' cs rest
    using that by (auto simp: der_string_def der_enter_def der_def der_length_der_len small_def)
  have "der_skips 4 (signer_info d) = Some (case si_signed d of None \<Rightarrow> der 0x04 (si_signature d) @ si_unsigned d
      | Some cs \<Rightarrow> der 0x30 (si_algorithm d) @ der 0x04 (si_signature d) @ si_unsigned d)"
    using s small_der by (auto simp: der_skips_simps signer_info_def der_skip_der split: option.splits)
  then show ?thesis using l s none
    by (auto simp: signer_signature_def der_single der_enter_der tags der_string_der found_signature_def split: option.splits)
qed

lemma pkcs7_signature_pkcs7:
  assumes "signed_data_ok d"
  shows "pkcs7_signature (pkcs7 d) = found_signature d"
proof -
  let ?sd = "der 0x30 (signed_data_der d)" and ?set = "der 0x31 (der 0x30 (signer_info d) @ sd_signers d)"
  have l0: "small (der 0x06 (sd_content_type d) @ der 0xA0 ?sd)"
    using assms unfolding signed_data_ok_def pkcs7_def by (blast dest: small_der)
  then have l1: "small (sd_content_type d)" "small ?sd" "small (signed_data_der d)" by (blast dest: small_append small_der)+
  from l1(3) have l2: "small (sd_version d)" "small (sd_digests d)" "small (sd_content d)" "small (ders (sd_optional d))"
    "small ?set" unfolding signed_data_der_def by (blast dest: small_append small_der)+
  have "der_skip_all (ders (sd_optional d) @ ?set) = Some ?set"
  proof (rule der_skip_all_ders)
    show "\<forall>(t, cs)\<in>set (sd_optional d). constructed t \<and> small cs"
      using assms small_ders[OF l2(4)] by (fastforce simp: signed_data_ok_def list_all_iff)
  qed (simp_all add: der_def tags)
  moreover have "der_skips 3 (signed_data_der d) = Some (ders (sd_optional d) @ ?set)"
    using l2 by (simp add: signed_data_der_def der_skips_simps der_skip_der)
  ultimately show ?thesis
    using l0 l1 signer_signature_der[OF l2(5)] assms
    by (simp add: pkcs7_signature_def pkcs7_def der_skip_der der_single tags signed_data_ok_def)
qed

section \<open>Properties\<close>

text \<open>
  On every block that lies in the file, \<open>read_pkcs7\<close> ends without reading outside the file and returns what the
  byte-level parser returns.
\<close>

lemma read_pkcs7_correct:
  assumes "piece mem p n = Some bs"
  shows "read_pkcs7 (\<lambda>_. True) mem p n = Some (pkcs7_signature bs)"
  using assms by (rule read_pkcs7_views)

text \<open>A block with one-byte contents and one certificate.\<close>

definition sample_data :: signed_data where
  "sample_data = \<lparr>sd_content_type = [1], sd_version = [1], sd_digests = [], sd_content = [], sd_optional = [(0xA0, [7])],
     si_version = [1], si_signer = [], si_digest = [], si_signed = None,
     si_algorithm = [], si_signature = [9], si_unsigned = [], sd_signers = []\<rparr>"

lemma sample_data_ok: "signed_data_ok sample_data"
  by (simp add: signed_data_ok_def sample_data_def small_def pkcs7_def signed_data_der_def signer_info_def ders_def der_def der_len_def
      constructed_def)

theorem read_pkcs7_witness:
  "read_pkcs7 (\<lambda>_. True) ([0] @ pkcs7 sample_data @ [0]) 1 (length (pkcs7 sample_data)) =
    Some (pkcs7_signature (pkcs7 sample_data))"
  by (rule read_pkcs7_correct) (simp add: piece_def)

text \<open>
  C5. On every encoded SignedData structure of less than \<open>2\<^sup>2\<^sup>4\<close> bytes, wherever in the file the block is, whatever optional
  elements and whatever further SignerInfos it has, \<open>read_pkcs7\<close> returns the signature of the first SignerInfo if that one has no signed attributes
  and the signature is not empty; otherwise it finds no signature.
\<close>

theorem read_pkcs7_round_trip:
  assumes "signed_data_ok d"
  shows "read_pkcs7 (\<lambda>_. True) (pre @ pkcs7 d @ post) (int (length pre)) (length (pkcs7 d)) =
    Some (if si_signed d = None \<and> si_signature d \<noteq> [] then Some (si_signature d) else None)"
proof -
  have "piece (pre @ pkcs7 d @ post) (int (length pre)) (length (pkcs7 d)) = Some (pkcs7 d)" by (simp add: piece_def)
  from read_pkcs7_views[OF this] show ?thesis by (simp only: pkcs7_signature_pkcs7[OF assms] found_signature_def)
qed

theorem read_pkcs7_round_trip_witness:
  "read_pkcs7 (\<lambda>_. True) ([0] @ pkcs7 sample_data @ [0]) (int (length [0 :: u8])) (length (pkcs7 sample_data)) = Some (Some [9])"
  using read_pkcs7_round_trip[OF sample_data_ok, of "[0]" "[0]"] by (simp add: sample_data_def)

end
