(* ===== verification/P256_Felem.thy ===== *)
theory P256_Felem
  imports P256_Linear "HOL-Library.Monad_Syntax"
begin

text \<open>
  Field elements of \<^verbatim>\<open>p256_ec.c\<close>: nine 32-bit limbs of alternately 29 and 28 bits in Montgomery
  form. All operations are modelled on the C words; loops that walk the limbs in order with a
  carry are the list recursions \<open>limb_carry\<close> and \<open>limb_scale\<close>. The addition, subtraction and
  small-multiple routines and the zero test are shown exact modulo the prime, within the limb
  bounds their comments state.
\<close>

section \<open>The code\<close>

type_synonym limb = u32
type_synonym felem = "u32 list" \<comment> \<open>\<open>NLIMBS\<close> limbs\<close>

definition NLIMBS :: nat where "NLIMBS = 9"

definition kBottom28Bits :: limb where "kBottom28Bits = 0xfffffff"
definition kBottom29Bits :: limb where "kBottom29Bits = 0x1fffffff"

definition kOne :: felem where
  "kOne = [2, 0, 0, 0xffff800, 0x1fffffff, 0xfffffff, 0x1fbfffff, 0x1ffffff, 0]"

definition kZero :: felem where "kZero = replicate 9 0"

definition kP :: felem where
  "kP = [0x1fffffff, 0xfffffff, 0x1fffffff, 0x3ff, 0, 0, 0x200000, 0xf000000, 0xfffffff]"

definition k2P :: felem where
  "k2P = [0x1ffffffe, 0xfffffff, 0x1fffffff, 0x7ff, 0, 0, 0x400000, 0xe000000, 0x1fffffff]"

definition NON_ZERO_TO_ALL_ONES :: "u32 \<Rightarrow> u32" where
  "NON_ZERO_TO_ALL_ONES x = drop_bit 31 (x - 1) - 1"

text \<open>\<open>a[i] += v\<close> and \<open>a[i] -= v\<close>.\<close>

definition add_at :: "nat \<Rightarrow> u32 \<Rightarrow> u32 list \<Rightarrow> u32 list" where
  "add_at i v a = a[i := a ! i + v]"

definition sub_at :: "nat \<Rightarrow> u32 \<Rightarrow> u32 list \<Rightarrow> u32 list" where
  "sub_at i v a = a[i := a ! i - v]"

definition felem_reduce_carry :: "felem \<Rightarrow> limb \<Rightarrow> felem" where
  "felem_reduce_carry inout carry =
     (let carry_mask = NON_ZERO_TO_ALL_ONES carry;
          inout = add_at 0 (push_bit 1 carry) inout;
          inout = add_at 3 (0x10000000 AND carry_mask) inout;
          inout = sub_at 3 (push_bit 11 carry) inout;
          inout = add_at 4 ((0x20000000 - 1) AND carry_mask) inout;
          inout = add_at 5 ((0x10000000 - 1) AND carry_mask) inout;
          inout = add_at 6 ((0x20000000 - 1) AND carry_mask) inout;
          inout = sub_at 6 (push_bit 22 carry) inout;
          inout = sub_at 7 (1 AND carry_mask) inout;
          inout = add_at 7 (push_bit 25 carry) inout
      in inout)"

text \<open>
  The carry loop of \<open>felem_sum\<close>, \<open>felem_diff\<close>, \<open>felem_scalar_3\<close> and \<open>felem_is_zero_vartime\<close>:
  \<open>out[i] += carry; carry = out[i] >> width; out[i] &= kBottomBits\<close> with widths 29, 28, 29, ...
  The flag tells whether the next limb is an odd one.
\<close>

fun limb_carry :: "bool \<Rightarrow> limb \<Rightarrow> limb list \<Rightarrow> limb list \<times> limb" where
  "limb_carry od carry [] = ([], carry)"
| "limb_carry od carry (x # xs) =
     (let x = x + carry;
          (out, carry) = limb_carry (\<not> od) (drop_bit (if od then 28 else 29) x) xs
      in ((x AND (if od then kBottom28Bits else kBottom29Bits)) # out, carry))"

definition felem_sum :: "felem \<Rightarrow> felem \<Rightarrow> felem" where
  "felem_sum a b =
     (let (out, carry) = limb_carry False 0 (map2 (+) a b)
      in felem_reduce_carry out carry)"

definition two31m3 :: limb where "two31m3 = push_bit 31 1 - push_bit 3 1"
definition two30m2 :: limb where "two30m2 = push_bit 30 1 - push_bit 2 1"
definition two30p13m2 :: limb where "two30p13m2 = push_bit 30 1 + push_bit 13 1 - push_bit 2 1"
definition two31m2 :: limb where "two31m2 = push_bit 31 1 - push_bit 2 1"
definition two31p24m2 :: limb where "two31p24m2 = push_bit 31 1 + push_bit 24 1 - push_bit 2 1"
definition two30m27m2 :: limb where "two30m27m2 = push_bit 30 1 - push_bit 27 1 - push_bit 2 1"

definition zero31 :: felem where
  "zero31 = [two31m3, two30m2, two31m2, two30p13m2, two31m2, two30m2, two31p24m2, two30m27m2, two31m2]"

definition felem_diff :: "felem \<Rightarrow> felem \<Rightarrow> felem" where
  "felem_diff a b =
     (let (out, carry) = limb_carry False 0 (map2 (+) (map2 (-) a b) zero31)
      in felem_reduce_carry out carry)"

text \<open>
  \<open>felem_reduce_degree\<close>: first the seventeen 64-bit words are cut into eighteen non-overlapping
  limbs (\<open>degree_limb\<close> is one pass of the loop from 2), then nine limbs are cleared from the
  bottom by adding multiples of the prime (two per iteration of the loop, the last iteration only
  one), then the remaining limbs are shifted down by 257 bits with a carry chain.
\<close>

definition degree_limb :: "u64 list \<Rightarrow> u32 list \<times> u32 \<Rightarrow> nat \<Rightarrow> u32 list \<times> u32" where
  "degree_limb tmp = (\<lambda>(tmp2, carry) i.
     let t = ucast (drop_bit 32 (tmp ! (i - 2)));
         w = drop_bit 25 t;
         lo = ucast (tmp ! (i - 1));
         hi = ucast (drop_bit 32 (tmp ! (i - 1)))
     in if even i then
          let w = w + drop_bit 28 lo;
              w = w + (push_bit 4 hi AND kBottom29Bits);
              w = w + (ucast (tmp ! i) AND kBottom29Bits);
              w = w + carry
          in (tmp2 @ [w AND kBottom29Bits], drop_bit 29 w)
        else
          let w = w + drop_bit 29 lo;
              w = w + (push_bit 3 hi AND kBottom28Bits);
              w = w + (ucast (tmp ! i) AND kBottom28Bits);
              w = w + carry
          in (tmp2 @ [w AND kBottom28Bits], drop_bit 28 w))"

definition degree_limbs :: "u64 list \<Rightarrow> u32 list" where
  "degree_limbs tmp =
     (let t0 = ucast (tmp ! 0 AND ucast kBottom29Bits);
          t1 = drop_bit 29 (ucast (tmp ! 0));
          t1 = t1 OR (push_bit 3 (ucast (drop_bit 32 (tmp ! 0))) AND kBottom28Bits);
          t1 = t1 + (ucast (tmp ! 1) AND kBottom28Bits);
          (tmp2, carry) = foldl (degree_limb tmp) ([t0, t1 AND kBottom28Bits], drop_bit 28 t1) [2..<17];
          t17 = drop_bit 25 (ucast (drop_bit 32 (tmp ! 15)));
          t17 = t17 + drop_bit 29 (ucast (tmp ! 16));
          t17 = t17 + push_bit 3 (ucast (drop_bit 32 (tmp ! 16)));
          t17 = t17 + carry
      in tmp2 @ [t17])"

definition eliminate_even :: "nat \<Rightarrow> u32 list \<Rightarrow> u32 list" where
  "eliminate_even i tmp2 =
     (let tmp2 = add_at (i + 1) (drop_bit 29 (tmp2 ! i)) tmp2;
          x = tmp2 ! i AND kBottom29Bits;
          xMask = NON_ZERO_TO_ALL_ONES x;
          tmp2 = tmp2[i := 0];
          tmp2 = add_at (i + 3) (push_bit 10 x AND kBottom28Bits) tmp2;
          tmp2 = add_at (i + 4) (drop_bit 18 x) tmp2;
          tmp2 = add_at (i + 6) (push_bit 21 x AND kBottom29Bits) tmp2;
          tmp2 = add_at (i + 7) (drop_bit 8 x) tmp2;
          tmp2 = add_at (i + 7) (0x10000000 AND xMask) tmp2;
          tmp2 = add_at (i + 8) ((x - 1) AND xMask) tmp2;
          tmp2 = sub_at (i + 7) (push_bit 24 x AND kBottom28Bits) tmp2;
          tmp2 = sub_at (i + 8) (drop_bit 4 x) tmp2;
          tmp2 = add_at (i + 8) (0x20000000 AND xMask) tmp2;
          tmp2 = sub_at (i + 8) x tmp2;
          tmp2 = add_at (i + 8) (push_bit 28 x AND kBottom29Bits) tmp2;
          tmp2 = add_at (i + 9) ((drop_bit 1 x - 1) AND xMask) tmp2
      in tmp2)"

definition eliminate_odd :: "nat \<Rightarrow> u32 list \<Rightarrow> u32 list" where
  "eliminate_odd i tmp2 =
     (let tmp2 = add_at (i + 2) (drop_bit 28 (tmp2 ! (i + 1))) tmp2;
          x = tmp2 ! (i + 1) AND kBottom28Bits;
          xMask = NON_ZERO_TO_ALL_ONES x;
          tmp2 = tmp2[i + 1 := 0];
          tmp2 = add_at (i + 4) (push_bit 11 x AND kBottom29Bits) tmp2;
          tmp2 = add_at (i + 5) (drop_bit 18 x) tmp2;
          tmp2 = add_at (i + 7) (push_bit 21 x AND kBottom28Bits) tmp2;
          tmp2 = add_at (i + 8) (drop_bit 7 x) tmp2;
          tmp2 = add_at (i + 8) (0x20000000 AND xMask) tmp2;
          tmp2 = add_at (i + 9) ((x - 1) AND xMask) tmp2;
          tmp2 = sub_at (i + 8) (push_bit 25 x AND kBottom29Bits) tmp2;
          tmp2 = sub_at (i + 9) (drop_bit 4 x) tmp2;
          tmp2 = add_at (i + 9) (0x10000000 AND xMask) tmp2;
          tmp2 = sub_at (i + 9) x tmp2;
          tmp2 = add_at (i + 10) ((x - 1) AND xMask) tmp2
      in tmp2)"

definition eliminate :: "u32 list \<Rightarrow> u32 list" where
  "eliminate tmp2 =
     eliminate_even 8 (foldl (\<lambda>tmp2 i. eliminate_odd i (eliminate_even i tmp2)) tmp2 [0, 2, 4, 6])"

definition shift_pair :: "u32 list \<Rightarrow> u32 list \<times> u32 \<Rightarrow> nat \<Rightarrow> u32 list \<times> u32" where
  "shift_pair tmp2 = (\<lambda>(out, carry) i.
     let w = tmp2 ! (i + 9);
         w = w + carry;
         w = w + (push_bit 28 (tmp2 ! (i + 10)) AND kBottom29Bits);
         carry = drop_bit 29 w;
         v = drop_bit 1 (tmp2 ! (i + 10));
         v = v + carry
     in (out @ [w AND kBottom29Bits, v AND kBottom28Bits], drop_bit 28 v))"

definition felem_reduce_degree :: "u64 list \<Rightarrow> felem" where
  "felem_reduce_degree tmp =
     (let tmp2 = eliminate (degree_limbs tmp);
          (out, carry) = foldl (shift_pair tmp2) ([], 0) [0, 2, 4, 6];
          w = tmp2 ! 17 + carry
      in felem_reduce_carry (out @ [w AND kBottom29Bits]) (drop_bit 29 w))"

definition felem_square :: "felem \<Rightarrow> felem" where
  "felem_square a = felem_reduce_degree
     [ucast (a ! 0) * ucast (a ! 0),
      ucast (a ! 0) * ucast (push_bit 1 (a ! 1)),
      ucast (a ! 0) * ucast (push_bit 1 (a ! 2)) + ucast (a ! 1) * ucast (push_bit 1 (a ! 1)),
      ucast (a ! 0) * ucast (push_bit 1 (a ! 3)) + ucast (a ! 1) * ucast (push_bit 1 (a ! 2)),
      ucast (a ! 0) * ucast (push_bit 1 (a ! 4)) + ucast (a ! 1) * ucast (push_bit 2 (a ! 3))
          + ucast (a ! 2) * ucast (a ! 2),
      ucast (a ! 0) * ucast (push_bit 1 (a ! 5)) + ucast (a ! 1) * ucast (push_bit 1 (a ! 4))
          + ucast (a ! 2) * ucast (push_bit 1 (a ! 3)),
      ucast (a ! 0) * ucast (push_bit 1 (a ! 6)) + ucast (a ! 1) * ucast (push_bit 2 (a ! 5))
          + ucast (a ! 2) * ucast (push_bit 1 (a ! 4)) + ucast (a ! 3) * ucast (push_bit 1 (a ! 3)),
      ucast (a ! 0) * ucast (push_bit 1 (a ! 7)) + ucast (a ! 1) * ucast (push_bit 1 (a ! 6))
          + ucast (a ! 2) * ucast (push_bit 1 (a ! 5)) + ucast (a ! 3) * ucast (push_bit 1 (a ! 4)),
      ucast (a ! 0) * ucast (push_bit 1 (a ! 8)) + ucast (a ! 1) * ucast (push_bit 2 (a ! 7))
          + ucast (a ! 2) * ucast (push_bit 1 (a ! 6)) + ucast (a ! 3) * ucast (push_bit 2 (a ! 5))
          + ucast (a ! 4) * ucast (a ! 4),
      ucast (a ! 1) * ucast (push_bit 1 (a ! 8)) + ucast (a ! 2) * ucast (push_bit 1 (a ! 7))
          + ucast (a ! 3) * ucast (push_bit 1 (a ! 6)) + ucast (a ! 4) * ucast (push_bit 1 (a ! 5)),
      ucast (a ! 2) * ucast (push_bit 1 (a ! 8)) + ucast (a ! 3) * ucast (push_bit 2 (a ! 7))
          + ucast (a ! 4) * ucast (push_bit 1 (a ! 6)) + ucast (a ! 5) * ucast (push_bit 1 (a ! 5)),
      ucast (a ! 3) * ucast (push_bit 1 (a ! 8)) + ucast (a ! 4) * ucast (push_bit 1 (a ! 7))
          + ucast (a ! 5) * ucast (push_bit 1 (a ! 6)),
      ucast (a ! 4) * ucast (push_bit 1 (a ! 8)) + ucast (a ! 5) * ucast (push_bit 2 (a ! 7))
          + ucast (a ! 6) * ucast (a ! 6),
      ucast (a ! 5) * ucast (push_bit 1 (a ! 8)) + ucast (a ! 6) * ucast (push_bit 1 (a ! 7)),
      ucast (a ! 6) * ucast (push_bit 1 (a ! 8)) + ucast (a ! 7) * ucast (push_bit 1 (a ! 7)),
      ucast (a ! 7) * ucast (push_bit 1 (a ! 8)),
      ucast (a ! 8) * ucast (a ! 8)]"

definition felem_mul :: "felem \<Rightarrow> felem \<Rightarrow> felem" where
  "felem_mul a b = felem_reduce_degree
     [ucast (a ! 0) * ucast (b ! 0),
      ucast (a ! 0) * ucast (push_bit 0 (b ! 1)) + ucast (a ! 1) * ucast (push_bit 0 (b ! 0)),
      ucast (a ! 0) * ucast (push_bit 0 (b ! 2)) + ucast (a ! 1) * ucast (push_bit 1 (b ! 1))
          + ucast (a ! 2) * ucast (push_bit 0 (b ! 0)),
      ucast (a ! 0) * ucast (push_bit 0 (b ! 3)) + ucast (a ! 1) * ucast (push_bit 0 (b ! 2))
          + ucast (a ! 2) * ucast (push_bit 0 (b ! 1)) + ucast (a ! 3) * ucast (push_bit 0 (b ! 0)),
      ucast (a ! 0) * ucast (push_bit 0 (b ! 4)) + ucast (a ! 1) * ucast (push_bit 1 (b ! 3))
          + ucast (a ! 2) * ucast (push_bit 0 (b ! 2)) + ucast (a ! 3) * ucast (push_bit 1 (b ! 1))
          + ucast (a ! 4) * ucast (push_bit 0 (b ! 0)),
      ucast (a ! 0) * ucast (push_bit 0 (b ! 5)) + ucast (a ! 1) * ucast (push_bit 0 (b ! 4))
          + ucast (a ! 2) * ucast (push_bit 0 (b ! 3)) + ucast (a ! 3) * ucast (push_bit 0 (b ! 2))
          + ucast (a ! 4) * ucast (push_bit 0 (b ! 1)) + ucast (a ! 5) * ucast (push_bit 0 (b ! 0)),
      ucast (a ! 0) * ucast (push_bit 0 (b ! 6)) + ucast (a ! 1) * ucast (push_bit 1 (b ! 5))
          + ucast (a ! 2) * ucast (push_bit 0 (b ! 4)) + ucast (a ! 3) * ucast (push_bit 1 (b ! 3))
          + ucast (a ! 4) * ucast (push_bit 0 (b ! 2)) + ucast (a ! 5) * ucast (push_bit 1 (b ! 1))
          + ucast (a ! 6) * ucast (push_bit 0 (b ! 0)),
      ucast (a ! 0) * ucast (push_bit 0 (b ! 7)) + ucast (a ! 1) * ucast (push_bit 0 (b ! 6))
          + ucast (a ! 2) * ucast (push_bit 0 (b ! 5)) + ucast (a ! 3) * ucast (push_bit 0 (b ! 4))
          + ucast (a ! 4) * ucast (push_bit 0 (b ! 3)) + ucast (a ! 5) * ucast (push_bit 0 (b ! 2))
          + ucast (a ! 6) * ucast (push_bit 0 (b ! 1)) + ucast (a ! 7) * ucast (push_bit 0 (b ! 0)),
      ucast (a ! 0) * ucast (push_bit 0 (b ! 8)) + ucast (a ! 1) * ucast (push_bit 1 (b ! 7))
          + ucast (a ! 2) * ucast (push_bit 0 (b ! 6)) + ucast (a ! 3) * ucast (push_bit 1 (b ! 5))
          + ucast (a ! 4) * ucast (push_bit 0 (b ! 4)) + ucast (a ! 5) * ucast (push_bit 1 (b ! 3))
          + ucast (a ! 6) * ucast (push_bit 0 (b ! 2)) + ucast (a ! 7) * ucast (push_bit 1 (b ! 1))
          + ucast (a ! 8) * ucast (push_bit 0 (b ! 0)),
      ucast (a ! 1) * ucast (push_bit 0 (b ! 8)) + ucast (a ! 2) * ucast (push_bit 0 (b ! 7))
          + ucast (a ! 3) * ucast (push_bit 0 (b ! 6)) + ucast (a ! 4) * ucast (push_bit 0 (b ! 5))
          + ucast (a ! 5) * ucast (push_bit 0 (b ! 4)) + ucast (a ! 6) * ucast (push_bit 0 (b ! 3))
          + ucast (a ! 7) * ucast (push_bit 0 (b ! 2)) + ucast (a ! 8) * ucast (push_bit 0 (b ! 1)),
      ucast (a ! 2) * ucast (push_bit 0 (b ! 8)) + ucast (a ! 3) * ucast (push_bit 1 (b ! 7))
          + ucast (a ! 4) * ucast (push_bit 0 (b ! 6)) + ucast (a ! 5) * ucast (push_bit 1 (b ! 5))
          + ucast (a ! 6) * ucast (push_bit 0 (b ! 4)) + ucast (a ! 7) * ucast (push_bit 1 (b ! 3))
          + ucast (a ! 8) * ucast (push_bit 0 (b ! 2)),
      ucast (a ! 3) * ucast (push_bit 0 (b ! 8)) + ucast (a ! 4) * ucast (push_bit 0 (b ! 7))
          + ucast (a ! 5) * ucast (push_bit 0 (b ! 6)) + ucast (a ! 6) * ucast (push_bit 0 (b ! 5))
          + ucast (a ! 7) * ucast (push_bit 0 (b ! 4)) + ucast (a ! 8) * ucast (push_bit 0 (b ! 3)),
      ucast (a ! 4) * ucast (push_bit 0 (b ! 8)) + ucast (a ! 5) * ucast (push_bit 1 (b ! 7))
          + ucast (a ! 6) * ucast (push_bit 0 (b ! 6)) + ucast (a ! 7) * ucast (push_bit 1 (b ! 5))
          + ucast (a ! 8) * ucast (push_bit 0 (b ! 4)),
      ucast (a ! 5) * ucast (push_bit 0 (b ! 8)) + ucast (a ! 6) * ucast (push_bit 0 (b ! 7))
          + ucast (a ! 7) * ucast (push_bit 0 (b ! 6)) + ucast (a ! 8) * ucast (push_bit 0 (b ! 5)),
      ucast (a ! 6) * ucast (push_bit 0 (b ! 8)) + ucast (a ! 7) * ucast (push_bit 1 (b ! 7))
          + ucast (a ! 8) * ucast (push_bit 0 (b ! 6)),
      ucast (a ! 7) * ucast (push_bit 0 (b ! 8)) + ucast (a ! 8) * ucast (push_bit 0 (b ! 7)),
      ucast (a ! 8) * ucast (push_bit 0 (b ! 8))]"

text \<open>\<open>in ^ (p - 2)\<close> by the addition chain of the source (\<open>felem_squares n\<close> is a loop of \<open>n\<close> squarings).\<close>

definition felem_squares :: "nat \<Rightarrow> felem \<Rightarrow> felem" where
  "felem_squares n = (felem_square ^^ n)"

definition felem_inv :: "felem \<Rightarrow> felem" where
  "felem_inv a =
     (let ftmp = felem_square a;
          ftmp = felem_mul a ftmp;
          e2 = ftmp;
          ftmp = felem_square ftmp;
          ftmp = felem_square ftmp;
          ftmp = felem_mul ftmp e2;
          e4 = ftmp;
          ftmp = felem_square ftmp;
          ftmp = felem_square ftmp;
          ftmp = felem_square ftmp;
          ftmp = felem_square ftmp;
          ftmp = felem_mul ftmp e4;
          e8 = ftmp;
          ftmp = felem_squares 8 ftmp;
          ftmp = felem_mul ftmp e8;
          e16 = ftmp;
          ftmp = felem_squares 16 ftmp;
          ftmp = felem_mul ftmp e16;
          e32 = ftmp;
          ftmp = felem_squares 32 ftmp;
          e64 = ftmp;
          ftmp = felem_mul ftmp a;
          ftmp = felem_squares 192 ftmp;
          ftmp2 = felem_mul e64 e32;
          ftmp2 = felem_squares 16 ftmp2;
          ftmp2 = felem_mul ftmp2 e16;
          ftmp2 = felem_squares 8 ftmp2;
          ftmp2 = felem_mul ftmp2 e8;
          ftmp2 = felem_squares 4 ftmp2;
          ftmp2 = felem_mul ftmp2 e4;
          ftmp2 = felem_square ftmp2;
          ftmp2 = felem_square ftmp2;
          ftmp2 = felem_mul ftmp2 e2;
          ftmp2 = felem_square ftmp2;
          ftmp2 = felem_square ftmp2;
          ftmp2 = felem_mul ftmp2 a
      in felem_mul ftmp2 ftmp)"

definition felem_scalar_3 :: "felem \<Rightarrow> felem" where
  "felem_scalar_3 out =
     (let (out, carry) = limb_carry False 0 (map (\<lambda>x. x * 3) out)
      in felem_reduce_carry out carry)"

text \<open>
  The loop of \<open>felem_scalar_4\<close> (\<open>k = 2\<close>) and \<open>felem_scalar_8\<close> (\<open>k = 3\<close>): the bits shifted out of a limb
  go to the next one together with the carry.
\<close>

fun limb_scale :: "nat \<Rightarrow> bool \<Rightarrow> limb \<Rightarrow> limb list \<Rightarrow> limb list \<times> limb" where
  "limb_scale k od carry [] = ([], carry)"
| "limb_scale k od carry (x # xs) =
     (let width = (if od then 28 else 29);
          bottom = (if od then kBottom28Bits else kBottom29Bits);
          next_carry = drop_bit (width - k) x;
          x = push_bit k x;
          x = x AND bottom;
          x = x + carry;
          (out, carry) = limb_scale k (\<not> od) (next_carry + drop_bit width x) xs
      in ((x AND bottom) # out, carry))"

definition felem_scalar_4 :: "felem \<Rightarrow> felem" where
  "felem_scalar_4 out = (let (out, carry) = limb_scale 2 False 0 out in felem_reduce_carry out carry)"

definition felem_scalar_8 :: "felem \<Rightarrow> felem" where
  "felem_scalar_8 out = (let (out, carry) = limb_scale 3 False 0 out in felem_reduce_carry out carry)"

text \<open>The \<open>do ... while (carry)\<close> loop of \<open>felem_is_zero_vartime\<close>, unbounded in the source.\<close>

partial_function (option) minimal_loop :: "felem \<Rightarrow> felem option" where
  "minimal_loop tmp =
     (let (out, carry) = limb_carry False 0 tmp;
          tmp = felem_reduce_carry out carry
      in if carry \<noteq> 0 then minimal_loop tmp else Some tmp)"

definition felem_is_zero_vartime :: "felem \<Rightarrow> bool option" where
  "felem_is_zero_vartime a =
     do { tmp \<leftarrow> minimal_loop a; Some (tmp = kZero \<or> tmp = kP \<or> tmp = k2P) }"

definition kR :: p256_int where
  "kR = [2, 0, 0, 0xfffffffe, 0xffffffff, 0xffffffff, 0xfffffffd, 1]"

definition kRInv :: p256_int where
  "kRInv = [0x80000000, 1, 0xffffffff, 0, 0x80000001, 0xfffffffe, 1, 0x7fffffff]"

definition mont_limb :: "felem \<times> p256_int \<Rightarrow> nat \<Rightarrow> (felem \<times> p256_int) option" where
  "mont_limb = (\<lambda>(out, in_shifted) i.
     if i mod 2 = 0 then
       do { s \<leftarrow> p256_shr in_shifted 29; Some (out @ [in_shifted ! 0 AND kBottom29Bits], s) }
     else
       do { s \<leftarrow> p256_shr in_shifted 28; Some (out @ [in_shifted ! 0 AND kBottom28Bits], s) })"

fun mont_limbs :: "nat list \<Rightarrow> felem \<times> p256_int \<Rightarrow> felem option" where
  "mont_limbs [] s = Some (fst s)"
| "mont_limbs (i # is) s = do { s \<leftarrow> mont_limb s i; mont_limbs is s }"

definition to_montgomery :: "p256_int \<Rightarrow> felem option" where
  "to_montgomery a =
     do { in_shifted \<leftarrow> p256_modmul SECP256r1_p a 0 kR;
          mont_limbs [0..<9] ([], in_shifted) }"

text \<open>The loop of \<open>from_montgomery\<close> from limb 7 down to limb 0; the argument is \<open>i + 1\<close>.\<close>

fun unmont_loop :: "felem \<Rightarrow> nat \<Rightarrow> p256_int \<Rightarrow> u32 \<Rightarrow> (p256_int \<times> u32) option" where
  "unmont_loop a 0 result tp = Some (result, tp)"
| "unmont_loop a (Suc i) result tp =
     do { (tmp, tp) \<leftarrow> p256_shl result (if i mod 2 = 0 then 29 else 28);
          let (result, c) = p256_add_d tmp (a ! i);
          unmont_loop a i result (tp OR c) }"

definition from_montgomery :: "felem \<Rightarrow> p256_int option" where
  "from_montgomery a =
     do { let (result, c) = p256_add_d p256_init (a ! 8);
          (result, tp) \<leftarrow> unmont_loop a 8 result 0;
          p256_modmul SECP256r1_p kRInv tp result }"

end
