(* ===== verification/P256_Inverse.thy ===== *)
theory P256_Inverse
  imports P256_Linear
begin

text \<open>
  \<open>p256_modinv_vartime\<close> of \<^verbatim>\<open>p256.c\<close>: the binary Euclid loop keeps \<open>R * a = U\<close> and
  \<open>S * a = V\<close> modulo \<open>MOD\<close> and makes \<open>U + V\<close> smaller in every round, so it returns the inverse for
  every \<open>a\<close> coprime to an odd modulus; on \<open>a = 0\<close> it never returns.
\<close>

section \<open>One round\<close>

lemma halve_mod_value:
  assumes "p256_ok MOD" "p256_ok R" "odd (bn MOD)" "bn R < bn MOD"
  shows "p256_ok (halve_mod MOD R) \<and> bn (halve_mod MOD R) < bn MOD \<and>
    2 * bn (halve_mod MOD R) = (if even (bn R) then bn R else bn R + bn MOD)"
proof (cases "even (bn R)")
  case True
  then have "halve_mod MOD R = p256_shr1 R 0" using assms(2) by (simp add: halve_mod_def p256_is_even_iff)
  then show ?thesis using True assms p256_shr1_value[OF assms(2), of 0] by simp
next
  case False
  obtain c k where c: "p256_add R MOD = (c, k)" "p256_ok c" "k = 0 \<or> k = 1" "bn c + M256 * unat k = bn R + bn MOD"
    by (rule p256_add_value[OF assms(2,1)])
  have "halve_mod MOD R = p256_shr1 c k" using False assms(2) c(1) by (simp add: halve_mod_def p256_is_even_iff)
  then have "p256_ok (halve_mod MOD R)" "bn (halve_mod MOD R) = (bn R + bn MOD) div 2"
    using p256_shr1_value[OF c(2,3)] c(4) by simp_all
  then show ?thesis using False assms by simp
qed

lemma sub_mod_value:
  assumes "p256_ok MOD" "p256_ok R" "p256_ok S" "bn R < bn MOD" "bn S < bn MOD"
  shows "p256_ok (sub_mod MOD S R) \<and> bn (sub_mod MOD S R) = (if bn R \<le> bn S then bn S - bn R else bn S + bn MOD - bn R)"
  using assms(3,2)
proof (cases rule: p256_sub_value)
  case (1 c)
  then show ?thesis by (simp add: sub_mod_def)
next
  case (2 c)
  obtain d k where d: "p256_add c MOD = (d, k)" "p256_ok d" "bn d + M256 * unat k = bn c + bn MOD"
    by (rule p256_add_value[OF 2(2) assms(1)])
  have "bn d < M256" using p256_less[OF d(2)] .
  moreover have "bn MOD < M256" using p256_less[OF assms(1)] .
  ultimately have "k \<noteq> 0" using d(3) 2 assms(4) by (intro notI) simp
  moreover have "k = 0 \<or> k = 1" using p256_add_value[OF 2(2) assms(1)] d(1) by auto
  ultimately have "bn d + M256 = bn c + bn MOD" using d(3) by auto
  then have "bn d = bn S + bn MOD - bn R" using 2 by linarith
  then show ?thesis using 2 d by (simp add: sub_mod_def)
qed

lemma sub_mod_less:
  assumes "p256_ok MOD" "p256_ok R" "p256_ok S" "bn R < bn MOD" "bn S < bn MOD"
  shows "bn (sub_mod MOD S R) < bn MOD"
  using sub_mod_value[OF assms] assms by auto

lemma sub_mod_cong:
  assumes "p256_ok MOD" "p256_ok R" "p256_ok S" "bn R < bn MOD" "bn S < bn MOD"
  shows "int (bn MOD) dvd int (bn (sub_mod MOD S R)) - (int (bn S) - int (bn R))"
  using sub_mod_value[OF assms] assms by (auto simp: of_nat_diff)

text \<open>The invariant of the loop.\<close>

definition modinv_inv :: "p256_int \<Rightarrow> nat \<Rightarrow> p256_int \<Rightarrow> p256_int \<Rightarrow> p256_int \<Rightarrow> p256_int \<Rightarrow> bool" where
  "modinv_inv MOD a R S U V \<longleftrightarrow>
     p256_ok R \<and> p256_ok S \<and> p256_ok U \<and> p256_ok V \<and> bn R < bn MOD \<and> bn S < bn MOD \<and>
     0 < bn U \<and> 0 < bn V \<and> coprime (bn U) (bn V) \<and>
     int (bn MOD) dvd int (bn R) * int a - int (bn U) \<and>
     int (bn MOD) dvd int (bn S) * int a - int (bn V)"

lemma halve_cong:
  assumes "odd (m :: int)" "2 * r' = r \<or> 2 * r' = r + m" "2 * u' = u" "m dvd r * a - u"
  shows "m dvd r' * a - u'"
proof -
  have "m dvd 2 * (r' * a - u')"
    using assms(2)
  proof
    assume "2 * r' = r"
    then have "2 * (r' * a - u') = r * a - u" using assms(3) by (simp add: algebra_simps)
    then show ?thesis using assms(4) by simp
  next
    assume "2 * r' = r + m"
    then have "2 * (r' * a - u') = (r * a - u) + m * a" using assms(3) by (simp add: algebra_simps flip: distrib_right)
    then show ?thesis using assms(4) by simp
  qed
  moreover have "coprime m 2" using assms(1) by simp
  ultimately show ?thesis using coprime_dvd_mult_right_iff by blast
qed

lemma coprime_halve: "coprime (2 * u) v \<Longrightarrow> coprime u v" for u v :: nat
  by simp

lemma halve_round:
  assumes "p256_ok MOD" "odd (bn MOD)" "p256_ok R" "p256_ok U" "bn R < bn MOD" "even (bn U)" "0 < bn U"
    "coprime (bn U) (bn V)" "int (bn MOD) dvd int (bn R) * int a - int (bn U)"
  shows "p256_ok (halve_mod MOD R)" "p256_ok (p256_shr1 U 0)" "bn (halve_mod MOD R) < bn MOD"
    "0 < bn (p256_shr1 U 0)" "2 * bn (p256_shr1 U 0) = bn U" "coprime (bn (p256_shr1 U 0)) (bn V)"
    "int (bn MOD) dvd int (bn (halve_mod MOD R)) * int a - int (bn (p256_shr1 U 0))"
proof -
  have h: "p256_ok (halve_mod MOD R)" "bn (halve_mod MOD R) < bn MOD"
    "2 * bn (halve_mod MOD R) = (if even (bn R) then bn R else bn R + bn MOD)"
    using halve_mod_value[OF assms(1,3,2,5)] by simp_all
  have u: "p256_ok (p256_shr1 U 0)" "2 * bn (p256_shr1 U 0) = bn U"
    using p256_shr1_value[OF assms(4), of 0] assms(6) by simp_all
  have "2 * int (bn (halve_mod MOD R)) = int (bn R) \<or> 2 * int (bn (halve_mod MOD R)) = int (bn R) + int (bn MOD)"
    using h(3) by (auto split: if_splits)
  moreover have "2 * int (bn (p256_shr1 U 0)) = int (bn U)" using u(2) by linarith
  ultimately show "int (bn MOD) dvd int (bn (halve_mod MOD R)) * int a - int (bn (p256_shr1 U 0))"
    using halve_cong[of "int (bn MOD)"] assms(2,9) by auto
  show "coprime (bn (p256_shr1 U 0)) (bn V)" using assms(8) u(2) coprime_halve by metis
  show "0 < bn (p256_shr1 U 0)" using u(2) assms(7) by linarith
qed (use halve_mod_value[OF assms(1,3,2,5)] p256_shr1_value[OF assms(4), of 0] assms(6) in simp_all)

lemma sub_cong:
  assumes "m dvd s' - (s - r)" "m dvd r * a - u" "m dvd s * a - v"
  shows "m dvd s' * a - (v - u :: int)"
proof -
  have "s' * a - (v - u) = (s' - (s - r)) * a + (s * a - v) - (r * a - u)" by (simp add: algebra_simps)
  also have "m dvd \<dots>" using dvd_diff[OF dvd_add[OF dvd_mult2[OF assms(1), of a] assms(3)] assms(2)] .
  finally show ?thesis .
qed

section \<open>The loop returns the inverse\<close>

lemma modinv_loop_correct:
  assumes M: "p256_ok MOD" "odd (bn MOD)" and "modinv_inv MOD a R S U V"
  shows "\<exists>r. modinv_loop MOD R S U V = Some r \<and> p256_ok r \<and> bn r < bn MOD \<and> int (bn MOD) dvd int (bn r) * int a - 1"
  using assms(3)
proof (induction "bn U + bn V" arbitrary: R S U V rule: less_induct)
  case less
  note I = less.prems[unfolded modinv_inv_def]
  consider "even (bn U)" | "odd (bn U)" "even (bn V)" | "odd (bn U)" "odd (bn V)" by blast
  then show ?case
  proof cases
    case 1
    have "modinv_inv MOD a (halve_mod MOD R) S (p256_shr1 U 0) V" "bn (p256_shr1 U 0) < bn U"
      using halve_round[OF M, of R U V a] 1 I by (auto simp: modinv_inv_def)
    then show ?thesis using less.hyps[of "p256_shr1 U 0" V] 1 I
      by (subst modinv_loop.simps) (simp add: p256_is_even_iff)
  next
    case 2
    have "modinv_inv MOD a R (halve_mod MOD S) U (p256_shr1 V 0)" "bn (p256_shr1 V 0) < bn V"
      using halve_round[OF M, of S V U a] 2 I by (auto simp: modinv_inv_def coprime_commute)
    then show ?thesis using less.hyps[of U "p256_shr1 V 0"] 2 I
      by (subst modinv_loop.simps) (simp add: p256_is_even_iff)
  next
    case 3
    have ok: "p256_ok V" "p256_ok U" using I by blast+
    then show ?thesis
    proof (cases rule: p256_sub_value)
      case (1 c)
      show ?thesis
      proof (cases "bn c = 0")
        case True
        then have "bn U = 1" using 1 I by (auto simp: le_antisym)
        then show ?thesis using 1 3 I True
          by (subst modinv_loop.simps) (simp add: p256_is_even_iff p256_is_zero_iff)
      next
        case False
        have "coprime (bn U) (bn c)" using 1 I gcd_diff1_nat[of "bn U" "bn V"]
          by (simp add: coprime_iff_gcd_eq_1 gcd.commute)
        then have "modinv_inv MOD a R (sub_mod MOD S R) U c"
          using I 1 False M sub_mod_value[OF M(1), of R S] sub_mod_less[OF M(1), of R S]
            sub_cong[OF sub_mod_cong[OF M(1), of R S], of "int a" "int (bn U)" "int (bn V)"]
          by (simp add: modinv_inv_def of_nat_diff)
        then show ?thesis using less.hyps[of U c] 1 3 I False
          by (subst modinv_loop.simps) (simp add: p256_is_even_iff p256_is_zero_iff)
      qed
    next
      case (2 c)
      obtain d where d: "p256_sub U V = (d, 0)" "p256_ok d" "bn d = bn U - bn V"
        using p256_sub_value[OF ok(2,1)] 2(3) by (metis not_less_iff_gr_or_eq)
      have "coprime (bn d) (bn V)" using d 2 I by (simp add: coprime_iff_gcd_eq_1 gcd_diff1_nat)
      then have "modinv_inv MOD a (sub_mod MOD R S) S d V"
        using I d 2 M sub_mod_value[OF M(1), of S R] sub_mod_less[OF M(1), of S R]
          sub_cong[OF sub_mod_cong[OF M(1), of S R], of "int a" "int (bn V)" "int (bn U)"]
        by (simp add: modinv_inv_def of_nat_diff)
      then show ?thesis using less.hyps[of d V] 2 3 I d
        by (subst modinv_loop.simps) (simp add: p256_is_even_iff)
    qed
  qed
qed

lemma modinv_vartime_correct:
  assumes M: "p256_ok MOD" "odd (bn MOD)" "1 < bn MOD" and a: "p256_ok a" "coprime (bn a) (bn MOD)"
  shows "\<exists>b. p256_modinv_vartime MOD a = Some b \<and> p256_ok b \<and> bn b < bn MOD \<and> bn b * bn a mod bn MOD = 1"
proof -
  have ok: "p256_ok P256_ZERO" "p256_ok P256_ONE" "bn P256_ZERO = 0" "bn P256_ONE = 1"
    using bn_replicate_zero[of 8] bn_replicate_zero[of 7] by (simp_all add: p256_ok_def P256_ZERO_def P256_ONE_def)
  have "0 < bn a" using a(2) M(3) by (intro gr0I) auto
  then have "modinv_inv MOD (bn a) P256_ZERO P256_ONE MOD a"
    using M a ok by (simp add: modinv_inv_def coprime_commute)
  then obtain r where r: "modinv_loop MOD P256_ZERO P256_ONE MOD a = Some r" "p256_ok r" "bn r < bn MOD"
    "int (bn MOD) dvd int (bn r) * int (bn a) - 1"
    using modinv_loop_correct[OF M(1,2)] by blast
  have "int (bn r * bn a) mod int (bn MOD) = 1 mod int (bn MOD)"
    using r(4) by (simp add: mod_eq_dvd_iff)
  also have "\<dots> = 1" using M(3) by simp
  finally have "bn r * bn a mod bn MOD = 1" by (metis of_nat_1 of_nat_eq_iff of_nat_mod)
  moreover have "p256_ok (p256_mod MOD r)" "bn (p256_mod MOD r) = bn r"
    using p256_mod_value[OF M(1) r(2)] r(3) by simp_all
  ultimately show ?thesis using r by (simp add: p256_modinv_vartime_def)
qed

text \<open>A zero operand keeps the loop halving it for ever.\<close>

lemma modinv_loop_zero:
  assumes "modinv_loop MOD R S U V = Some r"
  shows "p256_ok U \<longrightarrow> p256_ok V \<longrightarrow> odd (bn U) \<longrightarrow> bn V \<noteq> 0"
proof (rule modinv_loop.raw_induct[of "\<lambda>MOD R S U V r. p256_ok U \<longrightarrow> p256_ok V \<longrightarrow> odd (bn U) \<longrightarrow> bn V \<noteq> 0", OF _ assms])
  fix loop MOD R S U V r
  assume 1: "\<And>MOD R S U V r. loop MOD R S U V = Some r \<Longrightarrow> p256_ok U \<longrightarrow> p256_ok V \<longrightarrow> odd (bn U) \<longrightarrow> bn V \<noteq> 0"
    "(if p256_is_even U then loop MOD (halve_mod MOD R) S (p256_shr1 U 0) V
      else if p256_is_even V then loop MOD R (halve_mod MOD S) U (p256_shr1 V 0)
      else if snd (p256_sub V U) = 0 then
        (let V = fst (p256_sub V U); S = sub_mod MOD S R
         in if p256_is_zero V then Some R else loop MOD R S U V)
      else loop MOD (sub_mod MOD R S) S (fst (p256_sub U V)) V) = Some r"
  show "p256_ok U \<longrightarrow> p256_ok V \<longrightarrow> odd (bn U) \<longrightarrow> bn V \<noteq> 0"
  proof (intro impI notI)
    assume a: "p256_ok U" "p256_ok V" "odd (bn U)" "bn V = 0"
    then have "loop MOD R (halve_mod MOD S) U (p256_shr1 V 0) = Some r"
      using 1(2) by (simp add: p256_is_even_iff)
    from 1(1)[OF this] have "bn (p256_shr1 V 0) \<noteq> 0"
      using a p256_shr1_value(1)[OF a(2), of 0] by blast
    then show False using a p256_shr1_value[OF a(2), of 0] by simp
  qed
qed

end
