(* ===== verification/P256_Point.thy ===== *)
theory P256_Point
  imports P256_Inverse
begin

text \<open>
  The properties of \<^verbatim>\<open>p256.c\<close>: modular multiplication and inversion, comparison, and what the
  curve check \<open>p256_is_valid_point\<close> accepts.
\<close>

section \<open>The moduli\<close>

lemma unat_minus_one_u32 [simp]: "unat (-1 :: u32) = 4294967295"
  by (simp add: unsigned_minus_1_eq_mask mask_eq_exp_minus_1)

lemma SECP256r1_values:
  "bn SECP256r1_p = 2 ^ 256 - 2 ^ 224 + 2 ^ 192 + 2 ^ 96 - 1"
  "bn SECP256r1_n = 0xffffffff00000000ffffffffffffffffbce6faada7179e84f3b9cac2fc632551"
  "bn SECP256r1_b = 0x5ac635d8aa3a93e7b3ebbd55769886bc651d06b0cc53b0f63bce3c3e27d2604b"
  by (simp_all add: SECP256r1_p_def SECP256r1_n_def SECP256r1_b_def)

lemma SECP256r1_ok [simp]: "p256_ok SECP256r1_p" "p256_ok SECP256r1_n" "p256_ok SECP256r1_b"
  by (simp_all add: SECP256r1_p_def SECP256r1_n_def SECP256r1_b_def p256_ok_def)

lemma SECP256r1_mod_ok: "mod_ok SECP256r1_p" "mod_ok SECP256r1_n"
  by (simp_all add: mod_ok_def SECP256r1_values)

lemma P256_ONE_value [simp]: "p256_ok P256_ONE" "bn P256_ONE = 1" "p256_ok P256_ZERO" "bn P256_ZERO = 0"
  using bn_replicate_zero[of 8] bn_replicate_zero[of 7] by (simp_all add: p256_ok_def P256_ZERO_def P256_ONE_def)

section \<open>Multiplication, inversion, comparison\<close>

text \<open>
  C23. For every modulus whose top digit is all ones (both moduli of the curve are), \<open>p256_modmul\<close>
  returns \<open>a * (top_b | b) mod MOD\<close>, fully reduced, for all operands: none of the three
  \<open>assert\<close>s of the reduction can fire.
\<close>

theorem p256_modmul_correct:
  assumes "mod_ok MOD" "p256_ok a" "p256_ok b"
  shows "\<exists>c. p256_modmul MOD a top_b b = Some c \<and> p256_ok c \<and>
    bn c = bn a * (bn b + 2 ^ 256 * unat top_b) mod bn MOD"
  using assms by (rule p256_modmul_value)

theorem p256_modmul_witness:
  "mod_ok SECP256r1_p \<and> (\<exists>c. p256_modmul SECP256r1_p SECP256r1_n 1 SECP256r1_b = Some c \<and> p256_ok c \<and>
    bn c = bn SECP256r1_n * (bn SECP256r1_b + 2 ^ 256 * unat (1 :: u32)) mod bn SECP256r1_p)"
  using p256_modmul_correct[of SECP256r1_p SECP256r1_n SECP256r1_b 1] SECP256r1_mod_ok by simp

text \<open>
  C24. \<open>p256_modinv_vartime\<close> terminates with the inverse of \<open>a\<close>, below the modulus, for every odd
  modulus and every \<open>a\<close> coprime to it, whether or not \<open>a\<close> is reduced.
\<close>

theorem p256_modinv_correct:
  assumes "p256_ok MOD" "odd (bn MOD)" "1 < bn MOD" "p256_ok a" "coprime (bn a) (bn MOD)"
  shows "\<exists>b. p256_modinv_vartime MOD a = Some b \<and> p256_ok b \<and> bn b < bn MOD \<and> bn b * bn a mod bn MOD = 1"
  using assms by (rule modinv_vartime_correct)

theorem p256_modinv_witness:
  "\<exists>b. p256_modinv_vartime SECP256r1_n P256_ONE = Some b \<and> p256_ok b \<and> bn b < bn SECP256r1_n \<and>
     bn b * bn P256_ONE mod bn SECP256r1_n = 1"
  using p256_modinv_correct[of SECP256r1_n P256_ONE] by (simp add: SECP256r1_values)

text \<open>
  On a zero operand \<open>p256_modinv_vartime\<close> does not return, for every odd modulus; its callers have to
  exclude zero.
\<close>

lemma p256_modinv_zero:
  assumes "p256_ok MOD" "odd (bn MOD)" "p256_ok a" "bn a = 0"
  shows "p256_modinv_vartime MOD a = None"
  using modinv_loop_zero[of MOD P256_ZERO P256_ONE MOD a] assms
  by (cases "modinv_loop MOD P256_ZERO P256_ONE MOD a") (auto simp: p256_modinv_vartime_def)

theorem p256_modinv_zero_witness: "p256_modinv_vartime SECP256r1_n P256_ZERO = None"
  using p256_modinv_zero[of SECP256r1_n P256_ZERO] by (simp add: SECP256r1_values)

text \<open>
  \<open>p256_cmp\<close> is the three-way comparison of the numbers: -1, 0 or 1.
\<close>

lemma p256_cmp_correct:
  assumes "p256_ok a" "p256_ok b"
  shows "p256_cmp a b = sgn (int (bn a) - int (bn b))"
  using p256_cmp_value[OF assms] by simp

theorem p256_cmp_witness: "p256_cmp P256_ZERO SECP256r1_p = sgn (int (bn P256_ZERO) - int (bn SECP256r1_p))"
  using p256_cmp_correct[of P256_ZERO SECP256r1_p] by simp

section \<open>The curve check\<close>

definition on_curve :: "nat \<Rightarrow> nat \<Rightarrow> bool" where
  "on_curve x y \<longleftrightarrow> int (y * y) mod int (bn SECP256r1_p) =
     (int x ^ 3 - 3 * int x + int (bn SECP256r1_b)) mod int (bn SECP256r1_p)"

text \<open>The value the check compares with \<open>y\<^sup>2\<close>: the last addition is reduced only on a carry out of 256 bits.\<close>

definition curve_rhs :: "nat \<Rightarrow> nat" where
  "curve_rhs x = (let t = nat ((int x ^ 3 - 3 * int x) mod int (bn SECP256r1_p)) + bn SECP256r1_b
     in if t < M256 then t else t - bn SECP256r1_p)"

lemma mod_sub_cong:
  assumes "r < m" "x < m" "int r = z mod int m"
  shows "int (if x \<le> r then r - x else r + m - x) = (z - int x) mod int m"
proof -
  have "(z - int x) mod int m = (int r - int x) mod int m" using assms(3) by (simp add: mod_diff_left_eq)
  also have "\<dots> = int (if x \<le> r then r - x else r + m - x)"
  proof (cases "x \<le> r")
    case False
    have "(int r - int x) mod int m = (int r - int x + int m) mod int m" by simp
    also have "\<dots> = int r - int x + int m" using False assms by (intro mod_pos_pos_trivial) linarith+
    finally show ?thesis using False assms(2) by (simp add: of_nat_diff)
  qed (use assms in \<open>simp add: of_nat_diff\<close>)
  finally show ?thesis by simp
qed

lemma sub_mod_mod:
  assumes "p256_ok MOD" "p256_ok r" "p256_ok x" "bn x < bn MOD" "int (bn r) = z mod int (bn MOD)"
  shows "p256_ok (sub_mod MOD r x) \<and> int (bn (sub_mod MOD r x)) = (z - int (bn x)) mod int (bn MOD)"
proof -
  have "int (bn r) < int (bn MOD)" using assms(4,5) by (simp add: pos_mod_bound)
  then have lt: "bn r < bn MOD" by simp
  show ?thesis
    using sub_mod_value[OF assms(1,3,2,4) lt] mod_sub_cong[OF lt assms(4,5)] by simp
qed

lemma valid_point_rhs:
  assumes "p256_ok x3" "p256_ok x" "bn x < bn SECP256r1_p" "bn x3 = bn x ^ 3 mod bn SECP256r1_p"
  defines "r \<equiv> sub_mod SECP256r1_p (sub_mod SECP256r1_p (sub_mod SECP256r1_p x3 x) x) x"
  obtains c k where "p256_add r SECP256r1_b = (c, k)"
    "p256_ok (if k \<noteq> 0 then fst (p256_sub c SECP256r1_p) else c)"
    "bn (if k \<noteq> 0 then fst (p256_sub c SECP256r1_p) else c) = curve_rhs (bn x)"
proof -
  let ?p = "bn SECP256r1_p"
  note step = sub_mod_mod[OF SECP256r1_ok(1) _ assms(2,3)]
  have z: "int (bn x3) = int (bn x) ^ 3 mod int ?p" using assms(4) by (simp add: of_nat_mod)
  have r: "p256_ok r" "int (bn r) = (int (bn x) ^ 3 - 3 * int (bn x)) mod int ?p"
    using step[OF _ step[OF _ step[OF assms(1) z, THEN conjunct2], THEN conjunct2]]
      step[OF _ step[OF assms(1) z, THEN conjunct2]] step[OF assms(1) z]
    by (simp_all add: r_def algebra_simps)
  obtain c k where c: "p256_add r SECP256r1_b = (c, k)" "p256_ok c" "k = 0 \<or> k = 1"
    "bn c + M256 * unat k = bn r + bn SECP256r1_b"
    by (rule p256_add_value[OF r(1) SECP256r1_ok(3)])
  have nr: "bn r = nat ((int (bn x) ^ 3 - 3 * int (bn x)) mod int ?p)" using r(2) by (metis nat_int)
  have cl: "bn c < M256" using p256_less[OF c(2)] .
  show thesis
  proof (cases "k = 0")
    case True
    then have "bn c = bn r + bn SECP256r1_b" using c(4) by simp
    then have "bn c = curve_rhs (bn x)" using cl nr by (simp add: curve_rhs_def Let_def)
    then show thesis using that[OF c(1)] True c(2) by simp
  next
    case False
    then have t: "bn r + bn SECP256r1_b = bn c + M256" using c(3,4) by auto
    have "bn r < ?p"
    proof -
      have "0 < int ?p" by (simp add: SECP256r1_values)
      then have "int (bn r) < int ?p" unfolding r(2) by (rule pos_mod_bound)
      then show ?thesis by simp
    qed
    then have "bn c < ?p" using t by (simp add: SECP256r1_values)
    from p256_sub_value[OF c(2) SECP256r1_ok(1)] this obtain d where
      d: "p256_sub c SECP256r1_p = (d, -1)" "p256_ok d" "bn d + ?p = bn c + M256"
      by (metis not_less)
    have "bn d = curve_rhs (bn x)" using d(3) t nr by (simp add: curve_rhs_def Let_def)
    then show thesis using that[OF c(1)] False d by simp
  qed
qed

lemma valid_point_value:
  assumes "p256_ok x" "p256_ok y"
  shows "p256_is_valid_point x y = Some (0 < bn x \<and> bn x < bn SECP256r1_p \<and> 0 < bn y \<and> bn y < bn SECP256r1_p \<and>
     bn y * bn y mod bn SECP256r1_p = curve_rhs (bn x))"
proof (cases "0 < bn x \<and> bn x < bn SECP256r1_p \<and> 0 < bn y \<and> bn y < bn SECP256r1_p")
  case False
  then have "p256_is_valid_point x y = Some False"
    using assms p256_cmp_value[OF SECP256r1_ok(1)] by (auto simp: p256_is_valid_point_def p256_is_zero_iff)
  then show ?thesis using False by auto
next
  case True
  note mm = p256_modmul_value[OF SECP256r1_mod_ok(1), where top_b = 0]
  obtain y2 where y2: "p256_modmul SECP256r1_p y 0 y = Some y2" "p256_ok y2" "bn y2 = bn y * bn y mod bn SECP256r1_p"
    using mm[OF assms(2,2)] by auto
  obtain xx where xx: "p256_modmul SECP256r1_p x 0 x = Some xx" "p256_ok xx" "bn xx = bn x * bn x mod bn SECP256r1_p"
    using mm[OF assms(1,1)] by auto
  obtain x3 where x3: "p256_modmul SECP256r1_p x 0 xx = Some x3" "p256_ok x3" "bn x3 = bn x ^ 3 mod bn SECP256r1_p"
    using mm[OF assms(1) xx(2)] xx(3) by (auto simp: mod_mult_right_eq power3_eq_cube mult.assoc)
  obtain c k where c: "p256_add (sub_mod SECP256r1_p (sub_mod SECP256r1_p (sub_mod SECP256r1_p x3 x) x) x) SECP256r1_b = (c, k)"
    "p256_ok (if k \<noteq> 0 then fst (p256_sub c SECP256r1_p) else c)"
    "bn (if k \<noteq> 0 then fst (p256_sub c SECP256r1_p) else c) = curve_rhs (bn x)"
    using valid_point_rhs[OF x3(2) assms(1) _ x3(3)] True by blast
  have "p256_is_valid_point x y = Some (p256_cmp y2 (if k \<noteq> 0 then fst (p256_sub c SECP256r1_p) else c) = 0)"
    using True assms y2 xx x3 c(1) p256_cmp_value[OF SECP256r1_ok(1)]
    by (simp add: p256_is_valid_point_def p256_is_zero_iff Let_def)
  also have "\<dots> = Some (bn y2 = curve_rhs (bn x))"
    using p256_cmp_value[OF y2(2) c(2)] c(3) by simp
  finally show ?thesis using True y2(3) by simp
qed

lemma curve_rhs_mod:
  "int (curve_rhs x) mod int (bn SECP256r1_p) = (int x ^ 3 - 3 * int x + int (bn SECP256r1_b)) mod int (bn SECP256r1_p)"
proof -
  let ?p = "bn SECP256r1_p" and ?b = "bn SECP256r1_b"
  let ?m = "(int x ^ 3 - 3 * int x) mod int ?p"
  define t where "t = nat ?m + ?b"
  have "0 \<le> ?m" by (simp add: SECP256r1_values)
  then have "int t = ?m + int ?b" by (simp add: t_def)
  then have tm: "int t mod int ?p = (int x ^ 3 - 3 * int x + int ?b) mod int ?p" by (simp add: mod_add_left_eq)
  have "?p \<le> M256" by (simp add: SECP256r1_values)
  then have "int (curve_rhs x) = int t \<or> int (curve_rhs x) = int t - int ?p"
    by (auto simp: curve_rhs_def Let_def of_nat_diff simp flip: t_def)
  then have "int (curve_rhs x) mod int ?p = int t mod int ?p" by (elim disjE) simp_all
  with tm show ?thesis by simp
qed

text \<open>
  C25. The curve check accepts only points of the curve: for every pair of 256-bit numbers it returns, and
  a positive answer means \<open>0 < x < p\<close>, \<open>0 < y < p\<close> and \<open>y\<^sup>2 = x\<^sup>3 - 3 x + b\<close> modulo \<open>p\<close>.
\<close>

theorem p256_is_valid_point_sound:
  assumes "p256_ok x" "p256_ok y"
  shows "\<exists>v. p256_is_valid_point x y = Some v \<and>
    (v \<longrightarrow> 0 < bn x \<and> bn x < bn SECP256r1_p \<and> 0 < bn y \<and> bn y < bn SECP256r1_p \<and> on_curve (bn x) (bn y))"
  using valid_point_value[OF assms] curve_rhs_mod[of "bn x"]
  by (auto simp: on_curve_def) (metis mod_mod_trivial of_nat_mod of_nat_mult)

theorem p256_is_valid_point_witness:
  "\<exists>v. p256_is_valid_point SECP256r1_b SECP256r1_n = Some v \<and>
    (v \<longrightarrow> 0 < bn SECP256r1_b \<and> bn SECP256r1_b < bn SECP256r1_p \<and> 0 < bn SECP256r1_n \<and>
      bn SECP256r1_n < bn SECP256r1_p \<and> on_curve (bn SECP256r1_b) (bn SECP256r1_n))"
  using p256_is_valid_point_sound[of SECP256r1_b SECP256r1_n] by simp

lemma valid_point_complete:
  assumes "p256_ok x" "p256_ok y" "0 < bn x" "bn x < bn SECP256r1_p" "0 < bn y" "bn y < bn SECP256r1_p"
    and "on_curve (bn x) (bn y)" "M256 - bn SECP256r1_p \<le> bn y * bn y mod bn SECP256r1_p"
  shows "p256_is_valid_point x y = Some True"
proof -
  let ?p = "bn SECP256r1_p" and ?r = "curve_rhs (bn x)"
  have "int (bn y * bn y mod ?p) = int (?r mod ?p)"
    using assms(7) curve_rhs_mod[of "bn x"] by (simp add: on_curve_def of_nat_mod)
  then have eq: "bn y * bn y mod ?p = ?r mod ?p" by (simp only: of_nat_eq_iff)
  have "?r < ?p"
  proof (rule ccontr)
    let ?m = "(int (bn x) ^ 3 - 3 * int (bn x)) mod int ?p"
    assume "\<not> ?r < ?p"
    moreover have "?r < M256"
    proof -
      have "?m < int ?p" by (simp add: SECP256r1_values)
      then have "nat ?m < ?p" by (simp add: nat_less_iff SECP256r1_values)
      then show ?thesis by (simp add: curve_rhs_def Let_def SECP256r1_values) linarith
    qed
    ultimately have "?r mod ?p = ?r - ?p" by (simp add: SECP256r1_values mod_if)
    then show False using assms(8) eq \<open>?r < M256\<close> \<open>\<not> ?r < ?p\<close> by linarith
  qed
  then have "bn y * bn y mod ?p = ?r" using eq by simp
  then show ?thesis using valid_point_value[OF assms(1,2)] assms(3-6) by simp
qed

text \<open>
  The check is complete for all points of the curve whose \<open>y\<^sup>2 mod p\<close> is at least \<open>2\<^sup>2\<^sup>5\<^sup>6 - p\<close>
  (all but a fraction of about \<open>2\<^sup>-\<^sup>3\<^sup>2\<close> of them).
\<close>

lemma p256_is_valid_point_complete:
  assumes "p256_ok x" "p256_ok y" "0 < bn x" "bn x < bn SECP256r1_p" "0 < bn y" "bn y < bn SECP256r1_p"
    and "on_curve (bn x) (bn y)" "M256 - bn SECP256r1_p \<le> bn y * bn y mod bn SECP256r1_p"
  shows "p256_is_valid_point x y = Some True"
  using assms by (rule valid_point_complete)

text \<open>The base point of the curve, as \<^verbatim>\<open>p256_ec.c\<close> and FIPS 186-3 give it.\<close>

definition base_x :: p256_int where
  "base_x = [0xd898c296, 0xf4a13945, 0x2deb33a0, 0x77037d81, 0x63a440f2, 0xf8bce6e5, 0xe12c4247, 0x6b17d1f2]"

definition base_y :: p256_int where
  "base_y = [0x37bf51f5, 0xcbb64068, 0x6b315ece, 0x2bce3357, 0x7c0f9e16, 0x8ee7eb4a, 0xfe1a7f9b, 0x4fe342e2]"

lemma mod_by_quotient: "x = q * m + r \<Longrightarrow> r < m \<Longrightarrow> x mod m = r" for x q m r :: nat
  by simp

lemma int_mod_eq_by_quotient: "x = q * m + r \<Longrightarrow> 0 \<le> r \<Longrightarrow> r < m \<Longrightarrow> x mod m = r" for x q m r :: int
  by simp

lemma on_curve_by_quotient:
  "int x ^ 3 - 3 * int x + int (bn SECP256r1_b) = int (y * y) + q * int (bn SECP256r1_p) \<Longrightarrow> on_curve x y"
  by (simp add: on_curve_def)

lemma base_values:
  "bn base_x = 0x6b17d1f2e12c4247f8bce6e563a440f277037d812deb33a0f4a13945d898c296"
  "bn base_y = 0x4fe342e2fe1a7f9b8ee7eb4a7c0f9e162bce33576b315ececbb6406837bf51f5"
  by (simp_all add: base_x_def base_y_def)

lemma base_y_square: "bn base_y * bn base_y mod bn SECP256r1_p = 0x55df5d5850f47bad82149139979369fe498a9022a412b5e0bedd2cfc21c3ed91"
  unfolding base_values SECP256r1_values
  by (rule mod_by_quotient[of _ "0x18ee0d07e1cadf1365bd80dd843314dd534834655163ed44a7f051b975f0f918"]) simp_all

lemma base_facts:
  "p256_ok base_x" "p256_ok base_y" "0 < bn base_x" "bn base_x < bn SECP256r1_p" "0 < bn base_y"
  "bn base_y < bn SECP256r1_p" "on_curve (bn base_x) (bn base_y)"
  "M256 - bn SECP256r1_p \<le> bn base_y * bn base_y mod bn SECP256r1_p"
proof -
  show "on_curve (bn base_x) (bn base_y)"
    by (rule on_curve_by_quotient[of _ _ "0x12bdd1ad23dfc833dccf5f6141d6bb4a1f365dc1430b0e600b52dd851938d2d6933106a72efbf035fdaf43963b37fd5456e90c6581a8fb7a0d8a46a3629f0458"]) (simp add: base_values SECP256r1_values)
  show "M256 - bn SECP256r1_p \<le> bn base_y * bn base_y mod bn SECP256r1_p"
    unfolding base_y_square by (simp add: SECP256r1_values)
qed (simp_all add: p256_ok_def base_x_def base_y_def SECP256r1_values)

lemma base_valid: "p256_is_valid_point base_x base_y = Some True"
  by (rule valid_point_complete[OF base_facts])

theorem p256_is_valid_point_complete_witness: "p256_is_valid_point base_x base_y = Some True"
  by (rule p256_is_valid_point_complete[OF base_facts])

text \<open>
  C26. The last reduction of the check is not complete: the point with \<open>y = 5\<close> below lies on the curve, is in
  range, and is rejected, because \<open>x\<^sup>3 - 3 x + b\<close> lands between \<open>p\<close> and \<open>2\<^sup>2\<^sup>5\<^sup>6\<close> and is compared unreduced.
\<close>

definition five_x :: p256_int where
  "five_x = [0xde8de1d7, 0xb176f692, 0x841022ca, 0x4cffaf35, 0xeb345f84, 0x0a92738c, 0x46cd60d8, 0xd7325d76]"

definition five_y :: p256_int where
  "five_y = 5 # replicate 7 0"

lemma five_facts:
  "p256_ok five_x" "p256_ok five_y" "bn five_y = 5"
  "bn five_x = 0xd7325d7646cd60d80a92738ceb345f844cffaf35841022cab176f692de8de1d7"
  using bn_replicate_zero[of 7] by (simp_all add: five_x_def five_y_def p256_ok_def)

lemma five_on_curve: "on_curve (bn five_x) (bn five_y)"
  by (rule on_curve_by_quotient[of _ _ "0x981072b3fe76cb9eeac1e923227d57ecc56d41614c1796fe8072b594832aa3b7ac6cb6ca13fc314e859323aa120211acbbfa0bdfbdb8994ab52d775ddf494c8c"]) (simp add: five_facts SECP256r1_values)

lemma five_rhs: "curve_rhs (bn five_x) = bn SECP256r1_p + 25"
proof -
  have "(int (bn five_x) ^ 3 - 3 * int (bn five_x)) mod int (bn SECP256r1_p) = 0xa539ca2655c56c194c1442aa896779439ae2f95033ac4f09c431c3c1d82d9fcd"
    by (rule int_mod_eq_by_quotient[of _ "0x981072b3fe76cb9eeac1e923227d57ecc56d41614c1796fe8072b594832aa3b7ac6cb6ca13fc314e859323aa120211acbbfa0bdfbdb8994ab52d775ddf494c8b"]) (simp_all add: five_facts SECP256r1_values)
  then show ?thesis by (simp add: curve_rhs_def Let_def SECP256r1_values)
qed

theorem p256_is_valid_point_incomplete:
  "on_curve (bn five_x) (bn five_y) \<and> 0 < bn five_x \<and> bn five_x < bn SECP256r1_p \<and> bn five_y = 5 \<and>
   p256_is_valid_point five_x five_y = Some False"
  using valid_point_value[OF five_facts(1,2)] five_on_curve unfolding five_rhs five_facts(3)
  by (simp add: five_facts(4) SECP256r1_values)

end
