(* ===== verification/P256_Field.thy ===== *)
theory P256_Field
  imports P256_Felem P256_Point
begin

text \<open>
  The additive routines of the field elements of \<^verbatim>\<open>p256_ec.c\<close>: sum, difference, the small
  multiples and the zero test compute modulo the prime and keep the limb bounds, so that no
  32-bit limb overflows and no subtraction underflows in any of them.
\<close>

section \<open>Values and bounds\<close>

text \<open>The number a limb array denotes, the first limb being 28 bits wide if the flag is set.\<close>

fun limb_val :: "bool \<Rightarrow> u32 list \<Rightarrow> nat" where
  "limb_val od [] = 0"
| "limb_val od (x # xs) = unat x + 2 ^ (if od then 28 else 29) * limb_val (\<not> od) xs"

definition felem_val :: "felem \<Rightarrow> nat" where
  "felem_val a = limb_val False a"

fun limb_bits :: "bool \<Rightarrow> nat \<Rightarrow> nat" where
  "limb_bits od 0 = 0"
| "limb_bits od (Suc n) = (if od then 28 else 29) + limb_bits (\<not> od) n"

text \<open>Limbs below \<open>m\<close> and \<open>n\<close> alternately.\<close>

fun bounded :: "nat \<Rightarrow> nat \<Rightarrow> u32 list \<Rightarrow> bool" where
  "bounded m n [] = True"
| "bounded m n (x # xs) = (unat x < m \<and> bounded n m xs)"

text \<open>
  The bounds the source states (even limbs below \<open>2\<^sup>3\<^sup>0\<close>, odd ones below \<open>2\<^sup>2\<^sup>9\<close>), with the top limb
  below \<open>2\<^sup>2\<^sup>9\<close>.
\<close>

definition felem_ok :: "felem \<Rightarrow> bool" where
  "felem_ok a \<longleftrightarrow> length a = 9 \<and> bounded (2 ^ 30) (2 ^ 29) a \<and> unat (a ! 8) < 2 ^ 29"

abbreviation secp :: nat where "secp \<equiv> bn SECP256r1_p"

lemma unat_and_28: "unat (x AND kBottom28Bits) = unat x mod 2 ^ 28"
proof -
  have "kBottom28Bits = mask 28" by (simp add: kBottom28Bits_def mask_eq_exp_minus_1)
  then have "x AND kBottom28Bits = take_bit 28 x" by (simp add: take_bit_eq_mask)
  then show ?thesis by (simp add: unsigned_take_bit_eq) (simp add: take_bit_eq_mod)
qed

lemma unat_and_29: "unat (x AND kBottom29Bits) = unat x mod 2 ^ 29"
proof -
  have "kBottom29Bits = mask 29" by (simp add: kBottom29Bits_def mask_eq_exp_minus_1)
  then have "x AND kBottom29Bits = take_bit 29 x" by (simp add: take_bit_eq_mask)
  then show ?thesis by (simp add: unsigned_take_bit_eq) (simp add: take_bit_eq_mod)
qed

lemma unat_add_small: "unat x + unat y < 4294967296 \<Longrightarrow> unat (x + y :: u32) = unat x + unat y"
  by (subst unat_add_lem [THEN iffD1]) auto

lemma unat_add_limit: "unat x + unat y < 4294967280 \<Longrightarrow> unat (x + y :: u32) < 4294967280"
  by (simp add: unat_add_small)

lemma unat_sub_small: "unat y \<le> unat x \<Longrightarrow> unat (x - y :: u32) = unat x - unat y"
  by (simp add: unat_sub word_le_nat_alt)

section \<open>The carry chain\<close>

lemma limb_carry_correct:
  assumes "\<forall>x\<in>set xs. unat x < 4294967280" "unat carry < 16" "limb_carry od carry xs = (out, c)"
  shows "length out = length xs \<and> bounded (if od then 2 ^ 28 else 2 ^ 29) (if od then 2 ^ 29 else 2 ^ 28) out \<and>
    limb_val od out + 2 ^ limb_bits od (length xs) * unat c = limb_val od xs + unat carry"
  using assms
proof (induction xs arbitrary: od carry out)
  case (Cons x xs)
  define w where "w = x + carry"
  let ?n = "if od then 28 else 29 :: nat"
  obtain o1 where o: "limb_carry (\<not> od) (drop_bit ?n w) xs = (o1, c)"
    and out: "out = (w AND (if od then kBottom28Bits else kBottom29Bits)) # o1"
    using Cons.prems(3) by (auto simp: w_def Let_def split: prod.splits)
  have w: "unat w = unat x + unat carry" unfolding w_def using Cons.prems by (intro unat_add_small) auto
  have dw: "unat (drop_bit ?n w) = unat w div 2 ^ ?n" by (rule unat_drop_bit_u32)
  have small: "unat (drop_bit ?n w) < 16"
  proof -
    have "unat w < 16 * 2 ^ ?n" using u32_less[of w] by auto
    then show ?thesis unfolding dw by (rule less_mult_imp_div_less)
  qed
  have mw: "unat (w AND (if od then kBottom28Bits else kBottom29Bits)) = unat w mod 2 ^ ?n"
    by (simp add: unat_and_28 unat_and_29)
  from Cons.IH[OF _ small o] Cons.prems(1) have IH: "length o1 = length xs"
    "bounded (if od then 2 ^ 29 else 2 ^ 28) (if od then 2 ^ 28 else 2 ^ 29) o1"
    "limb_val (\<not> od) o1 + 2 ^ limb_bits (\<not> od) (length xs) * unat c = limb_val (\<not> od) xs + unat (drop_bit ?n w)"
    by auto
  have "limb_val od out + 2 ^ limb_bits od (length (x # xs)) * unat c
    = unat w mod 2 ^ ?n + 2 ^ ?n * (limb_val (\<not> od) o1 + 2 ^ limb_bits (\<not> od) (length xs) * unat c)"
    by (simp add: out mw power_add algebra_simps)
  also have "\<dots> = (unat w mod 2 ^ ?n + 2 ^ ?n * (unat w div 2 ^ ?n)) + 2 ^ ?n * limb_val (\<not> od) xs"
    by (simp only: IH(3) dw) algebra
  also have "\<dots> = limb_val od (x # xs) + unat carry" by (simp only: mod_mult_div_eq w limb_val.simps)
  finally show ?case using IH(1,2) mw by (simp add: out)
qed simp

section \<open>Cancelling the carry\<close>

lemma non_zero_mask: "0 < unat x \<Longrightarrow> unat x \<le> 2 ^ 31 \<Longrightarrow> NON_ZERO_TO_ALL_ONES x = -1"
proof -
  assume x: "0 < unat x" "unat x \<le> 2 ^ 31"
  then have "unat (x - 1) = unat x - 1" by (simp add: unat_sub_small)
  then have "unat (drop_bit 31 (x - 1)) = (unat x - 1) div 2 ^ 31" by (simp only: unat_drop_bit_u32)
  also have "\<dots> = 0" using x by simp
  finally show ?thesis by (simp add: NON_ZERO_TO_ALL_ONES_def unat_eq_0)
qed

lemma zero_mask: "NON_ZERO_TO_ALL_ONES 0 = 0"
  by (simp add: NON_ZERO_TO_ALL_ONES_def)

lemma felem_9: "length a = 9 \<Longrightarrow> \<exists>a0 a1 a2 a3 a4 a5 a6 a7 a8. a = [a0, a1, a2, a3, a4, a5, a6, a7, a8]"
  by (auto simp: numeral_eq_Suc length_Suc_conv)

lemma felem_reduce_carry_zero: "length a = 9 \<Longrightarrow> felem_reduce_carry a 0 = a"
  using felem_9[of a] by (auto simp: felem_reduce_carry_def zero_mask add_at_def sub_at_def Let_def)

lemma unat_push_small: "unat c \<le> 8 \<Longrightarrow> n \<le> 25 \<Longrightarrow> unat (push_bit n c :: u32) = unat c * 2 ^ n"
proof -
  assume c: "unat c \<le> 8" "n \<le> 25"
  then have "(2 :: nat) ^ n \<le> 2 ^ 25" by (intro power_increasing) simp_all
  with c have "unat c * 2 ^ n \<le> 8 * 2 ^ 25" by (intro mult_le_mono)
  then have "unat c * 2 ^ n < 2 ^ 32" by simp
  then show ?thesis by (simp add: unsigned_push_bit_eq) (simp add: push_bit_eq_mult take_bit_nat_eq_self)
qed

lemma reduce_carry_correct:
  assumes len: "length a = 9" and b: "bounded (2 ^ 29) (2 ^ 28) a" and c: "unat c \<le> 8"
  shows "felem_ok (felem_reduce_carry a c)"
    "felem_val (felem_reduce_carry a c) + 2 * secp * unat c = felem_val a + 2 ^ 257 * unat c"
proof -
  obtain a0 a1 a2 a3 a4 a5 a6 a7 a8 where a: "a = [a0, a1, a2, a3, a4, a5, a6, a7, a8]"
    using felem_9[OF len] by blast
  note lim = b[unfolded a, simplified]
  have "felem_ok (felem_reduce_carry a c) \<and>
    felem_val (felem_reduce_carry a c) + 2 * secp * unat c = felem_val a + 2 ^ 257 * unat c"
  proof (cases "c = 0")
    case True
    then show ?thesis using lim by (simp add: felem_reduce_carry_zero len) (simp add: a felem_ok_def)
  next
    case False
    then have c0: "0 < unat c" by (simp add: unat_gt_0)
    have m: "NON_ZERO_TO_ALL_ONES c = -1" using c0 c by (intro non_zero_mask) simp_all
    have p: "unat (push_bit 1 c) = 2 * unat c" "unat (push_bit 11 c) = 2048 * unat c"
      "unat (push_bit 22 c) = 4194304 * unat c" "unat (push_bit 25 c) = 33554432 * unat c"
      using unat_push_small[OF c, of 1] unat_push_small[OF c, of 11] unat_push_small[OF c, of 22]
        unat_push_small[OF c, of 25] by simp_all
    have l0: "unat (a0 + push_bit 1 c) = unat a0 + 2 * unat c"
      using lim c p by (subst unat_add_small) simp_all
    have l3: "unat (a3 + 0x10000000 - push_bit 11 c) + 2048 * unat c = unat a3 + 0x10000000"
    proof -
      have "unat (a3 + 0x10000000) = unat a3 + 0x10000000" using lim by (subst unat_add_small) simp_all
      then show ?thesis using lim c p by (subst unat_sub_small) simp_all
    qed
    have l45: "unat (a4 + 0x1fffffff) = unat a4 + 0x1fffffff" "unat (a5 + 0xfffffff) = unat a5 + 0xfffffff"
      using lim by (subst unat_add_small; simp)+
    have l6: "unat (a6 + 0x1fffffff - push_bit 22 c) + 4194304 * unat c = unat a6 + 0x1fffffff"
    proof -
      have "unat (a6 + 0x1fffffff) = unat a6 + 0x1fffffff" using lim by (subst unat_add_small) simp_all
      then show ?thesis using lim c p by (subst unat_sub_small) simp_all
    qed
    have l7: "unat (a7 - 1 + push_bit 25 c) + 1 = unat a7 + 33554432 * unat c"
    proof -
      have "unat (a7 + push_bit 25 c) = unat a7 + 33554432 * unat c"
        using lim c p by (subst unat_add_small) simp_all
      moreover from this have "unat (a7 + push_bit 25 c - 1) = unat (a7 + push_bit 25 c) - 1"
        using c0 by (subst unat_sub_small) simp_all
      moreover have "a7 - 1 + push_bit 25 c = a7 + push_bit 25 c - 1" by simp
      ultimately show ?thesis using c0 by (simp only:)
    qed
    have r: "felem_reduce_carry a c = [a0 + push_bit 1 c, a1, a2, a3 + 0x10000000 - push_bit 11 c,
      a4 + 0x1fffffff, a5 + 0xfffffff, a6 + 0x1fffffff - push_bit 22 c, a7 - 1 + push_bit 25 c, a8]"
      by (simp add: felem_reduce_carry_def m a add_at_def sub_at_def Let_def)
    note ls = l0 l3 l45 l6 l7
    show ?thesis
    proof
      show "felem_ok (felem_reduce_carry a c)"
        unfolding r felem_ok_def using ls lim c by (simp del: One_nat_def)
      show "felem_val (felem_reduce_carry a c) + 2 * secp * unat c = felem_val a + 2 ^ 257 * unat c"
        unfolding r unfolding a felem_val_def SECP256r1_values limb_val.simps using ls by (simp del: One_nat_def)
    qed
  qed
  then show "felem_ok (felem_reduce_carry a c)"
    "felem_val (felem_reduce_carry a c) + 2 * secp * unat c = felem_val a + 2 ^ 257 * unat c" by simp_all
qed

section \<open>Sum, difference and small multiples\<close>

lemma limb_bits_9: "limb_bits False 9 = 257"
  by (simp add: numeral_eq_Suc)

lemma felem_val_less:
  assumes "felem_ok a"
  shows "felem_val a < 2 ^ 257 + 2 ^ 230"
proof -
  obtain a0 a1 a2 a3 a4 a5 a6 a7 a8 where a: "a = [a0, a1, a2, a3, a4, a5, a6, a7, a8]"
    using felem_9[of a] assms by (auto simp: felem_ok_def)
  show ?thesis using assms by (simp add: a felem_ok_def felem_val_def)
qed

lemma chain_correct:
  assumes len: "length xs = 9" and lim: "\<forall>x\<in>set xs. unat x < 4294967280" and v: "felem_val xs < 2 ^ 257 * 9"
    and c: "limb_carry False 0 xs = (out, c)"
  shows "felem_ok (felem_reduce_carry out c)"
    "felem_val (felem_reduce_carry out c) + 2 * secp * unat c = felem_val xs"
    "length out = 9" "bounded (2 ^ 29) (2 ^ 28) out"
proof -
  have out: "length out = 9" "bounded (2 ^ 29) (2 ^ 28) out" "felem_val out + 2 ^ 257 * unat c = felem_val xs"
    using limb_carry_correct[OF lim _ c] len by (simp_all add: limb_bits_9 felem_val_def)
  have "2 ^ 257 * unat c < 2 ^ 257 * 9" using out(3) v by linarith
  then have c8: "unat c \<le> 8" by simp
  show "felem_ok (felem_reduce_carry out c)"
    "felem_val (felem_reduce_carry out c) + 2 * secp * unat c = felem_val xs"
    "length out = 9" "bounded (2 ^ 29) (2 ^ 28) out"
    using reduce_carry_correct[OF out(1,2) c8] out by simp_all
qed

lemma mod_secp_eqI: "x + 2 * secp * k = y \<Longrightarrow> x mod secp = y mod secp"
  by (metis mod_mult_self2 mult.assoc mult.commute)

lemma limb_val_map2:
  assumes "length a = length b" "\<forall>i<length a. unat (a ! i) + unat (b ! i) < 4294967296"
  shows "limb_val od (map2 (+) a b) = limb_val od a + limb_val od b"
  using assms
proof (induction a b arbitrary: od rule: list_induct2)
  case (Cons x xs y ys)
  have "unat (x + y) = unat x + unat y" using Cons.prems by (intro unat_add_small) auto
  moreover have "limb_val (\<not> od) (map2 (+) xs ys) = limb_val (\<not> od) xs + limb_val (\<not> od) ys"
    using Cons.prems by (intro Cons.IH) auto
  ultimately show ?case by (simp add: algebra_simps)
qed simp

lemma felem_nth_less:
  assumes "felem_ok a" "i < 9"
  shows "unat (a ! i) < (if even i then 2 ^ 30 else 2 ^ 29)"
proof -
  have "bounded m n xs \<longleftrightarrow> (\<forall>i<length xs. unat (xs ! i) < (if even i then m else n))" for m n xs
    by (induction m n xs rule: bounded.induct) (auto simp: All_less_Suc2)
  from this[of "2 ^ 30" "2 ^ 29" a] show ?thesis using assms by (simp only: felem_ok_def)
qed

lemma felem_nth_2_30: "felem_ok a \<Longrightarrow> i < 9 \<Longrightarrow> unat (a ! i) < 1073741824"
  using felem_nth_less[of a i] by (cases "even i") simp_all

lemma felem_sum_value:
  assumes "felem_ok a" "felem_ok b"
  shows "felem_ok (felem_sum a b) \<and> felem_val (felem_sum a b) mod secp = (felem_val a + felem_val b) mod secp"
proof -
  have len: "length a = 9" "length b = 9" using assms by (simp_all add: felem_ok_def)
  have s: "unat (a ! i) + unat (b ! i) < 4294967280" if "i < 9" for i
    using felem_nth_2_30[OF assms(1) that] felem_nth_2_30[OF assms(2) that] by linarith
  have val: "felem_val (map2 (+) a b) = felem_val a + felem_val b"
    unfolding felem_val_def using len s by (intro limb_val_map2) (auto simp: less_trans[OF s])
  have lim: "\<forall>x\<in>set (map2 (+) a b). unat x < 4294967280"
    using s len by (auto simp: set_zip unat_add_limit)
  obtain out c where c: "limb_carry False 0 (map2 (+) a b) = (out, c)" by fastforce
  have "felem_val (map2 (+) a b) < 2 ^ 257 * 9"
    using felem_val_less[OF assms(1)] felem_val_less[OF assms(2)] val by simp
  note ch = chain_correct[OF _ lim this c]
  show ?thesis using ch(1,2) len c val mod_secp_eqI[OF ch(2)] by (simp add: felem_sum_def)
qed

lemma zero31_words: "zero31 = [2147483640, 1073741820, 2147483644, 1073750012, 2147483644, 1073741820, 2164260860, 939524092, 2147483644]"
  by (simp add: zero31_def two31m3_def two30m2_def two30p13m2_def two31m2_def two31p24m2_def two30m27m2_def)

lemma zero31_val: "felem_val zero31 = 8 * secp"
  by (simp add: zero31_words felem_val_def SECP256r1_values)

lemma unat_diff_limb:
  assumes "unat b \<le> unat z" "unat a + unat z < 4294967280"
  shows "unat (a - b + z :: u32) + unat b = unat a + unat z" "unat (a - b + z) < 4294967280"
proof -
  have sum: "unat (a + z) = unat a + unat z" using assms by (intro unat_add_small) simp
  then have "unat (a + z - b) = unat (a + z) - unat b" using assms by (intro unat_sub_small) simp
  moreover have "a - b + z = a + z - b" by simp
  ultimately have "unat (a - b + z) = unat a + unat z - unat b" by (simp only: sum)
  then show "unat (a - b + z) + unat b = unat a + unat z" "unat (a - b + z) < 4294967280" using assms by simp_all
qed

lemma felem_diff_value:
  assumes "felem_ok a" "felem_ok b"
  shows "felem_ok (felem_diff a b) \<and>
    (felem_val (felem_diff a b) + felem_val b) mod secp = felem_val a mod secp"
proof -
  obtain a0 a1 a2 a3 a4 a5 a6 a7 a8 where a: "a = [a0, a1, a2, a3, a4, a5, a6, a7, a8]"
    using felem_9[of a] assms by (auto simp: felem_ok_def)
  obtain b0 b1 b2 b3 b4 b5 b6 b7 b8 where b: "b = [b0, b1, b2, b3, b4, b5, b6, b7, b8]"
    using felem_9[of b] assms by (auto simp: felem_ok_def)
  define d where "d = map2 (+) (map2 (-) a b) zero31"
  have lim: "\<forall>x\<in>set d. unat x < 4294967280"
    using assms by (simp add: d_def a b zero31_words felem_ok_def unat_diff_limb)
  have "felem_val d + felem_val b = felem_val a + felem_val zero31"
    using assms unat_diff_limb(1)[of b0 2147483640 a0] unat_diff_limb(1)[of b1 1073741820 a1]
      unat_diff_limb(1)[of b2 2147483644 a2] unat_diff_limb(1)[of b3 1073750012 a3]
      unat_diff_limb(1)[of b4 2147483644 a4] unat_diff_limb(1)[of b5 1073741820 a5]
      unat_diff_limb(1)[of b6 2164260860 a6] unat_diff_limb(1)[of b7 939524092 a7]
      unat_diff_limb(1)[of b8 2147483644 a8]
    by (simp add: d_def a b zero31_words felem_ok_def felem_val_def)
  then have val: "felem_val d + felem_val b = felem_val a + 8 * secp" by (simp only: zero31_val)
  obtain out c where c: "limb_carry False 0 d = (out, c)" by fastforce
  have "felem_val d < 2 ^ 257 * 9" using felem_val_less[OF assms(1)] val by (simp add: SECP256r1_values)
  note ch = chain_correct[OF _ lim this c]
  have len: "length d = 9" by (simp add: d_def a b zero31_words)
  have "(felem_val (felem_diff a b) + felem_val b) + 2 * secp * unat c = felem_val a + 8 * secp"
    using ch(2)[OF len] c val by (simp add: felem_diff_def flip: d_def)
  then have "(felem_val (felem_diff a b) + felem_val b) mod secp = (felem_val a + 8 * secp) mod secp"
    by (rule mod_secp_eqI)
  then show ?thesis using ch(1)[OF len] c by (simp add: felem_diff_def flip: d_def)
qed

lemma felem_scalar_3_value:
  assumes "felem_ok a"
  shows "felem_ok (felem_scalar_3 a) \<and> felem_val (felem_scalar_3 a) mod secp = 3 * felem_val a mod secp"
proof -
  have len: "length a = 9" using assms by (simp add: felem_ok_def)
  have u: "unat (x * 3) = 3 * unat x" if "unat x < 1073741824" for x :: u32
    using that by (subst unat_mult_lem [THEN iffD1]) simp_all
  have mem: "unat x < 1073741824" if "x \<in> set a" for x
    using that felem_nth_2_30[OF assms] len by (auto simp: in_set_conv_nth)
  have lim: "\<forall>x\<in>set (map (\<lambda>x. x * 3) a). unat x < 4294967280"
    using less_trans[OF mem, of _ 1431655760] mem by (auto simp: u)
  have "limb_val od (map (\<lambda>x. x * 3) xs) = 3 * limb_val od xs" if "\<forall>x\<in>set xs. unat x < 1073741824" for od xs
    using that by (induction od xs rule: limb_val.induct) (simp_all add: u algebra_simps)
  then have val: "felem_val (map (\<lambda>x. x * 3) a) = 3 * felem_val a" unfolding felem_val_def using mem by blast
  obtain out c where c: "limb_carry False 0 (map (\<lambda>x. x * 3) a) = (out, c)" by fastforce
  have "felem_val (map (\<lambda>x. x * 3) a) < 2 ^ 257 * 9" using felem_val_less[OF assms] val by simp
  note ch = chain_correct[OF _ lim this c]
  show ?thesis using ch(1,2) len c val mod_secp_eqI[OF ch(2)] by (simp add: felem_scalar_3_def)
qed

lemma unat_push_mask:
  assumes "w \<le> 32"
  shows "unat (push_bit k x :: u32) mod 2 ^ w = unat x * 2 ^ k mod 2 ^ w"
proof -
  have "unat (push_bit k x :: u32) = unat x * 2 ^ k mod 2 ^ 32"
    by (simp add: unsigned_push_bit_eq) (simp add: push_bit_eq_mult take_bit_eq_mod)
  moreover have "(2 :: nat) ^ w dvd 2 ^ 32" using assms by (rule le_imp_power_dvd)
  ultimately show ?thesis by (simp only: mod_mod_cancel)
qed

lemma limb_scale_correct:
  assumes "k \<le> 3" "unat carry < 256" "limb_scale k od carry xs = (out, c)"
  shows "length out = length xs \<and> bounded (if od then 2 ^ 28 else 2 ^ 29) (if od then 2 ^ 29 else 2 ^ 28) out \<and>
    limb_val od out + 2 ^ limb_bits od (length xs) * unat c = 2 ^ k * limb_val od xs + unat carry"
  using assms(2,3)
proof (induction xs arbitrary: od carry out)
  case (Cons x xs)
  let ?n = "if od then 28 else 29 :: nat" and ?m = "if od then kBottom28Bits else kBottom29Bits"
  define y where "y = (push_bit k x AND ?m) + carry"
  define c1 where "c1 = drop_bit (?n - k) x + drop_bit ?n y"
  obtain o1 where o: "limb_scale k (\<not> od) c1 xs = (o1, c)" and out: "out = (y AND ?m) # o1"
    using Cons.prems(2) by (auto simp: y_def c1_def Let_def split: prod.splits)
  have msk: "unat (z AND ?m) = unat z mod 2 ^ ?n" for z by (simp add: unat_and_28 unat_and_29)
  have ym: "unat (push_bit k x AND ?m) = unat x * 2 ^ k mod 2 ^ ?n"
    unfolding msk by (rule unat_push_mask) simp
  have "unat x * 2 ^ k mod 2 ^ ?n < 2 ^ ?n" by simp
  moreover have "(2 :: nat) ^ ?n \<le> 536870912" by simp
  ultimately have lt: "unat x * 2 ^ k mod 2 ^ ?n + unat carry < 536870912 + 256" using Cons.prems(1) by linarith
  then have y: "unat y = unat x * 2 ^ k mod 2 ^ ?n + unat carry"
    unfolding y_def using ym by (subst unat_add_small) simp_all
  have hi: "unat (drop_bit (?n - k) x) = unat x * 2 ^ k div 2 ^ ?n"
  proof -
    have "(2 :: nat) ^ ?n = 2 ^ (?n - k) * 2 ^ k" using assms(1) by (subst power_add[symmetric]) simp
    then show ?thesis by (simp only: unat_drop_bit_u32 div_mult_mult2) simp
  qed
  have hl: "unat (drop_bit (?n - k) x) < 128"
  proof -
    have "(2 :: nat) ^ 25 \<le> 2 ^ (?n - k)" using assms(1) by (intro power_increasing) auto
    then have "unat x < 128 * 2 ^ (?n - k)" using u32_less[of x] by simp
    then show ?thesis unfolding unat_drop_bit_u32 by (rule less_mult_imp_div_less)
  qed
  have yl: "unat (drop_bit ?n y) < 16"
  proof -
    have "unat y < 16 * 2 ^ ?n" using u32_less[of y] by auto
    then show ?thesis unfolding unat_drop_bit_u32 by (rule less_mult_imp_div_less)
  qed
  have sum: "unat c1 = unat (drop_bit (?n - k) x) + unat (drop_bit ?n y)"
    unfolding c1_def using hl yl by (intro unat_add_small) linarith
  then have c1: "unat c1 = unat x * 2 ^ k div 2 ^ ?n + unat y div 2 ^ ?n" unfolding hi by (simp only: unat_drop_bit_u32)
  have "unat c1 < 256" using hl yl sum by linarith
  from Cons.IH[OF this o] have IH: "length o1 = length xs"
    "bounded (if od then 2 ^ 29 else 2 ^ 28) (if od then 2 ^ 28 else 2 ^ 29) o1"
    "limb_val (\<not> od) o1 + 2 ^ limb_bits (\<not> od) (length xs) * unat c = 2 ^ k * limb_val (\<not> od) xs + unat c1"
    by auto
  have "limb_val od out + 2 ^ limb_bits od (length (x # xs)) * unat c
    = unat y mod 2 ^ ?n + 2 ^ ?n * (limb_val (\<not> od) o1 + 2 ^ limb_bits (\<not> od) (length xs) * unat c)"
    by (simp add: out msk power_add algebra_simps)
  also have "\<dots> = (unat y mod 2 ^ ?n + 2 ^ ?n * (unat y div 2 ^ ?n))
      + 2 ^ ?n * (unat x * 2 ^ k div 2 ^ ?n) + 2 ^ ?n * (2 ^ k * limb_val (\<not> od) xs)"
    by (simp only: IH(3) c1) algebra
  also have "\<dots> = (unat x * 2 ^ k mod 2 ^ ?n + 2 ^ ?n * (unat x * 2 ^ k div 2 ^ ?n)) + unat carry
      + 2 ^ ?n * (2 ^ k * limb_val (\<not> od) xs)"
    by (simp only: mod_mult_div_eq y ac_simps)
  also have "\<dots> = 2 ^ k * limb_val od (x # xs) + unat carry"
    by (simp only: mod_mult_div_eq limb_val.simps) algebra
  finally show ?case using IH(1,2) msk[of y] by (simp add: out)
qed simp

lemma scale_value:
  assumes "felem_ok a" "k \<le> 3"
  shows "case limb_scale k False 0 a of (out, c) \<Rightarrow> felem_ok (felem_reduce_carry out c) \<and>
    felem_val (felem_reduce_carry out c) mod secp = 2 ^ k * felem_val a mod secp"
proof -
  obtain out c where c: "limb_scale k False 0 a = (out, c)" by fastforce
  have len: "length a = 9" using assms by (simp add: felem_ok_def)
  have out: "length out = 9" "bounded (2 ^ 29) (2 ^ 28) out" "felem_val out + 2 ^ 257 * unat c = 2 ^ k * felem_val a"
    using limb_scale_correct[OF assms(2) _ c] len by (simp_all add: limb_bits_9 felem_val_def)
  have "(2 :: nat) ^ k \<le> 2 ^ 3" using assms(2) by (intro power_increasing) simp_all
  then have "2 ^ k * felem_val a \<le> 2 ^ 3 * felem_val a" by (rule mult_le_mono1)
  then have "2 ^ 257 * unat c \<le> 2 ^ 3 * felem_val a" using out(3) by linarith
  then have "2 ^ 257 * unat c < 2 ^ 257 * 9" using felem_val_less[OF assms(1)] by simp
  then have c8: "unat c \<le> 8" by simp
  note r = reduce_carry_correct[OF out(1,2) c8]
  have "felem_val (felem_reduce_carry out c) + 2 * secp * unat c = 2 ^ k * felem_val a" using r(2) out(3) by simp
  from mod_secp_eqI[OF this] r(1) c show ?thesis by simp
qed

lemma felem_scalar_4_value:
  "felem_ok a \<Longrightarrow> felem_ok (felem_scalar_4 a) \<and> felem_val (felem_scalar_4 a) mod secp = 4 * felem_val a mod secp"
  using scale_value[of a 2] by (simp add: felem_scalar_4_def split: prod.splits)

lemma felem_scalar_8_value:
  "felem_ok a \<Longrightarrow> felem_ok (felem_scalar_8 a) \<and> felem_val (felem_scalar_8 a) mod secp = 8 * felem_val a mod secp"
  using scale_value[of a 3] by (simp add: felem_scalar_8_def split: prod.splits)

section \<open>The zero test\<close>

lemma limb_val_inj:
  assumes "length xs = length ys" "bounded (if od then 2 ^ 28 else 2 ^ 29) (if od then 2 ^ 29 else 2 ^ 28) xs"
    "bounded (if od then 2 ^ 28 else 2 ^ 29) (if od then 2 ^ 29 else 2 ^ 28) ys" "limb_val od xs = limb_val od ys"
  shows "xs = ys"
  using assms
proof (induction xs ys arbitrary: od rule: list_induct2)
  case (Cons x xs y ys)
  let ?n = "if od then 28 else 29 :: nat"
  have lt: "unat x < 2 ^ ?n" "unat y < 2 ^ ?n" using Cons.prems by auto
  have eq: "unat x + 2 ^ ?n * limb_val (\<not> od) xs = unat y + 2 ^ ?n * limb_val (\<not> od) ys" using Cons.prems by simp
  then have "(unat x + 2 ^ ?n * limb_val (\<not> od) xs) mod 2 ^ ?n = (unat y + 2 ^ ?n * limb_val (\<not> od) ys) mod 2 ^ ?n" by simp
  then have "unat x = unat y" using lt by simp
  moreover from this eq have "limb_val (\<not> od) xs = limb_val (\<not> od) ys" by simp
  moreover have "xs = ys" using Cons.prems(1,2) calculation(2) by (intro Cons.IH[of "\<not> od"]) (auto split: if_splits)
  ultimately show ?case by (simp add: word_unat_eq_iff)
qed simp

lemma felem_val_inj:
  "length xs = 9 \<Longrightarrow> length ys = 9 \<Longrightarrow> bounded (2 ^ 29) (2 ^ 28) xs \<Longrightarrow> bounded (2 ^ 29) (2 ^ 28) ys \<Longrightarrow>
   felem_val xs = felem_val ys \<Longrightarrow> xs = ys"
  using limb_val_inj[of xs ys False] by (simp add: felem_val_def)

lemma felem_limit: "felem_ok a \<Longrightarrow> \<forall>x\<in>set a. unat x < 4294967280"
proof
  fix x assume a: "felem_ok a" and "x \<in> set a"
  then obtain i where "i < 9" "x = a ! i" by (auto simp: in_set_conv_nth felem_ok_def)
  then show "unat x < 4294967280" using felem_nth_2_30[OF a] by fastforce
qed

lemma minimal_loop_correct:
  assumes "felem_ok a"
  shows "\<exists>t. minimal_loop a = Some t \<and> length t = 9 \<and> bounded (2 ^ 29) (2 ^ 28) t \<and> felem_val t < 2 ^ 257 \<and>
    felem_val t mod secp = felem_val a mod secp"
  using assms
proof (induction "felem_val a" arbitrary: a rule: less_induct)
  case less
  have len: "length a = 9" using less.prems by (simp add: felem_ok_def)
  have v: "felem_val a < 2 ^ 257 * 9" using felem_val_less[OF less.prems] by simp
  obtain out c where c: "limb_carry False 0 a = (out, c)" by fastforce
  note ch = chain_correct[OF len felem_limit[OF less.prems] v c]
  show ?case
  proof (cases "c = 0")
    case True
    have "felem_val out = felem_val a" using ch(2,3) True by (simp add: felem_reduce_carry_zero)
    moreover have "felem_val out < 2 ^ 257"
    proof -
      obtain a0 a1 a2 a3 a4 a5 a6 a7 a8 where o: "out = [a0, a1, a2, a3, a4, a5, a6, a7, a8]"
        using felem_9[OF ch(3)] by blast
      show ?thesis using ch(4) by (simp add: o felem_val_def)
    qed
    ultimately show ?thesis using True c ch(3,4)
      by (subst minimal_loop.simps) (simp add: felem_reduce_carry_zero)
  next
    case False
    then have "0 < 2 * secp * unat c" by (simp add: SECP256r1_values unat_gt_0)
    then have "felem_val (felem_reduce_carry out c) < felem_val a" using ch(2) by linarith
    from less.hyps[OF this ch(1)] show ?thesis
      using False c mod_secp_eqI[OF ch(2)] by (subst minimal_loop.simps) simp
  qed
qed

lemma kZero_list: "kZero = [0, 0, 0, 0, 0, 0, 0, 0, 0]"
  by (simp add: kZero_def numeral_eq_Suc)

lemma felem_is_zero_value:
  assumes "felem_ok a"
  shows "felem_is_zero_vartime a = Some (felem_val a mod secp = 0)"
proof -
  obtain t where t: "minimal_loop a = Some t" "length t = 9" "bounded (2 ^ 29) (2 ^ 28) t" "felem_val t < 2 ^ 257"
    "felem_val t mod secp = felem_val a mod secp"
    using minimal_loop_correct[OF assms] by blast
  have k: "length kZero = 9" "bounded (2 ^ 29) (2 ^ 28) kZero" "felem_val kZero = 0"
    "length kP = 9" "bounded (2 ^ 29) (2 ^ 28) kP" "felem_val kP = secp"
    "length k2P = 9" "bounded (2 ^ 29) (2 ^ 28) k2P" "felem_val k2P = 2 * secp"
    by (simp_all add: kZero_list kP_def k2P_def felem_val_def SECP256r1_values)
  have "(t = kZero \<or> t = kP \<or> t = k2P) \<longleftrightarrow> felem_val t = 0 \<or> felem_val t = secp \<or> felem_val t = 2 * secp"
    using felem_val_inj[OF t(2) k(1) t(3) k(2)] felem_val_inj[OF t(2) k(4) t(3) k(5)]
      felem_val_inj[OF t(2) k(7) t(3) k(8)] k(3,6,9) by metis
  also have "\<dots> \<longleftrightarrow> felem_val t mod secp = 0"
  proof
    assume "felem_val t mod secp = 0"
    then obtain q where q: "felem_val t = secp * q" by auto
    with t(4) have "secp * q < 2 ^ 257" by simp
    then have "q < 3" by (simp add: SECP256r1_values)
    then have "q = 0 \<or> q = 1 \<or> q = 2" by linarith
    then show "felem_val t = 0 \<or> felem_val t = secp \<or> felem_val t = 2 * secp" using q by auto
  qed auto
  finally show ?thesis using t(1,5) by (simp add: felem_is_zero_vartime_def)
qed

section \<open>Properties\<close>

text \<open>
  \<open>felem_sum\<close> adds modulo the prime and \<open>felem_diff\<close> subtracts modulo the prime; both results are within
  the limb bounds again.
\<close>

lemma felem_sum_diff_correct:
  assumes "felem_ok a" "felem_ok b"
  shows "felem_ok (felem_sum a b) \<and> felem_val (felem_sum a b) mod secp = (felem_val a + felem_val b) mod secp \<and>
    felem_ok (felem_diff a b) \<and> (felem_val (felem_diff a b) + felem_val b) mod secp = felem_val a mod secp"
  using felem_sum_value[OF assms] felem_diff_value[OF assms] by simp

lemma felem_ok_kOne: "felem_ok kOne"
  by (simp add: felem_ok_def kOne_def)

lemma felem_ok_kP: "felem_ok kP"
  by (simp add: felem_ok_def kP_def)

theorem felem_sum_diff_witness:
  "felem_ok kOne \<and> felem_ok kP \<and>
   felem_ok (felem_sum kOne kP) \<and> felem_val (felem_sum kOne kP) mod secp = (felem_val kOne + felem_val kP) mod secp \<and>
   felem_ok (felem_diff kOne kP) \<and> (felem_val (felem_diff kOne kP) + felem_val kP) mod secp = felem_val kOne mod secp"
  using felem_sum_diff_correct[OF felem_ok_kOne felem_ok_kP] felem_ok_kOne felem_ok_kP by blast

text \<open>
  \<open>felem_scalar_3\<close>, \<open>felem_scalar_4\<close> and \<open>felem_scalar_8\<close> multiply by 3, 4 and 8 modulo the prime, with
  results within the limb bounds.
\<close>

lemma felem_scalar_correct:
  assumes "felem_ok a"
  shows "felem_ok (felem_scalar_3 a) \<and> felem_val (felem_scalar_3 a) mod secp = 3 * felem_val a mod secp \<and>
    felem_ok (felem_scalar_4 a) \<and> felem_val (felem_scalar_4 a) mod secp = 4 * felem_val a mod secp \<and>
    felem_ok (felem_scalar_8 a) \<and> felem_val (felem_scalar_8 a) mod secp = 8 * felem_val a mod secp"
  using felem_scalar_3_value[OF assms] felem_scalar_4_value[OF assms] felem_scalar_8_value[OF assms] by simp

theorem felem_scalar_witness:
  "felem_ok (felem_scalar_3 kP) \<and> felem_val (felem_scalar_3 kP) mod secp = 3 * felem_val kP mod secp \<and>
   felem_ok (felem_scalar_4 kP) \<and> felem_val (felem_scalar_4 kP) mod secp = 4 * felem_val kP mod secp \<and>
   felem_ok (felem_scalar_8 kP) \<and> felem_val (felem_scalar_8 kP) mod secp = 8 * felem_val kP mod secp"
  using felem_scalar_correct[OF felem_ok_kP] by blast

text \<open>
  \<open>felem_is_zero_vartime\<close> always terminates and answers whether the element is zero modulo the prime,
  for every limb array within the bounds.
\<close>

lemma felem_is_zero_correct:
  assumes "felem_ok a"
  shows "felem_is_zero_vartime a = Some (felem_val a mod secp = 0)"
  using assms by (rule felem_is_zero_value)

theorem felem_is_zero_witness: "felem_is_zero_vartime kP = Some (felem_val kP mod secp = 0)"
  by (rule felem_is_zero_correct[OF felem_ok_kP])

text \<open>
  The entry bounds stated at \<open>felem_scalar_8\<close> (every even limb below \<open>2\<^sup>3\<^sup>0\<close>) do not imply its exit bounds:
  with the top limb above \<open>2\<^sup>2\<^sup>9\<close> the carry handed to \<open>felem_reduce_carry\<close> is 15 and limb 7 of the
  result is above \<open>2\<^sup>2\<^sup>9\<close>.
\<close>

definition wide_top :: felem where
  "wide_top = [0, 0, 0, 0, 0, 0, 0, 8388608, 1073741823]"

lemma felem_scalar_8_bounds:
  "bounded (2 ^ 30) (2 ^ 29) wide_top \<and> unat (felem_scalar_8 wide_top ! 7) \<ge> 2 ^ 29"
  by (simp add: wide_top_def felem_scalar_8_def felem_reduce_carry_def NON_ZERO_TO_ALL_ONES_def add_at_def
      sub_at_def kBottom28Bits_def kBottom29Bits_def Let_def)

end
