(* ===== verification/P256_Degree.thy ===== *)
theory P256_Degree
  imports P256_Field
begin

text \<open>
  The degree reduction \<open>felem_reduce_degree\<close> of \<^verbatim>\<open>p256_ec.c\<close>. Its eighteen 32-bit words are followed as
  integers: each elimination adds a multiple of the prime, no word overflows, and the one word that can
  become \<open>-1\<close> for a while is compensated by the carry of its neighbour before it is read.
\<close>

section \<open>Words as integers\<close>

definition wi :: "int \<Rightarrow> u32" where "wi k = of_int k"

lemma wi_simps:
  "wi a + wi b = wi (a + b)" "wi a - wi b = wi (a - b)" "0 = wi 0" "1 = wi 1" "numeral n = wi (numeral n)"
  by (simp_all add: wi_def)

lemma push_wi: "push_bit n (wi a) = wi (a * 2 ^ n)"
  by (simp add: wi_def push_bit_eq_mult)

lemma uint_wi: "0 \<le> a \<Longrightarrow> a < 2 ^ 32 \<Longrightarrow> uint (wi a) = a"
  by (simp add: wi_def unsigned_of_int take_bit_int_eq_self)

lemma unat_wi: "0 \<le> a \<Longrightarrow> a < 2 ^ 32 \<Longrightarrow> int (unat (wi a)) = a"
  by (simp only: uint_nat[symmetric] uint_wi)

lemma drop_wi:
  assumes "0 \<le> a" "a < 2 ^ 32"
  shows "drop_bit n (wi a) = wi (a div 2 ^ n)"
proof -
  have "unat (drop_bit n (wi a)) = nat (a div 2 ^ n)"
    unfolding unat_drop_bit_u32 using unat_wi[OF assms] assms(1) by (metis nat_div_distrib nat_int nat_power_eq nat_numeral zero_le_numeral)
  moreover have "0 \<le> a div 2 ^ n" "a div 2 ^ n < 2 ^ 32"
    using assms zdiv_mono2[of a 1 "2 ^ n"] by (simp_all add: pos_imp_zdiv_nonneg_iff)
  then have "int (unat (wi (a div 2 ^ n))) = a div 2 ^ n" by (rule unat_wi)
  ultimately show ?thesis by (metis nat_int word_unat_eq_iff)
qed

lemma and_wi: "wi a AND kBottom28Bits = wi (a mod 2 ^ 28)" "wi a AND kBottom29Bits = wi (a mod 2 ^ 29)"
proof -
  have k: "kBottom28Bits = mask 28" "kBottom29Bits = mask 29"
    by (simp_all add: kBottom28Bits_def kBottom29Bits_def mask_eq_exp_minus_1)
  show "wi a AND kBottom28Bits = wi (a mod 2 ^ 28)" "wi a AND kBottom29Bits = wi (a mod 2 ^ 29)"
    unfolding k wi_def take_bit_eq_mask[symmetric] take_bit_of_int unfolding take_bit_eq_mod[of _ a] by (rule refl)+
qed

text \<open>\<open>c & NON_ZERO_TO_ALL_ONES(x)\<close>.\<close>

definition sel :: "int \<Rightarrow> int \<Rightarrow> int" where "sel x c = (if x = 0 then 0 else c)"

lemma mask_wi: "0 \<le> x \<Longrightarrow> x \<le> 2 ^ 31 \<Longrightarrow> wi c AND NON_ZERO_TO_ALL_ONES (wi x) = wi (sel x c)"
proof (cases "x = 0")
  case True
  then show ?thesis by (simp add: wi_def sel_def zero_mask)
next
  case False
  assume x: "0 \<le> x" "x \<le> 2 ^ 31"
  then have u: "uint (wi x) = x" by (intro uint_wi) simp_all
  have "unat (wi x) = nat x" by (simp only: unat_eq_nat_uint u)
  then have "0 < unat (wi x)" "unat (wi x) \<le> 2 ^ 31" using x False by (simp_all add: nat_le_iff)
  then have "NON_ZERO_TO_ALL_ONES (wi x) = -1" by (rule non_zero_mask)
  then show ?thesis using False by (simp add: sel_def)
qed


section \<open>The eighteen words\<close>

definition rep :: "(nat \<Rightarrow> int) \<Rightarrow> u32 list" where "rep v = map (\<lambda>k. wi (v k)) [0..<18]"

definition bump :: "nat \<Rightarrow> int \<Rightarrow> (nat \<Rightarrow> int) \<Rightarrow> nat \<Rightarrow> int" where "bump j d v = v(j := v j + d)"

lemma nth_rep: "j < 18 \<Longrightarrow> rep v ! j = wi (v j)"
  by (simp add: rep_def)

lemma update_rep: "j < 18 \<Longrightarrow> (rep v)[j := wi d] = rep (v(j := d))"
  by (rule nth_equalityI) (auto simp: rep_def nth_list_update)

lemma bump_rep:
  "j < 18 \<Longrightarrow> add_at j (wi d) (rep v) = rep (bump j d v)"
  "j < 18 \<Longrightarrow> sub_at j (wi d) (rep v) = rep (bump j (- d) v)"
  "j < 18 \<Longrightarrow> (rep v)[j := wi 0] = rep (bump j (- v j) v)"
  by (simp_all add: add_at_def sub_at_def nth_rep wi_simps(1,2) update_rep bump_def)

text \<open>The weights \<open>0, 29, 57, 86, \<dots>\<close> of the words and the number the words denote.\<close>

definition wt :: "nat \<Rightarrow> int" where "wt k = 2 ^ (57 * (k div 2) + 29 * (k mod 2))"

definition words_val :: "(nat \<Rightarrow> int) \<Rightarrow> int" where "words_val v = (\<Sum>k<18. v k * wt k)"

lemma words_val_bump: "j < 18 \<Longrightarrow> words_val (bump j d v) = words_val v + d * wt j"
proof -
  assume "j < 18"
  have "words_val (bump j d v) = (\<Sum>k<18. v k * wt k + (if k = j then d * wt j else 0))"
    unfolding words_val_def bump_def by (rule sum.cong) (auto simp: algebra_simps)
  also have "\<dots> = words_val v + d * wt j" using \<open>j < 18\<close> by (simp add: sum.distrib words_val_def)
  finally show ?thesis .
qed

lemma wt_even: "even i \<Longrightarrow> wt (i + j) = wt i * wt j"
  unfolding wt_def power_add[symmetric] by (rule arg_cong[where f = "power 2"]) (auto elim!: evenE)

lemma wt_numeral [simp]:
  "wt 0 = 1" "wt (Suc 0) = 2 ^ 29" "wt 1 = 2 ^ 29" "wt 2 = 2 ^ 57" "wt 3 = 2 ^ 86" "wt 4 = 2 ^ 114" "wt 5 = 2 ^ 143" "wt 6 = 2 ^ 171"
  "wt 7 = 2 ^ 200" "wt 8 = 2 ^ 228" "wt 9 = 2 ^ 257" "wt 10 = 2 ^ 285"
  by (simp_all add: wt_def)

definition elim_even :: "nat \<Rightarrow> (nat \<Rightarrow> int) \<Rightarrow> nat \<Rightarrow> int" where
  "elim_even i v =
     (let x = v i mod 2 ^ 29 in
      bump (i + 9) (sel x (x div 2 ^ 1 - 1)) (bump (i + 8) (x * 2 ^ 28 mod 2 ^ 29) (bump (i + 8) (- x)
      (bump (i + 8) (sel x 0x20000000) (bump (i + 8) (- (x div 2 ^ 4)) (bump (i + 7) (- (x * 2 ^ 24 mod 2 ^ 28))
      (bump (i + 8) (sel x (x - 1)) (bump (i + 7) (sel x 0x10000000) (bump (i + 7) (x div 2 ^ 8)
      (bump (i + 6) (x * 2 ^ 21 mod 2 ^ 29) (bump (i + 4) (x div 2 ^ 18) (bump (i + 3) (x * 2 ^ 10 mod 2 ^ 28)
      (bump i (- v i) (bump (i + 1) (v i div 2 ^ 29) v))))))))))))))"

definition elim_odd :: "nat \<Rightarrow> (nat \<Rightarrow> int) \<Rightarrow> nat \<Rightarrow> int" where
  "elim_odd i v =
     (let x = v (i + 1) mod 2 ^ 28 in
      bump (i + 10) (sel x (x - 1)) (bump (i + 9) (- x) (bump (i + 9) (sel x 0x10000000)
      (bump (i + 9) (- (x div 2 ^ 4)) (bump (i + 8) (- (x * 2 ^ 25 mod 2 ^ 29)) (bump (i + 9) (sel x (x - 1))
      (bump (i + 8) (sel x 0x20000000) (bump (i + 8) (x div 2 ^ 7) (bump (i + 7) (x * 2 ^ 21 mod 2 ^ 28)
      (bump (i + 5) (x div 2 ^ 18) (bump (i + 4) (x * 2 ^ 11 mod 2 ^ 29)
      (bump (i + 1) (- v (i + 1)) (bump (i + 2) (v (i + 1) div 2 ^ 28) v)))))))))))))"

lemma bump_other: "k \<noteq> j \<Longrightarrow> bump j d v k = v k"
  by (simp add: bump_def)

lemma eliminate_even_rep:
  assumes "i \<le> 8" "0 \<le> v i" "v i < 2 ^ 32"
  shows "eliminate_even i (rep v) = rep (elim_even i v)"
proof -
  define x where "x = v i mod 2 ^ 29"
  have x: "0 \<le> x" "x \<le> 2 ^ 31" "x < 2 ^ 32" using pos_mod_bound[of "2 ^ 29" "v i"] by (simp_all add: x_def)
  have rd: "rep v ! i = wi (v i)" "rep (bump (i + 1) d v) ! i = wi (v i)" "bump (i + 1) d v i = v i" for d
    using assms by (simp_all add: nth_rep bump_other)
  have "i < 18" "i + 1 < 18" "i + 3 < 18" "i + 4 < 18" "i + 6 < 18" "i + 7 < 18" "i + 8 < 18" "i + 9 < 18"
    using assms by linarith+
  then show ?thesis
    by (simp only: eliminate_even_def elim_even_def Let_def rd drop_wi[OF assms(2,3)] bump_rep wi_simps(2-) and_wi
        push_wi drop_wi[OF x(1,3)] mask_wi[OF x(1,2)] flip: x_def)
qed

lemma eliminate_odd_rep:
  assumes "i \<le> 6" "0 \<le> v (i + 1)" "v (i + 1) < 2 ^ 32"
  shows "eliminate_odd i (rep v) = rep (elim_odd i v)"
proof -
  define x where "x = v (i + 1) mod 2 ^ 28"
  have x: "0 \<le> x" "x \<le> 2 ^ 31" "x < 2 ^ 32" using pos_mod_bound[of "2 ^ 28" "v (i + 1)"] by (simp_all add: x_def)
  have rd: "rep v ! (i + 1) = wi (v (i + 1))" "rep (bump (i + 2) d v) ! (i + 1) = wi (v (i + 1))"
    "bump (i + 2) d v (i + 1) = v (i + 1)" for d
    using assms by (simp_all add: nth_rep bump_other)
  have "i + 1 < 18" "i + 2 < 18" "i + 4 < 18" "i + 5 < 18" "i + 7 < 18" "i + 8 < 18" "i + 9 < 18" "i + 10 < 18"
    using assms by linarith+
  then show ?thesis
    by (simp only: eliminate_odd_def elim_odd_def Let_def rd drop_wi[OF assms(2,3)] bump_rep wi_simps(2-) and_wi
        push_wi drop_wi[OF x(1,3)] mask_wi[OF x(1,2)] flip: x_def)
qed

text \<open>Both steps add a multiple of the prime, shifted to the eliminated word.\<close>

abbreviation prime :: int where "prime \<equiv> int secp"

lemma split_shift:
  assumes "c = a + b"
  shows "(x :: int) * 2 ^ a mod 2 ^ c = x * 2 ^ a - 2 ^ c * (x div 2 ^ b)"
proof -
  have "x * 2 ^ a div 2 ^ c = x div 2 ^ b" by (simp add: assms power_add mult.commute)
  then show ?thesis by (metis minus_mult_div_eq_mod)
qed

lemma prime_value: "prime = 2 ^ 256 - 2 ^ 224 + 2 ^ 192 + 2 ^ 96 - 1"
  by (simp add: SECP256r1_values)

lemma even_identity:
  fixes x s q a b c d :: int
  shows "2 ^ 29 * q - (2 ^ 29 * q + x) + (x * 2 ^ 10 - 2 ^ 28 * a) * 2 ^ 86 + a * 2 ^ 114
    + (x * 2 ^ 21 - 2 ^ 29 * b) * 2 ^ 171 + (b + 2 ^ 28 * s - (x * 2 ^ 24 - 2 ^ 28 * c)) * 2 ^ 200
    + (x - s - c + 2 ^ 29 * s - x + (x * 2 ^ 28 - 2 ^ 29 * d)) * 2 ^ 228 + (d - s) * 2 ^ 257
    = x * (2 ^ 256 - 2 ^ 224 + 2 ^ 192 + 2 ^ 96 - 1)"
  by simp

lemma odd_identity:
  fixes x s q a b c :: int
  shows "2 ^ 57 * q - 2 ^ 29 * (2 ^ 28 * q + x) + (x * 2 ^ 11 - 2 ^ 29 * a) * 2 ^ 114 + a * 2 ^ 143
    + (x * 2 ^ 21 - 2 ^ 28 * b) * 2 ^ 200 + (b + 2 ^ 29 * s - (x * 2 ^ 25 - 2 ^ 29 * c)) * 2 ^ 228
    + (x - s - c + 2 ^ 28 * s - x) * 2 ^ 257 + (x - s) * 2 ^ 285
    = 2 ^ 29 * (x * (2 ^ 256 - 2 ^ 224 + 2 ^ 192 + 2 ^ 96 - 1))"
  by simp

lemma collect_even:
  fixes V W :: int
  shows "V + q * (W * w1) + - vi * W + A3 * (W * w3) + A4 * (W * w4) + A6 * (W * w6) + b7 * (W * w7) + s7 * (W * w7)
    + x8 * (W * w8) + - m7 * (W * w7) + - c8 * (W * w8) + s8 * (W * w8) + - y8 * (W * w8) + d8 * (W * w8) + x9 * (W * w9)
    = V + W * (w1 * q - vi + A3 * w3 + A4 * w4 + A6 * w6 + (b7 + s7 - m7) * w7 + (x8 - c8 + s8 - y8 + d8) * w8 + x9 * w9)"
  by (simp add: algebra_simps)

lemma collect_odd:
  fixes V W :: int
  shows "V + q * (W * w2) + - vi * (W * w1) + A4 * (W * w4) + A5 * (W * w5) + A7 * (W * w7) + b8 * (W * w8) + s8 * (W * w8)
    + x9 * (W * w9) + - m8 * (W * w8) + - c9 * (W * w9) + s9 * (W * w9) + - y9 * (W * w9) + x10 * (W * w10)
    = V + W * (w2 * q - w1 * vi + A4 * w4 + A5 * w5 + A7 * w7 + (b8 + s8 - m8) * w8 + (x9 - c9 + s9 - y9) * w9 + x10 * w10)"
  by (simp add: algebra_simps)

lemma elim_even_val:
  assumes "i \<le> 8" "even i"
  shows "words_val (elim_even i v) = words_val v + prime * ((v i mod 2 ^ 29) * wt i)"
proof -
  define x q where "x = v i mod 2 ^ 29" and "q = v i div 2 ^ 29"
  define s where "s = sel x 1"
  have vi: "v i = 2 ^ 29 * q + x" by (simp add: x_def q_def)
  have sels: "sel x 0x20000000 = 2 ^ 29 * s" "sel x 0x10000000 = 2 ^ 28 * s" "sel x (x - 1) = x - s"
    "sel x (x div 2 ^ 1 - 1) = x div 2 ^ 1 - s"
    by (simp_all add: s_def sel_def)
  have shifts: "x * 2 ^ 10 mod 2 ^ 28 = x * 2 ^ 10 - 2 ^ 28 * (x div 2 ^ 18)"
    "x * 2 ^ 21 mod 2 ^ 29 = x * 2 ^ 21 - 2 ^ 29 * (x div 2 ^ 8)"
    "x * 2 ^ 24 mod 2 ^ 28 = x * 2 ^ 24 - 2 ^ 28 * (x div 2 ^ 4)"
    "x * 2 ^ 28 mod 2 ^ 29 = x * 2 ^ 28 - 2 ^ 29 * (x div 2 ^ 1)"
    by (rule split_shift, simp)+
  have "i < 18" "i + 1 < 18" "i + 3 < 18" "i + 4 < 18" "i + 6 < 18" "i + 7 < 18" "i + 8 < 18" "i + 9 < 18"
    using assms by linarith+
  then have "words_val (elim_even i v) = words_val v + wt i * (x * (2 ^ 256 - 2 ^ 224 + 2 ^ 192 + 2 ^ 96 - 1))"
    unfolding elim_even_def Let_def x_def[symmetric] q_def[symmetric] sels shifts
    by (simp only: words_val_bump wt_even[OF assms(2)] wt_numeral collect_even vi even_identity)
  then show ?thesis by (simp only: prime_value x_def ac_simps)
qed

lemma elim_odd_val:
  assumes "i \<le> 6" "even i"
  shows "words_val (elim_odd i v) = words_val v + prime * ((v (i + 1) mod 2 ^ 28) * wt (i + 1))"
proof -
  define x q where "x = v (i + 1) mod 2 ^ 28" and "q = v (i + 1) div 2 ^ 28"
  define s where "s = sel x 1"
  have vi: "v (i + 1) = 2 ^ 28 * q + x" by (simp add: x_def q_def)
  have sels: "sel x 0x20000000 = 2 ^ 29 * s" "sel x 0x10000000 = 2 ^ 28 * s" "sel x (x - 1) = x - s"
    by (simp_all add: s_def sel_def)
  have shifts: "x * 2 ^ 11 mod 2 ^ 29 = x * 2 ^ 11 - 2 ^ 29 * (x div 2 ^ 18)"
    "x * 2 ^ 21 mod 2 ^ 28 = x * 2 ^ 21 - 2 ^ 28 * (x div 2 ^ 7)"
    "x * 2 ^ 25 mod 2 ^ 29 = x * 2 ^ 25 - 2 ^ 29 * (x div 2 ^ 4)"
    by (rule split_shift, simp)+
  have "i + 1 < 18" "i + 2 < 18" "i + 4 < 18" "i + 5 < 18" "i + 7 < 18" "i + 8 < 18" "i + 9 < 18" "i + 10 < 18"
    using assms by linarith+
  then have "words_val (elim_odd i v) = words_val v + wt i * (2 ^ 29 * (x * (2 ^ 256 - 2 ^ 224 + 2 ^ 192 + 2 ^ 96 - 1)))"
    unfolding elim_odd_def Let_def x_def[symmetric] q_def[symmetric] sels shifts
    by (simp only: words_val_bump wt_even[OF assms(2)] wt_numeral collect_odd vi odd_identity)
  then show ?thesis unfolding prime_value x_def wt_even[OF assms(2)] wt_numeral by (simp only: ac_simps)
qed

section \<open>Bounds of the words\<close>

text \<open>
  Even words are not negative; an odd word is not once the carry of the word below it is counted in.
\<close>

definition low :: "(nat \<Rightarrow> int) \<Rightarrow> bool" where
  "low v \<longleftrightarrow> (\<forall>k. if even k then 0 \<le> v k else 0 \<le> v k + v (k - 1) div 2 ^ 29)"

definition under :: "(nat \<Rightarrow> int) \<Rightarrow> (nat \<Rightarrow> int) \<Rightarrow> bool" where
  "under v u \<longleftrightarrow> (\<forall>k. v k \<le> u k)"

lemma lowD: "low v \<Longrightarrow> even k \<Longrightarrow> 0 \<le> v k" "low v \<Longrightarrow> odd k \<Longrightarrow> 0 \<le> v k + v (k - 1) div 2 ^ 29"
  unfolding low_def by metis+

lemma low_bump:
  assumes "low v" "0 \<le> d"
  shows "low (bump j d v)"
  unfolding low_def
proof
  fix k
  have "v k \<le> bump j d v k" "v (k - 1) div 2 ^ 29 \<le> bump j d v (k - 1) div 2 ^ 29"
    using assms(2) by (auto simp: bump_def intro: zdiv_mono1)
  then show "if even k then 0 \<le> bump j d v k else 0 \<le> bump j d v k + bump j d v (k - 1) div 2 ^ 29"
    using lowD[OF assms(1), of k] by auto
qed

lemma low_borrow:
  assumes "low v" "even i" "0 \<le> d" "-1 \<le> e" "e < 0 \<Longrightarrow> 2 ^ 29 \<le> d"
  shows "low (bump (i + 9) e (bump (i + 8) d v))"
  unfolding low_def
proof
  fix k
  let ?v = "bump (i + 9) e (bump (i + 8) d v)"
  show "if even k then 0 \<le> ?v k else 0 \<le> ?v k + ?v (k - 1) div 2 ^ 29"
  proof (cases "k = i + 9")
    case True
    have "v (i + 8) div 2 ^ 29 + (if e < 0 then 1 else 0) \<le> (v (i + 8) + d) div 2 ^ 29"
      using zdiv_mono1[of "v (i + 8) + 2 ^ 29" "v (i + 8) + d" "2 ^ 29"] zdiv_mono1[of "v (i + 8)" "v (i + 8) + d" "2 ^ 29"] assms(3,5)
      by auto
    then show ?thesis using True assms(2,4) lowD(2)[OF assms(1), of "i + 9"] by (auto simp: bump_def add.commute split: if_splits)
  next
    case False
    then have "?v k = bump (i + 8) d v k" by (simp add: bump_def)
    moreover have "odd k \<Longrightarrow> k - 1 \<noteq> i + 9" using assms(2) by presburger
    then have "odd k \<Longrightarrow> ?v (k - 1) = bump (i + 8) d v (k - 1)" by (simp add: bump_def)
    ultimately show ?thesis using lowD[OF low_bump[OF assms(1,3)], of k "i + 8"] by auto
  qed
qed

lemma under_bump: "under v u \<Longrightarrow> d \<le> e \<Longrightarrow> under (bump j d v) (bump j e u)"
  by (auto simp: under_def bump_def intro: add_mono)

lemma under_clear: "under v u \<Longrightarrow> 0 \<le> u j \<Longrightarrow> under (v(j := 0)) u"
  by (auto simp: under_def)

text \<open>The two steps with the changes of each word summed up.\<close>

lemma bump_same: "bump j d (bump j e v) = bump j (e + d) v"
  by (simp add: bump_def add.assoc)

lemma bump_swap: "j < k \<Longrightarrow> bump j d (bump k e v) = bump k e (bump j d v)"
  by (auto simp: bump_def)

lemma bump_clear: "j \<noteq> k \<Longrightarrow> bump j (- v j) (bump k d v) = bump k d (v(j := 0))"
  by (auto simp: bump_def)

lemma elim_even_net:
  "elim_even i v = (let x = v i mod 2 ^ 29 in
     bump (i + 9) (sel x (x div 2 ^ 1 - 1))
     (bump (i + 8) (sel x (x - 1) - x div 2 ^ 4 + sel x 0x20000000 - x + x * 2 ^ 28 mod 2 ^ 29)
     (bump (i + 7) (x div 2 ^ 8 + sel x 0x10000000 - x * 2 ^ 24 mod 2 ^ 28)
     (bump (i + 6) (x * 2 ^ 21 mod 2 ^ 29) (bump (i + 4) (x div 2 ^ 18) (bump (i + 3) (x * 2 ^ 10 mod 2 ^ 28)
     (bump (i + 1) (v i div 2 ^ 29) (v(i := 0)))))))))"
  unfolding elim_even_def Let_def
  by (simp add: bump_same bump_swap[of "i + 7" "i + 8"] bump_clear)

lemma elim_odd_net:
  "elim_odd i v = (let x = v (i + 1) mod 2 ^ 28 in
     bump (i + 10) (sel x (x - 1)) (bump (i + 9) (sel x (x - 1) - x div 2 ^ 4 + sel x 0x10000000 - x)
     (bump (i + 8) (x div 2 ^ 7 + sel x 0x20000000 - x * 2 ^ 25 mod 2 ^ 29)
     (bump (i + 7) (x * 2 ^ 21 mod 2 ^ 28) (bump (i + 5) (x div 2 ^ 18) (bump (i + 4) (x * 2 ^ 11 mod 2 ^ 29)
     (bump (i + 2) (v (i + 1) div 2 ^ 28) (v(i + 1 := 0)))))))))"
  unfolding elim_odd_def Let_def
  by (simp add: bump_same bump_swap[of "i + 8" "i + 9"] bump_clear)

text \<open>What a step can add to each word.\<close>

definition raise_even :: "nat \<Rightarrow> (nat \<Rightarrow> int) \<Rightarrow> nat \<Rightarrow> int" where
  "raise_even i u = bump (i + 9) (2 ^ 28) (bump (i + 8) (2 ^ 29 + 2 ^ 28) (bump (i + 7) (2 ^ 28 + 2 ^ 21) (bump (i + 6) (2 ^ 29)
     (bump (i + 4) (2 ^ 11) (bump (i + 3) (2 ^ 28) (bump (i + 1) 8 u))))))"

definition raise_odd :: "nat \<Rightarrow> (nat \<Rightarrow> int) \<Rightarrow> nat \<Rightarrow> int" where
  "raise_odd i u = bump (i + 10) (2 ^ 28) (bump (i + 9) (2 ^ 28) (bump (i + 8) (2 ^ 29 + 2 ^ 21) (bump (i + 7) (2 ^ 28)
     (bump (i + 5) (2 ^ 10) (bump (i + 4) (2 ^ 29) (bump (i + 2) 16 u))))))"

definition words_ok :: "nat \<Rightarrow> (nat \<Rightarrow> int) \<Rightarrow> (nat \<Rightarrow> int) \<Rightarrow> bool" where
  "words_ok i v u \<longleftrightarrow> low v \<and> under v u \<and> (\<forall>k<i. v k = 0)"

lemma div_bound:
  assumes "0 \<le> (x :: int)" "x < m * 2 ^ n"
  shows "0 \<le> x div 2 ^ n \<and> x div 2 ^ n < m"
proof -
  have "x div 2 ^ n * 2 ^ n \<le> x" using div_mult_mod_eq[of x "2 ^ n"] pos_mod_sign[of "2 ^ n" x] by (smt (verit) zero_less_power)
  then have "x div 2 ^ n * 2 ^ n < m * 2 ^ n" using assms(2) by linarith
  then show ?thesis using assms(1) by (simp add: pos_imp_zdiv_nonneg_iff)
qed

lemma even_changes:
  assumes "0 \<le> x" "x < 2 ^ 29"
  shows "0 \<le> x div 2 ^ 8 + sel x 0x10000000 - x * 2 ^ 24 mod 2 ^ 28"
    "x div 2 ^ 8 + sel x 0x10000000 - x * 2 ^ 24 mod 2 ^ 28 \<le> 2 ^ 28 + 2 ^ 21"
    "0 \<le> sel x (x - 1) - x div 2 ^ 4 + sel x 0x20000000 - x + x * 2 ^ 28 mod 2 ^ 29"
    "sel x (x - 1) - x div 2 ^ 4 + sel x 0x20000000 - x + x * 2 ^ 28 mod 2 ^ 29 \<le> 2 ^ 29 + 2 ^ 28"
    "-1 \<le> sel x (x div 2 ^ 1 - 1)" "sel x (x div 2 ^ 1 - 1) \<le> 2 ^ 28"
    "sel x (x div 2 ^ 1 - 1) < 0 \<Longrightarrow> 2 ^ 29 \<le> sel x (x - 1) - x div 2 ^ 4 + sel x 0x20000000 - x + x * 2 ^ 28 mod 2 ^ 29"
proof -
  have d: "0 \<le> x div 2 ^ 8 \<and> x div 2 ^ 8 < 2 ^ 21" "0 \<le> x div 2 ^ 4 \<and> x div 2 ^ 4 < 2 ^ 25" "0 \<le> x div 2 ^ 1 \<and> x div 2 ^ 1 < 2 ^ 28"
    using assms by (intro div_bound; simp)+
  have m: "0 \<le> x * 2 ^ 24 mod 2 ^ 28" "x * 2 ^ 24 mod 2 ^ 28 < 2 ^ 28" by simp_all
  have "x * 2 ^ 28 mod (2 * 2 ^ 28) = (x mod 2) * 2 ^ 28" by (rule mod_mult_mult2)
  then have o: "x * 2 ^ 28 mod 2 ^ 29 = (x mod 2) * 2 ^ 28" by simp
  have o2: "0 \<le> x mod 2" "x mod 2 \<le> 1" by simp_all
  show "0 \<le> x div 2 ^ 8 + sel x 0x10000000 - x * 2 ^ 24 mod 2 ^ 28"
    "x div 2 ^ 8 + sel x 0x10000000 - x * 2 ^ 24 mod 2 ^ 28 \<le> 2 ^ 28 + 2 ^ 21"
    using d(1) m assms by (auto simp: sel_def)
  show "0 \<le> sel x (x - 1) - x div 2 ^ 4 + sel x 0x20000000 - x + x * 2 ^ 28 mod 2 ^ 29"
    "sel x (x - 1) - x div 2 ^ 4 + sel x 0x20000000 - x + x * 2 ^ 28 mod 2 ^ 29 \<le> 2 ^ 29 + 2 ^ 28"
    unfolding o using d(2) o2 by (auto simp: sel_def)
  show "-1 \<le> sel x (x div 2 ^ 1 - 1)" "sel x (x div 2 ^ 1 - 1) \<le> 2 ^ 28"
    using d(3) by (auto simp: sel_def)
  assume "sel x (x div 2 ^ 1 - 1) < 0"
  then have "x = 1" using assms(1) by (auto simp: sel_def split: if_splits)
  then show "2 ^ 29 \<le> sel x (x - 1) - x div 2 ^ 4 + sel x 0x20000000 - x + x * 2 ^ 28 mod 2 ^ 29"
    by (simp add: sel_def)
qed

lemma odd_changes:
  assumes "0 \<le> x" "x < 2 ^ 28"
  shows "0 \<le> x div 2 ^ 7 + sel x 0x20000000 - x * 2 ^ 25 mod 2 ^ 29"
    "x div 2 ^ 7 + sel x 0x20000000 - x * 2 ^ 25 mod 2 ^ 29 \<le> 2 ^ 29 + 2 ^ 21"
    "0 \<le> sel x (x - 1) - x div 2 ^ 4 + sel x 0x10000000 - x"
    "sel x (x - 1) - x div 2 ^ 4 + sel x 0x10000000 - x \<le> 2 ^ 28"
    "0 \<le> sel x (x - 1)" "sel x (x - 1) \<le> 2 ^ 28"
proof -
  have d: "0 \<le> x div 2 ^ 7 \<and> x div 2 ^ 7 < 2 ^ 21" "0 \<le> x div 2 ^ 4 \<and> x div 2 ^ 4 < 2 ^ 24"
    using assms by (intro div_bound; simp)+
  have m: "0 \<le> x * 2 ^ 25 mod 2 ^ 29" "x * 2 ^ 25 mod 2 ^ 29 < 2 ^ 29" by simp_all
  show "0 \<le> x div 2 ^ 7 + sel x 0x20000000 - x * 2 ^ 25 mod 2 ^ 29"
    "x div 2 ^ 7 + sel x 0x20000000 - x * 2 ^ 25 mod 2 ^ 29 \<le> 2 ^ 29 + 2 ^ 21"
    "0 \<le> sel x (x - 1) - x div 2 ^ 4 + sel x 0x10000000 - x"
    "sel x (x - 1) - x div 2 ^ 4 + sel x 0x10000000 - x \<le> 2 ^ 28"
    "0 \<le> sel x (x - 1)" "sel x (x - 1) \<le> 2 ^ 28"
    using d m assms by (auto simp: sel_def)
qed

lemma low_clear:
  assumes "low v" "\<forall>k<i. v k = 0"
  shows "even i \<Longrightarrow> low (bump (i + 1) (v i div 2 ^ 29) (v(i := 0)))"
    "odd i \<Longrightarrow> 0 \<le> q \<Longrightarrow> low (bump (i + 1) q (v(i := 0)))"
proof -
  have z: "k - 1 < i" if "odd k" "k \<le> i" for k using that by (cases k) simp_all
  have k: "if even k then 0 \<le> v k else 0 \<le> v k + v (k - 1) div 2 ^ 29" for k using assms(1) unfolding low_def by (rule spec)
  show "low (bump (i + 1) (v i div 2 ^ 29) (v(i := 0)))" if "even i"
    unfolding low_def
  proof
    fix k
    have p: "odd k \<Longrightarrow> k - 1 \<noteq> i + 1" using that by presburger
    show "if even k then 0 \<le> bump (i + 1) (v i div 2 ^ 29) (v(i := 0)) k
      else 0 \<le> bump (i + 1) (v i div 2 ^ 29) (v(i := 0)) k + bump (i + 1) (v i div 2 ^ 29) (v(i := 0)) (k - 1) div 2 ^ 29"
      using k[of k] that p by (auto simp: bump_def)
  qed
  have "low (v(i := 0))" if "odd i"
    unfolding low_def
  proof
    fix k
    show "if even k then 0 \<le> (v(i := 0)) k else 0 \<le> (v(i := 0)) k + (v(i := 0)) (k - 1) div 2 ^ 29"
      using k[of k] that z[of k] assms(2) by (auto simp: fun_upd_apply split: if_splits)
  qed
  then show "odd i \<Longrightarrow> 0 \<le> q \<Longrightarrow> low (bump (i + 1) q (v(i := 0)))" by (intro low_bump)
qed

lemma even_step:
  assumes "even i" "i \<le> 8" "words_ok i v u" "u i < 2 ^ 32"
  shows "eliminate_even i (rep v) = rep (elim_even i v) \<and> words_ok (i + 1) (elim_even i v) (raise_even i u)
    \<and> words_val (elim_even i v) mod prime = words_val v mod prime"
proof (intro conjI)
  have low: "low v" "under v u" "\<forall>k<i. v k = 0" using assms(3) by (simp_all add: words_ok_def)
  have vi: "0 \<le> v i" "v i < 2 ^ 32" "0 \<le> u i" using lowD(1)[OF low(1) assms(1)] low(2) assms(4) 
    by (auto simp: under_def dest!: spec[of _ i])
  show "eliminate_even i (rep v) = rep (elim_even i v)" using assms(2) vi(1,2) by (rule eliminate_even_rep)
  show "words_val (elim_even i v) mod prime = words_val v mod prime"
    unfolding elim_even_val[OF assms(2,1)] by (rule mod_mult_self2)
  define x where "x = v i mod 2 ^ 29"
  have x: "0 \<le> x" "x < 2 ^ 29" by (simp_all add: x_def)
  have "v i < 8 * 2 ^ 29" using vi by simp
  then have q: "v i div 2 ^ 29 \<le> 8" using div_bound[OF vi(1)] by (meson less_imp_le)
  note ch = even_changes[OF x]
  have "0 \<le> x div 2 ^ 18 \<and> x div 2 ^ 18 < 2 ^ 11" using x by (intro div_bound) simp_all
  then have d: "0 \<le> x div 2 ^ 18" "x div 2 ^ 18 \<le> 2 ^ 11" by (simp_all only: less_imp_le)
  have m: "0 \<le> y mod (2 :: int) ^ n" "y mod (2 :: int) ^ n \<le> 2 ^ n" for y n by (simp_all add: less_imp_le)
  show "words_ok (i + 1) (elim_even i v) (raise_even i u)"
    unfolding words_ok_def
  proof (intro conjI)
    show "low (elim_even i v)"
      unfolding elim_even_net Let_def x_def[symmetric]
      by (rule low_borrow[OF low_bump[OF low_bump[OF low_bump[OF low_bump[OF low_clear(1)[OF low(1,3) assms(1)]
        m(1)] d(1)] m(1)] ch(1)] assms(1) ch(3,5,7)])
    show "under (elim_even i v) (raise_even i u)"
      unfolding elim_even_net raise_even_def Let_def x_def[symmetric]
      by (intro under_bump under_clear[OF low(2) vi(3)] m(2) ch q d)
    show "\<forall>k<i + 1. elim_even i v k = 0"
      unfolding elim_even_net Let_def using low(3) by (auto simp: bump_def)
  qed
qed

lemma odd_step:
  assumes "even i" "i \<le> 6" "words_ok (i + 1) v u" "u (i + 1) < 2 ^ 32"
  shows "eliminate_odd i (rep v) = rep (elim_odd i v) \<and> words_ok (i + 2) (elim_odd i v) (raise_odd i u)
    \<and> words_val (elim_odd i v) mod prime = words_val v mod prime"
proof (intro conjI)
  have low: "low v" "under v u" "\<forall>k<i + 1. v k = 0" using assms(3) by (simp_all add: words_ok_def)
  have od: "odd (i + 1)" using assms(1) by simp
  have "0 \<le> v (i + 1)" using lowD(2)[OF low(1) od] low(3) by simp
  then have vi: "0 \<le> v (i + 1)" "v (i + 1) < 2 ^ 32" "0 \<le> u (i + 1)" using low(2) assms(4)
    by (auto simp: under_def dest!: spec[of _ "i + 1"])
  show "eliminate_odd i (rep v) = rep (elim_odd i v)" using assms(2) vi(1,2) by (rule eliminate_odd_rep)
  show "words_val (elim_odd i v) mod prime = words_val v mod prime"
    unfolding elim_odd_val[OF assms(2,1)] by (rule mod_mult_self2)
  define x where "x = v (i + 1) mod 2 ^ 28"
  have x: "0 \<le> x" "x < 2 ^ 28" by (simp_all add: x_def)
  have "v (i + 1) < 16 * 2 ^ 28" using vi by simp
  then have q: "0 \<le> v (i + 1) div 2 ^ 28" "v (i + 1) div 2 ^ 28 \<le> 16"
    using div_bound[OF vi(1)] by (meson less_imp_le)+
  note ch = odd_changes[OF x]
  have "0 \<le> x div 2 ^ 18 \<and> x div 2 ^ 18 < 2 ^ 10" using x by (intro div_bound) simp_all
  then have d: "0 \<le> x div 2 ^ 18" "x div 2 ^ 18 \<le> 2 ^ 10" by (simp_all only: less_imp_le)
  have m: "0 \<le> y mod (2 :: int) ^ n" "y mod (2 :: int) ^ n \<le> 2 ^ n" for y n by (simp_all add: less_imp_le)
  have clr: "low (bump (i + 2) (v (i + 1) div 2 ^ 28) (v(i + 1 := 0)))"
    using low_clear(2)[OF low(1,3) od q(1)] by simp
  show "words_ok (i + 2) (elim_odd i v) (raise_odd i u)"
    unfolding words_ok_def
  proof (intro conjI)
    show "low (elim_odd i v)"
      unfolding elim_odd_net Let_def x_def[symmetric]
      by (rule low_bump[OF low_bump[OF low_bump[OF low_bump[OF low_bump[OF low_bump[OF clr
        m(1)] d(1)] m(1)] ch(1)] ch(3)] ch(5)])
    show "under (elim_odd i v) (raise_odd i u)"
      unfolding elim_odd_net raise_odd_def Let_def x_def[symmetric]
      by (intro under_bump under_clear[OF low(2) vi(3)] m(2) ch q d)
    show "\<forall>k<i + 2. elim_odd i v k = 0"
      unfolding elim_odd_net Let_def using low(3) by (auto simp: bump_def less_Suc_eq)
  qed
qed

section \<open>All eliminations\<close>

definition word_limits :: "nat \<Rightarrow> int" where
  "word_limits k = (if k = 17 then 2 ^ 31 + 2 ^ 8 else if even k then 2 ^ 29 else 2 ^ 28)"

abbreviation raise_pair :: "nat \<Rightarrow> (nat \<Rightarrow> int) \<Rightarrow> nat \<Rightarrow> int" where
  "raise_pair i u \<equiv> raise_odd i (raise_even i u)"

lemma pair_step:
  assumes "words_ok i v u" "u i < 2 ^ 32 \<and> u (i + 1) + 8 < 2 ^ 32" "even i \<and> i \<le> 6 \<and> j = i + 2"
  shows "\<exists>v'. eliminate_odd i (eliminate_even i (rep v)) = rep v' \<and> words_ok j v' (raise_pair i u)
    \<and> words_val v' mod prime = words_val v mod prime"
proof -
  have i: "even i" "i \<le> 6" "i \<le> 8" "u i < 2 ^ 32" using assms(2,3) by simp_all
  note e = even_step[OF i(1,3) assms(1) i(4)]
  have "raise_even i u (i + 1) < 2 ^ 32" using assms(2) by (simp add: raise_even_def bump_def)
  with odd_step[OF i(1,2), of "elim_even i v" "raise_even i u"] e assms(3) show ?thesis by auto
qed

text \<open>The limits after the eliminations; none is reached before its word is read.\<close>

definition final_limits :: "nat \<Rightarrow> int" where
  "final_limits = raise_even 8 (raise_pair 6 (raise_pair 4 (raise_pair 2 (raise_pair 0 word_limits))))"

lemma eliminate_correct:
  assumes "words_ok 0 v word_limits"
  shows "\<exists>v'. eliminate (rep v) = rep v' \<and> words_ok 9 v' final_limits \<and> words_val v' mod prime = words_val v mod prime"
proof -
  define u2 where "u2 = raise_pair 0 word_limits"
  define u4 where "u4 = raise_pair 2 u2"
  define u6 where "u6 = raise_pair 4 u4"
  define u8 where "u8 = raise_pair 6 u6"
  note num = u8_def u6_def u4_def u2_def raise_even_def raise_odd_def bump_def word_limits_def
  obtain v2 where v2: "eliminate_odd 0 (eliminate_even 0 (rep v)) = rep v2" "words_ok 2 v2 u2"
    "words_val v2 mod prime = words_val v mod prime"
    using pair_step[OF assms, of 2] unfolding u2_def by (auto simp: word_limits_def)
  obtain v4 where v4: "eliminate_odd 2 (eliminate_even 2 (rep v2)) = rep v4" "words_ok 4 v4 u4"
    "words_val v4 mod prime = words_val v2 mod prime"
  proof -
    have "u2 2 < 2 ^ 32 \<and> u2 (2 + 1) + 8 < 2 ^ 32" by (simp add: num)
    from pair_step[OF v2(2) this, of 4] that show thesis unfolding u4_def by auto
  qed
  obtain v6 where v6: "eliminate_odd 4 (eliminate_even 4 (rep v4)) = rep v6" "words_ok 6 v6 u6"
    "words_val v6 mod prime = words_val v4 mod prime"
  proof -
    have "u4 4 < 2 ^ 32 \<and> u4 (4 + 1) + 8 < 2 ^ 32" by (simp add: num)
    from pair_step[OF v4(2) this, of 6] that show thesis unfolding u6_def by auto
  qed
  obtain v8 where v8: "eliminate_odd 6 (eliminate_even 6 (rep v6)) = rep v8" "words_ok 8 v8 u8"
    "words_val v8 mod prime = words_val v6 mod prime"
  proof -
    have "u6 6 < 2 ^ 32 \<and> u6 (6 + 1) + 8 < 2 ^ 32" by (simp add: num)
    from pair_step[OF v6(2) this, of 8] that show thesis unfolding u8_def by auto
  qed
  have "u8 8 < 2 ^ 32" by (simp add: num)
  from even_step[OF _ _ v8(2) this] have v9: "eliminate_even 8 (rep v8) = rep (elim_even 8 v8)"
    "words_ok 9 (elim_even 8 v8) final_limits" "words_val (elim_even 8 v8) mod prime = words_val v8 mod prime"
    by (simp_all add: final_limits_def u8_def u6_def u4_def u2_def)
  have "eliminate (rep v) = rep (elim_even 8 v8)" by (simp add: eliminate_def v2(1) v4(1) v6(1) v8(1) v9(1))
  then show ?thesis using v9(2) by (intro exI[of _ "elim_even 8 v8"] conjI) (simp_all only: v9(3) v8(3) v6(3) v4(3) v2(3))
qed

section \<open>Shifting down\<close>

lemma shift_step:
  assumes i: "even i" "i \<le> 6" and v: "low v" "v (i + 9) < 2 ^ 31" "v (i + 10) < 2 ^ 32"
    and c: "v (i + 8) div 2 ^ 29 \<le> c" "c \<le> 16"
  shows "\<exists>a b c'. shift_pair (rep v) (out, wi c) i = (out @ [wi a, wi b], wi c') \<and> 0 \<le> a \<and> a < 2 ^ 29 \<and> 0 \<le> b \<and> b < 2 ^ 28
    \<and> c' \<le> 16 \<and> v (i + 10) div 2 ^ 29 \<le> c' \<and> a + 2 ^ 29 * b + 2 ^ 57 * c' = v (i + 9) + 2 ^ 28 * v (i + 10) + c"
proof -
  define y where "y = v (i + 10)"
  define w where "w = v (i + 9) + c + y * 2 ^ 28 mod 2 ^ 29"
  define t where "t = y div 2 ^ 1 + w div 2 ^ 29"
  have rd: "rep v ! (i + 9) = wi (v (i + 9))" "rep v ! (i + 10) = wi y" using i(2) by (simp_all add: nth_rep y_def)
  have y: "0 \<le> y" "y < 2 ^ 32" using lowD(1)[OF v(1), of "i + 10"] i(1) v(3) by (simp_all add: y_def)
  have odd9: "odd (i + 9)" and sub: "i + 9 - 1 = i + 8" using i(1) by simp_all
  have "0 \<le> v (i + 9) + c" using lowD(2)[OF v(1) odd9] c(1) unfolding sub by linarith
  moreover have "0 \<le> y * 2 ^ 28 mod 2 ^ 29" "y * 2 ^ 28 mod 2 ^ 29 < 2 ^ 29" by simp_all
  ultimately have w: "0 \<le> w" "w < 8 * 2 ^ 29" unfolding w_def using v(2) c(2) by simp_all
  note q = div_bound[OF w]
  have "0 \<le> y div 2 ^ 1 \<and> y div 2 ^ 1 < 2 ^ 31" using y by (intro div_bound) simp_all
  then have t: "0 \<le> t" "t < 16 * 2 ^ 28" unfolding t_def using q by simp_all
  have sh: "shift_pair (rep v) (out, wi c) i = (out @ [wi (w mod 2 ^ 29), wi (t mod 2 ^ 28)], wi (t div 2 ^ 28))"
  proof -
    have "w < 2 ^ 32" "t < 2 ^ 32" using w t by simp_all
    then show ?thesis
      by (simp only: shift_pair_def prod.case Let_def rd push_wi and_wi drop_wi[OF y] wi_simps(1) drop_wi[OF w(1)] drop_wi[OF t(1)]
          flip: w_def t_def)
  qed
  have "y div 2 ^ 29 = y div 2 ^ 1 div 2 ^ 28" by (simp add: zdiv_zmult2_eq[symmetric])
  also have "\<dots> \<le> t div 2 ^ 28" unfolding t_def using q by (intro zdiv_mono1) simp_all
  finally have c': "v (i + 10) div 2 ^ 29 \<le> t div 2 ^ 28" by (simp only: y_def)
  have p57: "(2 :: int) ^ 57 = 2 ^ 29 * 2 ^ 28" by simp
  have "w mod 2 ^ 29 + 2 ^ 29 * (t mod 2 ^ 28) + 2 ^ 57 * (t div 2 ^ 28) = w mod 2 ^ 29 + 2 ^ 29 * (t mod 2 ^ 28 + 2 ^ 28 * (t div 2 ^ 28))"
    unfolding p57 by (simp only: distrib_left mult.assoc add.assoc)
  also have "\<dots> = (w mod 2 ^ 29 + 2 ^ 29 * (w div 2 ^ 29)) + 2 ^ 29 * (y div 2 ^ 1)"
    unfolding mod_mult_div_eq[of t] unfolding t_def by (simp only: distrib_left ac_simps)
  also have "\<dots> = v (i + 9) + 2 ^ 28 * v (i + 10) + c"
    unfolding mod_mult_div_eq w_def split_shift[of 29 28 1 y, simplified] y_def[symmetric] by (simp add: split_shift[of 29 28 1 y, simplified])
  finally show ?thesis using sh c' div_bound[OF t] by (intro exI[of _ "w mod 2 ^ 29"] exI[of _ "t mod 2 ^ 28"] exI[of _ "t div 2 ^ 28"]) simp
qed

lemma sum_18: "(\<Sum>k<(18 :: nat). f k) = f 0 + f 1 + f 2 + f 3 + f 4 + f 5 + f 6 + f 7 + f 8 + f 9 + f 10 + f 11 + f 12 + f 13
    + f 14 + f 15 + f 16 + (f 17 :: int)"
  by (simp add: numeral_eq_Suc)

lemma final_limits_values:
  "final_limits 9 < 2 ^ 31" "final_limits 10 < 2 ^ 32" "final_limits 11 < 2 ^ 31" "final_limits 12 < 2 ^ 32"
  "final_limits 13 < 2 ^ 31" "final_limits 14 < 2 ^ 32" "final_limits 15 < 2 ^ 31" "final_limits 16 < 2 ^ 32"
  "final_limits 17 < 2 ^ 31 + 2 ^ 29"
  by (simp_all add: final_limits_def raise_even_def raise_odd_def bump_def word_limits_def)

lemma unat_wi_nat: "0 \<le> a \<Longrightarrow> a < 2 ^ 32 \<Longrightarrow> unat (wi a) = nat a"
  using unat_wi[of a] by (metis nat_int)

lemma shift_down:
  assumes "words_ok 9 v final_limits"
  shows "\<exists>out c w. foldl (shift_pair (rep v)) ([], 0) [0, 2, 4, 6] = (out, c) \<and> rep v ! 17 + c = wi w \<and> 0 \<le> w \<and> w < 6 * 2 ^ 29 \<and>
    length out = 8 \<and> bounded (2 ^ 29) (2 ^ 28) (out @ [wi (w mod 2 ^ 29)]) \<and>
    2 ^ 257 * (int (felem_val (out @ [wi (w mod 2 ^ 29)])) + 2 ^ 257 * (w div 2 ^ 29)) = words_val v"
proof -
  have low: "low v" "under v final_limits" "\<forall>k<9. v k = 0" using assms by (simp_all add: words_ok_def)
  have lim: "v k < m" if "final_limits k < m" for k m using low(2) that by (auto simp: under_def intro: le_less_trans)
  note l = final_limits_values[THEN lim]
  have z: "v 8 div 2 ^ 29 \<le> 0" using low(3) by simp
  obtain a0 b0 c0 where s0: "shift_pair (rep v) ([], wi 0) 0 = ([wi a0, wi b0], wi c0)" "0 \<le> a0" "a0 < 2 ^ 29" "0 \<le> b0" "b0 < 2 ^ 28"
    "c0 \<le> 16" "v 10 div 2 ^ 29 \<le> c0" "a0 + 2 ^ 29 * b0 + 2 ^ 57 * c0 = v 9 + 2 ^ 28 * v 10 + 0"
    using shift_step[of 0 v 0 "[]"] low(1) l(1,2) z by auto
  obtain a2 b2 c2 where s2: "shift_pair (rep v) ([wi a0, wi b0], wi c0) 2 = ([wi a0, wi b0, wi a2, wi b2], wi c2)"
    "0 \<le> a2" "a2 < 2 ^ 29" "0 \<le> b2" "b2 < 2 ^ 28" "c2 \<le> 16" "v 12 div 2 ^ 29 \<le> c2" "a2 + 2 ^ 29 * b2 + 2 ^ 57 * c2 = v 11 + 2 ^ 28 * v 12 + c0"
    using shift_step[of 2 v c0 "[wi a0, wi b0]"] low(1) l(3,4) s0(6,7) by auto
  obtain a4 b4 c4 where s4: "shift_pair (rep v) ([wi a0, wi b0, wi a2, wi b2], wi c2) 4 = ([wi a0, wi b0, wi a2, wi b2, wi a4, wi b4], wi c4)"
    "0 \<le> a4" "a4 < 2 ^ 29" "0 \<le> b4" "b4 < 2 ^ 28" "c4 \<le> 16" "v 14 div 2 ^ 29 \<le> c4" "a4 + 2 ^ 29 * b4 + 2 ^ 57 * c4 = v 13 + 2 ^ 28 * v 14 + c2"
    using shift_step[of 4 v c2 "[wi a0, wi b0, wi a2, wi b2]"] low(1) l(5,6) s2(6,7) by auto
  obtain a6 b6 c6 where s6: "shift_pair (rep v) ([wi a0, wi b0, wi a2, wi b2, wi a4, wi b4], wi c4) 6
      = ([wi a0, wi b0, wi a2, wi b2, wi a4, wi b4, wi a6, wi b6], wi c6)"
    "0 \<le> a6" "a6 < 2 ^ 29" "0 \<le> b6" "b6 < 2 ^ 28" "c6 \<le> 16" "v 16 div 2 ^ 29 \<le> c6" "a6 + 2 ^ 29 * b6 + 2 ^ 57 * c6 = v 15 + 2 ^ 28 * v 16 + c4"
    using shift_step[of 6 v c4 "[wi a0, wi b0, wi a2, wi b2, wi a4, wi b4]"] low(1) l(7,8) s4(6,7) by auto
  let ?out = "[wi a0, wi b0, wi a2, wi b2, wi a4, wi b4, wi a6, wi b6]"
  define w where "w = v 17 + c6"
  define m where "m = w mod 2 ^ 29"
  define q where "q = w div 2 ^ 29"
  have wm: "0 \<le> m" "m < 2 ^ 29" by (simp_all add: m_def)
  note b = s0(2-5) s2(2-5) s4(2-5) s6(2-5) wm
  have out: "foldl (shift_pair (rep v)) ([], 0) [0, 2, 4, 6] = (?out, wi c6)"
    using s0(1) s2(1) s4(1) s6(1) by (simp add: wi_simps(3))
  have r17: "rep v ! 17 + wi c6 = wi w" by (simp add: nth_rep wi_simps(1) w_def)
  have "0 \<le> v 17 + v 16 div 2 ^ 29" using lowD(2)[OF low(1), of 17] by simp
  then have w: "0 \<le> w" "w < 6 * 2 ^ 29" using s6(6,7) l(9) by (simp_all add: w_def)
  note us = unat_wi_nat[OF s0(2)] unat_wi_nat[OF s2(2)] unat_wi_nat[OF s4(2)] unat_wi_nat[OF s6(2)]
    unat_wi_nat[OF s0(4)] unat_wi_nat[OF s2(4)] unat_wi_nat[OF s4(4)] unat_wi_nat[OF s6(4)] unat_wi_nat[OF wm(1)]
  have bd: "bounded (2 ^ 29) (2 ^ 28) (?out @ [wi m])" using b by (simp add: us nat_less_iff)
  have fv: "int (felem_val (?out @ [wi m])) = a0 + 2 ^ 29 * b0 + 2 ^ 57 * (a2 + 2 ^ 29 * b2) + 2 ^ 114 * (a4 + 2 ^ 29 * b4)
      + 2 ^ 171 * (a6 + 2 ^ 29 * b6) + 2 ^ 228 * m"
    using b by (simp add: us felem_val_def)
  have wv: "words_val v = 2 ^ 257 * ((v 9 + 2 ^ 28 * v 10) + 2 ^ 57 * (v 11 + 2 ^ 28 * v 12) + 2 ^ 114 * (v 13 + 2 ^ 28 * v 14)
      + 2 ^ 171 * (v 15 + 2 ^ 28 * v 16) + 2 ^ 228 * v 17)"
    unfolding words_val_def sum_18 using low(3) by (simp add: wt_def)
  have ps: "v 9 + 2 ^ 28 * v 10 = a0 + 2 ^ 29 * b0 + 2 ^ 57 * c0" "v 11 + 2 ^ 28 * v 12 = a2 + 2 ^ 29 * b2 + 2 ^ 57 * c2 - c0"
    "v 13 + 2 ^ 28 * v 14 = a4 + 2 ^ 29 * b4 + 2 ^ 57 * c4 - c2" "v 15 + 2 ^ 28 * v 16 = a6 + 2 ^ 29 * b6 + 2 ^ 57 * c6 - c4"
    using s0(8) s2(8) s4(8) s6(8) by linarith+
  have "w = 2 ^ 29 * q + m" by (simp add: m_def q_def)
  then have p17: "v 17 = 2 ^ 29 * q + m - c6" by (simp add: w_def)
  have "2 ^ 257 * (int (felem_val (?out @ [wi m])) + 2 ^ 257 * q) = words_val v"
    unfolding fv wv ps p17 by simp
  then show ?thesis using out r17 w bd unfolding m_def q_def
    by (intro exI[of _ ?out] exI[of _ "wi c6"] exI[of _ w]) (simp only: list.size, simp)
qed

lemma reduce_words:
  assumes "words_ok 9 v final_limits" "eliminate (degree_limbs tmp) = rep v"
  shows "felem_ok (felem_reduce_degree tmp) \<and> 2 ^ 257 * int (felem_val (felem_reduce_degree tmp)) mod prime = words_val v mod prime"
proof -
  obtain out c w where o: "foldl (shift_pair (rep v)) ([], 0) [0, 2, 4, 6] = (out, c)" "rep v ! 17 + c = wi w" "0 \<le> w" "w < 6 * 2 ^ 29"
    "length out = 8" "bounded (2 ^ 29) (2 ^ 28) (out @ [wi (w mod 2 ^ 29)])"
    "2 ^ 257 * (int (felem_val (out @ [wi (w mod 2 ^ 29)])) + 2 ^ 257 * (w div 2 ^ 29)) = words_val v"
    using shift_down[OF assms(1)] by blast
  let ?f = "out @ [wi (w mod 2 ^ 29)]" and ?q = "w div 2 ^ 29"
  have w32: "w < 2 ^ 32" using o(4) by simp
  have r: "felem_reduce_degree tmp = felem_reduce_carry ?f (wi ?q)"
    unfolding felem_reduce_degree_def Let_def assms(2) o(1) prod.case o(2) drop_wi[OF o(3) w32] and_wi by (rule refl)
  have q: "0 \<le> ?q" "?q < 6" using div_bound[OF o(3,4)] by simp_all
  then have qn: "int (unat (wi ?q)) = ?q" by (intro unat_wi) simp_all
  then have c8: "unat (wi ?q) \<le> 8" using q by linarith
  have len: "length ?f = 9" using o(5) by simp
  note rc = reduce_carry_correct[OF len o(6) c8]
  have "int (felem_val (felem_reduce_carry ?f (wi ?q))) + 2 * prime * ?q = int (felem_val ?f) + 2 ^ 257 * ?q"
    using arg_cong[OF rc(2), of int] unfolding of_nat_add of_nat_mult qn of_nat_power of_nat_numeral .
  then have "words_val v = 2 ^ 257 * int (felem_val (felem_reduce_carry ?f (wi ?q))) + prime * (2 ^ 257 * (2 * ?q))"
    unfolding o(7)[symmetric] by (simp add: distrib_left)
  then show ?thesis using rc(1) unfolding r by (simp only: mod_mult_self2)
qed

end
