(* ===== verification/P256_Mont.thy ===== *)
theory P256_Mont
  imports P256_Field
begin

text \<open>
  The conversions between 256-bit integers and field elements (\<open>to_montgomery\<close>,
  \<open>from_montgomery\<close> of \<^verbatim>\<open>p256_ec.c\<close>): cutting into limbs and reassembling them is exact, and the
  factor \<open>2\<^sup>2\<^sup>5\<^sup>7\<close> cancels.
\<close>

section \<open>Montgomery form\<close>

lemma kR_value: "bn kR = 2 ^ 257 - 2 * secp"
  by (simp add: kR_def SECP256r1_values)

lemma kR_mod: "x * bn kR mod secp = x * 2 ^ 257 mod secp"
proof -
  have "x * 2 ^ 257 = x * bn kR + (2 * x) * secp" unfolding kR_value by (simp add: SECP256r1_values)
  then show ?thesis by (simp only: mod_mult_self1)
qed

lemma kRInv_mod: "bn kRInv * 2 ^ 257 mod secp = 1"
  unfolding SECP256r1_values
  by (rule mod_by_quotient[of _ "0xffffffff00000002000000000000000000000001000000000000000000000001"]) (simp_all add: kRInv_def)

lemma p256_ok_kR: "p256_ok kR" "p256_ok kRInv"
  by (simp_all add: p256_ok_def kR_def kRInv_def)

lemma bn_low_bits:
  assumes "p256_ok s"
  shows "unat (s ! 0 AND kBottom29Bits) = bn s mod 2 ^ 29" "unat (s ! 0 AND kBottom28Bits) = bn s mod 2 ^ 28"
proof -
  obtain x xs where s: "s = x # xs" using assms by (cases s) (auto simp: p256_ok_def)
  have "bn s mod 2 ^ 29 = unat x mod 2 ^ 29"
  proof -
    have "bn s = unat x + 2 ^ 29 * (8 * bn xs)" by (simp add: s)
    then show ?thesis by (simp only: mod_mult_self2)
  qed
  moreover have "bn s mod 2 ^ 28 = unat x mod 2 ^ 28"
  proof -
    have "bn s = unat x + 2 ^ 28 * (16 * bn xs)" by (simp add: s)
    then show ?thesis by (simp only: mod_mult_self2)
  qed
  ultimately show "unat (s ! 0 AND kBottom29Bits) = bn s mod 2 ^ 29" "unat (s ! 0 AND kBottom28Bits) = bn s mod 2 ^ 28"
    by (simp_all add: s unat_and_28 unat_and_29)
qed

lemma mont_limb_step:
  assumes "p256_ok s"
  obtains d s' where "mont_limb (out, s) i = Some (out @ [d], s')" "p256_ok s'"
    "unat d = bn s mod 2 ^ (if odd i then 28 else 29)" "bn s' = bn s div 2 ^ (if odd i then 28 else 29)"
proof (cases "odd i")
  case True
  obtain s' where "p256_shr s 28 = Some s'" "p256_ok s'" "bn s' = bn s div 2 ^ 28"
    using p256_shr_value[OF assms, of 28] by auto
  then show thesis using True bn_low_bits(2)[OF assms]
    by (intro that[of "s ! 0 AND kBottom28Bits" s']) (auto simp: mont_limb_def odd_iff_mod_2_eq_one)
next
  case False
  obtain s' where "p256_shr s 29 = Some s'" "p256_ok s'" "bn s' = bn s div 2 ^ 29"
    using p256_shr_value[OF assms, of 29] by auto
  then show thesis using False bn_low_bits(1)[OF assms]
    by (intro that[of "s ! 0 AND kBottom29Bits" s']) (auto simp: mont_limb_def even_iff_mod_2_eq_zero)
qed

lemma mont_limbs_correct:
  assumes "p256_ok s"
  shows "\<exists>ls. mont_limbs [i..<i + n] (out, s) = Some (out @ ls) \<and> length ls = n \<and>
    bounded (if odd i then 2 ^ 28 else 2 ^ 29) (if odd i then 2 ^ 29 else 2 ^ 28) ls \<and>
    limb_val (odd i) ls + 2 ^ limb_bits (odd i) n * (bn s div 2 ^ limb_bits (odd i) n) = bn s"
  using assms
proof (induction n arbitrary: i out s)
  case (Suc n)
  let ?w = "if odd i then 28 else 29 :: nat"
  obtain d s' where d: "mont_limb (out, s) i = Some (out @ [d], s')" "p256_ok s'"
    "unat d = bn s mod 2 ^ ?w" "bn s' = bn s div 2 ^ ?w"
    by (rule mont_limb_step[OF Suc.prems])
  obtain ls where l: "mont_limbs [Suc i..<Suc i + n] (out @ [d], s') = Some ((out @ [d]) @ ls)" "length ls = n"
    "bounded (if odd (Suc i) then 2 ^ 28 else 2 ^ 29) (if odd (Suc i) then 2 ^ 29 else 2 ^ 28) ls"
    "limb_val (odd (Suc i)) ls + 2 ^ limb_bits (odd (Suc i)) n * (bn s' div 2 ^ limb_bits (odd (Suc i)) n) = bn s'"
    using Suc.IH[OF d(2)] by blast
  have "[i..<i + Suc n] = i # [Suc i..<Suc i + n]" by (simp add: upt_rec)
  then have m: "mont_limbs [i..<i + Suc n] (out, s) = Some (out @ (d # ls))" using d(1) l(1) by simp
  have dd: "bn s div 2 ^ limb_bits (odd i) (Suc n) = bn s' div 2 ^ limb_bits (odd (Suc i)) n"
    by (simp add: d(4) power_add div_mult2_eq)
  have "limb_val (odd i) (d # ls) + 2 ^ limb_bits (odd i) (Suc n) * (bn s div 2 ^ limb_bits (odd i) (Suc n))
    = bn s mod 2 ^ ?w + 2 ^ ?w * (limb_val (odd (Suc i)) ls + 2 ^ limb_bits (odd (Suc i)) n * (bn s' div 2 ^ limb_bits (odd (Suc i)) n))"
    unfolding dd by (simp add: d(3) power_add algebra_simps)
  also have "\<dots> = bn s" unfolding l(4) unfolding d(4) by (rule mod_mult_div_eq)
  finally show ?case using m l(2,3) d(3) by (intro exI[of _ "d # ls"]) (cases "odd i"; simp del: upt_Suc)
qed simp

lemma bounded_mono: "bounded m n xs \<Longrightarrow> m \<le> m' \<Longrightarrow> n \<le> n' \<Longrightarrow> bounded m' n' xs"
  by (induction m n xs arbitrary: m' n' rule: bounded.induct) auto

lemma to_montgomery_value:
  assumes "p256_ok a"
  shows "\<exists>f. to_montgomery a = Some f \<and> felem_ok f \<and> felem_val f = bn a * 2 ^ 257 mod secp"
proof -
  obtain c where c: "p256_modmul SECP256r1_p a 0 kR = Some c" "p256_ok c" "bn c = bn a * 2 ^ 257 mod secp"
    using p256_modmul_value[OF SECP256r1_mod_ok(1) assms p256_ok_kR(1), of 0] kR_mod[of "bn a"] by auto
  have lt: "bn c < 2 ^ 257" using p256_less[OF c(2)] by simp
  obtain f where f: "mont_limbs [0..<0 + 9] ([], c) = Some ([] @ f)" "length f = 9" "bounded (2 ^ 29) (2 ^ 28) f"
    "limb_val False f + 2 ^ limb_bits False 9 * (bn c div 2 ^ limb_bits False 9) = bn c"
    using mont_limbs_correct[OF c(2), of 0 9 "[]"] by auto
  have "felem_val f = bn c" using f(4) lt by (simp add: limb_bits_9 felem_val_def)
  moreover have "felem_ok f"
  proof -
    obtain a0 a1 a2 a3 a4 a5 a6 a7 a8 where o: "f = [a0, a1, a2, a3, a4, a5, a6, a7, a8]"
      using felem_9[OF f(2)] by blast
    show ?thesis using f(3) by (simp add: o felem_ok_def)
  qed
  ultimately show ?thesis using c f(1) by (simp add: to_montgomery_def)
qed

lemma p256_add_d_value:
  assumes "p256_ok a"
  obtains b c where "p256_add_d a d = (b, c)" "p256_ok b" "c = 0 \<or> c = 1" "bn b + M256 * unat c = bn a + unat d"
proof -
  obtain b k where s: "add_d_loop (ucast d) a = (b, k)" by fastforce
  have "unat (ucast d :: u64) < 2 ^ 32" using u32_less[of d] by simp
  then have b: "length b = 8" "unat k \<le> 1" "bn b + M256 * unat k = bn a + unat d"
    using p256_add_d_loop[OF _ s] assms by (auto simp: p256_ok_def)
  have "unat k = 0 \<or> unat k = 1" using b(2) by linarith
  then have "k = 0 \<or> k = 1" by (auto simp: word_unat_eq_iff)
  then have "unat (ucast k :: u32) = unat k" "(ucast k :: u32) = 0 \<or> (ucast k :: u32) = 1" by auto
  then show thesis using that[of b "ucast k"] s b by (simp add: p256_add_d_def p256_ok_def)
qed

text \<open>One step of the reassembly, exact if no bit leaves the top digit by both routes.\<close>

lemma unmont_step:
  assumes "p256_ok r"
  obtains t tp r' c where "p256_shl r (if i mod 2 = 0 then 29 else 28) = Some (t, tp)"
    "p256_add_d t d = (r', c)" "p256_ok r'" "c = 0 \<or> c = 1"
    "bn r' + M256 * (unat tp + unat c) = unat d + 2 ^ (if odd (i :: nat) then 28 else 29) * bn r"
proof -
  let ?w = "if i mod 2 = 0 then 29 else 28 :: nat"
  obtain t tp where t: "p256_shl r ?w = Some (t, tp)" "p256_ok t" "bn t + M256 * unat tp = 2 ^ (?w mod 32) * bn r"
    using p256_shl_value[OF assms(1), of ?w] by (cases "i mod 2 = 0") auto
  obtain r' c where a: "p256_add_d t d = (r', c)" "p256_ok r'" "c = 0 \<or> c = 1" "bn r' + M256 * unat c = bn t + unat d"
    by (rule p256_add_d_value[OF t(2)])
  have w: "?w mod 32 = (if odd i then 28 else 29)" by (auto simp: odd_iff_mod_2_eq_one)
  have "bn r' + M256 * (unat tp + unat c) = unat d + 2 ^ (?w mod 32) * bn r" using t(3) a(4) by (simp add: distrib_left)
  then show thesis using that[OF t(1) a(1-3)] unfolding w by blast
qed

lemma limb_val_drop:
  "i < length a \<Longrightarrow> limb_val (odd i) (drop i a) = unat (a ! i) + 2 ^ (if odd i then 28 else 29) * limb_val (odd (Suc i)) (drop (Suc i) a)"
  by (subst Cons_nth_drop_Suc[symmetric]) simp_all

lemma limb_val_drop_le:
  "i < length a \<Longrightarrow> limb_val (odd (Suc i)) (drop (Suc i) a) \<le> limb_val (odd i) (drop i a)"
  by (subst (2) limb_val_drop) (simp_all add: trans_le_add2)

lemma limb_val_drop_first:
  assumes "length a = 9"
  shows "j < 9 \<Longrightarrow> limb_val (odd (Suc j)) (drop (Suc j) a) \<le> limb_val True (drop 1 a)"
proof (induction j)
  case (Suc j)
  then show ?case using limb_val_drop_le[of "Suc j" a] assms by simp
qed simp

text \<open>Down to limb 1 nothing leaves the 256 bits.\<close>

lemma unmont_upper:
  assumes "length a = 9" "limb_val True (drop 1 a) < M256"
  shows "i < 8 \<Longrightarrow> p256_ok r \<Longrightarrow> bn r = limb_val (odd (Suc i)) (drop (Suc i) a) \<Longrightarrow>
    \<exists>r1 tp1. unmont_loop a (Suc i) r tp = unmont_loop a (Suc 0) r1 tp1 \<and> p256_ok r1 \<and> bn r1 = limb_val True (drop 1 a)"
proof (induction i arbitrary: r tp)
  case 0
  then show ?case by (intro exI[of _ r] exI[of _ tp]) simp
next
  case (Suc i)
  obtain t tp1 r' c where s: "p256_shl r (if Suc i mod 2 = 0 then 29 else 28) = Some (t, tp1)"
    "p256_add_d t (a ! Suc i) = (r', c)" "p256_ok r'" "c = 0 \<or> c = 1"
    "bn r' + M256 * (unat tp1 + unat c) = unat (a ! Suc i) + 2 ^ (if odd (Suc i) then 28 else 29) * bn r"
    by (rule unmont_step[OF Suc.prems(2), of "Suc i" "a ! Suc i"])
  have v: "bn r' + M256 * (unat tp1 + unat c) = limb_val (odd (Suc i)) (drop (Suc i) a)"
    using s(5) limb_val_drop[of "Suc i" a] Suc.prems assms(1) by simp
  have "limb_val (odd (Suc i)) (drop (Suc i) a) < M256"
    using limb_val_drop_first[OF assms(1), of i] Suc.prems(1) assms(2) by linarith
  then have "M256 * (unat tp1 + unat c) < M256 * 1" using v by linarith
  then have "unat tp1 + unat c < 1" using mult_less_cancel1[of M256 "unat tp1 + unat c" 1] by blast
  then have z: "tp1 = 0" "c = 0" by (simp_all add: unat_eq_0)
  have "unmont_loop a (Suc (Suc i)) r tp = unmont_loop a (Suc i) r' (tp1 OR c)"
    using s(1,2) by (simp del: unmont_loop.simps add: unmont_loop.simps(2)[of a "Suc i"])
  then show ?case using Suc.IH[of r' "tp1 OR c"] Suc.prems s(3) v z by simp
qed

lemma from_montgomery_unfold:
  assumes "felem_ok f"
  obtains r t tp r' c where "p256_ok r" "bn r = limb_val True (drop 1 f)" "p256_ok r'" "c = 0 \<or> c = 1"
    "bn r' + M256 * (unat tp + unat c) = felem_val f" "bn t + M256 * unat tp = 2 ^ 29 * bn r" "p256_ok t"
    "from_montgomery f = p256_modmul SECP256r1_p kRInv (tp OR c) r'"
proof -
  have len: "length f = 9" using assms by (simp add: felem_ok_def)
  have ok: "p256_ok p256_init" "bn p256_init = 0"
    using bn_replicate_zero[of 8] by (simp_all add: p256_init_def p256_ok_def)
  obtain r0 c0 where r0: "p256_add_d p256_init (f ! 8) = (r0, c0)" "p256_ok r0" "c0 = 0 \<or> c0 = 1" "bn r0 + M256 * unat c0 = unat (f ! 8)"
    using p256_add_d_value[OF ok(1), of "f ! 8"] ok(2) by auto
  have "M256 * unat c0 < M256" using r0(4) u32_less[of "f ! 8"] by simp
  then have b: "bn r0 = limb_val (odd (Suc 7)) (drop (Suc 7) f)"
    using r0(4) limb_val_drop[of 8 f] len by (simp add: unat_eq_0)
  have val: "felem_val f = unat (f ! 0) + 2 ^ 29 * limb_val True (drop 1 f)"
    using limb_val_drop[of 0 f] len by (simp add: felem_val_def)
  then have up: "limb_val True (drop 1 f) < M256" using felem_val_less[OF assms] by simp
  obtain r1 tp1 where r1: "unmont_loop f (Suc 7) r0 0 = unmont_loop f (Suc 0) r1 tp1" "p256_ok r1" "bn r1 = limb_val True (drop 1 f)"
    using unmont_upper[OF len up _ r0(2) b] by auto
  obtain t tp where t: "p256_shl r1 29 = Some (t, tp)" "p256_ok t" "bn t + M256 * unat tp = 2 ^ 29 * bn r1"
    using p256_shl_value[OF r1(2), of 29] by auto
  obtain r' c where r': "p256_add_d t (f ! 0) = (r', c)" "p256_ok r'" "c = 0 \<or> c = 1" "bn r' + M256 * unat c = bn t + unat (f ! 0)"
    by (rule p256_add_d_value[OF t(2)])
  have "unmont_loop f 8 r0 0 = Some (r', tp OR c)" using r1(1) t(1) r'(1) by simp
  then have "from_montgomery f = p256_modmul SECP256r1_p kRInv (tp OR c) r'"
    using r0(1) by (simp add: from_montgomery_def del: unmont_loop.simps)
  moreover have "bn r' + M256 * (unat tp + unat c) = felem_val f" using r'(4) t(3) r1(3) val by simp
  ultimately show thesis using that r1(2,3) r' t by blast
qed

lemma from_montgomery_value:
  assumes "felem_ok f" "felem_val f < 2 ^ 257"
  shows "\<exists>r. from_montgomery f = Some r \<and> p256_ok r \<and> bn r = bn kRInv * felem_val f mod secp"
proof -
  obtain r t tp r' c where "p256_ok r" "bn r = limb_val True (drop 1 f)" and u: "p256_ok r'" "c = 0 \<or> c = 1"
    "bn r' + M256 * (unat tp + unat c) = felem_val f" and "bn t + M256 * unat tp = 2 ^ 29 * bn r" "p256_ok t"
    and m: "from_montgomery f = p256_modmul SECP256r1_p kRInv (tp OR c) r'"
    by (rule from_montgomery_unfold[OF assms(1)])
  have "M256 * (unat tp + unat c) < M256 * 2" using u(3) assms(2) by simp
  then have "unat tp + unat c < 2" using mult_less_cancel1[of M256 "unat tp + unat c" 2] by blast
  then have "tp = 0 \<or> c = 0" using u(2) by (auto simp: unat_eq_0)
  then have "unat (tp OR c) = unat tp + unat c" by auto
  then show ?thesis using p256_modmul_value[OF SECP256r1_mod_ok(1) p256_ok_kR(2) u(1), of "tp OR c"] u(3) m by simp
qed

section \<open>Properties\<close>

text \<open>
  The Montgomery conversions are inverse to each other: every number below the prime comes back from
  \<open>from_montgomery\<close> after \<open>to_montgomery\<close>, whose result is \<open>a * 2\<^sup>2\<^sup>5\<^sup>7\<close> modulo the prime within the limb
  bounds.
\<close>

lemma montgomery_round_trip:
  assumes "p256_ok a" "bn a < secp"
  shows "\<exists>f. to_montgomery a = Some f \<and> felem_ok f \<and> felem_val f = bn a * 2 ^ 257 mod secp \<and>
    from_montgomery f = Some a"
proof -
  obtain f where f: "to_montgomery a = Some f" "felem_ok f" "felem_val f = bn a * 2 ^ 257 mod secp"
    using to_montgomery_value[OF assms(1)] by blast
  have "0 < secp" "secp < 2 ^ 257" by (simp_all add: SECP256r1_values)
  then have "felem_val f < 2 ^ 257" unfolding f(3) using mod_less_divisor[of secp] less_trans by blast
  then obtain r where r: "from_montgomery f = Some r" "p256_ok r" "bn r = bn kRInv * felem_val f mod secp"
    using from_montgomery_value[OF f(2)] by blast
  have "bn r = bn a * (bn kRInv * 2 ^ 257) mod secp"
    unfolding r(3) f(3) by (simp add: mod_mult_right_eq mult.left_commute)
  also have "\<dots> = bn a * (bn kRInv * 2 ^ 257 mod secp) mod secp" by (rule mod_mult_right_eq[symmetric])
  also have "\<dots> = bn a" using assms(2) by (simp only: kRInv_mod) simp
  finally have "r = a" using r(2) assms(1) by (intro bn_inj) (simp_all add: p256_ok_def)
  then show ?thesis using f r(1) by blast
qed

theorem montgomery_round_trip_witness:
  "\<exists>f. to_montgomery SECP256r1_b = Some f \<and> felem_ok f \<and> felem_val f = bn SECP256r1_b * 2 ^ 257 mod secp \<and>
     from_montgomery f = Some SECP256r1_b"
  by (rule montgomery_round_trip) (simp_all add: SECP256r1_values)

text \<open>
  \<open>from_montgomery\<close> merges the shifted-out bit and the carry with \<open>top |= ...\<close>: for the element below,
  which is within the limb bounds and stands for 1, both are set, one is lost, and the result is
  one half modulo the prime.
\<close>

definition full_felem :: felem where
  "full_felem = [0x20000000, 0xfffffff, 0x1fffffff, 0xfffffff, 0x1fffffff, 0xfffffff, 0x1fffffff, 0xfffffff, 0x1fffffff]"

lemma full_felem_facts: "felem_ok full_felem" "felem_val full_felem = 2 ^ 257" "limb_val True (drop 1 full_felem) = 2 ^ 228 - 1"
  by (simp_all add: full_felem_def felem_ok_def felem_val_def)

lemma full_felem_result: "2 * (bn kRInv * 2 ^ 256 mod secp) = secp + 1"
proof -
  have "bn kRInv * 2 ^ 256 mod secp = 0x7fffffff80000000800000000000000000000000800000000000000000000000"
    unfolding SECP256r1_values by (rule mod_by_quotient[of _ "0x7fffffff80000001000000000000000000000000800000000000000000000000"]) (simp_all add: kRInv_def)
  then show ?thesis by (simp only: SECP256r1_values) simp
qed

lemma from_montgomery_lost_carry:
  "felem_ok full_felem \<and> bn kRInv * felem_val full_felem mod secp = 1 \<and>
   (\<exists>r. from_montgomery full_felem = Some r \<and> 2 * bn r = secp + 1)"
proof -
  obtain r t tp r' c where u: "p256_ok r" "bn r = limb_val True (drop 1 full_felem)" "p256_ok r'" "c = 0 \<or> c = 1"
    "bn r' + M256 * (unat tp + unat c) = felem_val full_felem" "bn t + M256 * unat tp = 2 ^ 29 * bn r" "p256_ok t"
    "from_montgomery full_felem = p256_modmul SECP256r1_p kRInv (tp OR c) r'"
    by (rule from_montgomery_unfold[OF full_felem_facts(1)])
  have "bn t < M256" using p256_less[OF u(7)] .
  moreover have "bn t + M256 * unat tp = 2 ^ 257 - 2 ^ 29" using u(6) unfolding u(2) full_felem_facts(3) by simp
  ultimately have tp: "unat tp = 1" by simp
  have "bn r' < M256" using p256_less[OF u(3)] .
  moreover have "bn r' + M256 * unat c = M256" using u(5) unfolding full_felem_facts(2) tp by simp
  ultimately have c: "c = 1 \<and> bn r' = 0" using u(4) by (elim disjE) simp_all
  have "tp = 1" using tp by (simp add: word_unat_eq_iff)
  then have "tp OR c = 1" using c by simp
  then obtain z where "from_montgomery full_felem = Some z" "bn z = bn kRInv * 2 ^ 256 mod secp"
    using p256_modmul_value[OF SECP256r1_mod_ok(1) p256_ok_kR(2) u(3), of 1] u(8) c by auto
  then have "\<exists>r. from_montgomery full_felem = Some r \<and> 2 * bn r = secp + 1"
    using full_felem_result by metis
  then show ?thesis using full_felem_facts(1) kRInv_mod unfolding full_felem_facts(2) by blast
qed

end
