(* ===== verification/Power_Chain.thy ===== *)
theory Power_Chain
  imports Main
begin

text \<open>
  Addition chains. A multiplication that keeps a well-formedness predicate and multiplies the numbers its
  operands stand for modulo \<open>p\<close> takes powers to powers; a chain of products and squarings computes the
  power whose exponent the chain builds up.
\<close>

locale modular_product =
  fixes p :: int and ok :: "'f \<Rightarrow> bool" and num :: "'f \<Rightarrow> int" and mul :: "'f \<Rightarrow> 'f \<Rightarrow> 'f"
  assumes ok_mul: "ok a \<Longrightarrow> ok b \<Longrightarrow> ok (mul a b)"
    and num_mul: "ok a \<Longrightarrow> ok b \<Longrightarrow> num (mul a b) = num a * num b mod p"
begin

definition is_power :: "int \<Rightarrow> nat \<Rightarrow> 'f \<Rightarrow> bool" where
  "is_power n e x \<longleftrightarrow> ok x \<and> num x mod p = n ^ e mod p"

lemma is_power_mul: "is_power n e x \<Longrightarrow> is_power n f y \<Longrightarrow> is_power n (e + f) (mul x y)"
  unfolding is_power_def by (metis mod_mod_trivial mod_mult_eq num_mul ok_mul power_add)

lemma is_power_square: "is_power n e x \<Longrightarrow> is_power n (2 * e) (mul x x)"
  using is_power_mul[of n e x e x] by (simp add: mult_2)

text \<open>Repeated squaring by any operation that agrees with multiplication on well-formed operands.\<close>

lemma is_power_squares:
  assumes "\<And>x. ok x \<Longrightarrow> sq x = mul x x" "is_power n e x"
  shows "is_power n (2 ^ k * e) ((sq ^^ k) x)"
proof (induction k)
  case (Suc k)
  then have "sq ((sq ^^ k) x) = mul ((sq ^^ k) x) ((sq ^^ k) x)" by (intro assms(1)) (simp add: is_power_def)
  then show ?case using is_power_square[OF Suc] by (simp add: mult.assoc)
qed (use assms(2) in simp)

end

end
