(* ===== verification/P256_Mul.thy ===== *)
theory P256_Mul
  imports P256_Degree P256_Mont Power_Chain
begin

text \<open>
  Products of field elements (\<open>felem_mul\<close>, \<open>felem_square\<close>, \<open>felem_inv\<close> of \<^verbatim>\<open>p256_ec.c\<close>): the seventeen 64-bit columns of
  a product are cut into words without loss, none of the columns overflows, and with the degree
  reduction the result is the Montgomery product modulo the prime.
\<close>

section \<open>Cutting the columns\<close>

definition width :: "nat \<Rightarrow> nat" where "width k = (if even k then 29 else 28)"

lemma width_simps: "even k \<Longrightarrow> width k = 29" "odd k \<Longrightarrow> width k = 28" "width k + width (Suc k) = 57"
  by (simp_all add: width_def)

text \<open>What the columns below \<open>k\<close> contribute to word \<open>k\<close>, and all that falls on it.\<close>

definition above :: "(nat \<Rightarrow> int) \<Rightarrow> nat \<Rightarrow> int" where
  "above T k = (if 1 \<le> k then T (k - 1) div 2 ^ width (k - 1) mod 2 ^ width k else 0) + (if 2 \<le> k then T (k - 2) div 2 ^ 57 else 0)"

definition cut :: "(nat \<Rightarrow> int) \<Rightarrow> nat \<Rightarrow> int" where "cut T k = T k mod 2 ^ width k + above T k"

lemma wt_Suc: "wt (Suc n) = 2 ^ width n * wt n" "wt (Suc (Suc n)) = 2 ^ 57 * wt n"
proof -
  show "wt (Suc n) = 2 ^ width n * wt n"
    unfolding wt_def power_add[symmetric] by (rule arg_cong[where f = "power 2"]) (auto simp: width_def elim!: evenE oddE)
  show "wt (Suc (Suc n)) = 2 ^ 57 * wt n" by (simp add: wt_def power_add)
qed

lemma three_parts:
  "(t :: int) = t mod 2 ^ width n + 2 ^ width n * (t div 2 ^ width n mod 2 ^ width (Suc n)) + 2 ^ 57 * (t div 2 ^ 57)"
proof -
  have p: "(2 :: int) ^ 57 = 2 ^ width n * 2 ^ width (Suc n)" unfolding power_add[symmetric] width_simps(3) ..
  have "t mod 2 ^ 57 = 2 ^ width n * (t div 2 ^ width n mod 2 ^ width (Suc n)) + t mod 2 ^ width n"
    unfolding p by (rule zmod_zmult2_eq) simp
  then show ?thesis using mult_div_mod_eq[of "2 ^ 57" t] by linarith
qed

lemma sum_cut:
  "(\<Sum>k<n. cut T k * wt k) + above T n * wt n + (if 1 \<le> n then T (n - 1) div 2 ^ 57 else 0) * wt (Suc n) = (\<Sum>k<n. T k * wt k)"
proof (induction n)
  case (Suc n)
  have "T n * wt n = (T n mod 2 ^ width n + 2 ^ width n * (T n div 2 ^ width n mod 2 ^ width (Suc n)) + 2 ^ 57 * (T n div 2 ^ 57)) * wt n"
    using three_parts[of "T n" n] by (rule arg_cong)
  also have "\<dots> = T n mod 2 ^ width n * wt n + (T n div 2 ^ width n mod 2 ^ width (Suc n)) * wt (Suc n)
      + (T n div 2 ^ 57) * wt (Suc (Suc n))"
    unfolding wt_Suc(1)[of n] wt_Suc(2)[of n] by (simp only: distrib_right distrib_left ac_simps)
  finally show ?case using Suc unfolding sum.lessThan_Suc cut_def above_def[of T "Suc n"]
    by (cases n) (simp_all add: distrib_right)
qed (simp add: above_def)

section \<open>The words of the code\<close>

lemma uint_u64: "0 \<le> uint (t :: u64)" "uint t < 2 ^ 64"
  using uint_lt2p[of t] by simp_all

lemma ucast_wi: "(ucast (t :: u64) :: u32) = wi (uint t)"
  by (simp add: wi_def)

lemma ucast_high_wi: "(ucast (drop_bit 32 (t :: u64)) :: u32) = wi (uint t div 2 ^ 32)"
  unfolding ucast_wi uint_nat unat_shift32 zdiv_int of_nat_power of_nat_numeral ..

lemma wi_mod: "wi a = wi (a mod 2 ^ 32)"
  unfolding wi_def word_of_int_eq_iff by (simp add: take_bit_eq_mod)

lemma split_at:
  assumes "c = a + b"
  shows "(t :: int) mod 2 ^ c div 2 ^ a = t div 2 ^ a mod 2 ^ b" "t div 2 ^ c = t div 2 ^ a div 2 ^ b"
proof -
  have p: "(2 :: int) ^ c = 2 ^ a * 2 ^ b" by (simp add: assms power_add)
  have "t mod 2 ^ c = 2 ^ a * (t div 2 ^ a mod 2 ^ b) + t mod 2 ^ a" unfolding p by (rule zmod_zmult2_eq) simp
  then show "t mod 2 ^ c div 2 ^ a = t div 2 ^ a mod 2 ^ b" by (simp add: div_mult_self4)
  show "t div 2 ^ c = t div 2 ^ a div 2 ^ b" unfolding p by (rule zdiv_zmult2_eq) simp
qed

lemma middle:
  assumes "b \<le> n" "c = a + b"
  shows "(t :: int) mod 2 ^ c div 2 ^ a + t div 2 ^ c * 2 ^ b mod 2 ^ n = t div 2 ^ a mod 2 ^ n"
proof -
  define y where "y = t div 2 ^ a"
  have p: "(2 :: int) ^ n = 2 ^ b * 2 ^ (n - b)" using assms(1) by (simp flip: power_add)
  have "y div 2 ^ b * 2 ^ b mod 2 ^ n = 2 ^ b * (y div 2 ^ b mod 2 ^ (n - b))"
    unfolding p by (simp only: mult.commute[of _ "2 ^ b"] mod_mult_mult1)
  moreover have "y mod 2 ^ n = 2 ^ b * (y div 2 ^ b mod 2 ^ (n - b)) + y mod 2 ^ b" unfolding p by (rule zmod_zmult2_eq) simp
  ultimately show ?thesis unfolding split_at[OF assms(2)] by (simp only: y_def add.commute)
qed

text \<open>The parts of a column as the code extracts them.\<close>

lemma high_part: "drop_bit 25 (ucast (drop_bit 32 (t :: u64)) :: u32) = wi (uint t div 2 ^ 57)"
proof -
  have "0 \<le> uint t div 2 ^ 32 \<and> uint t div 2 ^ 32 < 2 ^ 32" using uint_u64[of t] by (intro div_bound) simp_all
  then show ?thesis unfolding ucast_high_wi by (simp add: drop_wi zdiv_zmult2_eq[symmetric])
qed

lemma low_drop: "drop_bit n (wi a) = wi (a mod 2 ^ 32 div 2 ^ n)"
  unfolding wi_mod[of a] by (rule drop_wi) simp_all

lemma middle_parts:
  "drop_bit 28 (ucast (t :: u64)) + (push_bit 4 (ucast (drop_bit 32 t)) AND kBottom29Bits) = wi (uint t div 2 ^ 28 mod 2 ^ 29)"
  "drop_bit 29 (ucast (t :: u64)) + (push_bit 3 (ucast (drop_bit 32 t)) AND kBottom28Bits) = wi (uint t div 2 ^ 29 mod 2 ^ 28)"
proof -
  have m: "uint t mod 2 ^ 32 div 2 ^ 28 + uint t div 2 ^ 32 * 2 ^ 4 mod 2 ^ 29 = uint t div 2 ^ 28 mod 2 ^ 29"
    "uint t mod 2 ^ 32 div 2 ^ 29 + uint t div 2 ^ 32 * 2 ^ 3 mod 2 ^ 28 = uint t div 2 ^ 29 mod 2 ^ 28"
    by (rule middle; simp)+
  show "drop_bit 28 (ucast (t :: u64)) + (push_bit 4 (ucast (drop_bit 32 t)) AND kBottom29Bits) = wi (uint t div 2 ^ 28 mod 2 ^ 29)"
    "drop_bit 29 (ucast (t :: u64)) + (push_bit 3 (ucast (drop_bit 32 t)) AND kBottom28Bits) = wi (uint t div 2 ^ 29 mod 2 ^ 28)"
    unfolding ucast_high_wi unfolding ucast_wi push_wi and_wi low_drop wi_simps m by (rule refl)+
qed

definition column :: "u64 list \<Rightarrow> nat \<Rightarrow> int" where "column tmp k = uint (tmp ! k)"

lemma cut_bound: "(\<And>k. 0 \<le> T k \<and> T k < 2 ^ 64) \<Longrightarrow> 0 \<le> cut T k \<and> cut T k < 2 ^ 31"
proof -
  assume T: "\<And>k. 0 \<le> T k \<and> T k < 2 ^ 64"
  have h: "0 \<le> T j div 2 ^ 57 \<and> T j div 2 ^ 57 < 2 ^ 7" for j using T[of j] by (intro div_bound) simp_all
  have m: "0 \<le> y mod 2 ^ width j" "y mod 2 ^ width j < 2 ^ 29" for y :: int and j
  proof -
    show "0 \<le> y mod 2 ^ width j" by simp
    have "(2 :: int) ^ width j \<le> 2 ^ 29" by (simp add: width_def)
    moreover have "y mod 2 ^ width j < 2 ^ width j" by simp
    ultimately show "y mod 2 ^ width j < 2 ^ 29" by (rule less_le_trans[rotated])
  qed
  show ?thesis
    using m[of "T k" k] m[of "T (k - 1) div 2 ^ width (k - 1)" k] h[of "k - 2"]
    by (auto simp: cut_def above_def simp del: One_nat_def)
qed

lemma degree_limb_step:
  fixes tmp :: "u64 list"
  assumes "2 \<le> i" "0 \<le> c" "c \<le> 16"
  defines "w \<equiv> cut (column tmp) i + c"
  shows "degree_limb tmp (out, wi c) i = (out @ [wi (w mod 2 ^ width i)], wi (w div 2 ^ width i))" "0 \<le> w" "w < 2 ^ 32"
proof -
  have "0 \<le> cut (column tmp) i \<and> cut (column tmp) i < 2 ^ 31" by (rule cut_bound) (simp add: column_def uint_u64[simplified])
  then show w: "0 \<le> w" "w < 2 ^ 32" using assms(2,3) by (simp_all add: w_def)
  show "degree_limb tmp (out, wi c) i = (out @ [wi (w mod 2 ^ width i)], wi (w div 2 ^ width i))"
  proof (cases "even i")
    case True
    then have i1: "odd (i - 1)" using assms(1) by simp
    have "w = (column tmp (i - 2) div 2 ^ 57 + column tmp (i - 1) div 2 ^ 28 mod 2 ^ 29) + column tmp i mod 2 ^ 29 + c"
      using assms(1) True by (simp add: w_def cut_def above_def width_simps i1)
    then have "drop_bit 25 (ucast (drop_bit 32 (tmp ! (i - 2)))) + drop_bit 28 (ucast (tmp ! (i - 1)))
        + (push_bit 4 (ucast (drop_bit 32 (tmp ! (i - 1)))) AND kBottom29Bits) + (ucast (tmp ! i) AND kBottom29Bits) + wi c = wi w"
      unfolding add.assoc[of _ "drop_bit 28 (ucast (tmp ! (i - 1)))"] middle_parts high_part
      unfolding ucast_wi and_wi wi_simps column_def by simp
    then show ?thesis using True by (simp add: degree_limb_def Let_def width_simps and_wi[simplified] drop_wi[OF w, simplified])
  next
    case False
    then have i1: "even (i - 1)" using assms(1) by simp
    have "w = (column tmp (i - 2) div 2 ^ 57 + column tmp (i - 1) div 2 ^ 29 mod 2 ^ 28) + column tmp i mod 2 ^ 28 + c"
      using assms(1) False by (simp add: w_def cut_def above_def width_simps i1)
    then have "drop_bit 25 (ucast (drop_bit 32 (tmp ! (i - 2)))) + drop_bit 29 (ucast (tmp ! (i - 1)))
        + (push_bit 3 (ucast (drop_bit 32 (tmp ! (i - 1)))) AND kBottom28Bits) + (ucast (tmp ! i) AND kBottom28Bits) + wi c = wi w"
      unfolding add.assoc[of _ "drop_bit 29 (ucast (tmp ! (i - 1)))"] middle_parts high_part
      unfolding ucast_wi and_wi wi_simps column_def by simp
    then show ?thesis using False by (simp add: degree_limb_def Let_def width_simps and_wi[simplified] drop_wi[OF w, simplified])
  qed
qed

lemma first_words:
  "(ucast (t AND ucast kBottom29Bits :: u64) :: u32) = wi (uint t mod 2 ^ 29)"
  "drop_bit 29 (ucast t :: u32) OR (push_bit 3 (ucast (drop_bit 32 t)) AND kBottom28Bits) = wi (uint t div 2 ^ 29 mod 2 ^ 28)"
proof -
  have "(ucast (t AND ucast kBottom29Bits) :: u32) = ucast t AND kBottom29Bits" by (rule bit_word_eqI) (auto simp: bit_simps)
  then show "(ucast (t AND ucast kBottom29Bits) :: u32) = wi (uint t mod 2 ^ 29)" by (simp only: ucast_wi and_wi)
  have "drop_bit 29 (ucast t :: u32) OR (push_bit 3 (ucast (drop_bit 32 t)) AND kBottom28Bits)
    = drop_bit 29 (ucast t) + (push_bit 3 (ucast (drop_bit 32 t)) AND kBottom28Bits)"
    by (rule disjunctive_add[symmetric]) (auto simp: bit_simps)
  then show "drop_bit 29 (ucast t :: u32) OR (push_bit 3 (ucast (drop_bit 32 t)) AND kBottom28Bits) = wi (uint t div 2 ^ 29 mod 2 ^ 28)"
    by (simp only: middle_parts)
qed

lemma carry_bound: "0 \<le> (w :: int) \<Longrightarrow> w < 2 ^ 32 \<Longrightarrow> 0 \<le> w div 2 ^ width i \<and> w div 2 ^ width i \<le> 16"
proof -
  assume "0 \<le> w" "w < 2 ^ 32"
  then have "0 \<le> w div 2 ^ width i \<and> w div 2 ^ width i < 16" by (intro div_bound) (auto simp: width_def)
  then show ?thesis by simp
qed

definition first_limbs :: "u64 list \<Rightarrow> u32 list \<times> u32" where
  "first_limbs tmp =
     (let t0 = ucast (tmp ! 0 AND ucast kBottom29Bits);
          t1 = drop_bit 29 (ucast (tmp ! 0)) OR (push_bit 3 (ucast (drop_bit 32 (tmp ! 0))) AND kBottom28Bits);
          t1 = t1 + (ucast (tmp ! 1) AND kBottom28Bits)
      in ([t0, t1 AND kBottom28Bits], drop_bit 28 t1))"

lemma first_limbs_rep:
  fixes tmp :: "u64 list"
  defines "w \<equiv> cut (column tmp) 1"
  shows "first_limbs tmp = ([wi (cut (column tmp) 0), wi (w mod 2 ^ 28)], wi (w div 2 ^ 28))" "0 \<le> w" "w < 2 ^ 32"
proof -
  have c: "cut (column tmp) 0 = uint (tmp ! 0) mod 2 ^ 29" "w = uint (tmp ! 0) div 2 ^ 29 mod 2 ^ 28 + uint (tmp ! 1) mod 2 ^ 28"
    by (simp_all add: w_def cut_def above_def width_def column_def)
  have "0 \<le> cut (column tmp) 1 \<and> cut (column tmp) 1 < 2 ^ 31" by (rule cut_bound) (simp add: column_def uint_u64[simplified])
  then show w: "0 \<le> w" "w < 2 ^ 32" by (simp_all add: w_def)
  show "first_limbs tmp = ([wi (cut (column tmp) 0), wi (w mod 2 ^ 28)], wi (w div 2 ^ 28))"
    unfolding first_limbs_def Let_def first_words c(1) unfolding ucast_wi and_wi wi_simps c(2)[symmetric] drop_wi[OF w] by (rule refl)
qed

lemma degree_fold:
  assumes "2 \<le> n"
  shows "\<exists>d c. foldl (degree_limb tmp) (first_limbs tmp) [2..<n] = (map (\<lambda>k. wi (d k)) [0..<n], wi c) \<and> 0 \<le> c \<and> c \<le> 16 \<and>
    (\<forall>k. 0 \<le> d k \<and> d k < 2 ^ width k) \<and> (\<Sum>k<n. d k * wt k) + c * wt n = (\<Sum>k<n. cut (column tmp) k * wt k)"
  using assms
proof (induction n rule: dec_induct)
  case base
  define w where "w = cut (column tmp) 1"
  note f = first_limbs_rep[of tmp, folded w_def]
  define d where "d k = (if k = 0 then cut (column tmp) 0 else if k = 1 then w mod 2 ^ 28 else 0)" for k :: nat
  have "d k \<ge> 0 \<and> d k < 2 ^ width k" for k by (simp add: d_def cut_def above_def width_def)
  moreover have "(\<Sum>k<2. d k * wt k) + (w div 2 ^ 28) * wt 2 = cut (column tmp) 0 * wt 0 + w * wt 1"
  proof -
    have "w * wt 1 = (w mod 2 ^ 28 + 2 ^ 28 * (w div 2 ^ 28)) * wt 1" by (simp only: mod_mult_div_eq)
    also have "wt 2 = 2 ^ 28 * wt 1" by simp
    then have "(w mod 2 ^ 28 + 2 ^ 28 * (w div 2 ^ 28)) * wt 1 = w mod 2 ^ 28 * wt 1 + (w div 2 ^ 28) * wt 2"
      by (simp only: distrib_right distrib_left ac_simps)
    finally show ?thesis by (simp add: d_def numeral_2_eq_2)
  qed
  moreover have "foldl (degree_limb tmp) (first_limbs tmp) [2..<2] = (map (\<lambda>k. wi (d k)) [0..<2], wi (w div 2 ^ 28))"
    using f(1) by (simp add: d_def upt_rec)
  moreover have "0 \<le> w div 2 ^ 28 \<and> w div 2 ^ 28 \<le> 16" using carry_bound[OF f(2,3), of 1] by (simp add: width_def)
  ultimately show ?case
    by (intro exI[of _ d] exI[of _ "w div 2 ^ 28"]) (simp add: w_def numeral_2_eq_2)
next
  case (step n)
  then obtain d c where s: "foldl (degree_limb tmp) (first_limbs tmp) [2..<n] = (map (\<lambda>k. wi (d k)) [0..<n], wi c)" "0 \<le> c" "c \<le> 16"
    "\<forall>k. 0 \<le> d k \<and> d k < 2 ^ width k" "(\<Sum>k<n. d k * wt k) + c * wt n = (\<Sum>k<n. cut (column tmp) k * wt k)" by blast
  define w where "w = cut (column tmp) n + c"
  note st = degree_limb_step[OF step.hyps(1) s(2,3), of tmp, folded w_def]
  let ?d = "d(n := w mod 2 ^ width n)"
  have "foldl (degree_limb tmp) (first_limbs tmp) [2..<Suc n] = (map (\<lambda>k. wi (?d k)) [0..<Suc n], wi (w div 2 ^ width n))"
    using step.hyps s(1) st(1) by simp
  moreover have "(\<Sum>k<Suc n. ?d k * wt k) + (w div 2 ^ width n) * wt (Suc n) = (\<Sum>k<Suc n. cut (column tmp) k * wt k)"
  proof -
    have "w mod 2 ^ width n * wt n + (w div 2 ^ width n) * wt (Suc n) = (w mod 2 ^ width n + 2 ^ width n * (w div 2 ^ width n)) * wt n"
      unfolding wt_Suc by (simp only: distrib_right distrib_left ac_simps)
    also have "\<dots> = cut (column tmp) n * wt n + c * wt n" by (simp only: mod_mult_div_eq w_def distrib_right)
    finally show ?thesis using s(5) by simp
  qed
  moreover have "\<forall>k. 0 \<le> ?d k \<and> ?d k < 2 ^ width k" using s(4) by simp
  ultimately show ?case using carry_bound[OF st(2,3), of n] by (intro exI[of _ ?d] exI[of _ "w div 2 ^ width n"]) blast
qed

lemma degree_limbs_correct:
  assumes "length tmp = 17" "uint (tmp ! 16) < 2 ^ 60"
  shows "\<exists>v. degree_limbs tmp = rep v \<and> words_ok 0 v word_limits \<and> words_val v = (\<Sum>k<17. column tmp k * wt k)"
proof -
  obtain d c where f: "foldl (degree_limb tmp) (first_limbs tmp) [2..<17] = (map (\<lambda>k. wi (d k)) [0..<17], wi c)" "0 \<le> c" "c \<le> 16"
    "\<forall>k. 0 \<le> d k \<and> d k < 2 ^ width k" "(\<Sum>k<17. d k * wt k) + c * wt 17 = (\<Sum>k<17. cut (column tmp) k * wt k)"
    using degree_fold[of 17 tmp] by auto
  let ?T = "column tmp"
  define e where "e = ?T 15 div 2 ^ 57 + ?T 16 div 2 ^ 29 + c"
  define v where "v k = (if k < 17 then d k else if k = 17 then e else 0)" for k
  have T: "0 \<le> ?T k \<and> ?T k < 2 ^ 64" for k by (simp add: column_def uint_u64[simplified])
  have "0 \<le> ?T 15 div 2 ^ 57 \<and> ?T 15 div 2 ^ 57 < 2 ^ 7" using T[of 15] by (intro div_bound) simp_all
  moreover have "0 \<le> ?T 16 div 2 ^ 29 \<and> ?T 16 div 2 ^ 29 < 2 ^ 31" using T[of 16] assms(2) by (intro div_bound) (simp_all add: column_def)
  ultimately have e: "0 \<le> e" "e \<le> 2 ^ 31 + 2 ^ 8" using f(2,3) by (simp_all add: e_def)
  have "?T 16 mod 2 ^ 32 div 2 ^ 29 + ?T 16 div 2 ^ 32 * 2 ^ 3 = ?T 16 div 2 ^ 29"
    unfolding split_at[of 32 29 3 "?T 16", simplified] using mod_mult_div_eq[of "?T 16 div 2 ^ 29" "2 ^ 3"]
    by (simp add: split_at[of 32 29 3, simplified])
  then have last: "drop_bit 25 (ucast (drop_bit 32 (tmp ! 15))) + drop_bit 29 (ucast (tmp ! 16))
      + push_bit 3 (ucast (drop_bit 32 (tmp ! 16))) + wi c = wi e"
    unfolding high_part unfolding ucast_high_wi unfolding ucast_wi push_wi low_drop wi_simps e_def column_def by (simp add: add.assoc)
  have "degree_limbs tmp = map (\<lambda>k. wi (d k)) [0..<17] @ [wi e]"
    using f(1) last by (simp add: degree_limbs_def first_limbs_def Let_def)
  also have "\<dots> = rep v" by (simp add: rep_def v_def upt_Suc_append[of 0 17, simplified])
  finally have "degree_limbs tmp = rep v" .
  moreover have "words_ok 0 v word_limits"
  proof -
    have "0 \<le> v k" for k using f(4) e(1) by (simp add: v_def)
    moreover have "v k \<le> word_limits k" for k
      using spec[OF f(4), of k] e(2) by (cases "even k") (auto simp: v_def word_limits_def width_def)
    ultimately show ?thesis by (auto simp: words_ok_def low_def under_def pos_imp_zdiv_nonneg_iff intro: add_nonneg_nonneg)
  qed
  moreover have "words_val v = (\<Sum>k<17. ?T k * wt k)"
  proof -
    have "words_val v = (\<Sum>k<17. v k * wt k) + v 17 * wt 17"
      unfolding words_val_def using sum.lessThan_Suc[of "\<lambda>k. v k * wt k" 17] by simp
    also have "\<dots> = (\<Sum>k<17. d k * wt k) + e * wt 17" by (simp add: v_def)
    also have "\<dots> = (\<Sum>k<17. cut ?T k * wt k) + (?T 15 div 2 ^ 57 + ?T 16 div 2 ^ 29) * wt 17"
      using f(5) by (simp add: e_def distrib_right)
    also have "\<dots> = (\<Sum>k<17. ?T k * wt k)"
    proof -
      have "?T 16 div 2 ^ 29 = ?T 16 div 2 ^ 29 mod 2 ^ 28 + 2 ^ 28 * (?T 16 div 2 ^ 57)"
        unfolding split_at(2)[of 57 29 28 "?T 16", simplified] by (simp add: split_at(2)[of 57 29 28, simplified])
      moreover have "wt (Suc 17) = 2 ^ 28 * wt 17" unfolding wt_Suc by (simp add: width_def)
      moreover have "above ?T 17 = ?T 16 div 2 ^ 29 mod 2 ^ 28 + ?T 15 div 2 ^ 57" by (simp add: above_def width_def)
      moreover have "(h + (a + 2 ^ 28 * b)) * W = (a + h) * W + b * (2 ^ 28 * W)" for h a b W :: int by algebra
      ultimately have "(?T 15 div 2 ^ 57 + ?T 16 div 2 ^ 29) * wt 17 = above ?T 17 * wt 17 + (?T 16 div 2 ^ 57) * wt (Suc 17)"
        by metis
      then show ?thesis using sum_cut[of ?T 17] by simp
    qed
    finally show ?thesis .
  qed
  ultimately show ?thesis by blast
qed

lemma reduce_degree_correct:
  assumes "length tmp = 17" "uint (tmp ! 16) < 2 ^ 60"
  shows "felem_ok (felem_reduce_degree tmp) \<and>
    2 ^ 257 * int (felem_val (felem_reduce_degree tmp)) mod prime = (\<Sum>k<17. column tmp k * wt k) mod prime"
proof -
  obtain v where v: "degree_limbs tmp = rep v" "words_ok 0 v word_limits" "words_val v = (\<Sum>k<17. column tmp k * wt k)"
    using degree_limbs_correct[OF assms] by blast
  obtain v' where "eliminate (rep v) = rep v'" "words_ok 9 v' final_limits" "words_val v' mod prime = words_val v mod prime"
    using eliminate_correct[OF v(2)] by blast
  with reduce_words[of v' tmp] v(1,3) show ?thesis by simp
qed

section \<open>The columns of a product\<close>

definition wl :: "int \<Rightarrow> u64" where "wl k = of_int k"

definition col :: "(nat \<Rightarrow> int) \<Rightarrow> (nat \<Rightarrow> int) \<Rightarrow> nat \<Rightarrow> int" where
  "col A B k = (\<Sum>i<9. if i \<le> k \<and> k - i < 9 then A i * (B (k - i) * (if odd i \<and> odd (k - i) then 2 else 1)) else 0)"

lemma sum_9: "(\<Sum>i<(9 :: nat). f i) = f 0 + f 1 + f 2 + f 3 + f 4 + f 5 + f 6 + f 7 + (f 8 :: int)"
  by (simp add: numeral_eq_Suc)

lemma wl_simps: "wl a + wl b = wl (a + b)" "wl a * wl b = wl (a * b)"
  by (simp_all add: wl_def)

lemma ucast_wl: "(ucast (x :: u32) :: u64) = wl (uint x)"
  by (simp add: wl_def)

lemma ucast_push_wl:
  assumes "uint (x :: u32) * 2 ^ n < 2 ^ 32"
  shows "(ucast (push_bit n x) :: u64) = wl (uint x * 2 ^ n)"
proof -
  have "uint (push_bit n x) = uint x * 2 ^ n mod 2 ^ 32"
    unfolding unsigned_push_bit_eq unfolding push_bit_eq_mult take_bit_eq_mod by simp
  then show ?thesis unfolding ucast_wl using assms by simp
qed

lemma limb_int_bound:
  assumes "felem_ok a" "i < 9"
  shows "0 \<le> uint (a ! i) \<and> uint (a ! i) < 2 ^ 30 \<and> (odd i \<longrightarrow> uint (a ! i) < 2 ^ 29)"
proof -
  have "unat (a ! i) < (if even i then 2 ^ 30 else 2 ^ 29)" by (rule felem_nth_less[OF assms])
  then have "nat (uint (a ! i)) < nat (if even i then 2 ^ 30 else 2 ^ 29)" unfolding unat_eq_nat_uint by (cases "even i") simp_all
  then have "uint (a ! i) < (if even i then 2 ^ 30 else 2 ^ 29)" by (simp only: nat_less_eq_zless[OF uint_ge_0])
  then show ?thesis by (cases "even i") simp_all
qed

lemma felem_mul_columns:
  assumes "felem_ok b"
  shows "felem_mul a b = felem_reduce_degree (map (\<lambda>k. wl (col (\<lambda>i. uint (a ! i)) (\<lambda>i. uint (b ! i)) k)) [0..<17])"
proof -
  have p0: "(ucast (push_bit 0 x) :: u64) = wl (uint x)" for x :: u32 by (simp add: ucast_wl)
  have p1: "(ucast (push_bit 1 (b ! 1)) :: u64) = wl (uint (b ! 1) * 2)" "(ucast (push_bit 1 (b ! 3)) :: u64) = wl (uint (b ! 3) * 2)"
    "(ucast (push_bit 1 (b ! 5)) :: u64) = wl (uint (b ! 5) * 2)" "(ucast (push_bit 1 (b ! 7)) :: u64) = wl (uint (b ! 7) * 2)"
    using ucast_push_wl[of "b ! 1" 1] ucast_push_wl[of "b ! 3" 1] ucast_push_wl[of "b ! 5" 1] ucast_push_wl[of "b ! 7" 1]
      limb_int_bound[OF assms, of 1] limb_int_bound[OF assms, of 3] limb_int_bound[OF assms, of 5] limb_int_bound[OF assms, of 7]
    by simp_all
  have u: "[0..<17] = [0, 1, 2, 3, 4, 5, 6, 7, 8, 9, 10, 11, 12, 13, 14, 15, 16]" by (simp add: upt_rec)
  show ?thesis
    unfolding felem_mul_def p0 u col_def sum_9 p1
    by (simp add: ucast_wl wl_simps)
qed

lemma felem_square_columns:
  assumes "felem_ok a"
  shows "felem_square a = felem_reduce_degree (map (\<lambda>k. wl (col (\<lambda>i. uint (a ! i)) (\<lambda>i. uint (a ! i)) k)) [0..<17])"
proof -
  have p1: "(ucast (push_bit 1 (a ! i)) :: u64) = wl (uint (a ! i) * 2)" if "i < 9" for i
    using ucast_push_wl[of "a ! i" 1] limb_int_bound[OF assms that] by (simp only: power_one_right) simp
  have p2: "(ucast (push_bit 2 (a ! i)) :: u64) = wl (uint (a ! i) * 4)" if "i < 9" "odd i" for i
    using ucast_push_wl[of "a ! i" 2] limb_int_bound[OF assms that(1)] that(2) by (simp only: power2_eq_square) simp
  have u: "[0..<17] = [0, 1, 2, 3, 4, 5, 6, 7, 8, 9, 10, 11, 12, 13, 14, 15, 16]" by (simp add: upt_rec)
  have l: "(1 :: nat) < 9" "(2 :: nat) < 9" "(3 :: nat) < 9" "(4 :: nat) < 9" "(5 :: nat) < 9" "(6 :: nat) < 9" "(7 :: nat) < 9" "(8 :: nat) < 9"
    "odd (3 :: nat)" "odd (5 :: nat)" "odd (7 :: nat)" by simp_all
  show ?thesis
    unfolding felem_square_def u col_def sum_9 p1[OF l(1)] p1[OF l(2)] p1[OF l(3)] p1[OF l(4)] p1[OF l(5)] p1[OF l(6)] p1[OF l(7)] p1[OF l(8)]
      p2[OF l(3,9)] p2[OF l(5,10)] p2[OF l(7,11)]
    by (simp add: ucast_wl wl_simps algebra_simps)
qed

lemma col_bound:
  assumes "\<And>i. i < 9 \<Longrightarrow> 0 \<le> A i \<and> A i < 2 ^ 30 \<and> (odd i \<longrightarrow> A i < 2 ^ 29)"
    "\<And>i. i < 9 \<Longrightarrow> 0 \<le> B i \<and> B i < 2 ^ 30 \<and> (odd i \<longrightarrow> B i < 2 ^ 29)"
  shows "0 \<le> col A B k \<and> col A B k < 2 ^ 64"
proof -
  let ?t = "\<lambda>i. if i \<le> k \<and> k - i < 9 then A i * (B (k - i) * (if odd i \<and> odd (k - i) then 2 else 1)) else 0"
  have t: "0 \<le> ?t i \<and> ?t i \<le> 2 ^ 60" if "i < 9" for i
  proof (cases "i \<le> k \<and> k - i < 9")
    case True
    define b where "b = B (k - i) * (if odd i \<and> odd (k - i) then 2 else 1)"
    have b: "0 \<le> b" "b \<le> 2 ^ 30" using assms(2)[of "k - i"] True by (auto simp: b_def)
    have a: "0 \<le> A i" "A i \<le> 2 ^ 30" using assms(1)[OF that] by simp_all
    have "A i * b \<le> 2 ^ 30 * 2 ^ 30" by (rule mult_mono[OF a(2) b(2) _ b(1)]) simp
    moreover have "0 \<le> A i * b" using a(1) b(1) by (rule mult_nonneg_nonneg)
    ultimately show ?thesis unfolding if_P[OF True] b_def[symmetric] by simp
  qed auto
  have "0 \<le> col A B k" unfolding col_def by (rule sum_nonneg) (use t in blast)
  moreover have "col A B k \<le> (\<Sum>i<(9 :: nat). 2 ^ 60)" unfolding col_def by (rule sum_mono) (use t in blast)
  ultimately show ?thesis by simp
qed

lemma wt_mult: "wt i * wt j = (if odd i \<and> odd j then 2 else 1) * wt (i + j)"
proof (cases "even i")
  case True
  then show ?thesis by (simp add: wt_even)
next
  case False
  then obtain a where a: "i = Suc (2 * a)" by (auto elim: oddE)
  show ?thesis
  proof (cases "even j")
    case True
    then show ?thesis using wt_even[of j i] by (simp add: add.commute mult.commute)
  next
    case False
    then obtain b where "j = Suc (2 * b)" by (auto elim: oddE)
    then show ?thesis unfolding a by (simp add: wt_def flip: power_add power_Suc)
  qed
qed

lemma sum_col: "(\<Sum>k<17. col A B k * wt k) = (\<Sum>i<9. A i * wt i) * (\<Sum>j<9. B j * wt j)"
proof -
  let ?g = "\<lambda>i j. A i * wt i * (B j * wt j)"
  have "col A B k * wt k = (\<Sum>i<9. if i \<le> k \<and> k - i < 9 then ?g i (k - i) else 0)" for k
    unfolding col_def sum_distrib_right
  proof (rule sum.cong[OF refl])
    fix i
    show "(if i \<le> k \<and> k - i < 9 then A i * (B (k - i) * (if odd i \<and> odd (k - i) then 2 else 1)) else 0) * wt k
      = (if i \<le> k \<and> k - i < 9 then ?g i (k - i) else 0)"
    proof (cases "i \<le> k \<and> k - i < 9")
      case True
      then have "wt i * wt (k - i) = (if odd i \<and> odd (k - i) then 2 else 1) * wt k" using wt_mult[of i "k - i"] by simp
      then have "?g i (k - i) = A i * (B (k - i) * ((if odd i \<and> odd (k - i) then 2 else 1) * wt k))" by (metis mult.assoc mult.left_commute)
      then show ?thesis using True by (simp only: if_P mult.assoc)
    qed auto
  qed
  then have "(\<Sum>k<17. col A B k * wt k) = (\<Sum>i<9. \<Sum>k<17. if i \<le> k \<and> k - i < 9 then ?g i (k - i) else 0)"
    by (simp only: sum.swap[of _ "{..<9}"])
  also have "\<dots> = (\<Sum>i<9. \<Sum>j<9. ?g i j)"
  proof (rule sum.cong[OF refl])
    fix i :: nat assume "i \<in> {..<9}"
    then have "{k \<in> {..<17}. i \<le> k \<and> k - i < 9} = (+) i ` {..<9}" by (force simp: image_iff intro: bexI[of _ "_ - i"])
    then show "(\<Sum>k<17. if i \<le> k \<and> k - i < 9 then ?g i (k - i) else 0) = (\<Sum>j<9. ?g i j)"
      by (simp add: sum.inter_filter[symmetric] sum.reindex)
  qed
  also have "\<dots> = (\<Sum>i<9. A i * wt i) * (\<Sum>j<9. B j * wt j)" by (simp only: sum_product)
  finally show ?thesis .
qed

lemma felem_val_sum:
  assumes "length a = 9"
  shows "int (felem_val a) = (\<Sum>i<9. uint (a ! i) * wt i)"
proof -
  obtain a0 a1 a2 a3 a4 a5 a6 a7 a8 where a: "a = [a0, a1, a2, a3, a4, a5, a6, a7, a8]" using felem_9[OF assms] by blast
  show ?thesis unfolding sum_9 by (simp add: a felem_val_def)
qed

text \<open>The Montgomery product, and squaring is multiplication by itself.\<close>

lemma felem_mul_value:
  assumes "felem_ok a" "felem_ok b"
  shows "felem_ok (felem_mul a b) \<and> 2 ^ 257 * felem_val (felem_mul a b) mod secp = felem_val a * felem_val b mod secp"
proof -
  let ?A = "\<lambda>i. uint (a ! i)" and ?B = "\<lambda>i. uint (b ! i)"
  define tmp where "tmp = map (\<lambda>k. wl (col ?A ?B k)) [0..<17]"
  have c: "0 \<le> col ?A ?B k \<and> col ?A ?B k < 2 ^ 64" for k
    using limb_int_bound[OF assms(1)] limb_int_bound[OF assms(2)] by (intro col_bound) auto
  have col: "column tmp k = col ?A ?B k" if "k < 17" for k
    using that c[of k] by (simp add: tmp_def column_def wl_def unsigned_of_int take_bit_int_eq_self)
  have "uint (a ! 8) * uint (b ! 8) < 2 ^ 30 * 2 ^ 30"
    using limb_int_bound[OF assms(1), of 8] limb_int_bound[OF assms(2), of 8] by (intro mult_strict_mono') simp_all
  moreover have "col ?A ?B 16 = uint (a ! 8) * uint (b ! 8)" by (simp add: col_def sum_9)
  ultimately have "uint (tmp ! 16) < 2 ^ 60" using col[of 16] by (simp add: column_def)
  note r = reduce_degree_correct[OF _ this]
  have "(\<Sum>k<17. column tmp k * wt k) = (\<Sum>k<17. col ?A ?B k * wt k)" by (rule sum.cong) (simp_all add: col)
  also have "\<dots> = int (felem_val a) * int (felem_val b)"
    unfolding sum_col using assms by (simp add: felem_val_sum felem_ok_def)
  finally have v: "(\<Sum>k<17. column tmp k * wt k) = int (felem_val a * felem_val b)" by simp
  have "felem_mul a b = felem_reduce_degree tmp" unfolding tmp_def by (rule felem_mul_columns[OF assms(2)])
  moreover have "length tmp = 17" by (simp add: tmp_def)
  ultimately have "felem_ok (felem_mul a b)" "int (2 ^ 257 * felem_val (felem_mul a b)) mod prime = int (felem_val a * felem_val b) mod prime"
    using r v by simp_all
  then show ?thesis by (metis of_nat_eq_iff of_nat_mod)
qed

lemma felem_square_mul: "felem_ok a \<Longrightarrow> felem_square a = felem_mul a a"
  by (simp only: felem_square_columns felem_mul_columns)

section \<open>Field elements as numbers\<close>

text \<open>The number an element stands for: its value without the Montgomery factor.\<close>

definition felem_num :: "felem \<Rightarrow> int" where
  "felem_num a = int (felem_val a) * int (bn kRInv) mod prime"

lemma kRInv_int: "int (bn kRInv) * 2 ^ 257 mod prime = 1"
  using arg_cong[OF kRInv_mod, of int] by (simp only: of_nat_mod of_nat_mult of_nat_power of_nat_numeral of_nat_1)

lemma felem_num_eqI: "felem_val a mod secp = n mod secp \<Longrightarrow> felem_num a = int n * int (bn kRInv) mod prime"
  unfolding felem_num_def by (metis mod_mult_left_eq of_nat_mod)

lemma felem_num_mul:
  assumes "felem_ok a" "felem_ok b"
  shows "felem_num (felem_mul a b) = felem_num a * felem_num b mod prime"
proof -
  let ?r = "int (bn kRInv)" and ?c = "int (felem_val (felem_mul a b))"
  have "2 ^ 257 * ?c mod prime = int (felem_val a) * int (felem_val b) mod prime"
    using arg_cong[OF conjunct2[OF felem_mul_value[OF assms]], of int] by (simp only: of_nat_mod of_nat_mult of_nat_power of_nat_numeral)
  then have "(?r * ?r) * (2 ^ 257 * ?c) mod prime = (?r * ?r) * (int (felem_val a) * int (felem_val b)) mod prime" by (metis mod_mult_right_eq)
  moreover have "(?r * ?r) * (2 ^ 257 * ?c) mod prime = (?r * 2 ^ 257 mod prime) * (?c * ?r) mod prime"
    unfolding mod_mult_left_eq by (simp only: ac_simps)
  moreover have "(?r * ?r) * (int (felem_val a) * int (felem_val b)) mod prime = felem_num a * felem_num b mod prime"
    by (simp only: felem_num_def mod_mult_eq ac_simps)
  ultimately show ?thesis unfolding kRInv_int felem_num_def by simp
qed

lemma felem_num_add:
  assumes "felem_ok a" "felem_ok b"
  shows "felem_num (felem_sum a b) = (felem_num a + felem_num b) mod prime" "felem_num (felem_diff a b) = (felem_num a - felem_num b) mod prime"
proof -
  show "felem_num (felem_sum a b) = (felem_num a + felem_num b) mod prime"
    using felem_num_eqI[OF conjunct2[OF felem_sum_value[OF assms]]] by (simp add: felem_num_def distrib_right mod_add_eq)
  have "(int (felem_val (felem_diff a b)) + int (felem_val b)) mod prime = int (felem_val a) mod prime"
    using arg_cong[OF conjunct2[OF felem_diff_value[OF assms]], of int] by (simp only: of_nat_mod of_nat_add)
  then have "int (felem_val (felem_diff a b)) mod prime = (int (felem_val a) - int (felem_val b)) mod prime"
    by (metis add_diff_cancel_right' mod_diff_cong)
  then show "felem_num (felem_diff a b) = (felem_num a - felem_num b) mod prime"
    unfolding felem_num_def by (metis left_diff_distrib mod_diff_eq mod_mult_left_eq)
qed

lemma felem_num_scalar:
  assumes "felem_ok a"
  shows "felem_num (felem_scalar_3 a) = 3 * felem_num a mod prime" "felem_num (felem_scalar_4 a) = 4 * felem_num a mod prime"
    "felem_num (felem_scalar_8 a) = 8 * felem_num a mod prime"
  using felem_num_eqI[OF conjunct2[OF felem_scalar_3_value[OF assms]]] felem_num_eqI[OF conjunct2[OF felem_scalar_4_value[OF assms]]]
    felem_num_eqI[OF conjunct2[OF felem_scalar_8_value[OF assms]]]
  by (simp_all add: felem_num_def mod_mult_right_eq mult.assoc)

interpretation p256: modular_product prime felem_ok felem_num felem_mul
  by unfold_locales (simp_all add: felem_num_mul felem_mul_value)

text \<open>The addition chain of \<open>felem_inv\<close>.\<close>

lemma felem_inv_power:
  assumes "felem_ok a"
  shows "p256.is_power (felem_num a) (secp - 2) (felem_inv a)"
proof -
  let ?P = "p256.is_power (felem_num a)"
  have sq: "?P e x \<Longrightarrow> ?P (2 * e) (felem_square x)" for e x
    using p256.is_power_square[of "felem_num a" e x] felem_square_mul[of x] by (simp add: p256.is_power_def)
  have sqs: "?P e x \<Longrightarrow> ?P (2 ^ k * e) (felem_squares k x)" for k e x
    unfolding felem_squares_def by (rule p256.is_power_squares[OF felem_square_mul])
  note ml = p256.is_power_mul
  have a: "?P 1 a" using assms by (simp add: p256.is_power_def)
  define e2 where "e2 = felem_mul a (felem_square a)"
  have e2: "?P 3 e2" using ml[OF a sq[OF a]] by (simp add: e2_def numeral_3_eq_3)
  define e4 where "e4 = felem_mul (felem_square (felem_square e2)) e2"
  have e4: "?P 15 e4" using ml[OF sq[OF sq[OF e2]] e2] by (simp add: e4_def)
  define e8 where "e8 = felem_mul (felem_square (felem_square (felem_square (felem_square e4)))) e4"
  have e8: "?P (2 ^ 8 - 1) e8" using ml[OF sq[OF sq[OF sq[OF sq[OF e4]]]] e4] by (simp add: e8_def)
  define e16 where "e16 = felem_mul (felem_squares 8 e8) e8"
  have e16: "?P (2 ^ 16 - 1) e16" using ml[OF sqs[OF e8, of 8] e8] by (simp add: e16_def)
  define e32 where "e32 = felem_mul (felem_squares 16 e16) e16"
  have e32: "?P (2 ^ 32 - 1) e32" using ml[OF sqs[OF e16, of 16] e16] by (simp add: e32_def)
  define e64 where "e64 = felem_squares 32 e32"
  have e64: "?P (2 ^ 64 - 2 ^ 32) e64" using sqs[OF e32, of 32] by (simp add: e64_def)
  define t where "t = felem_squares 192 (felem_mul e64 a)"
  have t: "?P (2 ^ 192 * (2 ^ 64 - 2 ^ 32 + 1)) t" using sqs[OF ml[OF e64 a], of 192] by (simp add: t_def)
  define u where "u = felem_mul (felem_squares 8 (felem_mul (felem_squares 16 (felem_mul e64 e32)) e16)) e8"
  have u: "?P (2 ^ 88 - 1) u" using ml[OF sqs[OF ml[OF sqs[OF ml[OF e64 e32], of 16] e16], of 8] e8] by (simp add: u_def)
  define w where "w = felem_mul (felem_square (felem_square (felem_mul (felem_square (felem_square
      (felem_mul (felem_squares 4 u) e4))) e2))) a"
  have w: "?P (2 ^ 96 - 3) w" using ml[OF sq[OF sq[OF ml[OF sq[OF sq[OF ml[OF sqs[OF u, of 4] e4]]] e2]]] a] by (simp add: w_def)
  have "felem_inv a = felem_mul w t"
    by (simp only: felem_inv_def Let_def e2_def e4_def e8_def e16_def e32_def e64_def t_def u_def w_def)
  then show ?thesis using ml[OF w t] by (simp add: SECP256r1_values)
qed

section \<open>Properties\<close>

text \<open>
  C29. \<open>felem_mul\<close> is the Montgomery product: for operands within the limb bounds no column and no word
  overflows, the result is within the bounds again, and times \<open>2\<^sup>2\<^sup>5\<^sup>7\<close> it is the product modulo the prime.
\<close>

theorem felem_mul_correct:
  assumes "felem_ok a" "felem_ok b"
  shows "felem_ok (felem_mul a b) \<and> 2 ^ 257 * felem_val (felem_mul a b) mod secp = felem_val a * felem_val b mod secp"
  using assms by (rule felem_mul_value)

theorem felem_mul_witness:
  "felem_ok (felem_mul kOne kP) \<and> 2 ^ 257 * felem_val (felem_mul kOne kP) mod secp = felem_val kOne * felem_val kP mod secp"
  by (rule felem_mul_correct[OF felem_ok_kOne felem_ok_kP])

text \<open>
  The squaring routine, which computes each product of two different limbs once, agrees with
  multiplication bit for bit.
\<close>

lemma felem_square_correct:
  assumes "felem_ok a"
  shows "felem_square a = felem_mul a a"
  using assms by (rule felem_square_mul)

theorem felem_square_witness: "felem_square kOne = felem_mul kOne kOne"
  by (rule felem_square_correct[OF felem_ok_kOne])

text \<open>
  \<open>felem_inv\<close> raises the number its argument stands for to the power \<open>p - 2\<close>, so that by Fermat's theorem
  it inverts every nonzero element.
\<close>

lemma felem_inv_correct:
  assumes "felem_ok a"
  shows "felem_ok (felem_inv a) \<and> felem_num (felem_inv a) = felem_num a ^ (secp - 2) mod prime"
  using felem_inv_power[OF assms] unfolding p256.is_power_def by (simp add: felem_num_def)

theorem felem_inv_witness:
  "felem_ok (felem_inv kOne) \<and> felem_num (felem_inv kOne) = felem_num kOne ^ (secp - 2) mod prime"
  by (rule felem_inv_correct[OF felem_ok_kOne])

text \<open>
  The comment of \<open>felem_reduce_degree\<close> admits columns up to \<open>2\<^sup>6\<^sup>4\<close>. The last one has to be below \<open>2\<^sup>6\<^sup>1\<close>: its bits from
  61 on are shifted out.
\<close>

lemma felem_reduce_degree_top: "felem_reduce_degree (replicate 16 0 @ [2 ^ 61]) = felem_reduce_degree (replicate 17 0)"
proof -
  have "degree_limbs (replicate 16 0 @ [2 ^ 61]) = degree_limbs (replicate 17 0)" by code_simp
  then show ?thesis by (simp only: felem_reduce_degree_def)
qed

end
