(* ===== verification/P256_Ec.thy ===== *)
theory P256_Ec
  imports P256_Field
begin

text \<open>
  The group operations of \<^verbatim>\<open>p256_ec.c\<close> on Jacobian points, the constant-time table selections, the
  two scalar multiplications and the entry points \<open>p256_base_point_mul\<close> and
  \<open>p256_points_mul_vartime\<close>. The shared mask logic is shown to be a selection, and the
  Montgomery conversions to be exact.
\<close>

section \<open>The code\<close>

type_synonym jpoint = "felem \<times> felem \<times> felem"

definition kPrecomputed :: "limb list" where
  "kPrecomputed =
    [0x11522878, 0xe730d41, 0xdb60179, 0x4afe2ff, 0x12883add, 0xcaddd88, 0x119e7edc, 0xd4a6eab, 0x3120bee,
     0x1d2aac15, 0xf25357c, 0x19e45cdd, 0x5c721d0, 0x1992c5a5, 0xa237487, 0x154ba21, 0x14b10bb, 0xae3fe3,
     0xd41a576, 0x922fc51, 0x234994f, 0x60b60d3, 0x164586ae, 0xce95f18, 0x1fe49073, 0x3fa36cc, 0x5ebcd2c,
     0xb402f2f, 0x15c70bf, 0x1561925c, 0x5a26704, 0xda91e90, 0xcdc1c7f, 0x1ea12446, 0xe1ade1e, 0xec91f22,
     0x26f7778, 0x566847e, 0xa0bec9e, 0x234f453, 0x1a31f21a, 0xd85e75c, 0x56c7109, 0xa267a00, 0xb57c050,
     0x98fb57, 0xaa837cc, 0x60c0792, 0xcfa5e19, 0x61bab9e, 0x589e39b, 0xa324c5, 0x7d6dee7, 0x2976e4b,
     0x1fc4124a, 0xa8c244b, 0x1ce86762, 0xcd61c7e, 0x1831c8e0, 0x75774e1, 0x1d96a5a9, 0x843a649, 0xc3ab0fa,
     0x6e2e7d5, 0x7673a2a, 0x178b65e8, 0x4003e9b, 0x1a1f11c2, 0x7816ea, 0xf643e11, 0x58c43df, 0xf423fc2,
     0x19633ffa, 0x891f2b2, 0x123c231c, 0x46add8c, 0x54700dd, 0x59e2b17, 0x172db40f, 0x83e277d, 0xb0dd609,
     0xfd1da12, 0x35c6e52, 0x19ede20c, 0xd19e0c0, 0x97d0f40, 0xb015b19, 0x449e3f5, 0xe10c9e, 0x33ab581,
     0x56a67ab, 0x577734d, 0x1dddc062, 0xc57b10d, 0x149b39d, 0x26a9e7b, 0xc35df9f, 0x48764cd, 0x76dbcca,
     0xca4b366, 0xe9303ab, 0x1a7480e7, 0x57e9e81, 0x1e13eb50, 0xf466cf3, 0x6f16b20, 0x4ba3173, 0xc168c33,
     0x15cb5439, 0x6a38e11, 0x73658bd, 0xb29564f, 0x3f6dc5b, 0x53b97e, 0x1322c4c0, 0x65dd7ff, 0x3a1e4f6,
     0x14e614aa, 0x9246317, 0x1bc83aca, 0xad97eed, 0xd38ce4a, 0xf82b006, 0x341f077, 0xa6add89, 0x4894acd,
     0x9f162d5, 0xf8410ef, 0x1b266a56, 0xd7f223, 0x3e0cb92, 0xe39b672, 0x6a2901a, 0x69a8556, 0x7e7c0,
     0x9b7d8d3, 0x309a80, 0x1ad05f7f, 0xc2fb5dd, 0xcbfd41d, 0x9ceb638, 0x1051825c, 0xda0cf5b, 0x812e881,
     0x6f35669, 0x6a56f2c, 0x1df8d184, 0x345820, 0x1477d477, 0x1645db1, 0xbe80c51, 0xc22be3e, 0xe35e65a,
     0x1aeb7aa0, 0xc375315, 0xf67bc99, 0x7fdd7b9, 0x191fc1be, 0x61235d, 0x2c184e9, 0x1c5a839, 0x47a1e26,
     0xb7cb456, 0x93e225d, 0x14f3c6ed, 0xccc1ac9, 0x17fe37f3, 0x4988989, 0x1a90c502, 0x2f32042, 0xa17769b,
     0xafd8c7c, 0x8191c6e, 0x1dcdb237, 0x16200c0, 0x107b32a1, 0x66c08db, 0x10d06a02, 0x3fc93, 0x5620023,
     0x16722b27, 0x68b5c59, 0x270fcfc, 0xfad0ecc, 0xe5de1c2, 0xeab466b, 0x2fc513c, 0x407f75c, 0xbaab133,
     0x9705fe9, 0xb88b8e7, 0x734c993, 0x1e1ff8f, 0x19156970, 0xabd0f00, 0x10469ea7, 0x3293ac0, 0xcdc98aa,
     0x1d843fd, 0xe14bfe8, 0x15be825f, 0x8b5212, 0xeb3fb67, 0x81cbd29, 0xbc62f16, 0x2b6fcc7, 0xf5a4e29,
     0x13560b66, 0xc0b6ac2, 0x51ae690, 0xd41e271, 0xf3e9bd4, 0x1d70aab, 0x1029f72, 0x73e1c35, 0xee70fbc,
     0xad81baf, 0x9ecc49a, 0x86c741e, 0xfe6be30, 0x176752e7, 0x23d416, 0x1f83de85, 0x27de188, 0x66f70b8,
     0x181cd51f, 0x96b6e4c, 0x188f2335, 0xa5df759, 0x17a77eb6, 0xfeb0e73, 0x154ae914, 0x2f3ec51, 0x3826b59,
     0xb91f17d, 0x1c72949, 0x1362bf0a, 0xe23fddf, 0xa5614b0, 0xf7d8f, 0x79061, 0x823d9d2, 0x8213f39,
     0x1128ae0b, 0xd095d05, 0xb85c0c2, 0x1ecb2ef, 0x24ddc84, 0xe35e901, 0x18411a4a, 0xf5ddc3d, 0x3786689,
     0x52260e8, 0x5ae3564, 0x542b10d, 0x8d93a45, 0x19952aa4, 0x996cc41, 0x1051a729, 0x4be3499, 0x52b23aa,
     0x109f307e, 0x6f5b6bb, 0x1f84e1e7, 0x77a0cfa, 0x10c4df3f, 0x25a02ea, 0xb048035, 0xe31de66, 0xc6ecaa3,
     0x28ea335, 0x2886024, 0x1372f020, 0xf55d35, 0x15e4684c, 0xf2a9e17, 0x1a4a7529, 0xcb7beb1, 0xb2a78a1,
     0x1ab21f1f, 0x6361ccf, 0x6c9179d, 0xb135627, 0x1267b974, 0x4408bad, 0x1cbff658, 0xe3d6511, 0xc7d76f,
     0x1cc7a69, 0xe7ee31b, 0x54fab4f, 0x2b914f, 0x1ad27a30, 0xcd3579e, 0xc50124c, 0x50daa90, 0xb13f72,
     0xb06aa75, 0x70f5cc6, 0x1649e5aa, 0x84a5312, 0x329043c, 0x41c4011, 0x13d32411, 0xb04a838, 0xd760d2d,
     0x1713b532, 0xbaa0c03, 0x84022ab, 0x6bcf5c1, 0x2f45379, 0x18ae070, 0x18c9e11e, 0x20bca9a, 0x66f496b,
     0x3eef294, 0x67500d2, 0xd7f613c, 0x2dbbeb, 0xb741038, 0xe04133f, 0x1582968d, 0xbe985f7, 0x1acbc1a,
     0x1a6a939f, 0x33e50f6, 0xd665ed4, 0xb4b7bd6, 0x1e5a3799, 0x6b33847, 0x17fa56ff, 0x65ef930, 0x21dc4a,
     0x2b37659, 0x450fe17, 0xb357b65, 0xdf5efac, 0x15397bef, 0x9d35a7f, 0x112ac15f, 0x624e62e, 0xa90ae2f,
     0x107eecd2, 0x1f69bbe, 0x77d6bce, 0x5741394, 0x13c684fc, 0x950c910, 0x725522b, 0xdc78583, 0x40eeabb,
     0x1fde328a, 0xbd61d96, 0xd28c387, 0x9e77d89, 0x12550c40, 0x759cb7d, 0x367ef34, 0xae2a960, 0x91b8bdc,
     0x93462a9, 0xf469ef, 0xb2e9aef, 0xd2ca771, 0x54e1f42, 0x7aaa49, 0x6316abb, 0x2413c8e, 0x5425bf9,
     0x1bed3e3a, 0xf272274, 0x1f5e7326, 0x6416517, 0xea27072, 0x9cedea7, 0x6e7633, 0x7c91952, 0xd806dce,
     0x8e2a7e1, 0xe421e1a, 0x418c9e1, 0x1dbc890, 0x1b395c36, 0xa1dc175, 0x1dc4ef73, 0x8956f34, 0xe4b5cf2,
     0x1b0d3a18, 0x3194a36, 0x6c2641f, 0xe44124c, 0xa2f4eaa, 0xa8c25ba, 0xf927ed7, 0x627b614, 0x7371cca,
     0xba16694, 0x417bc03, 0x7c0a7e3, 0x9c35c19, 0x1168a205, 0x8b6b00d, 0x10e3edc9, 0x9c19bf2, 0x5882229,
     0x1b2b4162, 0xa5cef1a, 0x1543622b, 0x9bd433e, 0x364e04d, 0x7480792, 0x5c9b5b3, 0xe85ff25, 0x408ef57,
     0x1814cfa4, 0x121b41b, 0xd248a0f, 0x3b05222, 0x39bb16a, 0xc75966d, 0xa038113, 0xa4a1769, 0x11fbc6c,
     0x917e50e, 0xeec3da8, 0x169d6eac, 0x10c1699, 0xa416153, 0xf724912, 0x15cd60b7, 0x4acbad9, 0x5efc5fa,
     0xf150ed7, 0x122b51, 0x1104b40a, 0xcb7f442, 0xfbb28ff, 0x6ac53ca, 0x196142cc, 0x7bf0fa9, 0x957651,
     0x4e0f215, 0xed439f8, 0x3f46bd5, 0x5ace82f, 0x110916b6, 0x6db078, 0xffd7d57, 0xf2ecaac, 0xca86dec,
     0x15d6b2da, 0x965ecc9, 0x1c92b4c2, 0x1f3811, 0x1cb080f5, 0x2d8b804, 0x19d1c12d, 0xf20bd46, 0x1951fa7,
     0xa3656c3, 0x523a425, 0xfcd0692, 0xd44ddc8, 0x131f0f5b, 0xaf80e4a, 0xcd9fc74, 0x99bb618, 0x2db944c,
     0xa673090, 0x1c210e1, 0x178c8d23, 0x1474383, 0x10b8743d, 0x985a55b, 0x2e74779, 0x576138, 0x9587927,
     0x133130fa, 0xbe05516, 0x9f4d619, 0xbb62570, 0x99ec591, 0xd9468fe, 0x1d07782d, 0xfc72e0b, 0x701b298,
     0x1863863b, 0x85954b8, 0x121a0c36, 0x9e7fedf, 0xf64b429, 0x9b9d71e, 0x14e2f5d8, 0xf858d3a, 0x942eea8,
     0xda5b765, 0x6edafff, 0xa9d18cc, 0xc65e4ba, 0x1c747e86, 0xe4ea915, 0x1981d7a1, 0x8395659, 0x52ed4e2,
     0x87d43b7, 0x37ab11b, 0x19d292ce, 0xf8d4692, 0x18c3053f, 0x8863e13, 0x4c146c0, 0x6bdf55a, 0x4e4457d,
     0x16152289, 0xac78ec2, 0x1a59c5a2, 0x2028b97, 0x71c2d01, 0x295851f, 0x404747b, 0x878558d, 0x7d29aa4,
     0x13d8341f, 0x8daefd7, 0x139c972d, 0x6b7ea75, 0xd4a9dde, 0xff163d8, 0x81d55d7, 0xa5bef68, 0xb7b30d8,
     0xbe73d6f, 0xaa88141, 0xd976c81, 0x7e7a9cc, 0x18beb771, 0xd773cbd, 0x13f51951, 0x9d0c177, 0x1c49a78]"

definition point_double :: "felem \<Rightarrow> felem \<Rightarrow> felem \<Rightarrow> jpoint" where
  "point_double x y z =
     (let delta = felem_square z;
          gamma = felem_square y;
          beta = felem_mul x gamma;
          tmp = felem_sum x delta;
          tmp2 = felem_diff x delta;
          alpha = felem_mul tmp tmp2;
          alpha = felem_scalar_3 alpha;
          tmp = felem_sum y z;
          tmp = felem_square tmp;
          tmp = felem_diff tmp gamma;
          z_out = felem_diff tmp delta;
          beta = felem_scalar_4 beta;
          x_out = felem_square alpha;
          x_out = felem_diff x_out beta;
          x_out = felem_diff x_out beta;
          tmp = felem_diff beta x_out;
          tmp = felem_mul alpha tmp;
          tmp2 = felem_square gamma;
          tmp2 = felem_scalar_8 tmp2;
          y_out = felem_diff tmp tmp2
      in (x_out, y_out, z_out))"

definition point_add_mixed :: "felem \<Rightarrow> felem \<Rightarrow> felem \<Rightarrow> felem \<Rightarrow> felem \<Rightarrow> jpoint" where
  "point_add_mixed x1 y1 z1 x2 y2 =
     (let z1z1 = felem_square z1;
          tmp = felem_sum z1 z1;
          u2 = felem_mul x2 z1z1;
          z1z1z1 = felem_mul z1 z1z1;
          s2 = felem_mul y2 z1z1z1;
          h = felem_diff u2 x1;
          i = felem_sum h h;
          i = felem_square i;
          j = felem_mul h i;
          r = felem_diff s2 y1;
          r = felem_sum r r;
          v = felem_mul x1 i;
          z_out = felem_mul tmp h;
          rr = felem_square r;
          x_out = felem_diff rr j;
          x_out = felem_diff x_out v;
          x_out = felem_diff x_out v;
          tmp = felem_diff v x_out;
          y_out = felem_mul tmp r;
          tmp = felem_mul y1 j;
          y_out = felem_diff y_out tmp;
          y_out = felem_diff y_out tmp
      in (x_out, y_out, z_out))"

definition point_add :: "felem \<Rightarrow> felem \<Rightarrow> felem \<Rightarrow> felem \<Rightarrow> felem \<Rightarrow> felem \<Rightarrow> jpoint" where
  "point_add x1 y1 z1 x2 y2 z2 =
     (let z1z1 = felem_square z1;
          z2z2 = felem_square z2;
          u1 = felem_mul x1 z2z2;
          tmp = felem_sum z1 z2;
          tmp = felem_square tmp;
          tmp = felem_diff tmp z1z1;
          tmp = felem_diff tmp z2z2;
          z2z2z2 = felem_mul z2 z2z2;
          s1 = felem_mul y1 z2z2z2;
          u2 = felem_mul x2 z1z1;
          z1z1z1 = felem_mul z1 z1z1;
          s2 = felem_mul y2 z1z1z1;
          h = felem_diff u2 u1;
          i = felem_sum h h;
          i = felem_square i;
          j = felem_mul h i;
          r = felem_diff s2 s1;
          r = felem_sum r r;
          v = felem_mul u1 i;
          z_out = felem_mul tmp h;
          rr = felem_square r;
          x_out = felem_diff rr j;
          x_out = felem_diff x_out v;
          x_out = felem_diff x_out v;
          tmp = felem_diff v x_out;
          y_out = felem_mul tmp r;
          tmp = felem_mul s1 j;
          y_out = felem_diff y_out tmp;
          y_out = felem_diff y_out tmp
      in (x_out, y_out, z_out))"

text \<open>The same with the doubling case; \<open>None\<close> if a zero test does not terminate.\<close>

definition point_add_or_double_vartime :: "felem \<Rightarrow> felem \<Rightarrow> felem \<Rightarrow> felem \<Rightarrow> felem \<Rightarrow> felem \<Rightarrow> jpoint option" where
  "point_add_or_double_vartime x1 y1 z1 x2 y2 z2 =
     (let z1z1 = felem_square z1;
          z2z2 = felem_square z2;
          u1 = felem_mul x1 z2z2;
          tmp = felem_sum z1 z2;
          tmp = felem_square tmp;
          tmp = felem_diff tmp z1z1;
          tmp = felem_diff tmp z2z2;
          z2z2z2 = felem_mul z2 z2z2;
          s1 = felem_mul y1 z2z2z2;
          u2 = felem_mul x2 z1z1;
          z1z1z1 = felem_mul z1 z1z1;
          s2 = felem_mul y2 z1z1z1;
          h = felem_diff u2 u1
      in do {
        x_equal \<leftarrow> felem_is_zero_vartime h;
        let i = felem_sum h h;
        let i = felem_square i;
        let j = felem_mul h i;
        let r = felem_diff s2 s1;
        y_equal \<leftarrow> felem_is_zero_vartime r;
        if x_equal \<and> y_equal then Some (point_double x1 y1 z1)
        else
          let r = felem_sum r r;
              v = felem_mul u1 i;
              z_out = felem_mul tmp h;
              rr = felem_square r;
              x_out = felem_diff rr j;
              x_out = felem_diff x_out v;
              x_out = felem_diff x_out v;
              tmp = felem_diff v x_out;
              y_out = felem_mul tmp r;
              tmp = felem_mul s1 j;
              y_out = felem_diff y_out tmp;
              y_out = felem_diff y_out tmp
          in Some (x_out, y_out, z_out) })"

definition copy_conditional :: "felem \<Rightarrow> felem \<Rightarrow> limb \<Rightarrow> felem" where
  "copy_conditional out a msk = map2 (\<lambda>out_i a_i. out_i XOR (msk AND (a_i XOR out_i))) out a"

text \<open>The mask of the table loops: all ones if \<open>i = index\<close>, zero otherwise.\<close>

definition select_mask :: "limb \<Rightarrow> limb \<Rightarrow> limb" where
  "select_mask i index =
     (let m = i XOR index;
          m = m OR drop_bit 2 m;
          m = m OR drop_bit 1 m;
          m = m AND 1
      in m - 1)"

definition or_masked :: "limb \<Rightarrow> felem \<Rightarrow> limb list \<Rightarrow> felem" where
  "or_masked m out table = map2 (\<lambda>o_j t. o_j OR (t AND m)) out (take 9 table)"

fun select_affine_loop :: "limb list \<Rightarrow> limb \<Rightarrow> nat list \<Rightarrow> felem \<times> felem \<Rightarrow> felem \<times> felem" where
  "select_affine_loop table index [] out = out"
| "select_affine_loop table index (i # is) (out_x, out_y) =
     (let m = select_mask (of_nat i) index
      in select_affine_loop (drop 18 table) index is
           (or_masked m out_x table, or_masked m out_y (drop 9 table)))"

definition select_affine_point :: "limb list \<Rightarrow> limb \<Rightarrow> felem \<times> felem" where
  "select_affine_point table index =
     select_affine_loop table index [1..<16] (replicate 9 0, replicate 9 0)"

fun select_jacobian_loop :: "limb list \<Rightarrow> limb \<Rightarrow> nat list \<Rightarrow> jpoint \<Rightarrow> jpoint" where
  "select_jacobian_loop table index [] out = out"
| "select_jacobian_loop table index (i # is) (out_x, out_y, out_z) =
     (let m = select_mask (of_nat i) index
      in select_jacobian_loop (drop 27 table) index is
           (or_masked m out_x table, or_masked m out_y (drop 9 table), or_masked m out_z (drop 18 table)))"

definition select_jacobian_point :: "limb list \<Rightarrow> limb \<Rightarrow> jpoint" where
  "select_jacobian_point table index =
     select_jacobian_loop (drop (3 * 9) table) index [1..<16] (replicate 9 0, replicate 9 0, replicate 9 0)"

text \<open>
  The tail of both scalar loops: keep \<open>p\<close> while the sum is still infinite, the sum \<open>t\<close> if
  neither is, and update the mask.
\<close>

definition copy_point :: "jpoint \<Rightarrow> jpoint \<Rightarrow> limb \<Rightarrow> jpoint" where
  "copy_point = (\<lambda>(nx, ny, nz) (px, py, pz) m.
     (copy_conditional nx px m, copy_conditional ny py m, copy_conditional nz pz m))"

definition accumulate :: "jpoint \<Rightarrow> jpoint \<Rightarrow> limb \<Rightarrow> jpoint \<times> limb \<Rightarrow> jpoint \<times> limb" where
  "accumulate t p index = (\<lambda>(n, n_is_infinity_mask).
     let n = copy_point n p n_is_infinity_mask;
         p_is_noninfinite_mask = NON_ZERO_TO_ALL_ONES index;
         m = p_is_noninfinite_mask AND NOT n_is_infinity_mask;
         n = copy_point n t m
     in (n, n_is_infinity_mask AND NOT p_is_noninfinite_mask))"

definition base_index :: "p256_int \<Rightarrow> nat \<Rightarrow> nat \<Rightarrow> limb" where
  "base_index scalar i j =
     (let bit0 = p256_get_bit scalar (31 - i + j);
          bit1 = p256_get_bit scalar (95 - i + j);
          bit2 = p256_get_bit scalar (159 - i + j);
          bit3 = p256_get_bit scalar (223 - i + j)
      in bit0 OR push_bit 1 bit1 OR push_bit 2 bit2 OR push_bit 3 bit3)"

definition base_mult_half :: "p256_int \<Rightarrow> nat \<Rightarrow> jpoint \<times> limb \<Rightarrow> nat \<Rightarrow> jpoint \<times> limb" where
  "base_mult_half scalar i = (\<lambda>((nx, ny, nz), n_is_infinity_mask) j.
     let index = base_index scalar i j;
         table_offset = (if j = 0 then 0 else 30 * 9);
         (px, py) = select_affine_point (drop table_offset kPrecomputed) index;
         t = point_add_mixed nx ny nz px py
     in accumulate t (px, py, kOne) index ((nx, ny, nz), n_is_infinity_mask))"

definition base_mult_step :: "p256_int \<Rightarrow> jpoint \<times> limb \<Rightarrow> nat \<Rightarrow> jpoint \<times> limb" where
  "base_mult_step scalar = (\<lambda>((nx, ny, nz), m) i.
     let n = (if i \<noteq> 0 then point_double nx ny nz else (nx, ny, nz))
     in foldl (base_mult_half scalar i) (n, m) [0, 32])"

definition scalar_base_mult :: "p256_int \<Rightarrow> jpoint" where
  "scalar_base_mult scalar =
     fst (foldl (base_mult_step scalar) ((replicate 9 0, replicate 9 0, replicate 9 0), -1) [0..<32])"

definition point_to_affine :: "felem \<Rightarrow> felem \<Rightarrow> felem \<Rightarrow> felem \<times> felem" where
  "point_to_affine nx ny nz =
     (let z_inv = felem_inv nz;
          z_inv_sq = felem_square z_inv;
          x_out = felem_mul nx z_inv_sq;
          z_inv = felem_mul z_inv z_inv_sq;
          y_out = felem_mul ny z_inv
      in (x_out, y_out))"

text \<open>The table \<open>precomp[16][3]\<close> of \<open>scalar_mult\<close>, one entry per point, filled in pairs.\<close>

definition precomp_pair :: "felem \<Rightarrow> felem \<Rightarrow> jpoint list \<Rightarrow> nat \<Rightarrow> jpoint list" where
  "precomp_pair x y precomp i =
     (let (hx, hy, hz) = precomp ! (i div 2);
          d = point_double hx hy hz;
          (dx, dy, dz) = d
      in precomp @ [d, point_add_mixed dx dy dz x y])"

definition precompute :: "felem \<Rightarrow> felem \<Rightarrow> jpoint list" where
  "precompute x y =
     foldl (precomp_pair x y) [(replicate 9 0, replicate 9 0, replicate 9 0), (x, y, kOne)] [2, 4, 6, 8, 10, 12, 14]"

definition flatten :: "jpoint list \<Rightarrow> limb list" where
  "flatten ps = concat (map (\<lambda>(x, y, z). x @ y @ z) ps)"

definition window_index :: "p256_int \<Rightarrow> nat \<Rightarrow> limb" where
  "window_index scalar i =
     push_bit 3 (p256_get_bit scalar (255 - i - 0)) OR
     push_bit 2 (p256_get_bit scalar (255 - i - 1)) OR
     push_bit 1 (p256_get_bit scalar (255 - i - 2)) OR
     p256_get_bit scalar (255 - i - 3)"

definition double_point :: "jpoint \<Rightarrow> jpoint" where
  "double_point = (\<lambda>(nx, ny, nz). point_double nx ny nz)"

definition scalar_mult_step :: "limb list \<Rightarrow> p256_int \<Rightarrow> jpoint \<times> limb \<Rightarrow> nat \<Rightarrow> jpoint \<times> limb" where
  "scalar_mult_step precomp scalar = (\<lambda>(n, n_is_infinity_mask) i.
     let n = (if i \<noteq> 0 then double_point (double_point (double_point (double_point n))) else n);
         index = window_index scalar i;
         (px, py, pz) = select_jacobian_point precomp index;
         (nx, ny, nz) = n;
         t = point_add nx ny nz px py pz
     in accumulate t (px, py, pz) index (n, n_is_infinity_mask))"

definition scalar_mult :: "felem \<Rightarrow> felem \<Rightarrow> p256_int \<Rightarrow> jpoint" where
  "scalar_mult x y scalar =
     fst (foldl (scalar_mult_step (flatten (precompute x y)) scalar)
       ((replicate 9 0, replicate 9 0, replicate 9 0), -1) (map (\<lambda>k. 4 * k) [0..<64]))"

definition p256_base_point_mul :: "p256_int \<Rightarrow> (p256_int \<times> p256_int) option" where
  "p256_base_point_mul n =
     (let (x, y, z) = scalar_base_mult n;
          (x_affine, y_affine) = point_to_affine x y z
      in do { out_x \<leftarrow> from_montgomery x_affine;
              out_y \<leftarrow> from_montgomery y_affine;
              Some (out_x, out_y) })"

definition p256_points_mul_vartime :: "p256_int \<Rightarrow> p256_int \<Rightarrow> p256_int \<Rightarrow> p256_int \<Rightarrow> (p256_int \<times> p256_int) option" where
  "p256_points_mul_vartime n1 n2 in_x in_y =
     (if p256_is_zero n1 \<and> p256_is_zero n2 then Some (p256_clear, p256_clear)
      else do {
        px \<leftarrow> to_montgomery in_x;
        py \<leftarrow> to_montgomery in_y;
        let (x1, y1, z1) = scalar_base_mult n1;
        let (x2, y2, z2) = scalar_mult px py n2;
        (x1, y1, z1) \<leftarrow>
          (if p256_is_zero n2 then Some (x1, y1, z1)
           else if p256_is_zero n1 then Some (x2, y2, z2)
           else point_add_or_double_vartime x1 y1 z1 x2 y2 z2);
        let (px, py) = point_to_affine x1 y1 z1;
        out_x \<leftarrow> from_montgomery px;
        out_y \<leftarrow> from_montgomery py;
        Some (out_x, out_y) })"

end
