(* ===== verification/P256_Group.thy ===== *)
theory P256_Group
  imports P256_Mul P256_Ec
begin

text \<open>
  The point operations of \<^verbatim>\<open>p256_ec.c\<close> as the chord and tangent construction on the curve. A Jacobian point
  \<open>(X, Y, Z)\<close> stands for the affine point \<open>(x, y)\<close> with \<open>X = x Z\<^sup>2\<close> and \<open>Y = y Z\<^sup>3\<close> modulo the prime. Slopes are given by
  their defining equation instead of a quotient, so that nothing is assumed about the modulus.
\<close>

section \<open>Numbers of compound expressions\<close>

definition cg :: "int \<Rightarrow> int \<Rightarrow> bool" where "cg x y \<longleftrightarrow> x mod prime = y mod prime"

definition is_num :: "felem \<Rightarrow> int \<Rightarrow> bool" where "is_num a x \<longleftrightarrow> felem_ok a \<and> cg (felem_num a) x"

lemma cg_refl [simp]: "cg x x"
  by (simp add: cg_def)

lemma cg_arith: "cg a x \<Longrightarrow> cg b y \<Longrightarrow> cg (a * b) (x * y)" "cg a x \<Longrightarrow> cg b y \<Longrightarrow> cg (a + b) (x + y)" "cg a x \<Longrightarrow> cg b y \<Longrightarrow> cg (a - b) (x - y)"
  unfolding cg_def by (rule mod_mult_cong mod_add_cong mod_diff_cong; assumption)+

lemma cg_trans: "cg x y \<Longrightarrow> cg y z \<Longrightarrow> cg x z"
  by (simp add: cg_def)

lemma is_num_ops:
  "is_num a x \<Longrightarrow> is_num b y \<Longrightarrow> is_num (felem_mul a b) (x * y)"
  "is_num a x \<Longrightarrow> is_num (felem_square a) (x * x)"
  "is_num a x \<Longrightarrow> is_num b y \<Longrightarrow> is_num (felem_sum a b) (x + y)"
  "is_num a x \<Longrightarrow> is_num b y \<Longrightarrow> is_num (felem_diff a b) (x - y)"
  "is_num a x \<Longrightarrow> is_num (felem_scalar_3 a) (3 * x)" "is_num a x \<Longrightarrow> is_num (felem_scalar_4 a) (4 * x)" "is_num a x \<Longrightarrow> is_num (felem_scalar_8 a) (8 * x)"
  unfolding is_num_def cg_def
  by (auto simp: felem_mul_value felem_square_mul felem_sum_value felem_diff_value felem_scalar_3_value felem_scalar_4_value
      felem_scalar_8_value felem_num_mul felem_num_add felem_num_scalar intro: mod_mult_cong mod_add_cong mod_diff_cong)

lemma is_num_cg: "is_num a x \<Longrightarrow> cg x y \<Longrightarrow> is_num a y"
  unfolding is_num_def by (blast intro: cg_trans)

lemma is_num_self: "felem_ok a \<Longrightarrow> is_num a (felem_num a)"
  by (simp add: is_num_def)

section \<open>Points\<close>

definition stands_for :: "jpoint \<Rightarrow> int \<times> int \<Rightarrow> bool" where
  "stands_for P a = (case P of (x, y, z) \<Rightarrow> case a of (ax, ay) \<Rightarrow>
     felem_ok z \<and> is_num x (ax * felem_num z ^ 2) \<and> is_num y (ay * felem_num z ^ 3))"

lemma stands_forI:
  assumes "is_num z Z" "is_num x (ax * Z ^ 2)" "is_num y (ay * Z ^ 3)"
  shows "stands_for (x, y, z) (ax, ay)"
proof -
  have "cg Z (felem_num z)" "felem_ok z" using assms(1) by (simp_all add: is_num_def cg_def)
  then have "cg (Z * Z) (felem_num z * felem_num z)" "cg (Z * Z * Z) (felem_num z * felem_num z * felem_num z)" by (blast intro: cg_arith)+
  then have "cg (ax * Z ^ 2) (ax * felem_num z ^ 2)" "cg (ay * Z ^ 3) (ay * felem_num z ^ 3)"
    unfolding power2_eq_square power3_eq_cube by (blast intro: cg_arith cg_refl)+
  then show ?thesis unfolding stands_for_def using assms(2,3) \<open>felem_ok z\<close> by (simp add: is_num_cg)
qed

lemma stands_forE:
  assumes "stands_for (x, y, z) (ax, ay)"
  obtains Z where "is_num z Z" "is_num x (ax * Z ^ 2)" "is_num y (ay * Z ^ 3)"
  using assms is_num_self[of z] by (auto simp: stands_for_def)

text \<open>The third point on the line of slope \<open>l\<close> through two points, reflected.\<close>

definition third :: "int \<Rightarrow> int \<times> int \<Rightarrow> int \<times> int \<Rightarrow> int \<times> int" where
  "third l P Q = (let x = l ^ 2 - fst P - fst Q in (x, l * (fst P - x) - snd P))"

lemma point_double_stands:
  assumes "stands_for (x, y, z) (ax, ay)" "cg (l * (2 * ay)) (3 * ax ^ 2 - 3)"
  shows "stands_for (point_double x y z) (third l (ax, ay) (ax, ay))"
proof -
  obtain Z where n: "is_num z Z" "is_num x (ax * Z ^ 2)" "is_num y (ay * Z ^ 3)" by (rule stands_forE[OF assms(1)])
  define delta gamma where "delta = felem_square z" and "gamma = felem_square y"
  define beta where "beta = felem_scalar_4 (felem_mul x gamma)"
  define alpha where "alpha = felem_scalar_3 (felem_mul (felem_sum x delta) (felem_diff x delta))"
  define zo where "zo = felem_diff (felem_diff (felem_square (felem_sum y z)) gamma) delta"
  define xo where "xo = felem_diff (felem_diff (felem_square alpha) beta) beta"
  define yo where "yo = felem_diff (felem_mul alpha (felem_diff beta xo)) (felem_scalar_8 (felem_square gamma))"
  have pd: "point_double x y z = (xo, yo, zo)"
    by (simp only: point_double_def Let_def delta_def gamma_def beta_def alpha_def zo_def xo_def yo_def)
  let ?Z = "2 * ay * Z ^ 4" and ?x = "l ^ 2 - ax - ax"
  note ops = is_num_ops
  have d: "is_num delta (Z ^ 2)" unfolding delta_def using ops(2)[OF n(1)] by (simp only: power2_eq_square)
  have g: "is_num gamma (ay ^ 2 * Z ^ 6)" unfolding gamma_def using ops(2)[OF n(3)] by (simp add: power_numeral_reduce algebra_simps)
  have b: "is_num beta (4 * (ax * Z ^ 2 * (ay ^ 2 * Z ^ 6)))" unfolding beta_def by (intro ops n g)
  have "is_num alpha (3 * ((ax * Z ^ 2 + Z ^ 2) * (ax * Z ^ 2 - Z ^ 2)))" unfolding alpha_def by (intro ops n d)
  moreover have "3 * ((ax * Z ^ 2 + Z ^ 2) * (ax * Z ^ 2 - Z ^ 2)) = Z ^ 4 * (3 * ax ^ 2 - 3)" by algebra
  ultimately have "is_num alpha (Z ^ 4 * (3 * ax ^ 2 - 3))" by simp
  moreover have "cg (Z ^ 4 * (3 * ax ^ 2 - 3)) (Z ^ 4 * (l * (2 * ay)))" using assms(2) by (intro cg_arith cg_refl) (simp add: cg_def)
  ultimately have a: "is_num alpha (Z ^ 4 * (l * (2 * ay)))" by (rule is_num_cg)
  have "is_num zo ((ay * Z ^ 3 + Z) * (ay * Z ^ 3 + Z) - ay ^ 2 * Z ^ 6 - Z ^ 2)" unfolding zo_def by (intro ops n d g)
  moreover have "(ay * Z ^ 3 + Z) * (ay * Z ^ 3 + Z) - ay ^ 2 * Z ^ 6 - Z ^ 2 = ?Z" by algebra
  ultimately have zn: "is_num zo ?Z" by simp
  let ?b = "4 * (ax * Z ^ 2 * (ay ^ 2 * Z ^ 6))" and ?a = "Z ^ 4 * (l * (2 * ay))"
  have "is_num xo (?a * ?a - ?b - ?b)" unfolding xo_def by (intro ops a b)
  moreover have "?a * ?a - ?b - ?b = ?x * ?Z ^ 2" by algebra
  ultimately have xn: "is_num xo (?x * ?Z ^ 2)" by simp
  have "is_num yo (?a * (?b - ?x * ?Z ^ 2) - 8 * (ay ^ 2 * Z ^ 6 * (ay ^ 2 * Z ^ 6)))" unfolding yo_def by (intro ops a b g xn)
  moreover have "?a * (?b - ?x * ?Z ^ 2) - 8 * (ay ^ 2 * Z ^ 6 * (ay ^ 2 * Z ^ 6)) = (l * (ax - ?x) - ay) * ?Z ^ 3" by algebra
  ultimately have yn: "is_num yo ((l * (ax - ?x) - ay) * ?Z ^ 3)" by simp
  show ?thesis unfolding pd third_def Let_def fst_conv snd_conv by (rule stands_forI[OF zn xn yn])
qed

text \<open>
  The common end of the three additions: \<open>u1\<close>, \<open>s1\<close> are the first point brought to the common denominator \<open>W\<close>,
  \<open>h\<close> and \<open>r\<close> the differences, \<open>t\<close> is \<open>2 W\<close>.
\<close>

definition add_end :: "felem \<Rightarrow> felem \<Rightarrow> felem \<Rightarrow> felem \<Rightarrow> felem \<Rightarrow> jpoint" where
  "add_end u1 s1 h r t =
     (let i = felem_square (felem_sum h h); j = felem_mul h i; r = felem_sum r r; v = felem_mul u1 i;
          x = felem_diff (felem_diff (felem_diff (felem_square r) j) v) v; w = felem_mul s1 j;
          y = felem_diff (felem_diff (felem_mul (felem_diff v x) r) w) w
      in (x, y, felem_mul t h))"

lemma add_end_stands:
  assumes n: "is_num u1 (x1 * W ^ 2)" "is_num s1 (y1 * W ^ 3)" "is_num h ((x2 - x1) * W ^ 2)" "is_num r ((y2 - y1) * W ^ 3)" "is_num t (2 * W)"
    and l: "cg (l * (x2 - x1)) (y2 - y1)"
  shows "stands_for (add_end u1 s1 h r t) (third l (x1, y1) (x2, y2))"
proof -
  define D where "D = x2 - x1"
  define i where "i = felem_square (felem_sum h h)"
  define j v rr where "j = felem_mul h i" and "v = felem_mul u1 i" and "rr = felem_sum r r"
  define xo where "xo = felem_diff (felem_diff (felem_diff (felem_square rr) j) v) v"
  define w where "w = felem_mul s1 j"
  define yo where "yo = felem_diff (felem_diff (felem_mul (felem_diff v xo) rr) w) w"
  have ae: "add_end u1 s1 h r t = (xo, yo, felem_mul t h)"
    by (simp only: add_end_def Let_def i_def j_def v_def rr_def xo_def w_def yo_def)
  note ops = is_num_ops
  let ?Z = "2 * D * W ^ 3" and ?x = "l ^ 2 - x1 - x2"
  have x2: "x2 = x1 + D" by (simp add: D_def)
  have "is_num (felem_mul t h) (2 * W * ((x2 - x1) * W ^ 2))" by (intro ops n)
  moreover have "2 * W * ((x2 - x1) * W ^ 2) = ?Z" unfolding D_def by algebra
  ultimately have zn: "is_num (felem_mul t h) ?Z" by simp
  have "is_num i (((x2 - x1) * W ^ 2 + (x2 - x1) * W ^ 2) * ((x2 - x1) * W ^ 2 + (x2 - x1) * W ^ 2))" unfolding i_def by (intro ops n)
  moreover have "((x2 - x1) * W ^ 2 + (x2 - x1) * W ^ 2) * ((x2 - x1) * W ^ 2 + (x2 - x1) * W ^ 2) = 4 * D ^ 2 * W ^ 4" unfolding D_def by algebra
  ultimately have "i": "is_num i (4 * D ^ 2 * W ^ 4)" by (simp only:)
  have j: "is_num j (D * W ^ 2 * (4 * D ^ 2 * W ^ 4))" unfolding j_def using n(3) by (intro ops "i") (simp add: D_def)
  have v: "is_num v (x1 * W ^ 2 * (4 * D ^ 2 * W ^ 4))" unfolding v_def by (intro ops n "i")
  have "cg ((y2 - y1) * W ^ 3) (l * D * W ^ 3)" using l by (intro cg_arith cg_refl) (simp add: cg_def D_def)
  then have "is_num r (l * D * W ^ 3)" by (rule is_num_cg[OF n(4)])
  then have rr: "is_num rr (l * D * W ^ 3 + l * D * W ^ 3)" unfolding rr_def by (intro ops)
  let ?r = "l * D * W ^ 3 + l * D * W ^ 3" and ?j = "D * W ^ 2 * (4 * D ^ 2 * W ^ 4)" and ?v = "x1 * W ^ 2 * (4 * D ^ 2 * W ^ 4)"
  have "is_num xo (?r * ?r - ?j - ?v - ?v)" unfolding xo_def by (intro ops rr j v)
  moreover have "?r * ?r - ?j - ?v - ?v = ?x * ?Z ^ 2" unfolding x2 by algebra
  ultimately have xn: "is_num xo (?x * ?Z ^ 2)" by simp
  have w: "is_num w (y1 * W ^ 3 * ?j)" unfolding w_def by (intro ops n j)
  have "is_num yo ((?v - ?x * ?Z ^ 2) * ?r - y1 * W ^ 3 * ?j - y1 * W ^ 3 * ?j)" unfolding yo_def by (intro ops v xn rr w)
  moreover have "(?v - ?x * ?Z ^ 2) * ?r - y1 * W ^ 3 * ?j - y1 * W ^ 3 * ?j = (l * (x1 - ?x) - y1) * ?Z ^ 3" by algebra
  ultimately have yn: "is_num yo ((l * (x1 - ?x) - y1) * ?Z ^ 3)" by simp
  show ?thesis unfolding ae third_def Let_def fst_conv snd_conv by (rule stands_forI[OF zn xn yn])
qed

lemma point_add_end:
  "point_add x1 y1 z1 x2 y2 z2 =
     (let u1 = felem_mul x1 (felem_square z2); s1 = felem_mul y1 (felem_mul z2 (felem_square z2))
      in add_end u1 s1 (felem_diff (felem_mul x2 (felem_square z1)) u1)
           (felem_diff (felem_mul y2 (felem_mul z1 (felem_square z1))) s1)
           (felem_diff (felem_diff (felem_square (felem_sum z1 z2)) (felem_square z1)) (felem_square z2)))"
  by (simp only: point_add_def add_end_def Let_def)

lemma point_add_mixed_end:
  "point_add_mixed x1 y1 z1 x2 y2 =
     add_end x1 y1 (felem_diff (felem_mul x2 (felem_square z1)) x1) (felem_diff (felem_mul y2 (felem_mul z1 (felem_square z1))) y1)
       (felem_sum z1 z1)"
  by (simp only: point_add_mixed_def add_end_def Let_def)

text \<open>Both points at the common denominator \<open>Z1 Z2\<close>.\<close>

lemma common_denominator:
  assumes "is_num z1 Z1" "is_num z2 Z2" "is_num x2 (ax * Z2 ^ 2)" "is_num y2 (ay * Z2 ^ 3)"
  shows "is_num (felem_mul x2 (felem_square z1)) (ax * (Z1 * Z2) ^ 2)" "is_num (felem_mul y2 (felem_mul z1 (felem_square z1))) (ay * (Z1 * Z2) ^ 3)"
proof -
  have "is_num (felem_mul x2 (felem_square z1)) (ax * Z2 ^ 2 * (Z1 * Z1))"
    "is_num (felem_mul y2 (felem_mul z1 (felem_square z1))) (ay * Z2 ^ 3 * (Z1 * (Z1 * Z1)))"
    by (intro is_num_ops assms)+
  moreover have "ax * Z2 ^ 2 * (Z1 * Z1) = ax * (Z1 * Z2) ^ 2" "ay * Z2 ^ 3 * (Z1 * (Z1 * Z1)) = ay * (Z1 * Z2) ^ 3" by algebra+
  ultimately show "is_num (felem_mul x2 (felem_square z1)) (ax * (Z1 * Z2) ^ 2)"
    "is_num (felem_mul y2 (felem_mul z1 (felem_square z1))) (ay * (Z1 * Z2) ^ 3)" by simp_all
qed

lemma is_num_differences:
  assumes "is_num a (x1 * c)" "is_num b (x2 * c)"
  shows "is_num (felem_diff b a) ((x2 - x1) * c)"
  using is_num_ops(4)[OF assms(2,1)] by (simp only: left_diff_distrib)

lemma point_add_stands:
  assumes "stands_for (x1, y1, z1) (a1, b1)" "stands_for (x2, y2, z2) (a2, b2)" "cg (l * (a2 - a1)) (b2 - b1)"
  shows "stands_for (point_add x1 y1 z1 x2 y2 z2) (third l (a1, b1) (a2, b2))"
proof -
  obtain Z1 where n1: "is_num z1 Z1" "is_num x1 (a1 * Z1 ^ 2)" "is_num y1 (b1 * Z1 ^ 3)" by (rule stands_forE[OF assms(1)])
  obtain Z2 where n2: "is_num z2 Z2" "is_num x2 (a2 * Z2 ^ 2)" "is_num y2 (b2 * Z2 ^ 3)" by (rule stands_forE[OF assms(2)])
  note c1 = common_denominator[OF n2(1) n1, unfolded mult.commute[of Z2 Z1]] and c2 = common_denominator[OF n1(1) n2]
  have "is_num (felem_diff (felem_diff (felem_square (felem_sum z1 z2)) (felem_square z1)) (felem_square z2))
      ((Z1 + Z2) * (Z1 + Z2) - Z1 * Z1 - Z2 * Z2)" by (intro is_num_ops n1 n2)
  moreover have "(Z1 + Z2) * (Z1 + Z2) - Z1 * Z1 - Z2 * Z2 = 2 * (Z1 * Z2)" by algebra
  ultimately have t: "is_num (felem_diff (felem_diff (felem_square (felem_sum z1 z2)) (felem_square z1)) (felem_square z2)) (2 * (Z1 * Z2))" by simp
  show ?thesis unfolding point_add_end Let_def
    by (rule add_end_stands[OF c1 is_num_differences[OF c1(1) c2(1)] is_num_differences[OF c1(2) c2(2)] t assms(3)])
qed

lemma point_add_mixed_stands:
  assumes "stands_for (x1, y1, z1) (a1, b1)" "is_num x2 a2" "is_num y2 b2" "cg (l * (a2 - a1)) (b2 - b1)"
  shows "stands_for (point_add_mixed x1 y1 z1 x2 y2) (third l (a1, b1) (a2, b2))"
proof -
  obtain Z1 where n1: "is_num z1 Z1" "is_num x1 (a1 * Z1 ^ 2)" "is_num y1 (b1 * Z1 ^ 3)" by (rule stands_forE[OF assms(1)])
  have "is_num (felem_mul x2 (felem_square z1)) (a2 * (Z1 * Z1))" "is_num (felem_mul y2 (felem_mul z1 (felem_square z1))) (b2 * (Z1 * (Z1 * Z1)))"
    by (intro is_num_ops assms(2,3) n1)+
  then have c2: "is_num (felem_mul x2 (felem_square z1)) (a2 * Z1 ^ 2)" "is_num (felem_mul y2 (felem_mul z1 (felem_square z1))) (b2 * Z1 ^ 3)"
    by (simp_all add: power2_eq_square power3_eq_cube mult.assoc)
  have t: "is_num (felem_sum z1 z1) (2 * Z1)" using is_num_ops(3)[OF n1(1) n1(1)] by simp
  show ?thesis unfolding point_add_mixed_end
    by (rule add_end_stands[OF n1(2,3) is_num_differences[OF n1(2) c2(1)] is_num_differences[OF n1(3) c2(2)] t assms(4)])
qed

section \<open>Addition or doubling\<close>

lemma felem_is_zero_num: "is_num a x \<Longrightarrow> felem_is_zero_vartime a = Some (cg x 0)"
proof -
  assume a: "is_num a x"
  then have ok: "felem_ok a" by (simp add: is_num_def)
  have "int (felem_val a) mod prime = 0 \<longleftrightarrow> felem_num a = 0"
  proof
    assume z: "felem_num a = 0"
    have "int (felem_val a) mod prime = int (felem_val a) * (int (bn kRInv) * 2 ^ 257 mod prime) mod prime"
      unfolding kRInv_int by (simp only: mult_1_right)
    also have "\<dots> = felem_num a * 2 ^ 257 mod prime" unfolding felem_num_def mod_mult_right_eq mod_mult_left_eq by (simp only: mult.assoc)
    finally show "int (felem_val a) mod prime = 0" unfolding z by (simp only: mult_zero_left mod_0)
  next
    assume z: "int (felem_val a) mod prime = 0"
    have "felem_num a = int (felem_val a) mod prime * int (bn kRInv) mod prime" unfolding felem_num_def mod_mult_left_eq ..
    then show "felem_num a = 0" unfolding z by (simp only: mult_zero_left mod_0)
  qed
  moreover have "felem_num a mod prime = felem_num a" unfolding felem_num_def by (rule mod_mod_trivial)
  then have "felem_num a = 0 \<longleftrightarrow> cg x 0" using a by (simp only: is_num_def cg_def mod_0)
  moreover have "int (felem_val a) mod prime = 0 \<longleftrightarrow> felem_val a mod secp = 0" unfolding of_nat_mod[symmetric] by (rule of_nat_eq_0_iff)
  ultimately show ?thesis using felem_is_zero_value[OF ok] by (simp only:)
qed

lemma point_add_or_double_split:
  assumes "stands_for (x1, y1, z1) (a1, b1)" "stands_for (x2, y2, z2) (a2, b2)"
  defines "W \<equiv> felem_num z1 * felem_num z2"
  shows "point_add_or_double_vartime x1 y1 z1 x2 y2 z2 =
    Some (if cg ((a2 - a1) * W ^ 2) 0 \<and> cg ((b2 - b1) * W ^ 3) 0 then point_double x1 y1 z1 else point_add x1 y1 z1 x2 y2 z2)"
proof -
  have z: "is_num z1 (felem_num z1)" "is_num z2 (felem_num z2)" using assms(1,2) by (simp_all add: stands_for_def is_num_self)
  have n1: "is_num x1 (a1 * felem_num z1 ^ 2)" "is_num y1 (b1 * felem_num z1 ^ 3)" and n2: "is_num x2 (a2 * felem_num z2 ^ 2)" "is_num y2 (b2 * felem_num z2 ^ 3)"
    using assms(1,2) by (simp_all add: stands_for_def)
  note c1 = common_denominator[OF z(2,1) n1, unfolded mult.commute[of "felem_num z2" "felem_num z1"], folded W_def]
    and c2 = common_denominator[OF z n2, folded W_def]
  note h = felem_is_zero_num[OF is_num_differences[OF c1(1) c2(1)]] and r = felem_is_zero_num[OF is_num_differences[OF c1(2) c2(2)]]
  show ?thesis unfolding point_add_or_double_vartime_def point_add_def Let_def
    by (simp add: h r)
qed

section \<open>Back to affine coordinates\<close>

lemma point_to_affine_num:
  assumes "stands_for (x, y, z) (ax, ay)" "felem_num z ^ (secp - 1) mod prime = 1" "point_to_affine x y z = (ox, oy)"
  shows "is_num ox ax \<and> is_num oy ay"
proof -
  let ?Z = "felem_num z"
  define I where "I = ?Z ^ (secp - 2)"
  have ok: "felem_ok z" and n: "is_num x (ax * ?Z ^ 2)" "is_num y (ay * ?Z ^ 3)" using assms(1) by (simp_all add: stands_for_def)
  have i: "is_num (felem_inv z) I"
    using felem_inv_power[OF ok] by (simp add: p256.is_power_def is_num_def cg_def I_def)
  have "secp - 1 = Suc (secp - 2)" by (simp add: SECP256r1_values)
  then have "?Z ^ (secp - 1) = I * ?Z" by (simp only: I_def power_Suc mult.commute)
  then have one: "cg (I * ?Z) 1" using assms(2) by (simp add: cg_def SECP256r1_values)
  have "cg (I * ?Z * (I * ?Z)) (1 * 1)" "cg (I * ?Z * (I * ?Z) * (I * ?Z)) (1 * 1 * 1)" by (intro cg_arith one)+
  then have c: "cg (ax * ((I * ?Z) * (I * ?Z))) ax" "cg (ay * ((I * ?Z) * (I * ?Z) * (I * ?Z))) ay"
    using cg_arith(1)[OF cg_refl] by (metis mult_1_right)+
  have "is_num ox (ax * ?Z ^ 2 * (I * I))" "is_num oy (ay * ?Z ^ 3 * (I * (I * I)))"
    using assms(3) by (auto simp: point_to_affine_def Let_def intro!: is_num_ops n i)
  moreover have "ax * ?Z ^ 2 * (I * I) = ax * ((I * ?Z) * (I * ?Z))" "ay * ?Z ^ 3 * (I * (I * I)) = ay * ((I * ?Z) * (I * ?Z) * (I * ?Z))" by algebra+
  ultimately show ?thesis using c by (simp add: is_num_cg)
qed

section \<open>The first table entries\<close>

text \<open>The first two points of the precomputed table, the base point and its multiple by \<open>2\<^sup>6\<^sup>4\<close>.\<close>

definition base_x :: felem where
  "base_x = [0x11522878, 0xe730d41, 0xdb60179, 0x4afe2ff, 0x12883add, 0xcaddd88, 0x119e7edc, 0xd4a6eab, 0x3120bee]"

definition base_y :: felem where
  "base_y = [0x1d2aac15, 0xf25357c, 0x19e45cdd, 0x5c721d0, 0x1992c5a5, 0xa237487, 0x154ba21, 0x14b10bb, 0xae3fe3]"

definition base64_x :: felem where
  "base64_x = [0xd41a576, 0x922fc51, 0x234994f, 0x60b60d3, 0x164586ae, 0xce95f18, 0x1fe49073, 0x3fa36cc, 0x5ebcd2c]"

definition base64_y :: felem where
  "base64_y = [0xb402f2f, 0x15c70bf, 0x1561925c, 0x5a26704, 0xda91e90, 0xcdc1c7f, 0x1ea12446, 0xe1ade1e, 0xec91f22]"

lemma kPrecomputed_first: "take 36 kPrecomputed = base_x @ base_y @ base64_x @ base64_y"
  by (simp add: kPrecomputed_def base_x_def base_y_def base64_x_def base64_y_def)

lemma base_x_num: "is_num base_x 0x6b17d1f2e12c4247f8bce6e563a440f277037d812deb33a0f4a13945d898c296"
proof -
  have "felem_num base_x = 0x6b17d1f2e12c4247f8bce6e563a440f277037d812deb33a0f4a13945d898c296"
    unfolding felem_num_def SECP256r1_values by (rule int_mod_eq_by_quotient[of _ "0x18905f768ca6f65005e4dc5247d55d71f24f5742f187c99caaa5fc91d898c296"]) (simp_all add: base_x_def felem_val_def kRInv_def)
  moreover have "felem_ok base_x" by (simp add: felem_ok_def base_x_def)
  ultimately show ?thesis by (simp add: is_num_def)
qed

lemma base_y_num: "is_num base_y 0x4fe342e2fe1a7f9b8ee7eb4a7c0f9e162bce33576b315ececbb6406837bf51f5"
proof -
  have "felem_num base_y = 0x4fe342e2fe1a7f9b8ee7eb4a7c0f9e162bce33576b315ececbb6406837bf51f5"
    unfolding felem_num_def SECP256r1_values by (rule int_mod_eq_by_quotient[of _ "0x571ff18a0165e6cb8442734d54a27a753f9d2d06e8510dc5ff63e48b7bf51f5"]) (simp_all add: base_y_def felem_val_def kRInv_def)
  moreover have "felem_ok base_y" by (simp add: felem_ok_def base_y_def)
  ultimately show ?thesis by (simp add: is_num_def)
qed

lemma base64_x_num: "is_num base64_x 0xfa822bc2811aaa58492592e326e25de29493baaad651f7e90e75cb48e14db63"
proof -
  have "felem_num base64_x = 0xfa822bc2811aaa58492592e326e25de29493baaad651f7e90e75cb48e14db63"
    unfolding felem_num_def SECP256r1_values by (rule int_mod_eq_by_quotient[of _ "0x2f5e6961cdbcfd1df3e33b7ebfbb2a4fda1a3355ebf035a54d04e4838e14db63"]) (simp_all add: base64_x_def felem_val_def kRInv_def)
  moreover have "felem_ok base64_x" by (simp add: felem_ok_def base64_x_def)
  ultimately show ?thesis by (simp add: is_num_def)
qed

lemma base64_y_num: "is_num base64_y 0xbff44ae8f5dba80d6f4ad4bcb3df188b34b1a65050fe82f5e41124545f462ee7"
proof -
  have "felem_num base64_y = 0xbff44ae8f5dba80d6f4ad4bcb3df188b34b1a65050fe82f5e41124545f462ee7"
    unfolding felem_num_def SECP256r1_values by (rule int_mod_eq_by_quotient[of _ "0x7648f9169726166463b3fdea9d6cdf103f230f6927fd5d010330dd8ddf462ee7"]) (simp_all add: base64_y_def felem_val_def kRInv_def)
  moreover have "felem_ok base64_y" by (simp add: felem_ok_def base64_y_def)
  ultimately show ?thesis by (simp add: is_num_def)
qed

lemma kOne_num: "is_num kOne 1"
proof -
  have "felem_val kOne = bn kR" by (simp add: kOne_def kR_def felem_val_def)
  then have "felem_num kOne = int (bn kRInv * bn kR mod secp)" by (simp only: felem_num_def of_nat_mod of_nat_mult mult.commute)
  also have "\<dots> = int (bn kRInv * 2 ^ 257 mod secp)" by (simp only: kR_mod)
  finally have "felem_num kOne = int (bn kRInv * 2 ^ 257 mod secp)" .
  then show ?thesis unfolding kRInv_mod using felem_ok_kOne by (simp add: is_num_def)
qed

lemma base_stands: "stands_for (base_x, base_y, kOne) (0x6b17d1f2e12c4247f8bce6e563a440f277037d812deb33a0f4a13945d898c296, 0x4fe342e2fe1a7f9b8ee7eb4a7c0f9e162bce33576b315ececbb6406837bf51f5)"
  by (rule stands_forI[OF kOne_num]) (simp_all add: base_x_num base_y_num)

lemma base64_stands: "stands_for (base64_x, base64_y, kOne) (0xfa822bc2811aaa58492592e326e25de29493baaad651f7e90e75cb48e14db63, 0xbff44ae8f5dba80d6f4ad4bcb3df188b34b1a65050fe82f5e41124545f462ee7)"
  by (rule stands_forI[OF kOne_num]) (simp_all add: base64_x_num base64_y_num)

lemma cg_by_quotient: "x = y + q * prime \<Longrightarrow> cg x y"
  unfolding cg_def by simp

lemma base_tangent: "cg (0xa249bcb3191802d3cb56fc75a8731f848e7b2caf080f3477a4e4d904a671af9d * (2 * 0x4fe342e2fe1a7f9b8ee7eb4a7c0f9e162bce33576b315ececbb6406837bf51f5)) (3 * 0x6b17d1f2e12c4247f8bce6e563a440f277037d812deb33a0f4a13945d898c296 ^ 2 - 3)"
  by (rule cg_by_quotient[of _ _ "- 0x211d1d206a8228ca3f068bcb77b6c66e965b291a72799fab76713dc1b6ea6cd9"]) (simp add: SECP256r1_values)

lemma base_chord: "cg (0x9ad4dd86289c683ba0099c37d4ebd5faa3626bac58cb8dc48fd302c71352a356 * (0xfa822bc2811aaa58492592e326e25de29493baaad651f7e90e75cb48e14db63 - 0x6b17d1f2e12c4247f8bce6e563a440f277037d812deb33a0f4a13945d898c296)) (0xbff44ae8f5dba80d6f4ad4bcb3df188b34b1a65050fe82f5e41124545f462ee7 - 0x4fe342e2fe1a7f9b8ee7eb4a7c0f9e162bce33576b315ececbb6406837bf51f5)"
  by (rule cg_by_quotient[of _ _ "- 0x374d37039131c55b7c7ac517a183d938bc2ad1170f92ab75a052b9c4fc9dfeec"]) (simp add: SECP256r1_values)

section \<open>Properties\<close>

text \<open>
  C27. \<open>point_double\<close> is the tangent construction: the result of doubling a Jacobian point that stands for
  \<open>(x, y)\<close> stands for the third intersection, reflected, of the line whose slope \<open>l\<close> satisfies \<open>2 y l = 3 x\<^sup>2 - 3\<close>.
\<close>

theorem point_double_correct:
  assumes "stands_for (x, y, z) (ax, ay)" "cg (l * (2 * ay)) (3 * ax ^ 2 - 3)"
  shows "stands_for (point_double x y z) (third l (ax, ay) (ax, ay))"
  using assms by (rule point_double_stands)

theorem point_double_witness:
  "stands_for (point_double base_x base_y kOne)
     (third 0xa249bcb3191802d3cb56fc75a8731f848e7b2caf080f3477a4e4d904a671af9d (0x6b17d1f2e12c4247f8bce6e563a440f277037d812deb33a0f4a13945d898c296, 0x4fe342e2fe1a7f9b8ee7eb4a7c0f9e162bce33576b315ececbb6406837bf51f5) (0x6b17d1f2e12c4247f8bce6e563a440f277037d812deb33a0f4a13945d898c296, 0x4fe342e2fe1a7f9b8ee7eb4a7c0f9e162bce33576b315ececbb6406837bf51f5))"
  by (rule point_double_correct[OF base_stands base_tangent])

text \<open>
  C28. Both additions are the chord construction: with the slope \<open>l\<close> that satisfies \<open>l (x\<^sub>2 - x\<^sub>1) = y\<^sub>2 - y\<^sub>1\<close>, the result
  of \<open>point_add\<close> on Jacobian points, and of \<open>point_add_mixed\<close> with an affine second point, stands for the third
  intersection, reflected.
\<close>

theorem point_add_correct:
  assumes "stands_for (x1, y1, z1) (a1, b1)" "stands_for (x2, y2, z2) (a2, b2)" "is_num mx a2" "is_num my b2"
    "cg (l * (a2 - a1)) (b2 - b1)"
  shows "stands_for (point_add x1 y1 z1 x2 y2 z2) (third l (a1, b1) (a2, b2)) \<and>
    stands_for (point_add_mixed x1 y1 z1 mx my) (third l (a1, b1) (a2, b2))"
  using point_add_stands[OF assms(1,2,5)] point_add_mixed_stands[OF assms(1,3,4,5)] ..

theorem point_add_witness:
  "stands_for (point_add base_x base_y kOne base64_x base64_y kOne)
     (third 0x9ad4dd86289c683ba0099c37d4ebd5faa3626bac58cb8dc48fd302c71352a356 (0x6b17d1f2e12c4247f8bce6e563a440f277037d812deb33a0f4a13945d898c296, 0x4fe342e2fe1a7f9b8ee7eb4a7c0f9e162bce33576b315ececbb6406837bf51f5) (0xfa822bc2811aaa58492592e326e25de29493baaad651f7e90e75cb48e14db63, 0xbff44ae8f5dba80d6f4ad4bcb3df188b34b1a65050fe82f5e41124545f462ee7)) \<and>
   stands_for (point_add_mixed base_x base_y kOne base64_x base64_y)
     (third 0x9ad4dd86289c683ba0099c37d4ebd5faa3626bac58cb8dc48fd302c71352a356 (0x6b17d1f2e12c4247f8bce6e563a440f277037d812deb33a0f4a13945d898c296, 0x4fe342e2fe1a7f9b8ee7eb4a7c0f9e162bce33576b315ececbb6406837bf51f5) (0xfa822bc2811aaa58492592e326e25de29493baaad651f7e90e75cb48e14db63, 0xbff44ae8f5dba80d6f4ad4bcb3df188b34b1a65050fe82f5e41124545f462ee7))"
  by (rule point_add_correct[OF base_stands base64_stands base64_x_num base64_y_num base_chord])

text \<open>
  \<open>point_add_or_double_vartime\<close> always returns; it doubles when the two points agree at their common
  denominator and otherwise does what \<open>point_add\<close> does.
\<close>

lemma point_add_or_double_correct:
  assumes "stands_for (x1, y1, z1) (a1, b1)" "stands_for (x2, y2, z2) (a2, b2)"
  shows "point_add_or_double_vartime x1 y1 z1 x2 y2 z2 =
    Some (if cg ((a2 - a1) * (felem_num z1 * felem_num z2) ^ 2) 0 \<and> cg ((b2 - b1) * (felem_num z1 * felem_num z2) ^ 3) 0
      then point_double x1 y1 z1 else point_add x1 y1 z1 x2 y2 z2)"
  using assms by (rule point_add_or_double_split)

theorem point_add_or_double_witness:
  "point_add_or_double_vartime base_x base_y kOne base_x base_y kOne = Some (point_double base_x base_y kOne)"
  using point_add_or_double_correct[OF base_stands base_stands] by simp

text \<open>
  \<open>point_to_affine\<close> returns the coordinates of the affine point, for every \<open>Z\<close> that satisfies Fermat's
  equation \<open>Z\<^sup>p\<^sup>-\<^sup>1 = 1\<close>.
\<close>

lemma point_to_affine_correct:
  assumes "stands_for (x, y, z) (ax, ay)" "felem_num z ^ (secp - 1) mod prime = 1" "point_to_affine x y z = (ox, oy)"
  shows "is_num ox ax \<and> is_num oy ay"
  using assms by (rule point_to_affine_num)

theorem point_to_affine_witness:
  "case point_to_affine base_x base_y kOne of (ox, oy) \<Rightarrow> is_num ox 0x6b17d1f2e12c4247f8bce6e563a440f277037d812deb33a0f4a13945d898c296 \<and> is_num oy 0x4fe342e2fe1a7f9b8ee7eb4a7c0f9e162bce33576b315ececbb6406837bf51f5"
proof -
  have "felem_num kOne = 1"
    using kOne_num pos_mod_bound[of prime 1] by (simp add: is_num_def cg_def felem_num_def SECP256r1_values)
  then have "felem_num kOne ^ (secp - 1) mod prime = 1" by (simp add: SECP256r1_values)
  from point_to_affine_correct[OF base_stands this] show ?thesis by (cases "point_to_affine base_x base_y kOne") simp
qed

end
