(* ===== verification/P256_Select.thy ===== *)
theory P256_Select
  imports P256_Ec
begin

text \<open>
  The constant-time parts of the scalar multiplications of \<^verbatim>\<open>p256_ec.c\<close>: the table selections return
  exactly the indexed entry, the conditional copies keep the right point whether or not the
  running sum or the table point is infinite, and the indices are the bit windows of the scalar.
\<close>

section \<open>Masks and selections\<close>

lemma xor_swap [simp]: "(x :: u32) XOR (y XOR x) = y"
  by (rule bit_word_eqI, auto simp: bit_simps)

lemma xor_zero_iff: "(x :: u32) XOR y = 0 \<longleftrightarrow> x = y"
  by (metis xor_self_eq xor_swap xor.right_neutral)

lemma copy_conditional_ones: "length out = length a \<Longrightarrow> copy_conditional out a (-1) = a"
  unfolding copy_conditional_def by (induction out a rule: list_induct2) simp_all

lemma copy_conditional_zero: "length out = length a \<Longrightarrow> copy_conditional out a 0 = out"
  unfolding copy_conditional_def by (induction out a rule: list_induct2) simp_all

lemma word_16_bits: "unat (x :: u32) < 16 \<Longrightarrow> x \<noteq> 0 \<Longrightarrow> bit x 0 \<or> bit x 1 \<or> bit x 2 \<or> bit x 3"
proof (rule ccontr)
  assume x: "unat x < 16" "x \<noteq> 0" and n: "\<not> (bit x 0 \<or> bit x 1 \<or> bit x 2 \<or> bit x 3)"
  have "take_bit 4 (unat x) = unat x" using x(1) by (simp add: take_bit_nat_eq_self)
  then have t: "take_bit 4 x = x" by (simp add: word_unat_eq_iff unsigned_take_bit_eq)
  have "x = 0"
  proof (rule bit_word_eqI)
    fix i assume "i < LENGTH(32)"
    have "bit x i \<longleftrightarrow> i < 4 \<and> bit x i" using t by (metis bit_take_bit_iff)
    moreover have "i < 4 \<Longrightarrow> i = 0 \<or> i = 1 \<or> i = 2 \<or> i = 3" by linarith
    ultimately show "bit x i \<longleftrightarrow> bit 0 i" using n by auto
  qed
  with x(2) show False ..
qed

lemma unat_xor_less: "unat (x :: u32) < 2 ^ n \<Longrightarrow> unat y < 2 ^ n \<Longrightarrow> unat (x XOR y) < 2 ^ n"
  by (simp add: unsigned_xor_eq flip: take_bit_nat_eq_self_iff)

lemma select_mask_value:
  assumes "unat i < 16" "unat index < 16"
  shows "select_mask i index = (if i = index then -1 else 0)"
proof -
  define x where "x = i XOR index"
  let ?m = "(x OR drop_bit 2 x) OR drop_bit 1 (x OR drop_bit 2 x)"
  have x: "unat x < 16" using assms unat_xor_less[of i 4 index] by (simp add: x_def)
  have "?m AND 1 = of_bool (bit x 0 \<or> bit x 1 \<or> bit x 2 \<or> bit x 3)"
    by (rule bit_word_eqI) (auto simp: bit_simps numeral_3_eq_3 numeral_2_eq_2)
  also have "(bit x 0 \<or> bit x 1 \<or> bit x 2 \<or> bit x 3) \<longleftrightarrow> i \<noteq> index"
    using word_16_bits[OF x] xor_zero_iff[of i index] by (auto simp flip: x_def)
  finally show ?thesis by (simp add: select_mask_def Let_def flip: x_def)
qed

lemma or_masked_zero: "length out = 9 \<Longrightarrow> 9 \<le> length table \<Longrightarrow> or_masked 0 out table = out"
  by (simp add: or_masked_def map2_map_map[symmetric]) (auto intro!: nth_equalityI)

lemma or_masked_ones: "length table \<ge> 9 \<Longrightarrow> or_masked (-1) (replicate 9 0) table = take 9 table"
  by (auto simp: or_masked_def intro!: nth_equalityI)

lemma length_or_masked [simp]: "length out = 9 \<Longrightarrow> 9 \<le> length table \<Longrightarrow> length (or_masked m out table) = 9"
  by (simp add: or_masked_def)

lemma of_nat_small: "i < 16 \<Longrightarrow> unat (of_nat i :: u32) = i"
  by (simp add: unat_of_nat take_bit_nat_eq_self)

lemma select_affine_miss:
  assumes "\<forall>i\<in>set is. i < 16 \<and> i \<noteq> unat index" "unat index < 16" "length table \<ge> 18 * length is" "length ox = 9" "length oy = 9"
  shows "select_affine_loop table index is (ox, oy) = (ox, oy)"
  using assms
proof (induction "is" arbitrary: table)
  case (Cons i "is")
  have "(of_nat i :: u32) \<noteq> index" using Cons.prems(1) of_nat_small[of i] by auto
  then have "select_mask (of_nat i) index = 0"
    using Cons.prems of_nat_small[of i] by (subst select_mask_value) simp_all
  then show ?case using Cons by (simp add: or_masked_zero)
qed simp

lemma select_affine_hit:
  assumes "distinct is" "\<forall>i\<in>set is. i < 16" "k < length is" "is ! k = unat index" "length table \<ge> 18 * length is"
  shows "select_affine_loop table index is (replicate 9 0, replicate 9 0)
    = (take 9 (drop (18 * k) table), take 9 (drop (18 * k + 9) table))"
  using assms
proof (induction "is" arbitrary: table k)
  case (Cons i "is")
  have idx: "unat index < 16" using Cons.prems nth_mem[of k "i # is"] by metis
  have i: "unat (of_nat i :: u32) = i" using Cons.prems(2) by (intro of_nat_small) simp
  show ?case
  proof (cases k)
    case 0
    then have "of_nat i = index" using Cons.prems(4) i by (simp add: word_unat_eq_iff)
    then have "select_mask (of_nat i) index = -1" using idx by (subst select_mask_value) simp_all
    moreover have "\<forall>j\<in>set is. j < 16 \<and> j \<noteq> unat index" using Cons.prems 0 by auto
    ultimately show ?thesis using Cons.prems(5) idx 0
      by (simp add: or_masked_ones select_affine_miss)
  next
    case (Suc j)
    then have "of_nat i \<noteq> index" using Cons.prems i by auto
    then have "select_mask (of_nat i) index = 0" using idx Cons.prems(2) i by (subst select_mask_value) simp_all
    then show ?thesis using Cons.prems Cons.IH[of j "drop 18 table"] Suc
      by (simp add: or_masked_zero add.commute)
  qed
qed simp

lemma select_affine_value:
  assumes "unat index < 16" "length table \<ge> 270"
  shows "select_affine_point table index = (if index = 0 then (replicate 9 0, replicate 9 0)
    else (take 9 (drop (18 * (unat index - 1)) table), take 9 (drop (18 * (unat index - 1) + 9) table)))"
proof (cases "index = 0")
  case True
  then show ?thesis using assms unfolding select_affine_point_def by (subst select_affine_miss) auto
next
  case False
  then have "0 < unat index" by (simp add: unat_gt_0)
  then show ?thesis using assms False unfolding select_affine_point_def
    by (subst select_affine_hit[where k = "unat index - 1"]) (auto simp del: upt_Suc)
qed

lemma select_jacobian_miss:
  assumes "\<forall>i\<in>set is. i < 16 \<and> i \<noteq> unat index" "unat index < 16" "length table \<ge> 27 * length is"
    "length ox = 9" "length oy = 9" "length oz = 9"
  shows "select_jacobian_loop table index is (ox, oy, oz) = (ox, oy, oz)"
  using assms
proof (induction "is" arbitrary: table)
  case (Cons i "is")
  have "(of_nat i :: u32) \<noteq> index" using Cons.prems(1) of_nat_small[of i] by auto
  then have "select_mask (of_nat i) index = 0"
    using Cons.prems of_nat_small[of i] by (subst select_mask_value) simp_all
  then show ?case using Cons by (simp add: or_masked_zero)
qed simp

lemma select_jacobian_hit:
  assumes "distinct is" "\<forall>i\<in>set is. i < 16" "k < length is" "is ! k = unat index" "length table \<ge> 27 * length is"
  shows "select_jacobian_loop table index is (replicate 9 0, replicate 9 0, replicate 9 0)
    = (take 9 (drop (27 * k) table), take 9 (drop (27 * k + 9) table), take 9 (drop (27 * k + 18) table))"
  using assms
proof (induction "is" arbitrary: table k)
  case (Cons i "is")
  have idx: "unat index < 16" using Cons.prems nth_mem[of k "i # is"] by metis
  have i: "unat (of_nat i :: u32) = i" using Cons.prems(2) by (intro of_nat_small) simp
  show ?case
  proof (cases k)
    case 0
    then have "of_nat i = index" using Cons.prems(4) i by (simp add: word_unat_eq_iff)
    then have "select_mask (of_nat i) index = -1" using idx by (subst select_mask_value) simp_all
    moreover have "\<forall>j\<in>set is. j < 16 \<and> j \<noteq> unat index" using Cons.prems 0 by auto
    ultimately show ?thesis using Cons.prems(5) idx 0
      by (simp add: or_masked_ones select_jacobian_miss)
  next
    case (Suc j)
    then have "of_nat i \<noteq> index" using Cons.prems i by auto
    then have "select_mask (of_nat i) index = 0" using idx Cons.prems(2) i by (subst select_mask_value) simp_all
    then show ?thesis using Cons.prems Cons.IH[of j "drop 27 table"] Suc
      by (simp add: or_masked_zero add.commute)
  qed
qed simp

text \<open>A table of sixteen points, as \<open>scalar_mult\<close> lays it out, entry 0 being all zero.\<close>

definition points_ok :: "jpoint list \<Rightarrow> bool" where
  "points_ok ps \<longleftrightarrow> length ps = 16 \<and> (\<forall>(x, y, z)\<in>set ps. length x = 9 \<and> length y = 9 \<and> length z = 9)
     \<and> ps ! 0 = (replicate 9 0, replicate 9 0, replicate 9 0)"

lemma length_flatten:
  "\<forall>(x, y, z)\<in>set ps. length x = 9 \<and> length y = 9 \<and> length z = 9 \<Longrightarrow> length (flatten ps) = 27 * length ps"
  by (induction ps) (auto simp: flatten_def)

lemma flatten_entry:
  assumes "\<forall>(x, y, z)\<in>set ps. length x = 9 \<and> length y = 9 \<and> length z = 9" "k < length ps"
  shows "(take 9 (drop (27 * k) (flatten ps)), take 9 (drop (27 * k + 9) (flatten ps)), take 9 (drop (27 * k + 18) (flatten ps))) = ps ! k"
  using assms
proof (induction ps arbitrary: k)
  case (Cons q ps)
  obtain x y z where q: "q = (x, y, z)" by (cases q)
  have l: "length x = 9" "length y = 9" "length z = 9" using Cons.prems by (auto simp: q)
  have f: "flatten ((x, y, z) # ps) = x @ y @ z @ flatten ps" by (simp add: flatten_def)
  show ?case
  proof (cases k)
    case 0
    then show ?thesis using l by (simp add: f q)
  next
    case (Suc j)
    then show ?thesis using Cons.IH[of j] Cons.prems l by (simp add: f q add.commute)
  qed
qed simp

lemma select_jacobian_value:
  assumes "unat index < 16" "points_ok ps"
  shows "select_jacobian_point (flatten ps) index = ps ! unat index"
proof (cases "index = 0")
  case True
  have "length (flatten ps) = 27 * 16" using length_flatten[of ps] assms(2) by (auto simp: points_ok_def)
  then show ?thesis using True assms unfolding select_jacobian_point_def
    by (subst select_jacobian_miss) (auto simp: points_ok_def)
next
  case False
  then have pos: "0 < unat index" by (simp add: unat_gt_0)
  have e: "length (flatten ps) = 27 * 16"
    "(take 9 (drop (27 * unat index) (flatten ps)), take 9 (drop (27 * unat index + 9) (flatten ps)),
      take 9 (drop (27 * unat index + 18) (flatten ps))) = ps ! unat index"
    using length_flatten[of ps] flatten_entry[of ps "unat index"] assms by (auto simp: points_ok_def)
  obtain k where k: "unat index = Suc k" using pos by (cases "unat index") auto
  show ?thesis using assms(1) e(1) unfolding select_jacobian_point_def e(2)[symmetric]
    by (subst select_jacobian_hit[where k = k]) (auto simp: k add.commute simp del: upt_Suc)
qed

section \<open>The accumulation step\<close>

definition jlen :: "jpoint \<Rightarrow> bool" where
  "jlen = (\<lambda>(x, y, z). length x = 9 \<and> length y = 9 \<and> length z = 9)"

lemma copy_point_value:
  assumes "jlen n" "jlen p"
  shows "copy_point n p (-1) = p" "copy_point n p 0 = n"
  using assms by (auto simp: jlen_def copy_point_def copy_conditional_ones copy_conditional_zero split: prod.splits)

lemma accumulate_value:
  assumes "jlen n" "jlen p" "jlen t" "unat index < 16"
  shows "accumulate t p index (n, -1) = (p, if index = 0 then -1 else 0)"
    "accumulate t p index (n, 0) = (if index = 0 then n else t, 0)"
proof -
  have "index \<noteq> 0 \<Longrightarrow> NON_ZERO_TO_ALL_ONES index = -1"
    using assms(4) by (intro non_zero_mask) (simp_all add: unat_gt_0)
  then show "accumulate t p index (n, -1) = (p, if index = 0 then -1 else 0)"
    "accumulate t p index (n, 0) = (if index = 0 then n else t, 0)"
    using assms by (auto simp: accumulate_def copy_point_value zero_mask Let_def)
qed

section \<open>The windows of the scalar\<close>

lemma get_bit_cases:
  assumes "p256_ok s" "k < 256"
  shows "p256_get_bit s k = of_bool (bit (bn s) k)"
  using p256_get_bit_value[OF assms] by (cases "bit (bn s) k") (simp_all add: word_unat_eq_iff)

lemma unat_or_bits:
  "unat (push_bit 3 (of_bool d) OR push_bit 2 (of_bool c) OR push_bit 1 (of_bool b) OR of_bool a :: u32)
    = of_bool a + 2 * of_bool b + 4 * of_bool c + 8 * of_bool d"
  by (cases a; cases b; cases c; cases d) simp_all

lemma window_index_value:
  assumes "p256_ok s" "i \<le> 252"
  shows "unat (window_index s i) = of_bool (bit (bn s) (252 - i)) + 2 * of_bool (bit (bn s) (253 - i))
    + 4 * of_bool (bit (bn s) (254 - i)) + 8 * of_bool (bit (bn s) (255 - i))"
  using assms(2) unfolding window_index_def by (simp only: get_bit_cases[OF assms(1)] unat_or_bits) simp

section \<open>Properties\<close>

text \<open>
  \<open>select_affine_point\<close> reads out the entry \<open>index\<close> of a table of fifteen affine points, and the zero point
  for index 0.
\<close>

lemma select_affine_point_correct:
  assumes "unat index < 16" "length table \<ge> 270"
  shows "select_affine_point table index = (if index = 0 then (replicate 9 0, replicate 9 0)
    else (take 9 (drop (18 * (unat index - 1)) table), take 9 (drop (18 * (unat index - 1) + 9) table)))"
  using assms by (rule select_affine_value)

theorem select_affine_point_witness:
  "select_affine_point kPrecomputed 1 = (take 9 kPrecomputed, take 9 (drop 9 kPrecomputed))"
  using select_affine_point_correct[of 1 kPrecomputed] by (simp add: kPrecomputed_def)

text \<open>
  \<open>select_jacobian_point\<close> on the table \<open>scalar_mult\<close> builds returns the point at \<open>index\<close>.
\<close>

lemma select_jacobian_point_correct:
  assumes "unat index < 16" "points_ok ps"
  shows "select_jacobian_point (flatten ps) index = ps ! unat index"
  using assms by (rule select_jacobian_value)

definition zero_points :: "jpoint list" where
  "zero_points = replicate 15 (replicate 9 0, replicate 9 0, replicate 9 0) @ [(kOne, kOne, kOne)]"

lemma zero_points_ok: "points_ok zero_points"
  by (auto simp: points_ok_def zero_points_def kOne_def nth_append)

theorem select_jacobian_point_witness:
  "points_ok zero_points \<and> select_jacobian_point (flatten zero_points) 15 = zero_points ! unat (15 :: u32)"
  using select_jacobian_point_correct[of 15 zero_points] zero_points_ok by simp

text \<open>
  The mask logic shared by both scalar loops: while the sum \<open>n\<close> is infinite it becomes the table point
  and stays infinite exactly for index 0; afterwards it becomes the computed sum \<open>t\<close>, except for index
  0, where it is kept.
\<close>

lemma accumulate_correct:
  assumes "jlen n" "jlen p" "jlen t" "unat index < 16"
  shows "accumulate t p index (n, -1) = (p, if index = 0 then -1 else 0) \<and>
    accumulate t p index (n, 0) = (if index = 0 then n else t, 0)"
  using accumulate_value[OF assms] by simp

theorem accumulate_witness:
  "accumulate (kZero, kP, k2P) (kOne, kP, k2P) 3 ((kP, kP, kP), -1) = ((kOne, kP, k2P), if (3 :: u32) = 0 then -1 else 0) \<and>
   accumulate (kZero, kP, k2P) (kOne, kP, k2P) 3 ((kP, kP, kP), 0) = (if (3 :: u32) = 0 then (kP, kP, kP) else (kZero, kP, k2P), 0)"
  by (rule accumulate_correct) (simp_all add: jlen_def kZero_def kOne_def kP_def k2P_def)

text \<open>
  The window index of iteration \<open>i\<close> of \<open>scalar_mult\<close> is the four-bit digit of the scalar at bit
  position \<open>252 - i\<close>, so the 64 iterations read the scalar from its most significant digit down.
\<close>

lemma four_bits:
  "of_bool (odd n) + 2 * of_bool (odd (n div 2)) + 4 * of_bool (odd (n div 4)) + 8 * of_bool (odd (n div 8)) = n mod 16" for n :: nat
proof -
  have o: "of_bool (odd m) = m mod 2" for m :: nat by (simp add: odd_iff_mod_2_eq_one)
  have "n mod 16 = n mod 2 + 2 * (n div 2 mod 8)" using mod_mult2_eq[of n 2 8] by simp
  moreover have "n div 2 mod 8 = n div 2 mod 2 + 2 * (n div 4 mod 4)" using mod_mult2_eq[of "n div 2" 2 4] by (simp flip: div_mult2_eq)
  moreover have "n div 4 mod 4 = n div 4 mod 2 + 2 * (n div 8 mod 2)" using mod_mult2_eq[of "n div 4" 2 2] by (simp flip: div_mult2_eq)
  ultimately show ?thesis unfolding o by simp
qed

lemma window_index_correct:
  assumes "p256_ok scalar" "i \<le> 252"
  shows "unat (window_index scalar i) = bn scalar div 2 ^ (252 - i) mod 16"
proof -
  let ?n = "bn scalar div 2 ^ (252 - i)"
  have b: "bit (bn scalar) (252 - i + j) \<longleftrightarrow> odd (?n div 2 ^ j)" for j
    by (simp add: bit_iff_odd power_add div_mult2_eq)
  have k: "253 - i = 252 - i + 1" "254 - i = 252 - i + 2" "255 - i = 252 - i + 3" using assms(2) by simp_all
  show ?thesis unfolding window_index_value[OF assms] k b b[of 0, simplified] using four_bits[of ?n] by simp
qed

theorem window_index_witness: "unat (window_index SECP256r1_n 4) = bn SECP256r1_n div 2 ^ (252 - 4) mod 16"
  by (rule window_index_correct) simp_all

end
