(* ===== verification/P256_Scalar.thy ===== *)
theory P256_Scalar
  imports P256_Group P256_Select
begin

text \<open>
  The scalar multiplications of \<^verbatim>\<open>p256_ec.c\<close> as a whole: every intermediate point keeps its coordinates within the limb
  bounds, so that \<open>p256_points_mul_vartime\<close> returns for all scalars and keys, with coordinates of eight digits.
\<close>

section \<open>Field elements\<close>

lemma felem_ok_ops [intro]:
  "felem_ok a \<Longrightarrow> felem_ok b \<Longrightarrow> felem_ok (felem_mul a b)" "felem_ok a \<Longrightarrow> felem_ok (felem_square a)"
  "felem_ok a \<Longrightarrow> felem_ok b \<Longrightarrow> felem_ok (felem_sum a b)" "felem_ok a \<Longrightarrow> felem_ok b \<Longrightarrow> felem_ok (felem_diff a b)"
  "felem_ok a \<Longrightarrow> felem_ok (felem_scalar_3 a)" "felem_ok a \<Longrightarrow> felem_ok (felem_scalar_4 a)" "felem_ok a \<Longrightarrow> felem_ok (felem_scalar_8 a)"
  "felem_ok a \<Longrightarrow> felem_ok (felem_inv a)"
proof -
  have num: "is_num a x \<Longrightarrow> felem_ok a" for a x by (simp add: is_num_def)
  note self = is_num_self
  show "felem_ok a \<Longrightarrow> felem_ok b \<Longrightarrow> felem_ok (felem_mul a b)" by (rule num[OF is_num_ops(1)[OF self self]])
  show "felem_ok a \<Longrightarrow> felem_ok (felem_square a)" by (rule num[OF is_num_ops(2)[OF self]])
  show "felem_ok a \<Longrightarrow> felem_ok b \<Longrightarrow> felem_ok (felem_sum a b)" by (rule num[OF is_num_ops(3)[OF self self]])
  show "felem_ok a \<Longrightarrow> felem_ok b \<Longrightarrow> felem_ok (felem_diff a b)" by (rule num[OF is_num_ops(4)[OF self self]])
  show "felem_ok a \<Longrightarrow> felem_ok (felem_scalar_3 a)" by (rule num[OF is_num_ops(5)[OF self]])
  show "felem_ok a \<Longrightarrow> felem_ok (felem_scalar_4 a)" by (rule num[OF is_num_ops(6)[OF self]])
  show "felem_ok a \<Longrightarrow> felem_ok (felem_scalar_8 a)" by (rule num[OF is_num_ops(7)[OF self]])
  show "felem_ok a \<Longrightarrow> felem_ok (felem_inv a)" using felem_inv_power[of a] by (simp add: p256.is_power_def)
qed

lemma felem_ok_length: "felem_ok a \<Longrightarrow> length a = 9"
  by (simp add: felem_ok_def)

lemma felem_ok_constants: "felem_ok (replicate 9 0)" "felem_ok kOne"
proof -
  have z: "replicate 9 (0 :: u32) = [0, 0, 0, 0, 0, 0, 0, 0, 0]" by (simp add: numeral_eq_Suc)
  show "felem_ok (replicate 9 0)" unfolding z by (simp add: felem_ok_def)
  show "felem_ok kOne" by (simp add: felem_ok_def kOne_def)
qed

lemma felem_is_zero_total: "felem_ok a \<Longrightarrow> \<exists>b. felem_is_zero_vartime a = Some b"
  using felem_is_zero_num[OF is_num_self] by blast

section \<open>Points\<close>

definition jpoint_ok :: "jpoint \<Rightarrow> bool" where
  "jpoint_ok = (\<lambda>(x, y, z). felem_ok x \<and> felem_ok y \<and> felem_ok z)"

lemma jpoint_ok_simps [simp]: "jpoint_ok (x, y, z) \<longleftrightarrow> felem_ok x \<and> felem_ok y \<and> felem_ok z"
  by (simp add: jpoint_ok_def)

lemma jpoint_ok_jlen: "jpoint_ok p \<Longrightarrow> jlen p"
  by (auto simp: jpoint_ok_def jlen_def felem_ok_length)

lemma point_double_ok: "jpoint_ok (x, y, z) \<Longrightarrow> jpoint_ok (point_double x y z)"
  unfolding point_double_def Let_def jpoint_ok_simps by (intro conjI) (elim conjE, intro felem_ok_ops; assumption)+

lemma add_end_ok:
  "felem_ok u1 \<Longrightarrow> felem_ok s1 \<Longrightarrow> felem_ok h \<Longrightarrow> felem_ok r \<Longrightarrow> felem_ok t \<Longrightarrow> jpoint_ok (add_end u1 s1 h r t)"
  unfolding add_end_def Let_def jpoint_ok_simps by (intro conjI) (intro felem_ok_ops; assumption)+

lemma point_add_mixed_ok: "jpoint_ok (x, y, z) \<Longrightarrow> felem_ok x2 \<Longrightarrow> felem_ok y2 \<Longrightarrow> jpoint_ok (point_add_mixed x y z x2 y2)"
  unfolding point_add_mixed_end jpoint_ok_simps by (elim conjE, intro add_end_ok felem_ok_ops; assumption)

lemma point_add_ok: "jpoint_ok (x, y, z) \<Longrightarrow> jpoint_ok (x2, y2, z2) \<Longrightarrow> jpoint_ok (point_add x y z x2 y2 z2)"
  unfolding point_add_end Let_def jpoint_ok_simps by (elim conjE, intro add_end_ok felem_ok_ops; assumption)

lemma point_add_or_double_ok:
  assumes "jpoint_ok (x1, y1, z1)" "jpoint_ok (x2, y2, z2)"
  shows "\<exists>p. point_add_or_double_vartime x1 y1 z1 x2 y2 z2 = Some p \<and> jpoint_ok p"
proof -
  let ?h = "felem_diff (felem_mul x2 (felem_square z1)) (felem_mul x1 (felem_square z2))"
  let ?r = "felem_diff (felem_mul y2 (felem_mul z1 (felem_square z1))) (felem_mul y1 (felem_mul z2 (felem_square z2)))"
  have "felem_ok ?h" "felem_ok ?r" using assms by auto
  then obtain a b where z: "felem_is_zero_vartime ?h = Some a" "felem_is_zero_vartime ?r = Some b"
    using felem_is_zero_total by blast
  have "point_add_or_double_vartime x1 y1 z1 x2 y2 z2 =
      Some (if a \<and> b then point_double x1 y1 z1 else point_add x1 y1 z1 x2 y2 z2)"
    unfolding point_add_or_double_vartime_def point_add_def Let_def by (simp add: z)
  then show ?thesis using point_double_ok[OF assms(1)] point_add_ok[OF assms] by simp
qed

lemma point_to_affine_ok: "jpoint_ok (x, y, z) \<Longrightarrow> felem_ok (fst (point_to_affine x y z)) \<and> felem_ok (snd (point_to_affine x y z))"
  unfolding point_to_affine_def Let_def by auto

lemma accumulate_ok:
  assumes "jpoint_ok n" "jpoint_ok p" "jpoint_ok t" "unat index < 16" "m = 0 \<or> m = -1"
  shows "jpoint_ok (fst (accumulate t p index (n, m))) \<and> (snd (accumulate t p index (n, m)) = 0 \<or> snd (accumulate t p index (n, m)) = -1)"
  using accumulate_value[of n p t index] assms jpoint_ok_jlen by auto

section \<open>The base point\<close>

text \<open>A table of field elements, one after the other.\<close>

definition felem_table :: "limb list \<Rightarrow> bool" where
  "felem_table ls \<longleftrightarrow> (\<exists>fs. ls = concat fs \<and> (\<forall>f\<in>set fs. felem_ok f))"

lemma felem_table_Nil: "felem_table []"
  unfolding felem_table_def by (rule exI[of _ "[]"]) simp

lemma felem_table_Cons:
  assumes "felem_ok [a0, a1, a2, a3, a4, a5, a6, a7, a8]" "felem_table ls"
  shows "felem_table (a0 # a1 # a2 # a3 # a4 # a5 # a6 # a7 # a8 # ls)"
proof -
  obtain fs where "ls = concat fs" "\<forall>f\<in>set fs. felem_ok f" using assms(2) by (auto simp: felem_table_def)
  then show ?thesis using assms(1) unfolding felem_table_def
    by (intro exI[of _ "[a0, a1, a2, a3, a4, a5, a6, a7, a8] # fs"]) simp
qed

lemma felem_ok_limbs:
  "felem_ok [a0, a1, a2, a3, a4, a5, a6, a7, a8] \<longleftrightarrow>
    unat a0 < 2 ^ 30 \<and> unat a1 < 2 ^ 29 \<and> unat a2 < 2 ^ 30 \<and> unat a3 < 2 ^ 29 \<and> unat a4 < 2 ^ 30 \<and> unat a5 < 2 ^ 29 \<and>
    unat a6 < 2 ^ 30 \<and> unat a7 < 2 ^ 29 \<and> unat a8 < 2 ^ 29"
  by (auto simp: felem_ok_def)

lemma kPrecomputed_ok: "felem_table kPrecomputed"
  unfolding kPrecomputed_def by (intro felem_table_Cons felem_table_Nil; simp add: felem_ok_limbs)

lemma felem_table_entry:
  assumes "felem_table ls" "9 * k < length ls"
  shows "felem_ok (take 9 (drop (9 * k) ls))"
proof -
  obtain fs where fs: "ls = concat fs" "\<forall>f\<in>set fs. felem_ok f" using assms(1) by (auto simp: felem_table_def)
  then have "9 * k < length (concat fs) \<longrightarrow> felem_ok (take 9 (drop (9 * k) (concat fs)))"
  proof (induction fs arbitrary: k ls)
    case (Cons f fs)
    have "length f = 9" using Cons.prems(2) by (simp add: felem_ok_length)
    then show ?case using Cons by (cases k) auto
  qed simp
  then show ?thesis using assms(2) fs(1) by simp
qed

lemma window_less: 
  "unat (of_bool a OR push_bit 1 (of_bool b) OR push_bit 2 (of_bool c) OR push_bit 3 (of_bool d) :: u32) < 16"
  by (cases a; cases b; cases c; cases d) simp_all

lemma base_index_less:
  assumes "p256_ok s" "i < 32" "j = 0 \<or> j = 32"
  shows "unat (base_index s i j) < 16"
proof -
  have "31 - i + j < 256" "95 - i + j < 256" "159 - i + j < 256" "223 - i + j < 256" using assms(2,3) by linarith+
  note g = this[THEN get_bit_cases[OF assms(1)]]
  show ?thesis unfolding base_index_def Let_def g by (rule window_less)
qed

lemma length_kPrecomputed: "length kPrecomputed = 540"
  by (simp add: kPrecomputed_def)

lemma select_base_ok:
  assumes "unat index < 16" "off = 0 \<or> off = 30 * 9"
  shows "jpoint_ok (case select_affine_point (drop off kPrecomputed) index of (x, y) \<Rightarrow> (x, y, kOne))"
proof (cases "index = 0")
  case True
  then show ?thesis using assms length_kPrecomputed felem_ok_constants by (subst select_affine_value) auto
next
  case False
  have pos: "0 < unat index" using False by (simp add: unat_gt_0)
  define k where "k = 2 * (unat index - 1) + off div 9"
  have off: "18 * (unat index - 1) + off = 9 * k" "18 * (unat index - 1) + 9 + off = 9 * (k + 1)" "9 * (k + 1) < 540"
    using assms pos unfolding k_def by auto
  have "felem_ok (take 9 (drop (9 * k) kPrecomputed))" "felem_ok (take 9 (drop (9 * (k + 1)) kPrecomputed))"
    using off(3) length_kPrecomputed by (intro felem_table_entry[OF kPrecomputed_ok]; simp)+
  moreover have "select_affine_point (drop off kPrecomputed) index =
      (take 9 (drop (18 * (unat index - 1)) (drop off kPrecomputed)), take 9 (drop (18 * (unat index - 1) + 9) (drop off kPrecomputed)))"
    using False assms length_kPrecomputed by (subst select_affine_value) auto
  ultimately show ?thesis using felem_ok_constants unfolding drop_drop off(1,2) by simp
qed

lemma base_mult_half_ok:
  assumes "p256_ok s" "i < 32" "j = 0 \<or> j = 32" "jpoint_ok n" "m = 0 \<or> m = -1"
  shows "jpoint_ok (fst (base_mult_half s i (n, m) j)) \<and>
    (snd (base_mult_half s i (n, m) j) = 0 \<or> snd (base_mult_half s i (n, m) j) = -1)"
proof -
  obtain nx ny nz where n: "n = (nx, ny, nz)" by (cases n)
  define off where "off = (if j = 0 then 0 else 30 * 9 :: nat)"
  have idx: "unat (base_index s i j) < 16" by (rule base_index_less[OF assms(1-3)])
  obtain px py where p: "select_affine_point (drop off kPrecomputed) (base_index s i j) = (px, py)" by fastforce
  have ok: "jpoint_ok (px, py, kOne)" using select_base_ok[OF idx, of off] by (auto simp: off_def p[unfolded off_def])
  then have "jpoint_ok (point_add_mixed nx ny nz px py)" using assms(4) point_add_mixed_ok by (simp add: n)
  then show ?thesis using accumulate_ok[OF assms(4) ok _ idx assms(5)] p
    by (simp add: base_mult_half_def n off_def Let_def)
qed

lemma base_mult_step_ok:
  assumes "p256_ok s" "i < 32" "jpoint_ok n" "m = 0 \<or> m = -1"
  shows "jpoint_ok (fst (base_mult_step s (n, m) i)) \<and> (snd (base_mult_step s (n, m) i) = 0 \<or> snd (base_mult_step s (n, m) i) = -1)"
proof -
  obtain nx ny nz where n: "n = (nx, ny, nz)" by (cases n)
  define d where "d = (if i \<noteq> 0 then point_double nx ny nz else (nx, ny, nz))"
  have d: "jpoint_ok d" using assms(3) point_double_ok by (simp add: d_def n)
  obtain n' m' where h: "base_mult_half s i (d, m) 0 = (n', m')" by fastforce
  then have "jpoint_ok n'" "m' = 0 \<or> m' = -1" using base_mult_half_ok[OF assms(1,2) _ d assms(4), of 0] by auto
  then show ?thesis using base_mult_half_ok[OF assms(1,2), of 32 n' m'] h
    by (simp only: base_mult_step_def n Let_def prod.case flip: d_def) simp
qed

lemma foldl_preserves:
  assumes "\<And>a i. i \<in> set is \<Longrightarrow> P a \<Longrightarrow> P (f a i)" "P a"
  shows "P (foldl f a is)"
  using assms by (induction "is" arbitrary: a) auto

lemma scalar_base_mult_ok:
  assumes "p256_ok s"
  shows "jpoint_ok (scalar_base_mult s)"
proof -
  let ?P = "\<lambda>(n, m). jpoint_ok n \<and> (m = 0 \<or> m = (-1 :: limb))"
  have "?P (foldl (base_mult_step s) ((replicate 9 0, replicate 9 0, replicate 9 0), -1) [0..<32])"
  proof (rule foldl_preserves)
    show "?P (base_mult_step s a i)" if "i \<in> set [0..<32]" "?P a" for a i
      using base_mult_step_ok[OF assms, of i "fst a" "snd a"] that by (auto simp: split_beta)
  qed (simp add: felem_ok_constants)
  then show ?thesis by (auto simp: scalar_base_mult_def split_beta)
qed

section \<open>An arbitrary point\<close>

lemma precomp_pair_ok:
  assumes "felem_ok x" "felem_ok y" "\<forall>p\<in>set ps. jpoint_ok p" "i div 2 < length ps"
  shows "\<forall>p\<in>set (precomp_pair x y ps i). jpoint_ok p" "length (precomp_pair x y ps i) = length ps + 2"
    "ps \<noteq> [] \<Longrightarrow> precomp_pair x y ps i ! 0 = ps ! 0"
proof -
  obtain hx hy hz where h: "ps ! (i div 2) = (hx, hy, hz)" by (cases "ps ! (i div 2)")
  obtain dx dy dz where d: "point_double hx hy hz = (dx, dy, dz)" by (cases "point_double hx hy hz")
  have "jpoint_ok (hx, hy, hz)" using assms(3,4) h nth_mem[OF assms(4)] by auto
  then have dd: "jpoint_ok (dx, dy, dz)" using point_double_ok[of hx hy hz] d by simp
  have "jpoint_ok (point_add_mixed dx dy dz x y)" by (rule point_add_mixed_ok[OF dd assms(1,2)])
  then show "\<forall>p\<in>set (precomp_pair x y ps i). jpoint_ok p" "length (precomp_pair x y ps i) = length ps + 2"
    "ps \<noteq> [] \<Longrightarrow> precomp_pair x y ps i ! 0 = ps ! 0"
    using assms(3) dd by (auto simp: precomp_pair_def h d nth_append)
qed

lemma precompute_ok:
  assumes "felem_ok x" "felem_ok y"
  shows "points_ok (precompute x y)" "\<forall>p\<in>set (precompute x y). jpoint_ok p"
proof -
  define zero where "zero = (replicate 9 0 :: felem, replicate 9 0 :: felem, replicate 9 0 :: felem)"
  have step: "(\<forall>p\<in>set (foldl (precomp_pair x y) ps (map (\<lambda>k. 2 * k) [length ps div 2..<n])). jpoint_ok p) \<and>
      length (foldl (precomp_pair x y) ps (map (\<lambda>k. 2 * k) [length ps div 2..<n])) = 2 * n \<and>
      foldl (precomp_pair x y) ps (map (\<lambda>k. 2 * k) [length ps div 2..<n]) ! 0 = zero"
    if "\<forall>p\<in>set ps. jpoint_ok p" "length ps = 2 * l" "0 < l" "l \<le> n" "ps ! 0 = zero" for ps l n
    using that(4)
  proof (induction n rule: dec_induct)
    case base
    then show ?case using that by simp
  next
    case (step n)
    let ?qs = "foldl (precomp_pair x y) ps (map (\<lambda>k. 2 * k) [length ps div 2..<n])"
    have e: "[length ps div 2..<Suc n] = [length ps div 2..<n] @ [n]" using step that by simp
    have "2 * n div 2 < length ?qs" "?qs \<noteq> []" using step that by (auto simp flip: length_greater_0_conv)
    then show ?case using step precomp_pair_ok[OF assms, of ?qs "2 * n"] unfolding e by simp
  qed
  have "map (\<lambda>k. 2 * k) [length [zero, (x, y, kOne)] div 2..<8] = [2, 4, 6, 8, 10, 12, 14]" by (simp add: upt_rec)
  then have p: "precompute x y = foldl (precomp_pair x y) [zero, (x, y, kOne)] (map (\<lambda>k. 2 * k) [length [zero, (x, y, kOne)] div 2..<8])"
    by (simp only: precompute_def zero_def)
  have "(\<forall>p\<in>set (precompute x y). jpoint_ok p) \<and> length (precompute x y) = 2 * 8 \<and> precompute x y ! 0 = zero"
    unfolding p using assms felem_ok_constants by (intro step[of _ 1]) (auto simp: zero_def)
  then show "points_ok (precompute x y)" "\<forall>p\<in>set (precompute x y). jpoint_ok p"
    by (auto simp: points_ok_def zero_def jpoint_ok_def felem_ok_length)
qed

lemma window_index_less:
  assumes "p256_ok s" "i \<le> 252"
  shows "unat (window_index s i) < 16"
  using window_index_value[OF assms]
  by (cases "bit (bn s) (252 - i)"; cases "bit (bn s) (253 - i)"; cases "bit (bn s) (254 - i)"; cases "bit (bn s) (255 - i)") simp_all

lemma scalar_mult_step_ok:
  assumes "p256_ok s" "i \<le> 252" "points_ok ps" "\<forall>p\<in>set ps. jpoint_ok p" "jpoint_ok n" "m = 0 \<or> m = -1"
  shows "jpoint_ok (fst (scalar_mult_step (flatten ps) s (n, m) i)) \<and>
    (snd (scalar_mult_step (flatten ps) s (n, m) i) = 0 \<or> snd (scalar_mult_step (flatten ps) s (n, m) i) = -1)"
proof -
  have dbl: "jpoint_ok (double_point q)" if "jpoint_ok q" for q
    using that point_double_ok by (cases q) (simp add: double_point_def)
  define d where "d = (if i \<noteq> 0 then double_point (double_point (double_point (double_point n))) else n)"
  have d: "jpoint_ok d" using dbl assms(5) by (simp add: d_def)
  obtain nx ny nz where n: "d = (nx, ny, nz)" by (cases d)
  have idx: "unat (window_index s i) < 16" by (rule window_index_less[OF assms(1,2)])
  obtain px py pz where p: "ps ! unat (window_index s i) = (px, py, pz)" by (cases "ps ! unat (window_index s i)")
  have "length ps = 16" using assms(3) by (simp add: points_ok_def)
  then have ok: "jpoint_ok (px, py, pz)" using assms(4) p idx nth_mem[of "unat (window_index s i)" ps] by auto
  then have "jpoint_ok (point_add nx ny nz px py pz)" using d point_add_ok unfolding n by blast
  then show ?thesis using accumulate_ok[OF d ok _ idx assms(6)] select_jacobian_value[OF idx assms(3)] p
    by (simp only: scalar_mult_step_def Let_def prod.case flip: d_def) (simp add: n)
qed

lemma scalar_mult_ok:
  assumes "felem_ok x" "felem_ok y" "p256_ok s"
  shows "jpoint_ok (scalar_mult x y s)"
proof -
  let ?P = "\<lambda>(n, m). jpoint_ok n \<and> (m = 0 \<or> m = (-1 :: limb))"
  have "?P (foldl (scalar_mult_step (flatten (precompute x y)) s) ((replicate 9 0, replicate 9 0, replicate 9 0), -1) (map (\<lambda>k. 4 * k) [0..<64]))"
  proof (rule foldl_preserves)
    show "?P (scalar_mult_step (flatten (precompute x y)) s a i)" if "i \<in> set (map (\<lambda>k. 4 * k) [0..<64])" "?P a" for a i
      using scalar_mult_step_ok[OF assms(3) _ precompute_ok[OF assms(1,2)], of i "fst a" "snd a"] that by (auto simp: split_beta)
  qed (simp add: felem_ok_constants)
  then show ?thesis by (auto simp: scalar_mult_def split_beta)
qed

section \<open>The entry point\<close>

lemma from_montgomery_ok:
  assumes "felem_ok f"
  shows "\<exists>r. from_montgomery f = Some r \<and> p256_ok r"
proof -
  obtain r t tp r' c where "p256_ok r'" "from_montgomery f = p256_modmul SECP256r1_p kRInv (tp OR c) r'"
    by (rule from_montgomery_unfold[OF assms]) blast
  then show ?thesis using p256_modmul_value[OF SECP256r1_mod_ok(1) p256_ok_kR(2), of r' "tp OR c"] by auto
qed

lemma points_mul_returns:
  assumes "p256_ok u1" "p256_ok u2" "p256_ok x" "p256_ok y"
  shows "\<exists>ox oy. p256_points_mul_vartime u1 u2 x y = Some (ox, oy) \<and> p256_ok ox \<and> p256_ok oy"
proof (cases "p256_is_zero u1 \<and> p256_is_zero u2")
  case True
  then show ?thesis by (simp add: p256_points_mul_vartime_def p256_clear_def p256_init_def p256_ok_def)
next
  case False
  obtain px py where p: "to_montgomery x = Some px" "felem_ok px" "to_montgomery y = Some py" "felem_ok py"
    using to_montgomery_value[OF assms(3)] to_montgomery_value[OF assms(4)] by auto
  obtain x1 y1 z1 where b: "scalar_base_mult u1 = (x1, y1, z1)" by (cases "scalar_base_mult u1")
  obtain x2 y2 z2 where s: "scalar_mult px py u2 = (x2, y2, z2)" by (cases "scalar_mult px py u2")
  have ok: "jpoint_ok (x1, y1, z1)" "jpoint_ok (x2, y2, z2)"
    using scalar_base_mult_ok[OF assms(1)] scalar_mult_ok[OF p(2,4) assms(2)] b s by auto
  have "\<exists>q. (if p256_is_zero u2 then Some (x1, y1, z1) else if p256_is_zero u1 then Some (x2, y2, z2)
      else point_add_or_double_vartime x1 y1 z1 x2 y2 z2) = Some q \<and> jpoint_ok q"
    using point_add_or_double_ok[OF ok] ok by simp
  then obtain x3 y3 z3 where a: "(if p256_is_zero u2 then Some (x1, y1, z1) else if p256_is_zero u1 then Some (x2, y2, z2)
      else point_add_or_double_vartime x1 y1 z1 x2 y2 z2) = Some (x3, y3, z3)" and ok3: "jpoint_ok (x3, y3, z3)"
    by (elim exE conjE) (metis prod_cases3)
  obtain ax ay where f: "point_to_affine x3 y3 z3 = (ax, ay)" by fastforce
  then have "felem_ok ax" "felem_ok ay" using point_to_affine_ok[OF ok3] by simp_all
  then obtain ox oy where "from_montgomery ax = Some ox" "p256_ok ox" "from_montgomery ay = Some oy" "p256_ok oy"
    using from_montgomery_ok by meson
  then show ?thesis unfolding p256_points_mul_vartime_def if_not_P[OF False] p(1,3) bind.bind_lunit Let_def b s prod.case a by (simp add: f)
qed

end
