(* ===== verification/Ecdsa.thy ===== *)
theory Ecdsa
  imports P256_Scalar Mapped
begin

text \<open>
  ECDSA signature verification of libmincrypt: the DER unpacking of the signature
  (\<^verbatim>\<open>dsa_sig.c\<close>) and \<open>p256_ecdsa_verify\<close> (\<^verbatim>\<open>p256_ecdsa.c\<close>). Every read of the signature buffer is checked: one outside
  of it is an outcome of the model (\<open>Out_of_bounds\<close>), so that it can be shown where it happens.
\<close>

section \<open>The code\<close>

text \<open>\<open>while (*src == '\0' && src_len > 0)\<close>: \<open>*src\<close> is read before \<open>src_len\<close> is tested; \<open>None\<close> if outside the buffer.\<close>

function trim_skip :: "u8 list \<Rightarrow> nat \<Rightarrow> nat \<Rightarrow> (nat \<times> nat) option" where
  "trim_skip sig src src_len =
     (if length sig \<le> src then None
      else if sig ! src = 0 \<and> src_len > 0 then trim_skip sig (src + 1) (src_len - 1)
      else Some (src, src_len))"
  by pat_completeness auto
termination by (relation "measure (\<lambda>(sig, src, src_len). length sig - src)") auto

declare trim_skip.simps [simp del]

text \<open>The outcome of \<open>trim_to_p256_bytes\<close>: \<open>None\<close> out of bounds, \<open>Some None\<close> the return value 0.\<close>

definition trim_to_p256_bytes :: "u8 list \<Rightarrow> nat \<Rightarrow> nat \<Rightarrow> u8 list option option" where
  "trim_to_p256_bytes sig src src_len =
     do { (src, src_len) \<leftarrow> trim_skip sig src src_len;
          if src_len > 32 \<or> src_len < 1 then Some None
          else do { bytes \<leftarrow> piece sig (int src) src_len; Some (Some (replicate (32 - src_len) 0 @ bytes)) } }"

datatype unpacked = Rejected | Out_of_bounds | Unpacked p256_int p256_int

text \<open>
  The tests of the headers, in the order of the code, with \<open>r_len\<close> and \<open>s_len\<close>: \<open>None\<close> is a read outside of the signature,
  \<open>Some None\<close> a failed test.
\<close>

definition dsa_sig_header :: "u8 list \<Rightarrow> (nat \<times> nat) option option" where
  "dsa_sig_header sig =
     (let sig_len = length sig in
      if sig_len < 8 then Some None
      else do {
        b0 \<leftarrow> deref sig 0;
        if b0 \<noteq> 0x30 then Some None
        else do {
          b2 \<leftarrow> deref sig 2;
          if b2 \<noteq> 0x02 then Some None
          else do {
            seq_len \<leftarrow> map_option unat (deref sig 1);
            if seq_len \<le> 0 \<or> seq_len + 2 \<noteq> sig_len then Some None
            else do {
              r_len \<leftarrow> map_option unat (deref sig 3);
              if r_len < 1 \<or> int r_len > int seq_len - 5 then Some None
              else do {
                b \<leftarrow> deref sig (4 + int r_len);
                if b \<noteq> 0x02 then Some None
                else do {
                  s_len \<leftarrow> map_option unat (deref sig (5 + int r_len));
                  if s_len < 1 \<or> int s_len \<noteq> int seq_len - 4 - int r_len then Some None
                  else Some (Some (r_len, s_len)) } } } } } })"

definition dsa_sig_unpack :: "u8 list \<Rightarrow> unpacked" where
  "dsa_sig_unpack sig =
     (case dsa_sig_header sig of
        None \<Rightarrow> Out_of_bounds
      | Some None \<Rightarrow> Rejected
      | Some (Some (r_len, s_len)) \<Rightarrow>
          (case trim_to_p256_bytes sig 4 r_len of
             None \<Rightarrow> Out_of_bounds
           | Some None \<Rightarrow> Rejected
           | Some (Some r_bytes) \<Rightarrow>
               (case trim_to_p256_bytes sig (6 + r_len) s_len of
                  None \<Rightarrow> Out_of_bounds
                | Some None \<Rightarrow> Rejected
                | Some (Some s_bytes) \<Rightarrow> Unpacked (p256_from_bin r_bytes) (p256_from_bin s_bytes))))"

text \<open>\<open>None\<close>: one of the called routines does not return.\<close>

definition p256_ecdsa_verify :: "p256_int \<Rightarrow> p256_int \<Rightarrow> p256_int \<Rightarrow> p256_int \<Rightarrow> p256_int \<Rightarrow> bool option" where
  "p256_ecdsa_verify key_x key_y message r s =
     do { valid \<leftarrow> p256_is_valid_point key_x key_y;
          if \<not> valid then Some False
          else let u = p256_mod SECP256r1_n r;
                   v = p256_mod SECP256r1_n s
               in if p256_is_zero u \<or> p256_is_zero v then Some False
                  else do {
                    v \<leftarrow> p256_modinv_vartime SECP256r1_n s;
                    u \<leftarrow> p256_modmul SECP256r1_n message 0 v;
                    v \<leftarrow> p256_modmul SECP256r1_n r 0 v;
                    (u, v) \<leftarrow> p256_points_mul_vartime u v key_x key_y;
                    Some (p256_cmp r (p256_mod SECP256r1_n u) = 0) } }"

section \<open>Trimming\<close>

lemma trim_skip_zeros:
  assumes "length pre \<le> src" "src + n \<le> length sig" "\<forall>k<n. sig ! (src + k) = 0" "n \<le> len"
  shows "trim_skip sig src len = trim_skip sig (src + n) (len - n)"
  using assms
proof (induction n arbitrary: src len)
  case (Suc n)
  have "trim_skip sig src len = trim_skip sig (src + 1) (len - 1)"
    using Suc.prems(2,4) Suc.prems(3)[rule_format, of 0] by (subst trim_skip.simps) simp
  also have "\<dots> = trim_skip sig (src + 1 + n) (len - 1 - n)"
    using Suc.prems by (intro Suc.IH) (auto simp: add.assoc)
  finally show ?case by simp
qed simp

lemma split_zeros:
  obtains z bs' where "bs = replicate z (0 :: u8) @ bs'" "bs' = [] \<or> hd bs' \<noteq> 0"
proof -
  define z where "z = length (takeWhile (\<lambda>b. b = 0) bs)"
  have "takeWhile (\<lambda>b. b = 0) bs = replicate z 0"
    unfolding z_def by (metis (mono_tags, lifting) replicate_length_same set_takeWhileD)
  then have "bs = replicate z 0 @ dropWhile (\<lambda>b. b = 0) bs" by (metis takeWhile_dropWhile_id)
  moreover have "dropWhile (\<lambda>b. b = 0) bs = [] \<or> hd (dropWhile (\<lambda>b. b = 0) bs) \<noteq> 0"
    by (metis (mono_tags) hd_dropWhile)
  ultimately show thesis by (rule that)
qed

lemma be_val_replicate_zero [simp]: "be_val (replicate z 0 @ bs) = be_val bs"
  by (induction z) (simp_all add: be_val_Cons)

lemma be_val_head:
  assumes "bs \<noteq> []" "hd bs \<noteq> 0"
  shows "256 ^ (length bs - 1) \<le> be_val bs"
proof -
  obtain x xs where bs: "bs = x # xs" using assms(1) by (cases bs) auto
  then have "1 \<le> unat x" using assms(2) by (simp add: Suc_le_eq unat_gt_0)
  then have "1 * 256 ^ length xs \<le> unat x * 256 ^ length xs" by (rule mult_le_mono1)
  then have "256 ^ length xs \<le> be_val (x # xs)" unfolding be_val_Cons by linarith
  then show ?thesis by (simp add: bs)
qed

text \<open>What trimming does to the bytes \<open>bs\<close> between \<open>pre\<close> and \<open>post\<close>.\<close>

lemma trim_value:
  assumes "be_val bs \<noteq> 0"
  shows "be_val bs < 256 ^ 32 \<Longrightarrow> \<exists>w. trim_to_p256_bytes (pre @ bs @ post) (length pre) (length bs) = Some (Some w) \<and>
      length w = 32 \<and> be_val w = be_val bs"
    "\<not> be_val bs < 256 ^ 32 \<Longrightarrow> trim_to_p256_bytes (pre @ bs @ post) (length pre) (length bs) = Some None"
proof -
  obtain z cs where bs: "bs = replicate z 0 @ cs" and cs: "cs = [] \<or> hd cs \<noteq> 0" by (rule split_zeros)
  have ne: "cs \<noteq> []" using assms be_val_replicate_zero[of z cs] by (auto simp: bs)
  let ?sig = "pre @ bs @ post"
  have "trim_skip ?sig (length pre) (length bs) = trim_skip ?sig (length pre + z) (length bs - z)"
    by (rule trim_skip_zeros[of pre]) (auto simp: bs nth_append)
  also have "\<dots> = Some (length pre + z, length cs)"
    using ne cs by (subst trim_skip.simps) (auto simp: bs nth_append hd_conv_nth)
  finally have t: "trim_skip ?sig (length pre) (length bs) = Some (length pre + z, length cs)" .
  have val: "be_val bs = be_val cs" by (simp add: bs)
  have small: "length cs \<le> 32 \<longleftrightarrow> be_val bs < 256 ^ 32"
  proof
    assume "length cs \<le> 32"
    then have "(256 :: nat) ^ length cs \<le> 256 ^ 32" by (intro power_increasing) simp_all
    then show "be_val bs < 256 ^ 32" using be_val_less[of cs] val by linarith
  next
    assume lt: "be_val bs < 256 ^ 32"
    have "256 ^ (length cs - 1) \<le> be_val cs" using be_val_head ne cs by blast
    then have "(256 :: nat) ^ (length cs - 1) < 256 ^ 32" using lt val by linarith
    then have "length cs - 1 < 32" by (rule power_less_imp_less_exp[rotated]) simp
    then show "length cs \<le> 32" by simp
  qed
  have "piece ?sig (int (length pre + z)) (length cs) = Some cs"
  proof -
    have "nat (int (length pre) + int z) = length pre + z" by (simp add: nat_add_distrib)
    then show ?thesis by (simp add: bs piece_def)
  qed
  then have r: "trim_to_p256_bytes ?sig (length pre) (length bs) =
      (if length cs \<le> 32 then Some (Some (replicate (32 - length cs) 0 @ cs)) else Some None)"
    using t ne by (auto simp: trim_to_p256_bytes_def Suc_le_eq simp del: of_nat_add)
  show "be_val bs < 256 ^ 32 \<Longrightarrow> \<exists>w. trim_to_p256_bytes ?sig (length pre) (length bs) = Some (Some w) \<and>
      length w = 32 \<and> be_val w = be_val bs"
    using r small val by (intro exI[of _ "replicate (32 - length cs) 0 @ cs"]) simp
  show "\<not> be_val bs < 256 ^ 32 \<Longrightarrow> trim_to_p256_bytes ?sig (length pre) (length bs) = Some None"
    using r small by simp
qed

lemma trim_zero:
  assumes "be_val bs = 0" "bs \<noteq> []"
  shows "trim_to_p256_bytes (pre @ bs @ post) (length pre) (length bs) = (if post = [] then None else Some None)"
proof -
  obtain z cs where bs: "bs = replicate z 0 @ cs" and cs: "cs = [] \<or> hd cs \<noteq> 0" by (rule split_zeros)
  have "cs = []" using be_val_head[of cs] cs assms(1) by (cases "cs = []") (auto simp: bs)
  then have b: "bs = replicate z 0" using bs by simp
  have "trim_skip (pre @ bs @ post) (length pre) (length bs) = trim_skip (pre @ bs @ post) (length pre + z) (length bs - z)"
    by (rule trim_skip_zeros[of pre]) (auto simp: b nth_append)
  also have "\<dots> = (if post = [] then None else Some (length pre + z, 0))"
    by (subst trim_skip.simps) (auto simp: b)
  finally show ?thesis by (simp add: trim_to_p256_bytes_def)
qed

section \<open>The signature format\<close>

text \<open>The DER encoding of two integers given by their content bytes, with one-byte lengths.\<close>

definition der_int :: "u8 list \<Rightarrow> u8 list" where
  "der_int bs = [0x02, of_nat (length bs)] @ bs"

definition der_sig :: "u8 list \<Rightarrow> u8 list \<Rightarrow> u8 list" where
  "der_sig rb sb = [0x30, of_nat (length (der_int rb @ der_int sb))] @ der_int rb @ der_int sb"

definition der_ok :: "u8 list \<Rightarrow> u8 list \<Rightarrow> bool" where
  "der_ok rb sb \<longleftrightarrow> rb \<noteq> [] \<and> sb \<noteq> [] \<and> length rb + length sb + 4 < 256"

text \<open>The length test at the beginning and those of the two lengths keep the reads of the headers inside the signature.\<close>

lemma deref_at: "0 \<le> i \<Longrightarrow> nat i < length sig \<Longrightarrow> deref sig i = Some (sig ! nat i)"
  by (simp add: deref_def zless_nat_eq_int_zless nat_less_iff)

lemma dsa_sig_header_tests:
  "dsa_sig_header sig =
    Some (if 8 \<le> length sig \<and> sig ! 0 = 0x30 \<and> sig ! 2 = 0x02 \<and> unat (sig ! 1) + 2 = length sig \<and> 1 \<le> unat (sig ! 3) \<and>
        int (unat (sig ! 3)) \<le> int (unat (sig ! 1)) - 5 \<and> sig ! (4 + unat (sig ! 3)) = 0x02 \<and> 1 \<le> unat (sig ! (5 + unat (sig ! 3))) \<and>
        int (unat (sig ! (5 + unat (sig ! 3)))) = int (unat (sig ! 1)) - 4 - int (unat (sig ! 3))
      then Some (unat (sig ! 3), unat (sig ! (5 + unat (sig ! 3)))) else None)"
proof (cases "8 \<le> length sig")
  case True
  define n where "n = unat (sig ! 3)"
  have d: "deref sig 0 = Some (sig ! 0)" "deref sig 1 = Some (sig ! 1)" "deref sig 2 = Some (sig ! 2)" "deref sig 3 = Some (sig ! 3)"
    using True by (auto simp: deref_def)
  have r: "deref sig (4 + int n) = Some (sig ! (4 + n))" "deref sig (5 + int n) = Some (sig ! (5 + n))"
    if "int n \<le> int (unat (sig ! 1)) - 5" "unat (sig ! 1) + 2 = length sig"
  proof -
    have "int n + 5 \<le> int (unat (sig ! 1))" using that(1) by linarith
    then have "5 + n < length sig" using that(2) by linarith
    then show "deref sig (4 + int n) = Some (sig ! (4 + n))" "deref sig (5 + int n) = Some (sig ! (5 + n))"
      using deref_nth[of "4 + n" sig] deref_nth[of "5 + n" sig] by simp_all
  qed
  show ?thesis using True r unfolding dsa_sig_header_def d Let_def option.map bind.bind_lunit n_def[symmetric] by auto
qed (simp add: dsa_sig_header_def)

text \<open>The header checks accept exactly such encodings; on one, only the trimming is left.\<close>

lemma der_sig_unpack:
  assumes "der_ok rb sb"
  shows "dsa_sig_unpack (der_sig rb sb) =
    (case trim_to_p256_bytes (der_sig rb sb) 4 (length rb) of
       None \<Rightarrow> Out_of_bounds
     | Some None \<Rightarrow> Rejected
     | Some (Some r_bytes) \<Rightarrow>
         (case trim_to_p256_bytes (der_sig rb sb) (6 + length rb) (length sb) of
            None \<Rightarrow> Out_of_bounds
          | Some None \<Rightarrow> Rejected
          | Some (Some s_bytes) \<Rightarrow> Unpacked (p256_from_bin r_bytes) (p256_from_bin s_bytes)))"
proof -
  let ?sig = "der_sig rb sb"
  have pos: "0 < length rb" "0 < length sb" "length rb + length sb + 4 < 256"
    using assms by (auto simp: der_ok_def)
  have two: "\<not> length rb + length sb < 2" using pos by linarith
  have len: "length ?sig = 6 + length rb + length sb" by (simp add: der_sig_def der_int_def)
  have n: "?sig ! 0 = 0x30" "?sig ! 2 = 0x02" "?sig ! (4 + length rb) = 0x02"
    by (simp_all add: der_sig_def der_int_def nth_append pos)
  have l: "unat (?sig ! 1) = 4 + length rb + length sb" "unat (?sig ! 3) = length rb"
    "unat (?sig ! (5 + length rb)) = length sb"
    using pos by (simp_all add: der_sig_def der_int_def nth_append numeral_3_eq_3 unat_of_nat_u8 del: of_nat_Suc)
  show ?thesis unfolding dsa_sig_unpack_def dsa_sig_header_tests l n len using pos two assms[unfolded der_ok_def] by (auto simp: Suc_le_eq)
qed

lemma unpack_header:
  assumes "dsa_sig_unpack sig \<noteq> Rejected"
  obtains rb sb where "der_ok rb sb" "sig = der_sig rb sb"
proof -
  define n where "n = unat (sig ! 3)"
  have h: "8 \<le> length sig" "sig ! 0 = 0x30" "sig ! 2 = 0x02" "unat (sig ! 1) + 2 = length sig" "1 \<le> n"
    "int n \<le> int (unat (sig ! 1)) - 5" "sig ! (4 + n) = 0x02" "1 \<le> unat (sig ! (5 + n))"
    "int (unat (sig ! (5 + n))) = int (unat (sig ! 1)) - 4 - int n"
    using assms by (auto simp: dsa_sig_unpack_def dsa_sig_header_tests n_def split: if_splits)
  have l: "n + 5 \<le> unat (sig ! 1)" "unat (sig ! (5 + n)) + 4 + n = unat (sig ! 1)"
    using h(6) h(9) by linarith+
  define rb sb where "rb = take n (drop 4 sig)" and "sb = drop (6 + n) sig"
  have ln: "6 + n < length sig" using h(4) l(1) by linarith
  have len: "length rb = n" "length sb = unat (sig ! (5 + n))"
    unfolding rb_def sb_def length_take length_drop using ln l h(4) by linarith+
  have ok: "der_ok rb sb" using h(5,8) len l u8_less[of "sig ! 1"]
    by (auto simp: der_ok_def simp flip: length_greater_0_conv)
  have one: "drop k sig = sig ! k # drop (Suc k) sig" if "k < length sig" for k
    using that by (rule Cons_nth_drop_Suc[symmetric])
  have "sig = sig ! 0 # sig ! 1 # sig ! 2 # sig ! 3 # drop 4 sig"
  proof -
    have "sig \<noteq> []" using h(1) by auto
    then show ?thesis using one[of 0] one[of 1] one[of 2] one[of 3] h(1) by (simp add: numeral_eq_Suc)
  qed
  moreover have "drop 4 sig = rb @ drop (4 + n) sig" by (simp add: rb_def) (metis add.commute append_take_drop_id drop_drop)
  moreover have "drop (4 + n) sig = sig ! (4 + n) # sig ! (5 + n) # sb"
    using one[of "4 + n"] one[of "5 + n"] ln by (simp add: sb_def)
  ultimately have "sig = [0x30, sig ! 1, 0x02, sig ! 3] @ rb @ [0x02, sig ! (5 + n)] @ sb" using h by simp
  moreover have "sig ! 1 = of_nat (length (der_int rb @ der_int sb))"
  proof -
    have "length (der_int rb @ der_int sb) = unat (sig ! 1)" using l(2) len by (simp add: der_int_def)
    then show ?thesis by simp
  qed
  ultimately have "sig = der_sig rb sb" using len by (simp add: der_sig_def der_int_def n_def)
  with ok show thesis by (rule that)
qed

lemma der_sig_split:
  obtains pre pre' where "length pre = 4" "der_sig rb sb = pre @ rb @ der_int sb"
    "length pre' = 6 + length rb" "der_sig rb sb = pre' @ sb @ []"
  by (rule that[of "[0x30, of_nat (length (der_int rb @ der_int sb)), 0x02, of_nat (length rb)]"
        "[0x30, of_nat (length (der_int rb @ der_int sb))] @ der_int rb @ [0x02, of_nat (length sb)]"])
    (simp_all add: der_sig_def der_int_def)

definition sig_int :: "u8 list \<Rightarrow> bool" where
  "sig_int bs \<longleftrightarrow> 0 < be_val bs \<and> be_val bs < 256 ^ 32"

lemma unpack_der_sig:
  assumes "der_ok rb sb"
  shows "\<exists>r s. dsa_sig_unpack (der_sig rb sb) =
     (if \<not> sig_int rb then Rejected
      else if be_val sb = 0 then Out_of_bounds
      else if \<not> sig_int sb then Rejected
      else Unpacked r s) \<and>
     (sig_int rb \<and> sig_int sb \<longrightarrow> p256_ok r \<and> p256_ok s \<and> bn r = be_val rb \<and> bn s = be_val sb)"
proof -
  have ne: "rb \<noteq> []" "sb \<noteq> []" using assms by (auto simp: der_ok_def)
  obtain pre pre' where p: "length pre = 4" "der_sig rb sb = pre @ rb @ der_int sb"
    and p': "length pre' = 6 + length rb" "der_sig rb sb = pre' @ sb @ []"
    by (rule der_sig_split)
  have post: "der_int sb \<noteq> []" by (simp add: der_int_def)
  have r_bad: "trim_to_p256_bytes (der_sig rb sb) 4 (length rb) = Some None" if "\<not> sig_int rb"
    using that trim_zero[of rb pre "der_int sb"] trim_value(2)[of rb pre "der_int sb"] ne post
    by (auto simp: sig_int_def p)
  have r_good: "\<exists>w. trim_to_p256_bytes (der_sig rb sb) 4 (length rb) = Some (Some w) \<and> length w = 32 \<and> be_val w = be_val rb" if "sig_int rb"
    using that trim_value(1)[of rb pre "der_int sb"] by (auto simp: sig_int_def p)
  have s_zero: "trim_to_p256_bytes (der_sig rb sb) (6 + length rb) (length sb) = None" if "be_val sb = 0"
    using trim_zero[OF that ne(2), of pre' "[]"] unfolding p'(1) p'(2)[symmetric] by simp
  have s_bad: "trim_to_p256_bytes (der_sig rb sb) (6 + length rb) (length sb) = Some None" if "be_val sb \<noteq> 0" "\<not> sig_int sb"
    using that trim_value(2)[of sb pre' "[]"] unfolding p'(1) p'(2)[symmetric] by (simp add: sig_int_def)
  have s_good: "\<exists>w. trim_to_p256_bytes (der_sig rb sb) (6 + length rb) (length sb) = Some (Some w) \<and> length w = 32 \<and> be_val w = be_val sb" if "sig_int sb"
    using that trim_value(1)[of sb pre' "[]"] unfolding p'(1) p'(2)[symmetric] by (simp add: sig_int_def)
  show ?thesis
  proof (cases "sig_int rb \<and> sig_int sb")
    case True
    obtain w where w: "trim_to_p256_bytes (der_sig rb sb) 4 (length rb) = Some (Some w)" "length w = 32" "be_val w = be_val rb"
      using r_good True by blast
    obtain v where v: "trim_to_p256_bytes (der_sig rb sb) (6 + length rb) (length sb) = Some (Some v)" "length v = 32" "be_val v = be_val sb"
      using s_good True by blast
    have "be_val sb \<noteq> 0" using True by (simp add: sig_int_def)
    then show ?thesis using True w v p256_from_bin_value[OF w(2)] p256_from_bin_value[OF v(2)]
      by (intro exI[of _ "p256_from_bin w"] exI[of _ "p256_from_bin v"]) (simp add: der_sig_unpack[OF assms])
  next
    case False
    then show ?thesis using r_bad s_bad s_zero r_good
      by (cases "sig_int rb"; cases "be_val sb = 0") (auto simp: der_sig_unpack[OF assms])
  qed
qed

section \<open>Properties\<close>

text \<open>
  C30. \<open>dsa_sig_unpack\<close> accepts exactly the DER sequences of two integers, lengths in one byte each, whose values
  are positive and below \<open>2\<^sup>2\<^sup>5\<^sup>6\<close>, and returns those values.
\<close>

theorem dsa_sig_unpack_accepts:
  "dsa_sig_unpack sig = Unpacked r s \<longleftrightarrow>
    (\<exists>rb sb. der_ok rb sb \<and> sig = der_sig rb sb \<and> sig_int rb \<and> sig_int sb \<and>
       p256_ok r \<and> p256_ok s \<and> bn r = be_val rb \<and> bn s = be_val sb)"
proof
  assume u: "dsa_sig_unpack sig = Unpacked r s"
  then obtain rb sb where h: "der_ok rb sb" "sig = der_sig rb sb" using unpack_header[of sig] by auto
  then show "\<exists>rb sb. der_ok rb sb \<and> sig = der_sig rb sb \<and> sig_int rb \<and> sig_int sb \<and>
       p256_ok r \<and> p256_ok s \<and> bn r = be_val rb \<and> bn s = be_val sb"
    using unpack_der_sig[OF h(1)] u by (auto split: if_splits)
next
  assume "\<exists>rb sb. der_ok rb sb \<and> sig = der_sig rb sb \<and> sig_int rb \<and> sig_int sb \<and>
       p256_ok r \<and> p256_ok s \<and> bn r = be_val rb \<and> bn s = be_val sb"
  then obtain rb sb where h: "der_ok rb sb" "sig = der_sig rb sb" "sig_int rb" "sig_int sb" "p256_ok r" "p256_ok s"
    "bn r = be_val rb" "bn s = be_val sb" by blast
  then obtain r' s' where "dsa_sig_unpack sig = Unpacked r' s'" "p256_ok r'" "p256_ok s'" "bn r' = bn r" "bn s' = bn s"
    using unpack_der_sig[OF h(1)] by (auto simp: sig_int_def)
  moreover from this have "r' = r" "s' = s" using h(5,6) bn_inj[of r' r] bn_inj[of s' s] by (simp_all add: p256_ok_def)
  ultimately show "dsa_sig_unpack sig = Unpacked r s" by simp
qed

text \<open>
  C31. The trimming loop of \<open>dsa_sig_unpack\<close> tests \<open>*src\<close> before \<open>src_len\<close>: on a well-formed sequence whose first
  integer is positive and below \<open>2\<^sup>2\<^sup>5\<^sup>6\<close> and whose second is all zero bytes it reads the byte behind the signature, and on no
  other input does any read leave the buffer.
\<close>

theorem dsa_sig_unpack_overread:
  "dsa_sig_unpack sig = Out_of_bounds \<longleftrightarrow>
    (\<exists>rb sb. der_ok rb sb \<and> sig = der_sig rb sb \<and> sig_int rb \<and> be_val sb = 0)"
proof
  assume u: "dsa_sig_unpack sig = Out_of_bounds"
  then obtain rb sb where h: "der_ok rb sb" "sig = der_sig rb sb" using unpack_header[of sig] by auto
  then show "\<exists>rb sb. der_ok rb sb \<and> sig = der_sig rb sb \<and> sig_int rb \<and> be_val sb = 0"
    using unpack_der_sig[OF h(1)] u by (auto split: if_splits)
next
  assume "\<exists>rb sb. der_ok rb sb \<and> sig = der_sig rb sb \<and> sig_int rb \<and> be_val sb = 0"
  then obtain rb sb where h: "der_ok rb sb" "sig = der_sig rb sb" "sig_int rb" "be_val sb = 0" by blast
  then show "dsa_sig_unpack sig = Out_of_bounds" using unpack_der_sig[OF h(1)] by auto
qed

lemma order_mod:
  assumes "p256_ok a"
  shows "bn (p256_mod SECP256r1_n a) = bn a mod bn SECP256r1_n"
proof -
  have "bn a < 2 * bn SECP256r1_n" using p256_less[OF assms] by (simp add: SECP256r1_values)
  then show ?thesis using p256_mod_value(2)[OF SECP256r1_ok(2) assms] by (simp add: mod_if le_mod_geq)
qed

text \<open>
  \<open>p256_ecdsa_verify\<close> rejects, without running any further arithmetic, every signature with a key that fails
  the curve check or with \<open>r\<close> or \<open>s\<close> zero modulo the group order (so the inversion never sees a zero).
\<close>

lemma p256_ecdsa_verify_rejects:
  assumes "p256_ok key_x" "p256_ok key_y" "p256_ok r" "p256_ok s"
    and "p256_is_valid_point key_x key_y = Some False \<or> bn r mod bn SECP256r1_n = 0 \<or> bn s mod bn SECP256r1_n = 0"
  shows "p256_ecdsa_verify key_x key_y message r s = Some False"
proof -
  obtain v where v: "p256_is_valid_point key_x key_y = Some v"
    using valid_point_value[OF assms(1,2)] by blast
  show ?thesis using assms(5) v order_mod[OF assms(3)] order_mod[OF assms(4)]
    by (auto simp: p256_ecdsa_verify_def p256_is_zero_iff Let_def)
qed

theorem p256_ecdsa_verify_rejects_witness:
  "p256_ecdsa_verify P256_Point.base_x P256_Point.base_y P256_ONE P256_ONE SECP256r1_n = Some False"
  using p256_ecdsa_verify_rejects[OF base_facts(1,2), of P256_ONE SECP256r1_n P256_ONE] by simp

text \<open>
  C32. \<open>p256_ecdsa_verify\<close> always returns on a valid key and \<open>r\<close>, \<open>s\<close> nonzero modulo the order: it computes
  \<open>u\<^sub>1 = message / s\<close> and \<open>u\<^sub>2 = r / s\<close> modulo the order, the scalar multiplication \<open>p256_points_mul_vartime\<close> terminates on them with
  a point of two eight-digit coordinates, and the signature is accepted exactly when \<open>r\<close> is the \<open>x\<close> coordinate of that point
  modulo the order. (That the point is \<open>u\<^sub>1 G + u\<^sub>2 Q\<close> is not part of the claim.)
\<close>

theorem p256_ecdsa_verify_accepts:
  assumes ok: "p256_ok key_x" "p256_ok key_y" "p256_ok message" "p256_ok r" "p256_ok s"
    and valid: "p256_is_valid_point key_x key_y = Some True"
    and nz: "bn r mod bn SECP256r1_n \<noteq> 0" "coprime (bn s) (bn SECP256r1_n)"
  shows "\<exists>w u1 u2 x y. w * bn s mod bn SECP256r1_n = 1 \<and> p256_ok u1 \<and> p256_ok u2 \<and>
    bn u1 = bn message * w mod bn SECP256r1_n \<and> bn u2 = bn r * w mod bn SECP256r1_n \<and>
    p256_points_mul_vartime u1 u2 key_x key_y = Some (x, y) \<and> p256_ok x \<and> p256_ok y \<and>
    p256_ecdsa_verify key_x key_y message r s = Some (bn r = bn x mod bn SECP256r1_n)"
proof -
  let ?n = "bn SECP256r1_n"
  have n: "odd ?n" "1 < ?n" by (simp_all add: SECP256r1_values)
  have s: "bn s mod ?n \<noteq> 0"
  proof
    assume "bn s mod ?n = 0"
    then have "?n dvd bn s" by (simp add: mod_eq_0_iff_dvd)
    then have "gcd (bn s) ?n = ?n" by (metis gcd.commute gcd_nat.absorb1)
    then show False using nz(2) n(2) by (metis coprime_iff_gcd_eq_1 less_irrefl)
  qed
  obtain v where v: "p256_modinv_vartime SECP256r1_n s = Some v" "p256_ok v" "bn v * bn s mod ?n = 1"
    using modinv_vartime_correct[OF SECP256r1_ok(2) n ok(5) nz(2)] by blast
  obtain u1 where u1: "p256_modmul SECP256r1_n message 0 v = Some u1" "p256_ok u1" "bn u1 = bn message * bn v mod ?n"
    using p256_modmul_value[OF SECP256r1_mod_ok(2) ok(3) v(2), of 0] by auto
  obtain u2 where u2: "p256_modmul SECP256r1_n r 0 v = Some u2" "p256_ok u2" "bn u2 = bn r * bn v mod ?n"
    using p256_modmul_value[OF SECP256r1_mod_ok(2) ok(4) v(2), of 0] by auto
  obtain x y where p: "p256_points_mul_vartime u1 u2 key_x key_y = Some (x, y)" "p256_ok x" "p256_ok y"
    using points_mul_returns[OF u1(2) u2(2) ok(1,2)] by blast
  have "p256_ecdsa_verify key_x key_y message r s = Some (p256_cmp r (p256_mod SECP256r1_n x) = 0)"
    using valid s nz(1) order_mod[OF ok(4)] order_mod[OF ok(5)] v(1) u1(1) u2(1) p(1)
    by (simp add: p256_ecdsa_verify_def p256_is_zero_iff Let_def)
  then have "p256_ecdsa_verify key_x key_y message r s = Some (bn r = bn x mod ?n)"
    using p256_cmp_value[OF ok(4) p256_mod_value(1)[OF SECP256r1_ok(2) p(2)]] order_mod[OF p(2)] by simp
  then show ?thesis using v(3) u1(2,3) u2(2,3) p by blast
qed

theorem p256_ecdsa_verify_accepts_witness:
  "\<exists>w u1 u2 x y. w * bn P256_ONE mod bn SECP256r1_n = 1 \<and> p256_ok u1 \<and> p256_ok u2 \<and>
    bn u1 = bn P256_ZERO * w mod bn SECP256r1_n \<and> bn u2 = bn P256_ONE * w mod bn SECP256r1_n \<and>
    p256_points_mul_vartime u1 u2 P256_Point.base_x P256_Point.base_y = Some (x, y) \<and> p256_ok x \<and> p256_ok y \<and>
    p256_ecdsa_verify P256_Point.base_x P256_Point.base_y P256_ZERO P256_ONE P256_ONE = Some (bn P256_ONE = bn x mod bn SECP256r1_n)"
  by (rule p256_ecdsa_verify_accepts[OF base_facts(1,2)])
    (simp_all add: SECP256r1_values base_valid)

end
