(* ===== verification/Verifier.thy ===== *)
theory Verifier
  imports Key_File Pkcs7 Ecdsa
begin

text \<open>
  The package verifier (\<open>verify_file\<close> of \<^verbatim>\<open>verifier24/verifier.cpp\<close>): the footer and the end-of-central-directory record are
  located, everything before the archive comment is hashed in pieces, and the signature in the comment is checked against
  the trusted keys. It composes the key file, the DER reader, both hashes, RSA and ECDSA.
\<close>

section \<open>The code\<close>

definition VERIFY_SUCCESS :: int where "VERIFY_SUCCESS = 0"
definition VERIFY_FAILURE :: int where "VERIFY_FAILURE = 1"
definition INSTALL_CORRUPT :: int where "INSTALL_CORRUPT = 2"

definition FOOTER_SIZE :: nat where "FOOTER_SIZE = 6"
definition EOCD_HEADER_SIZE :: nat where "EOCD_HEADER_SIZE = 22"
definition BUFFER_SIZE :: nat where "BUFFER_SIZE = 4096"

text \<open>
  The comparisons of the bytes from a pointer on with constants, joined by \<open>&&\<close> (or, negated, by \<open>||\<close>): they stop at the first
  byte that differs. Pointers are integer offsets into the mapped file; \<open>None\<close> is a read outside of it.
\<close>

fun bytes_are :: "u8 list \<Rightarrow> int \<Rightarrow> u8 list \<Rightarrow> bool option" where
  "bytes_are addr p [] = Some True"
| "bytes_are addr p (b # bs) =
     do { x \<leftarrow> deref addr p;
          if x \<noteq> b then Some False else bytes_are addr (p + 1) bs }"

definition EOCD_MARKER :: "u8 list" where "EOCD_MARKER = [0x50, 0x4b, 0x05, 0x06]"

text \<open>The loop that looks for a later record: whether one of the offsets has the magic number.\<close>

fun later_marker :: "u8 list \<Rightarrow> int \<Rightarrow> nat list \<Rightarrow> bool option" where
  "later_marker addr eocd [] = Some False"
| "later_marker addr eocd (i # is) =
     do { found \<leftarrow> bytes_are addr (eocd + int i) EOCD_MARKER;
          if found then Some True else later_marker addr eocd is }"

text \<open>The loop that feeds the signed bytes to the hashes that some key needs.\<close>

function hash_loop ::
  "bool \<Rightarrow> bool \<Rightarrow> u8 list \<Rightarrow> nat \<Rightarrow> nat \<Rightarrow> HASH_CTX \<Rightarrow> HASH_CTX \<Rightarrow> (HASH_CTX \<times> HASH_CTX) option" where
  "hash_loop need_sha1 need_sha256 addr signed_len so_far sha1_ctx sha256_ctx =
     (if so_far < signed_len
      then let size = signed_len - so_far;
               size = (if size > BUFFER_SIZE then BUFFER_SIZE else size)
           in do { sha1_ctx \<leftarrow> (if need_sha1 then map_option (SHA_update sha1_ctx) (piece addr (int so_far) size) else Some sha1_ctx);
                   sha256_ctx \<leftarrow> (if need_sha256 then map_option (SHA256_update sha256_ctx) (piece addr (int so_far) size) else Some sha256_ctx);
                   hash_loop need_sha1 need_sha256 addr signed_len (so_far + size) sha1_ctx sha256_ctx }
      else Some (sha1_ctx, sha256_ctx))"
  by pat_completeness auto
termination
  by (relation "measure (\<lambda>(_, _, _, signed_len, so_far, _, _). signed_len - so_far)") (auto simp: BUFFER_SIZE_def)

declare hash_loop.simps [simp del]

text \<open>
  The body of the loop over the keys: whether the key accepts the signature. \<open>None\<close> is a null pointer, a read
  outside the signature (\<open>dsa_sig_unpack\<close>) or a call that does not return. \<open>rsa_ctx\<close> is stack memory of \<open>RSA_verify\<close>.
\<close>

definition check_key :: "HASH_CTX \<Rightarrow> u8 list \<Rightarrow> u8 list \<Rightarrow> u8 list \<Rightarrow> Certificate \<Rightarrow> bool option" where
  "check_key rsa_ctx sha1 sha256 sig_der key =
     (if hash_len key \<noteq> SHA_DIGEST_SIZE \<and> hash_len key \<noteq> SHA256_DIGEST_SIZE then Some False
      else let hash = (if hash_len key = SHA_DIGEST_SIZE then sha1 else sha256) in
      if key_type key = RSA then
        if length sig_der < RSANUMBYTES then Some False
        else do { k \<leftarrow> rsa key; Some (RSA_verify rsa_ctx k (take RSANUMBYTES sig_der) hash) }
      else if key_type key = EC \<and> hash_len key = SHA256_DIGEST_SIZE then
        (case dsa_sig_unpack sig_der of
           Rejected \<Rightarrow> Some False
         | Out_of_bounds \<Rightarrow> None
         | Unpacked r s \<Rightarrow> do { k \<leftarrow> ec key; p256_ecdsa_verify (ec_x k) (ec_y k) (p256_from_bin hash) r s })
      else Some False)"

fun try_keys :: "HASH_CTX \<Rightarrow> u8 list \<Rightarrow> u8 list \<Rightarrow> u8 list \<Rightarrow> Certificate list \<Rightarrow> int option" where
  "try_keys rsa_ctx sha1 sha256 sig_der [] = Some VERIFY_FAILURE"
| "try_keys rsa_ctx sha1 sha256 sig_der (key # keys) =
     do { accepted \<leftarrow> check_key rsa_ctx sha1 sha256 sig_der key;
          if accepted then Some VERIFY_SUCCESS else try_keys rsa_ctx sha1 sha256 sig_der keys }"

text \<open>
  \<open>ok\<close> tells which allocations succeed, the three contexts are uninitialised stack memory, \<open>keys_file\<close> is the
  contents of \<^verbatim>\<open>/res/keys\<close> if it can be opened. \<open>footer\<close> and \<open>eocd\<close> are pointers, given by their offsets in the file; each byte
  of the file is read through \<open>deref\<close> or \<open>piece\<close>, in the order of the code, so that \<open>None\<close> is the value of every run that reads outside of it.
\<close>

definition verify_file ::
  "(nat \<Rightarrow> bool) \<Rightarrow> HASH_CTX \<Rightarrow> HASH_CTX \<Rightarrow> HASH_CTX \<Rightarrow> string option \<Rightarrow> u8 list \<Rightarrow> int option" where
  "verify_file ok sha1_ctx sha256_ctx rsa_ctx keys_file addr =
     do { loaded \<leftarrow> load_keys keys_file;
          case loaded of None \<Rightarrow> Some INSTALL_CORRUPT | Some pKeys \<Rightarrow>
          let len = length addr in
          if len < FOOTER_SIZE then Some VERIFY_FAILURE
          else do {
            let footer = int len - int FOOTER_SIZE;
            marked \<leftarrow> bytes_are addr (footer + 2) [0xff, 0xff];
            if \<not> marked then Some VERIFY_FAILURE
            else do {
              f4 \<leftarrow> deref addr (footer + 4);
              f5 \<leftarrow> deref addr (footer + 5);
              f0 \<leftarrow> deref addr footer;
              f1 \<leftarrow> deref addr (footer + 1);
              let comment_size = unat f4 + unat f5 * 256;
              let signature_start = unat f0 + unat f1 * 256;
              if signature_start \<le> FOOTER_SIZE then Some VERIFY_FAILURE
              else let eocd_size = comment_size + EOCD_HEADER_SIZE in
              if len < eocd_size then Some VERIFY_FAILURE
              else do {
                let signed_len = len - eocd_size + EOCD_HEADER_SIZE - 2;
                let eocd = int len - int eocd_size;
                begins \<leftarrow> bytes_are addr eocd EOCD_MARKER;
                if \<not> begins then Some VERIFY_FAILURE
                else do {
                  later \<leftarrow> later_marker addr eocd [4..<eocd_size - 3];
                  if later then Some VERIFY_FAILURE
                  else do {
                    let need_sha1 = list_ex (\<lambda>key. hash_len key = SHA_DIGEST_SIZE) pKeys;
                    let need_sha256 = list_ex (\<lambda>key. hash_len key = SHA256_DIGEST_SIZE) pKeys;
                    (sha1_ctx, sha256_ctx) \<leftarrow> hash_loop need_sha1 need_sha256 addr signed_len 0 (SHA_init sha1_ctx) (SHA256_init sha256_ctx);
                    let sha1 = take SHA_DIGEST_SIZE (ctx_buf (SHA_final sha1_ctx));
                    let sha256 = take SHA256_DIGEST_SIZE (ctx_buf (SHA256_final sha256_ctx));
                    let signature_size = signature_start - FOOTER_SIZE;
                    sig_der \<leftarrow> read_pkcs7 ok addr (eocd + int eocd_size - int signature_start) signature_size;
                    case sig_der of
                      None \<Rightarrow> Some VERIFY_FAILURE
                    | Some sig_der \<Rightarrow> try_keys rsa_ctx sha1 sha256 sig_der pKeys } } } } } }"

section \<open>The hashes\<close>

abbreviation fips_sha1 :: "u8 list \<Rightarrow> u8 list" where "fips_sha1 \<equiv> md_digest fips1_compress fips1_H0"
abbreviation fips_sha256 :: "u8 list \<Rightarrow> u8 list" where "fips_sha256 \<equiv> md_digest fips256_compress fips256_H0"

text \<open>The pieces of at most \<open>BUFFER_SIZE\<close> bytes that the loop takes.\<close>

function pieces :: "u8 list \<Rightarrow> u8 list list" where
  "pieces xs = (if xs = [] then [] else take BUFFER_SIZE xs # pieces (drop BUFFER_SIZE xs))"
  by pat_completeness auto
termination by (relation "measure length") (auto simp: BUFFER_SIZE_def)

declare pieces.simps [simp del]

lemma concat_pieces: "concat (pieces xs) = xs"
  by (induction xs rule: pieces.induct) (subst pieces.simps, simp)

lemma hash_loop_pieces:
  assumes "signed_len \<le> length addr"
  shows "hash_loop n1 n2 addr signed_len so_far c1 c2 = Some
    (if n1 then foldl SHA_update c1 (pieces (drop so_far (take signed_len addr))) else c1,
     if n2 then foldl SHA256_update c2 (pieces (drop so_far (take signed_len addr))) else c2)"
  using assms
proof (induction n1 n2 addr signed_len so_far c1 c2 rule: hash_loop.induct)
  case (1 n1 n2 addr signed_len so_far c1 c2)
  show ?case
  proof (cases "so_far < signed_len")
    case False
    then show ?thesis by (simp add: hash_loop.simps pieces.simps)
  next
    case True
    let ?rest = "drop so_far (take signed_len addr)"
    have ne: "?rest \<noteq> []" using True "1.prems" by simp
    let ?size = "if signed_len - so_far > BUFFER_SIZE then BUFFER_SIZE else signed_len - so_far"
    have h: "piece addr (int so_far) ?size = Some (take BUFFER_SIZE ?rest)" "drop (so_far + ?size) (take signed_len addr) = drop BUFFER_SIZE ?rest"
      using True "1.prems" by (auto simp: piece_def drop_take min_def add.commute)
    let ?c1 = "if n1 then SHA_update c1 (take BUFFER_SIZE ?rest) else c1" and ?c2 = "if n2 then SHA256_update c2 (take BUFFER_SIZE ?rest) else c2"
    have e: "(if n1 then map_option (SHA_update c1) (piece addr (int so_far) ?size) else Some c1) = Some ?c1"
      "(if n2 then map_option (SHA256_update c2) (piece addr (int so_far) ?size) else Some c2) = Some ?c2"
      unfolding h(1) by simp_all
    have step: "hash_loop n1 n2 addr signed_len so_far c1 c2 = hash_loop n1 n2 addr signed_len (so_far + ?size) ?c1 ?c2"
      using True by (subst hash_loop.simps) (simp only: Let_def e bind.bind_lunit if_True)
    show ?thesis
      unfolding step "1.IH"[OF True refl refl e "1.prems"] h(2) using ne by (simp add: pieces.simps[of ?rest])
  qed
qed


text \<open>The digests that \<open>verify_file\<close> passes on are those of the signed bytes, as far as a key uses them.\<close>

lemma hash_loop_digests:
  assumes "signed_len \<le> length addr" "ctx_ok c1" "ctx_ok c2"
    and h: "hash_loop n1 n2 addr signed_len 0 (SHA_init c1) (SHA256_init c2) = Some (d1, d2)"
  shows "n1 \<Longrightarrow> take SHA_DIGEST_SIZE (ctx_buf (SHA_final d1)) = fips_sha1 (take signed_len addr)"
    and "n2 \<Longrightarrow> take SHA256_DIGEST_SIZE (ctx_buf (SHA256_final d2)) = fips_sha256 (take signed_len addr)"
  using h SHA_stream[OF SHA_init_represents[OF assms(2)], of "pieces (take signed_len addr)"]
    SHA256_stream[OF SHA256_init_represents[OF assms(3)], of "pieces (take signed_len addr)"]
  by (simp_all add: hash_loop_pieces[OF assms(1)] concat_pieces)

lemma digest_sizes: "SHA_DIGEST_SIZE = 20" "SHA256_DIGEST_SIZE = 32"
  by (simp_all add: SHA_DIGEST_SIZE_def SHA256_DIGEST_SIZE_def)

lemma check_key_cong:
  assumes "hash_len key = SHA_DIGEST_SIZE \<Longrightarrow> sha1 = sha1'" "hash_len key = SHA256_DIGEST_SIZE \<Longrightarrow> sha256 = sha256'"
  shows "check_key ctx sha1 sha256 sig key = check_key ctx sha1' sha256' sig key"
  using assms by (auto simp: check_key_def Let_def digest_sizes)

lemma try_keys_cong:
  assumes "\<forall>key\<in>set keys. check_key ctx sha1 sha256 sig key = check_key ctx sha1' sha256' sig key"
  shows "try_keys ctx sha1 sha256 sig keys = try_keys ctx sha1' sha256' sig keys"
  using assms by (induction keys) (simp_all cong: if_cong)

lemma try_keys_success:
  "try_keys ctx sha1 sha256 sig keys = Some VERIFY_SUCCESS \<Longrightarrow> \<exists>key\<in>set keys. check_key ctx sha1 sha256 sig key = Some True"
  by (induction keys) (auto simp: VERIFY_SUCCESS_def VERIFY_FAILURE_def bind_eq_Some_conv split: if_splits)

lemma try_keys_total:
  assumes "\<forall>key\<in>set keys. check_key ctx sha1 sha256 sig key = Some (P key)"
  shows "try_keys ctx sha1 sha256 sig keys = Some (if \<exists>key\<in>set keys. P key then VERIFY_SUCCESS else VERIFY_FAILURE)"
  using assms by (induction keys) auto

section \<open>The layout of a signed package\<close>

text \<open>
  The package consists of the signed bytes, which end with the first 20 bytes of the end-of-central-directory record, the
  two bytes of the comment length, and the comment. The last six bytes give the distance of the signature from the end and the
  length of the comment. No other record starts after the one that is signed.
\<close>

definition le16 :: "u8 \<Rightarrow> u8 \<Rightarrow> nat" where "le16 a b = unat a + unat b * 256"

definition package :: "u8 list \<Rightarrow> u8 list \<Rightarrow> nat \<Rightarrow> bool" where
  "package addr msg start \<longleftrightarrow>
     (\<exists>pre hdr field comment front s0 s1 c0 c1.
        addr = msg @ field @ comment \<and> msg = pre @ hdr \<and> length hdr = 20 \<and> length field = 2 \<and>
        take 4 hdr = [0x50, 0x4b, 0x05, 0x06] \<and>
        addr = front @ [s0, s1, 0xff, 0xff, c0, c1] \<and> length comment = le16 c0 c1 \<and> start = le16 s0 s1 \<and> 6 < start \<and>
        (\<forall>q. length pre < q \<and> q + 4 \<le> length addr \<longrightarrow> take 4 (drop q addr) \<noteq> [0x50, 0x4b, 0x05, 0x06]))"

lemma packageI:
  assumes "addr = msg @ field @ comment" "msg = pre @ hdr" "length hdr = 20" "length field = 2"
    and "take 4 hdr = [0x50, 0x4b, 0x05, 0x06]" "addr = front @ [s0, s1, 0xff, 0xff, c0, c1]"
    and "length comment = le16 c0 c1" "start = le16 s0 s1" "6 < start"
    and "\<forall>q. length pre < q \<and> q + 4 \<le> length addr \<longrightarrow> take 4 (drop q addr) \<noteq> [0x50, 0x4b, 0x05, 0x06]"
  shows "package addr msg start"
  unfolding package_def using assms by blast

text \<open>The magic number of the record at an offset inside the file, and the tests of \<open>verify_file\<close> over it.\<close>

definition eocd_marker :: "u8 list \<Rightarrow> nat \<Rightarrow> bool" where
  "eocd_marker addr i \<longleftrightarrow> addr ! i = 0x50 \<and> addr ! (i + 1) = 0x4b \<and> addr ! (i + 2) = 0x05 \<and> addr ! (i + 3) = 0x06"

definition layout_tests :: "u8 list \<Rightarrow> bool" where
  "layout_tests addr \<longleftrightarrow>
     (let len = length addr; footer = drop (len - 6) addr; eocd_size = le16 (footer ! 4) (footer ! 5) + 22; eocd = len - eocd_size in
      6 \<le> len \<and> footer ! 2 = 0xff \<and> footer ! 3 = 0xff \<and> 6 < le16 (footer ! 0) (footer ! 1) \<and> eocd_size \<le> len \<and>
      eocd_marker addr eocd \<and> \<not> list_ex (\<lambda>i. eocd_marker addr (eocd + i)) [4..<eocd_size - 3])"

lemma take_4_drop:
  assumes "q + 4 \<le> length addr"
  shows "take 4 (drop q addr) = [0x50, 0x4b, 0x05, 0x06] \<longleftrightarrow> eocd_marker addr q"
proof -
  have "take 4 (drop q addr) = map (\<lambda>i. addr ! (q + i)) [0..<4]"
    using assms by (intro nth_equalityI) auto
  also have "[0..<4] = [0, 1, 2, 3 :: nat]" by (simp add: upt_rec)
  finally show ?thesis by (simp add: eocd_marker_def)
qed

lemma markers_apart:
  assumes "eocd_marker addr q" "0 < i" "i < 4"
  shows "\<not> eocd_marker addr (q + i)"
proof -
  consider "i = 1" | "i = 2" | "i = 3" using assms(2,3) by linarith
  then show ?thesis using assms(1) by cases (simp_all add: eocd_marker_def)
qed

lemma last_six:
  assumes "6 \<le> length addr"
  defines "footer \<equiv> drop (length addr - 6) addr"
  shows "addr = take (length addr - 6) addr @ [footer ! 0, footer ! 1, footer ! 2, footer ! 3, footer ! 4, footer ! 5]"
proof -
  have "length footer = 6" using assms(1) by (simp add: footer_def)
  then have "footer = map (\<lambda>i. footer ! i) [0..<6]" by (metis map_nth)
  moreover have "[0..<6] = [0, 1, 2, 3, 4, 5 :: nat]" by (simp add: upt_rec)
  ultimately have "footer = [footer ! 0, footer ! 1, footer ! 2, footer ! 3, footer ! 4, footer ! 5]" by (metis (no_types) list.map)
  then show ?thesis unfolding footer_def by (metis append_take_drop_id)
qed

lemma package_intro:
  assumes "layout_tests addr"
  defines "footer \<equiv> drop (length addr - 6) addr"
  shows "package addr (take (length addr - le16 (footer ! 4) (footer ! 5) - 2) addr) (le16 (footer ! 0) (footer ! 1))"
proof -
  define c where "c = le16 (footer ! 4) (footer ! 5)"
  define e where "e = length addr - (c + 22)"
  have t: "6 \<le> length addr" "footer ! 2 = 0xff" "footer ! 3 = 0xff" "6 < le16 (footer ! 0) (footer ! 1)" "c + 22 \<le> length addr"
    "eocd_marker addr e" "\<forall>i. 4 \<le> i \<and> i < c + 22 - 3 \<longrightarrow> \<not> eocd_marker addr (e + i)"
    using assms(1)[unfolded layout_tests_def Let_def, folded footer_def, folded c_def, folded e_def] by (simp_all add: list_ex_iff)
  have len: "length addr = e + c + 22" using t(5) by (simp add: e_def)
  have "\<not> eocd_marker addr q" if "e < q" "q + 4 \<le> length addr" for q
  proof (cases "q < e + 4")
    case True
    then show ?thesis using markers_apart[OF t(6), of "q - e"] that by simp
  next
    case False
    then have "4 \<le> q - e" "q - e < c + 22 - 3" "e + (q - e) = q" using that len by linarith+
    then show ?thesis using t(7)[rule_format, of "q - e"] by simp
  qed
  then have no_more: "\<forall>q. length (take e addr) < q \<and> q + 4 \<le> length addr \<longrightarrow> take 4 (drop q addr) \<noteq> [0x50, 0x4b, 0x05, 0x06]"
    using len by (simp add: take_4_drop)
  have "take 4 (take 20 (drop e addr)) = [0x50, 0x4b, 0x05, 0x06]" using take_4_drop[of e addr] t(6) len by simp
  moreover have "take (e + 20) addr = take e addr @ take 20 (drop e addr)" by (simp add: take_add)
  moreover have "addr = take (e + 20) addr @ take 2 (drop (e + 20) addr) @ drop (e + 22) addr"
    using append_take_drop_id[of 2 "drop (e + 20) addr"] append_take_drop_id[of "e + 20" addr] by (simp add: add.commute)
  moreover have "length (take 2 (drop (e + 20) addr)) = 2" "length (drop (e + 22) addr) = c" "length (take 20 (drop e addr)) = 20"
    "length addr - c - 2 = e + 20" using len by simp_all
  ultimately show ?thesis
    unfolding c_def[symmetric]
    by (intro packageI[where pre = "take e addr" and hdr = "take 20 (drop e addr)" and field = "take 2 (drop (e + 20) addr)"
          and comment = "drop (e + 22) addr" and front = "take (length addr - 6) addr" and ?s0.0 = "footer ! 0" and ?s1.0 = "footer ! 1"
          and ?c0.0 = "footer ! 4" and ?c1.0 = "footer ! 5"])
      (use no_more last_six[OF t(1), folded footer_def] t(2-4) in \<open>simp_all only: c_def\<close>)
qed

lemma package_elim:
  assumes "package addr msg start"
  defines "footer \<equiv> drop (length addr - 6) addr"
  shows "layout_tests addr" "msg = take (length addr - le16 (footer ! 4) (footer ! 5) - 2) addr"
    "start = le16 (footer ! 0) (footer ! 1)"
proof -
  obtain pre hdr field comment front s0 s1 c0 c1 where p: "addr = msg @ field @ comment" "msg = pre @ hdr" "length hdr = 20"
    "length field = 2" "take 4 hdr = [0x50, 0x4b, 0x05, 0x06]" "addr = front @ [s0, s1, 0xff, 0xff, c0, c1]"
    "length comment = le16 c0 c1" "start = le16 s0 s1" "6 < start"
    "\<forall>q. length pre < q \<and> q + 4 \<le> length addr \<longrightarrow> take 4 (drop q addr) \<noteq> [0x50, 0x4b, 0x05, 0x06]"
    using assms(1) unfolding package_def by blast
  have f: "footer = [s0, s1, 0xff, 0xff, c0, c1]" unfolding footer_def using arg_cong[OF p(6), of "drop (length addr - 6)"] arg_cong[OF p(6), of length] by simp
  have len: "length addr = length pre + le16 c0 c1 + 22" using p(1-4,7) by simp
  show "msg = take (length addr - le16 (footer ! 4) (footer ! 5) - 2) addr" using p(1,2,3,4) len by (simp add: f)
  show "start = le16 (footer ! 0) (footer ! 1)" using p(8) by (simp add: f)
  have m: "eocd_marker addr (length pre)" using take_4_drop[of "length pre" addr] p(1,2,3,5) len by simp
  have "\<not> eocd_marker addr (length pre + i)" if "4 \<le> i" "i < le16 c0 c1 + 22 - 3" for i
    using p(10)[rule_format, of "length pre + i"] take_4_drop[of "length pre + i" addr] that len by simp
  then show "layout_tests addr"
    using m len p(8,9) arg_cong[OF p(6), of length]
    unfolding layout_tests_def Let_def footer_def[symmetric] by (simp add: f list_ex_iff)
qed


text \<open>The guarded reads stay inside the file and compare what the tests say.\<close>

lemma bytes_are_eocd:
  assumes "i + 4 \<le> length addr"
  shows "bytes_are addr (int i) EOCD_MARKER = Some (eocd_marker addr i)"
proof -
  have "deref addr (int i + 1) = Some (addr ! (i + 1))" "deref addr (int i + 1 + 1) = Some (addr ! (i + 2))"
    "deref addr (int i + 1 + 1 + 1) = Some (addr ! (i + 3))" "deref addr (int i) = Some (addr ! i)"
    using assms deref_nth[of i addr] deref_nth[of "i + 1" addr] deref_nth[of "i + 2" addr] deref_nth[of "i + 3" addr]
    by (simp_all add: ac_simps)
  then show ?thesis by (auto simp: EOCD_MARKER_def eocd_marker_def)
qed

lemma later_marker_value:
  assumes "\<forall>i\<in>set is. e + i + 4 \<le> length addr"
  shows "later_marker addr (int e) is = Some (list_ex (\<lambda>i. eocd_marker addr (e + i)) is)"
  using assms by (induction "is") (simp_all add: bytes_are_eocd flip: of_nat_add)

lemma footer_reads:
  assumes "6 \<le> length addr"
  defines "footer \<equiv> drop (length addr - 6) addr"
  shows "bytes_are addr (int (length addr) - int 6 + 2) [0xff, 0xff] = Some (footer ! 2 = 0xff \<and> footer ! 3 = 0xff)"
    "deref addr (int (length addr) - int 6 + 4) = Some (footer ! 4)" "deref addr (int (length addr) - int 6 + 5) = Some (footer ! 5)"
    "deref addr (int (length addr) - int 6) = Some (footer ! 0)" "deref addr (int (length addr) - int 6 + 1) = Some (footer ! 1)"
proof -
  define n where "n = length addr - 6"
  have n: "int (length addr) - int 6 = int n" using assms(1) by (simp add: n_def)
  have d: "deref addr (int n + int k) = Some (footer ! k)" if "k < 6" for k
  proof -
    have "n + k < length addr" "footer ! k = addr ! (n + k)" using that assms(1) by (simp_all add: n_def footer_def)
    then show ?thesis using deref_nth[of "n + k" addr] by simp
  qed
  show "bytes_are addr (int (length addr) - int 6 + 2) [0xff, 0xff] = Some (footer ! 2 = 0xff \<and> footer ! 3 = 0xff)"
    unfolding n using d[of 2] d[of 3] by (simp add: add.assoc)
  show "deref addr (int (length addr) - int 6 + 4) = Some (footer ! 4)" "deref addr (int (length addr) - int 6 + 5) = Some (footer ! 5)"
    "deref addr (int (length addr) - int 6) = Some (footer ! 0)" "deref addr (int (length addr) - int 6 + 1) = Some (footer ! 1)"
    unfolding n using d[of 4] d[of 5] d[of 0] d[of 1] by simp_all
qed

lemma eocd_reads:
  assumes "c + 22 \<le> length addr"
  shows "bytes_are addr (int (length addr) - int (c + 22)) EOCD_MARKER = Some (eocd_marker addr (length addr - (c + 22)))"
    "later_marker addr (int (length addr) - int (c + 22)) [4..<c + 22 - 3] =
       Some (list_ex (\<lambda>i. eocd_marker addr (length addr - (c + 22) + i)) [4..<c + 22 - 3])"
proof -
  have e: "int (length addr) - int (c + 22) = int (length addr - (c + 22))" using assms by simp
  show "bytes_are addr (int (length addr) - int (c + 22)) EOCD_MARKER = Some (eocd_marker addr (length addr - (c + 22)))"
    unfolding e using assms by (intro bytes_are_eocd) simp
  show "later_marker addr (int (length addr) - int (c + 22)) [4..<c + 22 - 3] =
       Some (list_ex (\<lambda>i. eocd_marker addr (length addr - (c + 22) + i)) [4..<c + 22 - 3])"
    unfolding e using assms by (intro later_marker_value) auto
qed

lemma verify_file_malformed:
  assumes "load_keys keys_file = Some (Some pKeys)" "\<not> layout_tests addr"
  shows "verify_file ok c1 c2 c3 keys_file addr = Some VERIFY_FAILURE"
proof (cases "6 \<le> length addr")
  case True
  define footer where "footer = drop (length addr - 6) addr"
  define c where "c = unat (footer ! 4) + unat (footer ! 5) * 256"
  define start where "start = unat (footer ! 0) + unat (footer ! 1) * 256"
  note reads = footer_reads[OF True, folded footer_def]
  have "footer ! 2 = 0xff \<and> footer ! 3 = 0xff \<Longrightarrow> 6 < start \<Longrightarrow> c + 22 \<le> length addr \<Longrightarrow>
      eocd_marker addr (length addr - (c + 22)) \<Longrightarrow> list_ex (\<lambda>i. eocd_marker addr (length addr - (c + 22) + i)) [4..<c + 22 - 3]"
    using assms(2) True unfolding layout_tests_def Let_def le16_def footer_def[symmetric] c_def[symmetric] start_def[symmetric] by blast
  then show ?thesis
    unfolding verify_file_def assms(1) bind.bind_lunit option.case Let_def FOOTER_SIZE_def EOCD_HEADER_SIZE_def reads
      c_def[symmetric] start_def[symmetric]
    using True eocd_reads[of c addr] by (simp del: upt_Suc of_nat_add)
qed (simp add: verify_file_def assms(1) FOOTER_SIZE_def)

lemma verify_file_package:
  assumes keys: "load_keys keys_file = Some (Some pKeys)" and ok: "ctx_ok c1" "ctx_ok c2" and p: "package addr msg start"
  shows "verify_file ok c1 c2 c3 keys_file addr =
    do { sig_der \<leftarrow> read_pkcs7 ok addr (int (length addr) - int start) (start - 6);
         case sig_der of
           None \<Rightarrow> Some VERIFY_FAILURE
         | Some sig_der \<Rightarrow> try_keys c3 (fips_sha1 msg) (fips_sha256 msg) sig_der pKeys }"
proof -
  define footer where "footer = drop (length addr - 6) addr"
  define c where "c = le16 (footer ! 4) (footer ! 5)"
  note facts = package_elim[OF p, folded footer_def, folded c_def]
  have t: "6 \<le> length addr" "footer ! 2 = 0xff" "footer ! 3 = 0xff" "6 < start" "c + 22 \<le> length addr"
    "eocd_marker addr (length addr - (c + 22))"
    "\<not> list_ex (\<lambda>i. eocd_marker addr (length addr - (c + 22) + i)) [4..<c + 22 - 3]"
    using facts(1)[unfolded layout_tests_def Let_def, folded footer_def, folded c_def] facts(3) by (simp_all only: not_False_eq_True simp_thms)
  have len: "length addr - (c + 22) + 22 - 2 = length addr - c - 2" "int (length addr) - int (c + 22) + int (c + 22) = int (length addr)"
    using t(5) by simp_all
  let ?n1 = "list_ex (\<lambda>key. hash_len key = SHA_DIGEST_SIZE) pKeys" and ?n2 = "list_ex (\<lambda>key. hash_len key = SHA256_DIGEST_SIZE) pKeys"
  obtain d1 d2 where h: "hash_loop ?n1 ?n2 addr (length addr - c - 2) 0 (SHA_init c1) (SHA256_init c2) = Some (d1, d2)"
    by (simp only: hash_loop_pieces[OF diff_le_self[THEN order_trans[rotated], OF diff_le_self]])
  have keys_eq: "try_keys c3 (take SHA_DIGEST_SIZE (ctx_buf (SHA_final d1))) (take SHA256_DIGEST_SIZE (ctx_buf (SHA256_final d2))) sig pKeys =
      try_keys c3 (fips_sha1 msg) (fips_sha256 msg) sig pKeys" for sig
  proof (rule try_keys_cong, rule ballI, rule check_key_cong)
    fix key assume k: "key \<in> set pKeys"
    show "take SHA_DIGEST_SIZE (ctx_buf (SHA_final d1)) = fips_sha1 msg" if "hash_len key = SHA_DIGEST_SIZE"
      using hash_loop_digests(1)[OF _ ok h] k that facts(2) by (auto simp: list_ex_iff)
    show "take SHA256_DIGEST_SIZE (ctx_buf (SHA256_final d2)) = fips_sha256 msg" if "hash_len key = SHA256_DIGEST_SIZE"
      using hash_loop_digests(2)[OF _ ok h] k that facts(2) by (auto simp: list_ex_iff)
  qed
  have c': "unat (footer ! 4) + unat (footer ! 5) * 256 = c" "unat (footer ! 0) + unat (footer ! 1) * 256 = start"
    by (simp_all only: c_def facts(3) le16_def)
  show ?thesis
    unfolding verify_file_def keys bind.bind_lunit option.case Let_def FOOTER_SIZE_def EOCD_HEADER_SIZE_def
      footer_reads[OF t(1), folded footer_def] c' eocd_reads[OF t(5)] len
    unfolding h prod.case bind.bind_lunit keys_eq using t by (simp del: upt_Suc of_nat_add)
qed


section \<open>What a key signs\<close>

text \<open>
  The signature \<open>sig\<close> is one of the message under the key. RSA: the \<open>e\<close>-th power modulo \<open>N\<close> is the padding followed by the
  digest, where the padding is compared through its own digest. EC: the two integers of the signature pass
  \<open>p256_ecdsa_verify\<close> for the digest.
\<close>

definition signed_by :: "PublicKey \<times> bool \<Rightarrow> u8 list \<Rightarrow> u8 list \<Rightarrow> bool" where
  "signed_by k msg sig \<longleftrightarrow>
     (case k of
        (RSAKey N e, useSHA256) \<Rightarrow>
          RSANUMBYTES \<le> length sig \<and> (e = 3 \<or> e = 65537) \<and>
          (\<exists>em. length em = RSANUMBYTES \<and> be_val em = be_val (take RSANUMBYTES sig) ^ e mod N \<and>
             (if useSHA256 then fips_sha256 (xor_tail em (fips_sha256 msg)) = kExpectedPadSha256Rsa2048
              else fips_sha1 (xor_tail em (fips_sha1 msg)) = kExpectedPadShaRsa2048))
      | (ECKey x y _, _) \<Rightarrow>
          (\<exists>kx ky r s. p256_ok kx \<and> p256_ok ky \<and> bn kx = x mod 2 ^ 256 \<and> bn ky = y mod 2 ^ 256 \<and>
             dsa_sig_unpack sig = Unpacked r s \<and> p256_ecdsa_verify kx ky (p256_from_bin (fips_sha256 msg)) r s = Some True))"

lemma check_key_rsa:
  assumes "holds_key (RSAKey N e, sha) c" "ctx_ok ctx"
  shows "check_key ctx (fips_sha1 msg) (fips_sha256 msg) sig c = Some (signed_by (RSAKey N e, sha) msg sig)"
proof -
  obtain key where k: "key_type c = RSA" "hash_len c = (if sha then SHA256_DIGEST_SIZE else SHA_DIGEST_SIZE)" "rsa c = Some key"
    "key_ok key" "key_len key = RSANUMWORDS" "bn (key_n key) = N" "key_exponent key = int e"
    using assms(1) by (auto simp: holds_key_def)
  let ?hash = "if sha then fips_sha256 msg else fips_sha1 msg"
  have l: "length (fips_sha1 msg) = SHA_DIGEST_SIZE" "length (fips_sha256 msg) = SHA256_DIGEST_SIZE"
    by (simp_all add: length_md_digest_sha digest_sizes)
  have "RSA_verify ctx key (take RSANUMBYTES sig) ?hash \<longleftrightarrow> signed_by (RSAKey N e, sha) msg sig" if "RSANUMBYTES \<le> length sig"
    using that l k(5-7) RSA_verify_power[OF assms(2) k(4), of "take RSANUMBYTES sig" ?hash]
    by (cases sha) (auto simp: signed_by_def digest_sizes)
  then show ?thesis using k(1-3) by (auto simp: check_key_def Let_def digest_sizes signed_by_def)
qed

lemma p256_inj: "p256_ok a \<Longrightarrow> p256_ok b \<Longrightarrow> bn a = bn b \<Longrightarrow> a = b"
  using bn_inj[of a b] by (simp add: p256_ok_def)

lemma check_key_ec:
  assumes "holds_key (ECKey x y n, sha) c" "check_key ctx (fips_sha1 msg) (fips_sha256 msg) sig c = Some b"
  shows "b \<longleftrightarrow> signed_by (ECKey x y n, sha) msg sig"
proof -
  obtain key where k: "key_type c = EC" "hash_len c = SHA256_DIGEST_SIZE" "ec c = Some key" "p256_ok (ec_x key)" "p256_ok (ec_y key)"
    "bn (ec_x key) = x mod 2 ^ 256" "bn (ec_y key) = y mod 2 ^ 256"
    using assms(1) by (auto simp: holds_key_def)
  have "signed_by (ECKey x y n, sha) msg sig \<longleftrightarrow> (\<exists>r s. dsa_sig_unpack sig = Unpacked r s \<and>
      p256_ecdsa_verify (ec_x key) (ec_y key) (p256_from_bin (fips_sha256 msg)) r s = Some True)"
    using k(4-7) p256_inj unfolding signed_by_def prod.case PublicKey.case by metis
  then show ?thesis using assms(2) k(1-3)
    by (cases "dsa_sig_unpack sig") (auto simp: check_key_def digest_sizes)
qed

lemma check_key_signed:
  assumes "holds_key k c" "ctx_ok ctx" "check_key ctx (fips_sha1 msg) (fips_sha256 msg) sig c = Some b"
  shows "b \<longleftrightarrow> signed_by k msg sig"
proof -
  obtain key sha where k: "k = (key, sha)" by fastforce
  show ?thesis using assms check_key_rsa[of _ _ sha c ctx msg sig] check_key_ec[of _ _ _ sha c ctx msg sig b]
    by (cases key) (auto simp: k)
qed

lemma try_keys_result:
  assumes "list_all2 holds_key ks certs" "ctx_ok ctx"
    and "try_keys ctx (fips_sha1 msg) (fips_sha256 msg) sig certs = Some r"
  shows "r = (if \<exists>k\<in>set ks. signed_by k msg sig then VERIFY_SUCCESS else VERIFY_FAILURE)"
  using assms(1,3)
proof (induction rule: list_all2_induct)
  case (Cons k ks c certs)
  from Cons.prems obtain b where b: "check_key ctx (fips_sha1 msg) (fips_sha256 msg) sig c = Some b"
    "(if b then Some VERIFY_SUCCESS else try_keys ctx (fips_sha1 msg) (fips_sha256 msg) sig certs) = Some r"
    by (auto elim: bind_SomeE)
  show ?case using b(2) Cons.IH check_key_signed[OF Cons.hyps(1) assms(2) b(1)] by (auto split: if_splits)
qed simp

text \<open>The bytes from the start of the signature to the footer.\<close>

definition signature_block :: "u8 list \<Rightarrow> nat \<Rightarrow> u8 list" where
  "signature_block addr start = take (start - 6) (drop (length addr - start) addr)"

lemma piece_block: "start \<le> length addr \<Longrightarrow> 6 < start \<Longrightarrow>
  piece addr (int (length addr) - int start) (start - 6) = Some (signature_block addr start)"
  by (auto simp: piece_def signature_block_def nat_diff_distrib)

lemma read_pkcs7_before:
  assumes "p < 0" "0 < n"
  shows "read_pkcs7 (\<lambda>_. True) mem p n = None"
  using assms by (simp add: read_pkcs7_def asn1_context_new_def asn1_sequence_get_def get_byte_def deref_def)

lemma package_unique: "package addr msg start \<Longrightarrow> package addr msg' start' \<Longrightarrow> msg' = msg \<and> start' = start"
  using package_elim[of addr msg start] package_elim[of addr msg' start'] by simp

lemma package_start: "package addr msg start \<Longrightarrow> 6 < start"
  by (auto simp: package_def)


section \<open>Properties\<close>

lemma verify_file_value:
  assumes "ctx_ok c1" "ctx_ok c2" "load_keys keys_file = Some (Some certs)" "package addr msg start" "start \<le> length addr"
  shows "verify_file (\<lambda>_. True) c1 c2 c3 keys_file addr =
    (case pkcs7_signature (signature_block addr start) of
       None \<Rightarrow> Some VERIFY_FAILURE
     | Some sig \<Rightarrow> try_keys c3 (fips_sha1 msg) (fips_sha256 msg) sig certs)"
  using verify_file_package[OF assms(3,1,2,4)] read_pkcs7_views[OF piece_block[OF assms(5) package_start[OF assms(4)]]] by simp

lemma verify_file_before:
  assumes "ctx_ok c1" "ctx_ok c2" "load_keys keys_file = Some (Some certs)" "package addr msg start" "length addr < start"
  shows "verify_file (\<lambda>_. True) c1 c2 c3 keys_file addr = None"
  using verify_file_package[OF assms(3,1,2,4)] read_pkcs7_before[of "int (length addr) - int start" "start - 6"]
    package_start[OF assms(4)] assms(5) by simp

text \<open>
  The packages that are accepted: laid out as the format says, with a signature of the signed bytes under a trusted key. The
  block that holds the signature starts \<open>start\<close> bytes from the end, anywhere in the file: as in the code, which does not compare \<open>start\<close> with
  the length of the comment, it may begin before the comment (\<^verbatim>\<open>src/verifier.cpp\<close>, the later version, has that test).
\<close>

definition trusted :: "(PublicKey \<times> bool) list \<Rightarrow> u8 list \<Rightarrow> bool" where
  "trusted ks addr \<longleftrightarrow>
     (\<exists>msg start sig. package addr msg start \<and> start \<le> length addr \<and>
        pkcs7_signature (signature_block addr start) = Some sig \<and> (\<exists>k\<in>set ks. signed_by k msg sig))"

lemma package_tests: "(\<exists>msg start. package addr msg start) \<longleftrightarrow> layout_tests addr"
  using package_intro package_elim(1) by blast

text \<open>
  C1. Let \<^verbatim>\<open>/res/keys\<close> be what \<open>DumpPublicKey\<close> writes for a nonempty list of keys, and let no allocation fail. Whenever \<open>verify_file\<close> returns,
  it returns success or failure, and success exactly if the file is laid out as a package, no end-of-central-directory record starts
  after the signed one, and the block that begins \<open>start\<close> bytes from the end (not necessarily inside the comment) holds a signature of all the
  bytes before the comment length under one of the keys. For an RSA key that is one whose power is the padding and the FIPS digest of those bytes; for an
  EC key one that the \<open>p256_ecdsa_verify\<close> of the code accepts for that digest.
\<close>

theorem verify_file_correct:
  assumes "ctx_ok c1" "ctx_ok c2" "ctx_ok c3" "dump_keys ks = Some file" "ks \<noteq> []"
    and "verify_file (\<lambda>_. True) c1 c2 c3 (Some file) addr = Some r"
  shows "r = (if trusted ks addr then VERIFY_SUCCESS else VERIFY_FAILURE)"
proof (cases "layout_tests addr")
  case False
  then show ?thesis
    using assms(6) verify_file_malformed[OF load_keys_dump[OF assms(4,5)], of addr] package_tests[of addr]
    by (auto simp: trusted_def)
next
  case True
  then obtain msg start where p: "package addr msg start" using package_tests by blast
  have le: "start \<le> length addr" using verify_file_before[OF assms(1,2) load_keys_dump[OF assms(4,5)] p] assms(6) by fastforce
  have t: "trusted ks addr \<longleftrightarrow> (\<exists>sig. pkcs7_signature (signature_block addr start) = Some sig \<and> (\<exists>k\<in>set ks. signed_by k msg sig))"
    using p le package_unique[OF p] unfolding trusted_def by blast
  show ?thesis
    using verify_file_value[OF assms(1,2) load_keys_dump[OF assms(4,5)] p le, of c3] assms(6) t
      try_keys_result[OF dump_keys_ok[OF assms(4)] assms(3), of msg _ r]
    by (cases "pkcs7_signature (signature_block addr start)") auto
qed

text \<open>A file of 28 bytes that consists of a record and a footer, with the signature \<open>le16 lo hi\<close> bytes from the end.\<close>

definition short_package :: "u8 \<Rightarrow> u8 \<Rightarrow> u8 list" where
  "short_package lo hi = [0x50, 0x4b, 0x05, 0x06] @ replicate 16 0 @ [6, 0] @ [lo, hi, 0xff, 0xff, 6, 0]"

lemma short_package_tests: "layout_tests (short_package 7 0)" "layout_tests (short_package 0xff 0xff)"
  by code_simp+

lemma short_packages:
  "package (short_package 7 0) (take 20 (short_package 7 0)) 7"
  "package (short_package 0xff 0xff) (take 20 (short_package 0xff 0xff)) 65535"
  using package_intro[OF short_package_tests(1)] package_intro[OF short_package_tests(2)]
  by (simp_all add: short_package_def le16_def)

lemma stack_ctx_ok: "ctx_ok stack_ctx"
  by (simp add: stack_ctx_def ctx_ok_def)

lemma sample_keys_nonempty: "sample_keys \<noteq> []"
  by (simp only: sample_keys_def list.distinct not_False_eq_True)

abbreviation sample_file :: string where "sample_file \<equiv> the (dump_keys sample_keys)"

lemma try_keys_rsa:
  assumes "list_all2 holds_key ks certs" "ctx_ok ctx" "\<forall>(k, sha)\<in>set ks. \<exists>N e. k = RSAKey N e"
  shows "\<exists>r. try_keys ctx (fips_sha1 msg) (fips_sha256 msg) sig certs = Some r"
  using assms(1,3)
proof (induction rule: list_all2_induct)
  case (Cons k ks c certs)
  then show ?case using check_key_rsa[OF _ assms(2), of _ _ "snd k" c msg sig] by (cases k) auto
qed simp


definition rsa_keys :: "(PublicKey \<times> bool) list" where
  "rsa_keys = [(RSAKey (2 ^ 2048 - 1) 3, False)]"

lemma dump_first: "dump_keys (k # ks) \<noteq> None \<Longrightarrow> dump_keys [k] = Some (the (dump_keys [k]))"
  by (cases k) (auto simp: bind_eq_Some_conv)

lemma rsa_keys_dump: "dump_keys rsa_keys = Some (the (dump_keys rsa_keys))"
proof -
  have "dump_keys sample_keys \<noteq> None" by (metis sample_keys_dump option.distinct(1))
  then show ?thesis unfolding sample_keys_def rsa_keys_def by (rule dump_first)
qed


text \<open>
  C4. The distance of the signature from the end is not compared with the length of the file or of the comment: on a file
  that is laid out as a package but shorter than that distance, \<open>verify_file\<close> reads before the mapped file.
\<close>

theorem verify_file_reads_before:
  assumes "ctx_ok c1" "ctx_ok c2" "dump_keys ks = Some file" "ks \<noteq> []" "package addr msg start" "length addr < start"
  shows "verify_file (\<lambda>_. True) c1 c2 c3 (Some file) addr = None"
  using verify_file_before[OF assms(1,2) load_keys_dump[OF assms(3,4)] assms(5,6)] .

theorem verify_file_reads_before_witness:
  "verify_file (\<lambda>_. True) stack_ctx stack_ctx stack_ctx (Some sample_file) (short_package 0xff 0xff) = None"
  by (rule verify_file_reads_before[OF stack_ctx_ok stack_ctx_ok sample_keys_dump sample_keys_nonempty short_packages(2)])
    (simp add: short_package_def)

end
