(* ===== verification/Rsa_Padding.thy ===== *)
theory Rsa_Padding
  imports Rsa
begin

text \<open>
  The constant with which \<open>RSA_verify\<close> compares the padding of a SHA-1 signature is the SHA-1 digest of the PKCS1 v1.5 padding with
  zeros at the place of the hash: the five blocks of that message are hashed here, twenty rounds at a time.
\<close>

section \<open>Rounds over a window of the message schedule\<close>

definition round_step :: "(u32 \<Rightarrow> u32 \<Rightarrow> u32 \<Rightarrow> u32) \<Rightarrow> u32 \<Rightarrow> u32 list \<times> sha1_vars \<Rightarrow> u32 list \<times> sha1_vars" where
  "round_step f k = (\<lambda>(ws, a, b, c, d, e).
     (tl ws @ [rol 1 (ws ! 13 XOR ws ! 8 XOR ws ! 2 XOR ws ! 0)], rol 5 a + f b c d + e + k + hd ws, a, rol 30 b, c, d))"

definition rounds :: "(u32 \<Rightarrow> u32 \<Rightarrow> u32 \<Rightarrow> u32) \<Rightarrow> u32 \<Rightarrow> u32 list \<times> sha1_vars \<Rightarrow> u32 list \<times> sha1_vars" where
  "rounds f k s = foldl (\<lambda>s _. round_step f k s) s
     [(), (), (), (), (), (), (), (), (), (), (), (), (), (), (), (), (), (), (), ()]"

definition window :: "u8 list \<Rightarrow> nat \<Rightarrow> u32 list" where
  "window M t = map (fips1_W M) [t..<t + 16]"

lemma window_nth: "k < 16 \<Longrightarrow> window M t ! k = fips1_W M (t + k)"
  by (simp add: window_def)

lemma round_step_fips:
  assumes "fips1_f t = f" "fips1_K t = k"
  shows "round_step f k (window M t, v) = (window M (Suc t), fips1_step M v t)"
proof -
  have w: "fips1_W M (t + 16) = rol 1 (window M t ! 13 XOR window M t ! 8 XOR window M t ! 2 XOR window M t ! 0)"
    by (subst fips1_W.simps) (simp add: window_nth rol_word_rotl add.commute)
  have "[t..<t + 16] = t # [Suc t..<t + 16]" "[Suc t..<Suc t + 16] = [Suc t..<t + 16] @ [t + 16]" by (simp_all add: upt_conv_Cons)
  then have "window M (Suc t) = tl (window M t) @ [fips1_W M (t + 16)]" "hd (window M t) = fips1_W M t"
    unfolding window_def by simp_all
  then show ?thesis unfolding w using assms
    by (cases v) (simp add: round_step_def fips1_step_def rol_word_rotl)
qed

lemma rounds_fips:
  assumes "\<forall>i<length us. fips1_f (t + i) = f \<and> fips1_K (t + i) = k"
  shows "foldl (\<lambda>s _. round_step f k s) (window M t, v) us = (window M (t + length us), foldl (fips1_step M) v [t..<t + length us])"
  using assms
proof (induction us arbitrary: t v)
  case (Cons u us)
  have "\<forall>i<length us. fips1_f (Suc t + i) = f \<and> fips1_K (Suc t + i) = k" using Cons.prems by auto
  moreover have "fips1_f t = f" "fips1_K t = k" using Cons.prems by (auto dest: spec[of _ 0])
  ultimately show ?case using Cons.IH[of "Suc t"] by (simp add: round_step_fips upt_conv_Cons del: upt_Suc)
qed simp

lemma twenty_rounds:
  assumes "\<forall>i<20. fips1_f (t + i) = f \<and> fips1_K (t + i) = k"
  shows "rounds f k (window M t, v) = (window M (t + 20), foldl (fips1_step M) v [t..<t + 20])"
proof -
  define us where "us = [(), (), (), (), (), (), (), (), (), (), (), (), (), (), (), (), (), (), (), ()]"
  have "length us = 20" by (simp add: us_def)
  from rounds_fips[of us t f k M v, unfolded this, OF assms] show ?thesis unfolding rounds_def us_def .
qed

definition four_rounds :: "u32 list \<Rightarrow> u32 list \<Rightarrow> sha1_vars" where
  "four_rounds H ws = snd (rounds fips_Parity 0xca62c1d6 (rounds fips_Maj 0x8f1bbcdc (rounds fips_Parity 0x6ed9eba1
     (rounds fips_Ch 0x5a827999 (ws, H ! 0, H ! 1, H ! 2, H ! 3, H ! 4)))))"

lemma fips1_compress_rounds:
  "fips1_compress H M = (case four_rounds H (window M 0) of (a, b, c, d, e) \<Rightarrow> [H ! 0 + a, H ! 1 + b, H ! 2 + c, H ! 3 + d, H ! 4 + e])"
proof -
  let ?s = "(H ! 0, H ! 1, H ! 2, H ! 3, H ! 4)"
  have split: "foldl g s [0..<80] = foldl g (foldl g (foldl g (foldl g s [0..<20]) [20..<40]) [40..<60]) [60..<80]"
    for g :: "sha1_vars \<Rightarrow> nat \<Rightarrow> sha1_vars" and s
  proof -
    have "[0..<80] = [0..<20] @ [20..<40] @ [40..<60] @ [60..<80 :: nat]"
      using upt_add_eq_append[of 0 20 60] upt_add_eq_append[of 20 40 40] upt_add_eq_append[of 40 60 20] by simp
    then show ?thesis by (simp only: foldl_append)
  qed
  have r: "rounds fips_Ch 0x5a827999 (window M 0, v) = (window M 20, foldl (fips1_step M) v [0..<20])"
    "rounds fips_Parity 0x6ed9eba1 (window M 20, v) = (window M 40, foldl (fips1_step M) v [20..<40])"
    "rounds fips_Maj 0x8f1bbcdc (window M 40, v) = (window M 60, foldl (fips1_step M) v [40..<60])"
    "rounds fips_Parity 0xca62c1d6 (window M 60, v) = (window M 80, foldl (fips1_step M) v [60..<80])" for v
    using twenty_rounds[of 0 fips_Ch "0x5a827999" M v] twenty_rounds[of 20 fips_Parity "0x6ed9eba1" M v]
      twenty_rounds[of 40 fips_Maj "0x8f1bbcdc" M v] twenty_rounds[of 60 fips_Parity "0xca62c1d6" M v]
    by (simp_all add: fips1_f_def fips1_K_def)
  show ?thesis unfolding fips1_compress_def four_rounds_def split r by (simp add: Let_def)
qed

lemma window_load: "window M 0 = SHA1_load M"
  by (simp add: window_def SHA1_load_W)

section \<open>The blocks of the padding\<close>

text \<open>The encoded message of RFC 8017 for SHA-1 before the digest: zero, one, a run of ones, zero, and the DER prefix of the digest.\<close>

definition pkcs1_sha1 :: "u8 list" where
  "pkcs1_sha1 = [0, 1] @ replicate 218 0xff @ [0] @ [0x30, 0x21, 0x30, 0x09, 0x06, 0x05, 0x2b, 0x0e, 0x03, 0x02, 0x1a, 0x05, 0x00, 0x04, 0x14]"

lemmas rounds_defs = rounds_def round_step_def rol_def fips_Ch_def fips_Parity_def fips_Maj_def

lemma block0_rounds:
  "rounds fips_Ch 0x5a827999 ([0x1ffff, 0xffffffff, 0xffffffff, 0xffffffff, 0xffffffff, 0xffffffff, 0xffffffff, 0xffffffff, 0xffffffff, 0xffffffff, 0xffffffff, 0xffffffff, 0xffffffff, 0xffffffff, 0xffffffff, 0xffffffff],
     (0x67452301, 0xefcdab89, 0x98badcfe, 0x10325476, 0xc3d2e1f0)) =
    ([0xffffffff, 0xffffffff, 0xfff00007, 0, 0x7fffc, 0xffe0000f, 0, 0, 0x3fffe0, 0xffffffff, 0xffe7fff3, 0xff80003f, 0x80004, 0, 0xffff80, 0xffe0000f],
     (0x7a9905f2, 0x2b667d94, 0xf66fd07, 0xaf560496, 0x45398ba2))"
  "rounds fips_Parity 0x6ed9eba1 ([0xffffffff, 0xffffffff, 0xfff00007, 0, 0x7fffc, 0xffe0000f, 0, 0, 0x3fffe0, 0xffffffff, 0xffe7fff3, 0xff80003f, 0x80004, 0, 0xffff80, 0xffe0000f],
     (0x7a9905f2, 0x2b667d94, 0xf66fd07, 0xaf560496, 0x45398ba2)) =
    ([0x3e001f0, 0, 0x18000c0, 0x7fffc00, 0xff700047, 0, 0xfe007f0, 0x1e000f0, 0x62ffce8, 0xe0000fff, 0x1ffff00, 0xff9fffcf, 0xc1e01f0f, 0, 0x18fff380, 0x80003fff],
     (0xacf426e7, 0xccf5f4ba, 0x4ab44943, 0x78cb65e9, 0xb67d7b45))"
  "rounds fips_Maj 0x8f1bbcdc ([0x3e001f0, 0, 0x18000c0, 0x7fffc00, 0xff700047, 0, 0xfe007f0, 0x1e000f0, 0x62ffce8, 0xe0000fff, 0x1ffff00, 0xff9fffcf, 0xc1e01f0f, 0, 0x18fff380, 0x80003fff],
     (0xacf426e7, 0xccf5f4ba, 0x4ab44943, 0x78cb65e9, 0xb67d7b45)) =
    ([0x9ee0308f, 0xffff0001, 0xe19ff0cf, 0xfe0000ff, 0xe161f0b3, 0, 0x8000c001, 0xfe03ff07, 0x8fffb800, 0xffffffff, 0x1ff80ff0, 0x1fff0ffe, 0xd03ce819, 0xfffe0, 0xfe00ff01, 0x607fcfc0],
     (0xa0b6e7d1, 0xcf37c1ea, 0x6dc3ae5b, 0x966723fa, 0xea1b5f48))"
  "rounds fips_Parity 0xca62c1d6 ([0x9ee0308f, 0xffff0001, 0xe19ff0cf, 0xfe0000ff, 0xe161f0b3, 0, 0x8000c001, 0xfe03ff07, 0x8fffb800, 0xffffffff, 0x1ff80ff0, 0x1fff0ffe, 0xd03ce819, 0xfffe0, 0xfe00ff01, 0x607fcfc0],
     (0xa0b6e7d1, 0xcf37c1ea, 0x6dc3ae5b, 0x966723fa, 0xea1b5f48)) =
    ([0x62bbb157, 0x1ff00fe, 0xe07f0f01, 0x670fcde, 0xe1cf709e, 0xfffe00, 0x6e8f375e, 0xffff0001, 0x98f0b09e, 0x1e000f00, 0x13ffe80, 0xfdff0701, 0xc047e08f, 0, 0x1e700320, 0x7f0fc1e0],
     (0xd8becfef, 0x85f88302, 0xf789ca3a, 0xca75c0d1, 0x1cc561b8))"
  by (simp_all add: rounds_defs)

lemma block1_rounds:
  "rounds fips_Ch 0x5a827999 ([0xffffffff, 0xffffffff, 0xffffffff, 0xffffffff, 0xffffffff, 0xffffffff, 0xffffffff, 0xffffffff, 0xffffffff, 0xffffffff, 0xffffffff, 0xffffffff, 0xffffffff, 0xffffffff, 0xffffffff, 0xffffffff],
     (0x4003f2f0, 0x75c62e8b, 0x9044a738, 0xdaa81547, 0xe09843a8)) =
    ([0xffffffff, 0xffffffff, 0, 0, 0xffffffff, 0, 0, 0, 0xffffffff, 0xffffffff, 0xffffffff, 0, 0, 0, 0xffffffff, 0],
     (0x9e8e5823, 0xd67bf443, 0xa42ba6f5, 0x2494306d, 0x476d1fdf))"
  "rounds fips_Parity 0x6ed9eba1 ([0xffffffff, 0xffffffff, 0, 0, 0xffffffff, 0, 0, 0, 0xffffffff, 0xffffffff, 0xffffffff, 0, 0, 0, 0xffffffff, 0],
     (0x9e8e5823, 0xd67bf443, 0xa42ba6f5, 0x2494306d, 0x476d1fdf)) =
    ([0, 0, 0, 0xffffffff, 0, 0, 0, 0, 0xffffffff, 0, 0xffffffff, 0xffffffff, 0, 0, 0xffffffff, 0],
     (0xc2ddf289, 0x22f1bdfa, 0xf888ffb9, 0xb9dd1d23, 0x6eeb41c7))"
  "rounds fips_Maj 0x8f1bbcdc ([0, 0, 0, 0xffffffff, 0, 0, 0, 0, 0xffffffff, 0, 0xffffffff, 0xffffffff, 0, 0, 0xffffffff, 0],
     (0xc2ddf289, 0x22f1bdfa, 0xf888ffb9, 0xb9dd1d23, 0x6eeb41c7)) =
    ([0, 0xffffffff, 0xffffffff, 0, 0, 0, 0, 0, 0xffffffff, 0xffffffff, 0xffffffff, 0xffffffff, 0xffffffff, 0, 0, 0xffffffff],
     (0x4e22fcd0, 0xdaf4d5c0, 0xc371f39d, 0x3a4fed03, 0xca62c302))"
  "rounds fips_Parity 0xca62c1d6 ([0, 0xffffffff, 0xffffffff, 0, 0, 0, 0, 0, 0xffffffff, 0xffffffff, 0xffffffff, 0xffffffff, 0xffffffff, 0, 0, 0xffffffff],
     (0x4e22fcd0, 0xdaf4d5c0, 0xc371f39d, 0x3a4fed03, 0xca62c302)) =
    ([0xffffffff, 0xffffffff, 0, 0xffffffff, 0xffffffff, 0, 0, 0xffffffff, 0, 0, 0xffffffff, 0, 0, 0, 0, 0xffffffff],
     (0x29ad54e3, 0x999f3005, 0x2d07d6eb, 0x5658be47, 0x46dfff66))"
  by (simp_all add: rounds_defs)

lemma block2_rounds:
  "rounds fips_Ch 0x5a827999 ([0xffffffff, 0xffffffff, 0xffffffff, 0xffffffff, 0xffffffff, 0xffffffff, 0xffffffff, 0xffffffff, 0xffffffff, 0xffffffff, 0xffffffff, 0xffffffff, 0xffffffff, 0xffffffff, 0xffffffff, 0xffffffff],
     (0x69b147d3, 0xf655e90, 0xbd4c7e23, 0x3100d38e, 0x2778430e)) =
    ([0xffffffff, 0xffffffff, 0, 0, 0xffffffff, 0, 0, 0, 0xffffffff, 0xffffffff, 0xffffffff, 0, 0, 0, 0xffffffff, 0],
     (0xcd80443a, 0x65ad094, 0xd560b63b, 0xd97d11a8, 0xf7c1dabc))"
  "rounds fips_Parity 0x6ed9eba1 ([0xffffffff, 0xffffffff, 0, 0, 0xffffffff, 0, 0, 0, 0xffffffff, 0xffffffff, 0xffffffff, 0, 0, 0, 0xffffffff, 0],
     (0xcd80443a, 0x65ad094, 0xd560b63b, 0xd97d11a8, 0xf7c1dabc)) =
    ([0, 0, 0, 0xffffffff, 0, 0, 0, 0, 0xffffffff, 0, 0xffffffff, 0xffffffff, 0, 0, 0xffffffff, 0],
     (0xb82d7d6a, 0xcc12efc7, 0x2082a8f7, 0xb7789322, 0x20be22c))"
  "rounds fips_Maj 0x8f1bbcdc ([0, 0, 0, 0xffffffff, 0, 0, 0, 0, 0xffffffff, 0, 0xffffffff, 0xffffffff, 0, 0, 0xffffffff, 0],
     (0xb82d7d6a, 0xcc12efc7, 0x2082a8f7, 0xb7789322, 0x20be22c)) =
    ([0, 0xffffffff, 0xffffffff, 0, 0, 0, 0, 0, 0xffffffff, 0xffffffff, 0xffffffff, 0xffffffff, 0xffffffff, 0, 0, 0xffffffff],
     (0xb779caa5, 0x14252340, 0x684f0dbf, 0xdc93f409, 0xd5138cac))"
  "rounds fips_Parity 0xca62c1d6 ([0, 0xffffffff, 0xffffffff, 0, 0, 0, 0, 0, 0xffffffff, 0xffffffff, 0xffffffff, 0xffffffff, 0xffffffff, 0, 0, 0xffffffff],
     (0xb779caa5, 0x14252340, 0x684f0dbf, 0xdc93f409, 0xd5138cac)) =
    ([0xffffffff, 0xffffffff, 0, 0xffffffff, 0xffffffff, 0, 0, 0xffffffff, 0, 0, 0xffffffff, 0, 0, 0, 0, 0xffffffff],
     (0x124472b2, 0xbe219fed, 0x7e76f33e, 0xddedfaf0, 0x280e774e))"
  by (simp_all add: rounds_defs)

lemma block3_rounds:
  "rounds fips_Ch 0x5a827999 ([0xffffffff, 0xffffffff, 0xffffffff, 0xffffffff, 0xffffffff, 0xffffffff, 0xffffffff, 0x302130, 0x906052b, 0xe03021a, 0x5000414, 0, 0, 0, 0, 0],
     (0x7bf5ba85, 0xcd86fe7d, 0x3bc37161, 0xeeece7e, 0x4f86ba5c)) =
    ([0x380c0868, 0xeb9fadcf, 0xa5c3dcf1, 0x6c7e5684, 0xeb2b4d4d, 0x6f8db5bf, 0xc6fcb570, 0x9e66b3c3, 0xaf037bae, 0x5ac6317e, 0x5352cac8, 0xbef6523d, 0x53c2fc9b, 0x982dfde, 0x940dce1a, 0x447ec76],
     (0x4c37a960, 0xe2907506, 0xdb66b15e, 0xa625af10, 0x8fd427cb))"
  "rounds fips_Parity 0x6ed9eba1 ([0x380c0868, 0xeb9fadcf, 0xa5c3dcf1, 0x6c7e5684, 0xeb2b4d4d, 0x6f8db5bf, 0xc6fcb570, 0x9e66b3c3, 0xaf037bae, 0x5ac6317e, 0x5352cac8, 0xbef6523d, 0x53c2fc9b, 0x982dfde, 0x940dce1a, 0x447ec76],
     (0x4c37a960, 0xe2907506, 0xdb66b15e, 0xa625af10, 0x8fd427cb)) =
    ([0xd88219f1, 0x97256f4d, 0xd58142da, 0x30caee74, 0x3bd07ff2, 0x47ca538f, 0x7436c46, 0x372ca770, 0xb10ef1fe, 0x3b466147, 0x7994c4, 0x2faff744, 0x8be322c6, 0x85aadd78, 0x872bd9ef, 0x79b096a5],
     (0x8f43c112, 0xf785826d, 0xbe8a73b3, 0x692150fa, 0xea288c3e))"
  "rounds fips_Maj 0x8f1bbcdc ([0xd88219f1, 0x97256f4d, 0xd58142da, 0x30caee74, 0x3bd07ff2, 0x47ca538f, 0x7436c46, 0x372ca770, 0xb10ef1fe, 0x3b466147, 0x7994c4, 0x2faff744, 0x8be322c6, 0x85aadd78, 0x872bd9ef, 0x79b096a5],
     (0x8f43c112, 0xf785826d, 0xbe8a73b3, 0x692150fa, 0xea288c3e)) =
    ([0xe884a1, 0xb4f8ae29, 0xcd4a1f3a, 0xea65a866, 0xed824892, 0xdd4ff437, 0x9d9ec1ee, 0x208852c8, 0xa2df177f, 0xaaf84835, 0x334ef68e, 0xc1cb53c, 0x360922dc, 0x1d8c74a3, 0x7cb51dc1, 0xeb752bef],
     (0x33d4cac1, 0xaa727c49, 0x2f0a3947, 0x82bd0864, 0x26ad81ee))"
  "rounds fips_Parity 0xca62c1d6 ([0xe884a1, 0xb4f8ae29, 0xcd4a1f3a, 0xea65a866, 0xed824892, 0xdd4ff437, 0x9d9ec1ee, 0x208852c8, 0xa2df177f, 0xaaf84835, 0x334ef68e, 0xc1cb53c, 0x360922dc, 0x1d8c74a3, 0x7cb51dc1, 0xeb752bef],
     (0x33d4cac1, 0xaa727c49, 0x2f0a3947, 0x82bd0864, 0x26ad81ee)) =
    ([0xaf6a19ae, 0x23598f9e, 0xfcbdf12f, 0x9cde5179, 0xae573dc2, 0x97f356a2, 0xd0fd2170, 0x4db9f34, 0xe44ae022, 0xabbe344, 0xc26106a8, 0x4827b87, 0x61d07737, 0xf3318975, 0x15e4ad95, 0xf7f0a8b5],
     (0xa1033f1c, 0x79263547, 0x9660d859, 0xfd7b49b2, 0x50821b86))"
  by (simp_all add: rounds_defs)

lemma block4_rounds:
  "rounds fips_Ch 0x5a827999 ([0x80000000, 0, 0, 0, 0, 0, 0, 0, 0, 0, 0, 0, 0, 0, 0, 0x800],
     (0x1cf8f9a1, 0x46ad33c4, 0xd22449ba, 0xc6a1830, 0xa008d5e2)) =
    ([0, 0x2000, 4, 0x1000, 0x4002, 8, 0, 0x8000, 0x10, 0x5000, 0x1000a, 0x3020, 6, 0x20000, 0x4040, 0x14008],
     (0x20db27d7, 0xf5bdf4d2, 0xf0ce605c, 0xb9c4a8ad, 0x4fd016f2))"
  "rounds fips_Parity 0x6ed9eba1 ([0, 0x2000, 4, 0x1000, 0x4002, 8, 0, 0x8000, 0x10, 0x5000, 0x1000a, 0x3020, 6, 0x20000, 0x4040, 0x14008],
     (0x20db27d7, 0xf5bdf4d2, 0xf0ce605c, 0xb9c4a8ad, 0x4fd016f2)) =
    ([0x108, 0x50000, 0x1000a0, 0x32200, 0x64, 0x204000, 0x44408, 0x14e088, 0x40029c, 0x40800, 0x14080, 0x844028, 0x1088, 0x520000, 0x1000a40, 0x336000],
     (0x8e2b4a4, 0x849943eb, 0x8ba6a33c, 0xb63ec3d8, 0x7efd4da5))"
  "rounds fips_Maj 0x8f1bbcdc ([0x108, 0x50000, 0x1000a0, 0x32200, 0x64, 0x204000, 0x44408, 0x14e088, 0x40029c, 0x40800, 0x14080, 0x844028, 0x1088, 0x520000, 0x1000a40, 0x336000],
     (0x8e2b4a4, 0x849943eb, 0x8ba6a33c, 0xb63ec3d8, 0x7efd4da5)) =
    ([0x40028c8, 0x45c000, 0x408a8, 0x8474080, 0x108e8, 0x5000000, 0x1004a000, 0x3220080, 0x6400, 0x20400000, 0x4440800, 0x14e00800, 0x40029c10, 0x40c0000, 0x1418080, 0x84462820],
     (0x7ddae928, 0xc5cfd738, 0x4343a6e7, 0xadbd0f46, 0xf50b2b44))"
  "rounds fips_Parity 0xca62c1d6 ([0x40028c8, 0x45c000, 0x408a8, 0x8474080, 0x108e8, 0x5000000, 0x1004a000, 0x3220080, 0x6400, 0x20400000, 0x4440800, 0x14e00800, 0x40029c10, 0x40c0000, 0x1418080, 0x84462820],
     (0x7ddae928, 0xc5cfd738, 0x4343a6e7, 0xadbd0f46, 0xf50b2b44)) =
    ([0x40269f0, 0x4408082, 0x44558800, 0x464c82a1, 0x28c884, 0x45e70000, 0x408ace0, 0x47568008, 0x14ceac0, 0x40885, 0x4a40090, 0x22808083, 0x641000, 0x40550020, 0x45080aa4, 0xe03b2014],
     (0xbfc4c4a1, 0x8f48736a, 0x9cd8aba3, 0xa333d238, 0xdcf31b85))"
  by (simp_all add: rounds_defs)

text \<open>The message and its padding to blocks.\<close>

definition padded :: "u8 list" where
  "padded = pkcs1_sha1 @ replicate 20 0 @ [0x80] @ replicate 61 0 @ [8, 0]"

lemma upt_16: "[0..<16] = [0, 1, 2, 3, 4, 5, 6, 7, 8, 9, 10, 11, 12, 13, 14, 15 :: nat]"
  by (simp add: upt_rec)

lemma nth_first: "(a # b # c # d # e # xs) ! 0 = a" "(a # b # c # d # e # xs) ! 1 = b" "(a # b # c # d # e # xs) ! 2 = c"
  "(a # b # c # d # e # xs) ! 3 = d" "(a # b # c # d # e # xs) ! 4 = e"
  by simp_all

lemma block0:
  assumes "M = take 64 (drop 0 padded)"
  shows "fips1_compress [0x67452301, 0xefcdab89, 0x98badcfe, 0x10325476, 0xc3d2e1f0] M =
    [0x4003f2f0, 0x75c62e8b, 0x9044a738, 0xdaa81547, 0xe09843a8]"
proof -
  have w: "window M 0 = [0x1ffff, 0xffffffff, 0xffffffff, 0xffffffff, 0xffffffff, 0xffffffff, 0xffffffff, 0xffffffff, 0xffffffff, 0xffffffff, 0xffffffff, 0xffffffff, 0xffffffff, 0xffffffff, 0xffffffff, 0xffffffff]"
    unfolding window_load assms by code_simp
  show ?thesis unfolding fips1_compress_rounds w four_rounds_def nth_first block0_rounds snd_conv prod.case by simp
qed

lemma block1:
  assumes "M = take 64 (drop 64 padded)"
  shows "fips1_compress [0x4003f2f0, 0x75c62e8b, 0x9044a738, 0xdaa81547, 0xe09843a8] M =
    [0x69b147d3, 0xf655e90, 0xbd4c7e23, 0x3100d38e, 0x2778430e]"
proof -
  have w: "window M 0 = [0xffffffff, 0xffffffff, 0xffffffff, 0xffffffff, 0xffffffff, 0xffffffff, 0xffffffff, 0xffffffff, 0xffffffff, 0xffffffff, 0xffffffff, 0xffffffff, 0xffffffff, 0xffffffff, 0xffffffff, 0xffffffff]"
    unfolding window_load assms by code_simp
  show ?thesis unfolding fips1_compress_rounds w four_rounds_def nth_first block1_rounds snd_conv prod.case by simp
qed

lemma block2:
  assumes "M = take 64 (drop 128 padded)"
  shows "fips1_compress [0x69b147d3, 0xf655e90, 0xbd4c7e23, 0x3100d38e, 0x2778430e] M =
    [0x7bf5ba85, 0xcd86fe7d, 0x3bc37161, 0xeeece7e, 0x4f86ba5c]"
proof -
  have w: "window M 0 = [0xffffffff, 0xffffffff, 0xffffffff, 0xffffffff, 0xffffffff, 0xffffffff, 0xffffffff, 0xffffffff, 0xffffffff, 0xffffffff, 0xffffffff, 0xffffffff, 0xffffffff, 0xffffffff, 0xffffffff, 0xffffffff]"
    unfolding window_load assms by code_simp
  show ?thesis unfolding fips1_compress_rounds w four_rounds_def nth_first block2_rounds snd_conv prod.case by simp
qed

lemma block3:
  assumes "M = take 64 (drop 192 padded)"
  shows "fips1_compress [0x7bf5ba85, 0xcd86fe7d, 0x3bc37161, 0xeeece7e, 0x4f86ba5c] M =
    [0x1cf8f9a1, 0x46ad33c4, 0xd22449ba, 0xc6a1830, 0xa008d5e2]"
proof -
  have w: "window M 0 = [0xffffffff, 0xffffffff, 0xffffffff, 0xffffffff, 0xffffffff, 0xffffffff, 0xffffffff, 0x302130, 0x906052b, 0xe03021a, 0x5000414, 0, 0, 0, 0, 0]"
    unfolding window_load assms by code_simp
  show ?thesis unfolding fips1_compress_rounds w four_rounds_def nth_first block3_rounds snd_conv prod.case by simp
qed

lemma block4:
  assumes "M = take 64 (drop 256 padded)"
  shows "fips1_compress [0x1cf8f9a1, 0x46ad33c4, 0xd22449ba, 0xc6a1830, 0xa008d5e2] M =
    [0xdcbdbe42, 0xd5f5a72e, 0x6efcf55d, 0xaf9dea68, 0x7cfbf167]"
proof -
  have w: "window M 0 = [0x80000000, 0, 0, 0, 0, 0, 0, 0, 0, 0, 0, 0, 0, 0, 0, 0x800]"
    unfolding window_load assms by code_simp
  show ?thesis unfolding fips1_compress_rounds w four_rounds_def nth_first block4_rounds snd_conv prod.case by simp
qed

section \<open>The digest\<close>

lemma length_padded: "length padded = 320"
  by (simp add: padded_def pkcs1_sha1_def)

lemma md_pad_padded: "md_pad (pkcs1_sha1 @ replicate 20 0) = padded"
proof -
  have "length (pkcs1_sha1 @ replicate 20 (0 :: u8)) = 256" by (simp add: pkcs1_sha1_def)
  moreover have "be64_bytes (of_nat 256 * 8) = replicate 6 0 @ [8, 0]" by code_simp
  ultimately show ?thesis unfolding md_pad_def padded_def by (simp add: replicate_add[symmetric] flip: append_assoc)
qed

lemma absorb_step: "64 * (k + 1) \<le> length m \<Longrightarrow> absorb C h (drop (64 * k) m) = absorb C (C h (take 64 (drop (64 * k) m))) (drop (64 * (k + 1)) m)"
proof -
  assume l: "64 * (k + 1) \<le> length m"
  have "64 + 64 * k \<le> length m" using l by simp
  then have "64 \<le> length m - 64 * k" by (rule add_le_imp_le_diff)
  then have "\<not> length (drop (64 * k) m) < 64" by simp
  then show ?thesis by (subst absorb.simps) (simp add: add.commute)
qed

lemma pkcs1_sha1_digest: "md_digest fips1_compress fips1_H0 (pkcs1_sha1 @ replicate 20 0) = kExpectedPadShaRsa2048"
proof -
  have "absorb fips1_compress fips1_H0 padded = [0xdcbdbe42, 0xd5f5a72e, 0x6efcf55d, 0xaf9dea68, 0x7cfbf167]"
    using absorb_step[of 0 padded] absorb_step[of 1 padded] absorb_step[of 2 padded] absorb_step[of 3 padded] absorb_step[of 4 padded]
      block0[OF refl] block1[OF refl] block2[OF refl] block3[OF refl] block4[OF refl]
    by (simp add: length_padded fips1_H0_def absorb.simps[of _ _ "[]"])
  moreover have "concat (map be32_bytes [0xdcbdbe42, 0xd5f5a72e, 0x6efcf55d, 0xaf9dea68, 0x7cfbf167]) = kExpectedPadShaRsa2048"
    by code_simp
  ultimately show ?thesis by (simp only: md_digest_def md_pad_padded)
qed

end
