(* ===== verification/Signed_Package.thy ===== *)
theory Signed_Package
  imports Verifier Rsa_Padding
begin

text \<open>
  A package that is accepted: for the end-of-central-directory record of an empty archive there are an RSA key, a signature and a comment such that
  \<open>verify_file\<close> returns success. The key is chosen after the signature: the modulus is the cube of the signature less the padded digest.
\<close>

section \<open>The signature and the key\<close>

definition sig_bytes :: "u8 \<Rightarrow> u8 list" where
  "sig_bytes p = replicate 170 0 @ [6] @ replicate 84 0 @ [p]"

definition sig_data :: "u8 \<Rightarrow> signed_data" where
  "sig_data p = \<lparr>sd_content_type = [1], sd_version = [1], sd_digests = [], sd_content = [], sd_optional = [],
     si_version = [1], si_signer = [], si_digest = [], si_signed = None, si_algorithm = [], si_signature = sig_bytes p, si_unsigned = [],
     sd_signers = []\<rparr>"

definition empty_record :: "u8 list" where
  "empty_record = [0x50, 0x4b, 0x05, 0x06] @ replicate 16 0"

definition encoded :: "u8 list" where
  "encoded = pkcs1_sha1 @ fips_sha1 empty_record"

definition last_byte :: u8 where
  "last_byte = (if even (be_val encoded) then 1 else 0)"

definition sig_modulus :: nat where
  "sig_modulus = be_val (sig_bytes last_byte) ^ 3 - be_val encoded"

definition signed_package :: "u8 list" where
  "signed_package = empty_record @ [0x31, 0x01] @ pkcs7 (sig_data last_byte) @ [0x31, 0x01, 0xff, 0xff, 0x31, 0x01]"

lemma be_val_zeros: "be_val (replicate n 0 @ bs) = be_val bs" "be_val (replicate n 0) = 0"
proof -
  show a: "be_val (replicate n 0 @ bs) = be_val bs" for bs by (induction n) (simp_all add: be_val_Cons)
  show "be_val (replicate n 0) = 0" using a[of "[]"] by simp
qed

lemma sig_bytes_value: "be_val (sig_bytes p) = 6 * 256 ^ 85 + unat p"
  by (simp only: sig_bytes_def be_val_zeros be_val_append be_val_Cons be_val_Nil length_append length_replicate list.size power_0 mult_1_right
      add_0_right add_0_left power_add) simp

lemma length_sig_bytes: "length (sig_bytes p) = 256"
  by (simp add: sig_bytes_def)

lemma length_encoded: "length encoded = 256"
  by (simp add: encoded_def pkcs1_sha1_def length_md_digest_sha)

lemma encoded_less: "be_val encoded < 256 ^ 255"
proof -
  have e: "encoded = 0 # drop 1 encoded" by (simp add: encoded_def pkcs1_sha1_def)
  have "be_val encoded = be_val (drop 1 encoded)" by (subst e) (simp add: be_val_Cons)
  moreover have "length (drop 1 encoded) = 255" by (simp add: length_encoded)
  ultimately show ?thesis using be_val_less[of "drop 1 encoded"] by (simp only:)
qed

lemma cube_bounds:
  fixes x :: nat
  assumes "16 \<le> x" "p \<le> 1"
  shows "216 * x ^ 3 \<le> (6 * x + p) ^ 3" "(6 * x + p) ^ 3 < 256 * x ^ 3"
proof -
  have e: "(6 * x + p) ^ 3 = 216 * x ^ 3 + 108 * x ^ 2 * p + 18 * x * p ^ 2 + p ^ 3"
    by (simp add: power3_eq_cube power2_eq_square algebra_simps)
  then show "216 * x ^ 3 \<le> (6 * x + p) ^ 3" by simp
  have "108 * x ^ 2 * p + 18 * x * p ^ 2 + p ^ 3 < 40 * x ^ 3"
  proof (cases "p = 0")
    case True
    then show ?thesis using assms(1) by simp
  next
    case False
    then have "p = 1" using assms(2) by simp
    moreover have "16 * x ^ 2 \<le> x ^ 3" "16 * x \<le> x ^ 2" "16 \<le> x ^ 2"
      using assms(1) mult_le_mono[OF assms(1) assms(1)] by (simp_all add: power3_eq_cube power2_eq_square)
    ultimately show ?thesis using assms(1) by simp
  qed
  then show "(6 * x + p) ^ 3 < 256 * x ^ 3" using e by linarith
qed

lemma last_byte: "unat last_byte \<le> 1" "unat last_byte = (if even (be_val encoded) then 1 else 0)"
  by (simp_all add: last_byte_def)

lemma modulus_facts:
  "be_val (sig_bytes last_byte) ^ 3 = sig_modulus + be_val encoded" "2 ^ 2047 \<le> sig_modulus" "sig_modulus < 2 ^ 2048" "odd sig_modulus"
proof -
  define x where "x = (256 :: nat) ^ 85"
  define s where "s = 6 * x + unat last_byte"
  have x: "16 \<le> x" "even x" "x ^ 3 = 256 ^ 255"
  proof -
    have "(256 :: nat) ^ 1 \<le> x" unfolding x_def by (rule power_increasing) simp_all
    then show "16 \<le> x" by simp
    show "even x" unfolding x_def by simp
    show "x ^ 3 = 256 ^ 255" unfolding x_def by (simp only: power_mult[symmetric]) simp
  qed
  have sb: "be_val (sig_bytes last_byte) = s" by (simp only: sig_bytes_value s_def x_def)
  note c = cube_bounds[OF x(1) last_byte(1), folded s_def]
  have m: "be_val encoded < x ^ 3" unfolding x(3) by (rule encoded_less)
  then have le: "be_val encoded \<le> s ^ 3" using c(1) by linarith
  have N: "sig_modulus = s ^ 3 - be_val encoded" by (simp only: sig_modulus_def sb)
  show "be_val (sig_bytes last_byte) ^ 3 = sig_modulus + be_val encoded" unfolding sb N using le by simp
  have p: "(2 :: nat) ^ 2047 = 128 * x ^ 3" "(2 :: nat) ^ 2048 = 256 * x ^ 3"
  proof -
    have "(2 :: nat) ^ (8 * 255) = x ^ 3" unfolding x(3) by (simp only: power_mult) simp
    then have "(2 :: nat) ^ (7 + 8 * 255) = 128 * x ^ 3" "(2 :: nat) ^ (8 + 8 * 255) = 256 * x ^ 3" by (simp_all only: power_add) simp_all
    then show "(2 :: nat) ^ 2047 = 128 * x ^ 3" "(2 :: nat) ^ 2048 = 256 * x ^ 3" by (simp_all only: arith_simps)
  qed
  show "2 ^ 2047 \<le> sig_modulus" unfolding p N using c(1) m by linarith
  show "sig_modulus < 2 ^ 2048" unfolding p N using c(2) by linarith
  have "even s \<longleftrightarrow> \<not> even (be_val encoded)" using x(2) last_byte(2) by (simp add: s_def)
  then show "odd sig_modulus" unfolding N using le by simp
qed

lemma dump_signed: "dump_keys [(RSAKey sig_modulus 3, False)] = Some (the (dump_keys [(RSAKey sig_modulus 3, False)]))"
proof -
  define k where "k = (2047 :: nat)"
  have k: "2048 = Suc k" by (simp add: k_def)
  have "2 ^ k \<le> sig_modulus" "sig_modulus < 2 ^ Suc k" using modulus_facts(2,3) by (simp_all only: k[symmetric]) (simp only: k_def)
  then have "bitLength sig_modulus = Suc k" by (rule bitLength_eqI)
  moreover have "gcd sig_modulus (2 ^ 32) = 1"
    using modulus_facts(4) by (simp only: coprime_iff_gcd_eq_1[symmetric] coprime_power_right_iff coprime_right_2_iff_odd simp_thms)
  ultimately show ?thesis
    by (simp add: print_def check_def printRSA_def checkRSA_def modInverse_def Let_def k del: power_mult_numeral)
qed

lemma xor_tail_encoded: "xor_tail encoded (fips_sha1 empty_record) = pkcs1_sha1 @ replicate 20 0"
proof -
  have l: "length (fips_sha1 empty_record) = 20" "length encoded - 20 = 236" "length pkcs1_sha1 = 236"
    by (simp_all add: length_md_digest_sha length_encoded pkcs1_sha1_def)
  have "map2 (XOR) h h = replicate (length h) 0" for h :: "u8 list" by (induction h) simp_all
  then show ?thesis unfolding xor_tail_def l unfolding encoded_def using l by simp
qed

lemma key_signs: "signed_by (RSAKey sig_modulus 3, False) empty_record (sig_bytes last_byte)"
proof -
  have "be_val encoded < sig_modulus"
  proof -
    have "(256 :: nat) ^ 255 \<le> 2 ^ 2047"
    proof -
      have "(256 :: nat) ^ 255 = 2 ^ (8 * 255)" by (simp only: power_mult) simp
      also have "\<dots> \<le> 2 ^ 2047" by (rule power_increasing) simp_all
      finally show ?thesis .
    qed
    then show ?thesis using encoded_less modulus_facts(2) by (meson less_le_trans order_trans)
  qed
  then have "be_val (sig_bytes last_byte) ^ 3 mod sig_modulus = be_val encoded" unfolding modulus_facts(1) by simp
  then have "\<exists>em. length em = RSANUMBYTES \<and> be_val em = be_val (take RSANUMBYTES (sig_bytes last_byte)) ^ 3 mod sig_modulus \<and>
      fips_sha1 (xor_tail em (fips_sha1 empty_record)) = kExpectedPadShaRsa2048"
    by (intro exI[of _ encoded]) (simp add: RSANUMBYTES_def length_encoded length_sig_bytes xor_tail_encoded pkcs1_sha1_digest)
  then show ?thesis unfolding signed_by_def by (simp add: RSANUMBYTES_def length_sig_bytes)
qed

section \<open>The package\<close>

definition sig_prefix :: "u8 list" where
  "sig_prefix = [0x30, 0x82, 0x01, 0x27, 0x06, 0x01, 0x01, 0xA0, 0x82, 0x01, 0x20, 0x30, 0x82, 0x01, 0x1C, 0x02, 0x01, 0x01, 0x31, 0x00,
     0x30, 0x00, 0x31, 0x82, 0x01, 0x11, 0x30, 0x82, 0x01, 0x0D, 0x02, 0x01, 0x01, 0x30, 0x00, 0x30, 0x00, 0x30, 0x00, 0x04, 0x82, 0x01, 0x00]"

lemma sig_block: "pkcs7 (sig_data p) = sig_prefix @ sig_bytes p"
  by (simp add: pkcs7_def signed_data_der_def signer_info_def sig_data_def sig_prefix_def der_def der_len_def ders_def length_sig_bytes)

lemma sig_data_ok: "signed_data_ok (sig_data p)"
  by (simp add: signed_data_ok_def sig_block small_def sig_prefix_def length_sig_bytes) (simp add: sig_data_def)

lemma length_block: "length (pkcs7 (sig_data p)) = 299"
  by (simp add: sig_block sig_prefix_def length_sig_bytes)

lemma no_marker: "0x50 \<notin> set (tl signed_package)"
  by (auto simp: signed_package_def empty_record_def sig_block sig_prefix_def sig_bytes_def last_byte_def)

lemma signed_layout: "package signed_package empty_record 305"
proof (rule packageI[where pre = "[]" and hdr = empty_record and field = "[0x31, 0x01]"
      and comment = "pkcs7 (sig_data last_byte) @ [0x31, 0x01, 0xff, 0xff, 0x31, 0x01]"
      and front = "empty_record @ [0x31, 0x01] @ pkcs7 (sig_data last_byte)" and ?s0.0 = "0x31" and ?s1.0 = "0x01" and ?c0.0 = "0x31" and ?c1.0 = "0x01"])
  show "\<forall>q. length ([] :: u8 list) < q \<and> q + 4 \<le> length signed_package \<longrightarrow> take 4 (drop q signed_package) \<noteq> [0x50, 0x4b, 0x05, 0x06]"
  proof (intro allI impI notI)
    fix q assume q: "length ([] :: u8 list) < q \<and> q + 4 \<le> length signed_package" and t: "take 4 (drop q signed_package) = [0x50, 0x4b, 0x05, 0x06]"
    then obtain r where r: "q = Suc r" by (cases q) auto
    have "0x50 \<in> set (drop r (tl signed_package))" using t unfolding r drop_Suc by (metis in_set_takeD list.set_intros(1))
    then show False using no_marker in_set_dropD by metis
  qed
qed (simp_all add: signed_package_def empty_record_def le16_def length_block)

lemma signed_package_trusted: "trusted [(RSAKey sig_modulus 3, False)] signed_package"
proof -
  have l: "length signed_package = 327" by (simp add: signed_package_def empty_record_def length_block)
  have "signature_block signed_package 305 = pkcs7 (sig_data last_byte)"
    unfolding signature_block_def l by (simp add: signed_package_def empty_record_def length_block)
  moreover have "pkcs7_signature (pkcs7 (sig_data last_byte)) = Some (sig_bytes last_byte)"
    using pkcs7_signature_pkcs7[OF sig_data_ok, of last_byte] length_sig_bytes[of last_byte] by (auto simp: found_signature_def sig_data_def)
  moreover have "(305 :: nat) \<le> length signed_package" unfolding l by simp
  ultimately show ?thesis using signed_layout key_signs unfolding trusted_def
    by (intro exI[of _ empty_record] exI[of _ "305 :: nat"] exI[of _ "sig_bytes last_byte"]) simp
qed

lemma signed_package_returns:
  "\<exists>r. verify_file (\<lambda>_. True) stack_ctx stack_ctx stack_ctx (Some (the (dump_keys [(RSAKey sig_modulus 3, False)]))) signed_package = Some r"
proof -
  have le: "(305 :: nat) \<le> length signed_package" by (simp add: signed_package_def empty_record_def length_block)
  have ne: "[(RSAKey sig_modulus 3, False)] \<noteq> []" by simp
  have rsa: "\<forall>(k, sha)\<in>set [(RSAKey sig_modulus 3, False)]. \<exists>N e. k = RSAKey N e" by simp
  show ?thesis
    using verify_file_value[OF stack_ctx_ok stack_ctx_ok load_keys_dump[OF dump_signed ne] signed_layout le, of stack_ctx]
      try_keys_rsa[OF dump_keys_ok[OF dump_signed] stack_ctx_ok rsa] by (auto split: option.splits)
qed

text \<open>The witness of C1: the package is trusted, and accepted.\<close>

theorem verify_file_correct_witness:
  "trusted [(RSAKey sig_modulus 3, False)] signed_package \<and>
   verify_file (\<lambda>_. True) stack_ctx stack_ctx stack_ctx (Some (the (dump_keys [(RSAKey sig_modulus 3, False)]))) signed_package = Some VERIFY_SUCCESS"
proof -
  obtain r where r: "verify_file (\<lambda>_. True) stack_ctx stack_ctx stack_ctx (Some (the (dump_keys [(RSAKey sig_modulus 3, False)]))) signed_package = Some r"
    using signed_package_returns by blast
  have "r = (if trusted [(RSAKey sig_modulus 3, False)] signed_package then VERIFY_SUCCESS else VERIFY_FAILURE)"
    by (rule verify_file_correct[OF stack_ctx_ok stack_ctx_ok stack_ctx_ok dump_signed _ r]) simp
  then show ?thesis using r signed_package_trusted by simp
qed

end
