(* ===== verification/Minzip_Hash.thy ===== *)
theory Minzip_Hash
  imports Prelude "HOL-Library.Multiset"
begin

text \<open>
  The open-addressing hash table of minzip (\<^verbatim>\<open>Hash.c\<close>, \<^verbatim>\<open>Hash.h\<close>), which indexes the entries of a Zip
  archive: creation, lookup with optional insertion, removal by tombstones, resizing, clearing and
  iteration. Failed assertions, allocation failures, signed overflow of the size computations and
  reads outside the table are error values; a probe loop that never ends is \<open>None\<close>.
\<close>

section \<open>The code\<close>

datatype 'a slot = NULL | TOMBSTONE | Item 'a

record 'a HashEntry =
  hashValue :: u32
  data :: "'a slot"

record 'a HashTable =
  tableSize :: nat
  numEntries :: nat
  numDeadEntries :: nat
  pEntries :: "'a HashEntry list"
  freeFunc :: bool \<comment> \<open>whether a free function is installed\<close>

datatype hash_error = Assertion | Alloc_failed | Int_overflow | Outside_table

definition INT_MAX :: nat where "INT_MAX = 2147483647"

definition LOAD_NUMER :: nat where "LOAD_NUMER = 5"
definition LOAD_DENOM :: nat where "LOAD_DENOM = 8"

text \<open>\<open>size_t\<close> is 32 bits wide on the targets of the recovery.\<close>

definition mzHashSize :: "u32 \<Rightarrow> u32" where
  "mzHashSize n = (n * 8) div 5 + 1"

definition roundUpPower2 :: "u32 \<Rightarrow> u32" where
  "roundUpPower2 val =
     (let val = val - 1;
          val = val OR drop_bit 1 val;
          val = val OR drop_bit 2 val;
          val = val OR drop_bit 4 val;
          val = val OR drop_bit 8 val;
          val = val OR drop_bit 16 val
      in val + 1)"

definition empty_entry :: "'a HashEntry" where
  "empty_entry = \<lparr>hashValue = 0, data = NULL\<rparr>"

text \<open>\<open>alloc\<close> is the answer of the allocator. The size is stored in an \<open>int\<close>.\<close>

definition mzHashTableCreate :: "bool \<Rightarrow> u32 \<Rightarrow> bool \<Rightarrow> hash_error + 'a HashTable" where
  "mzHashTableCreate alloc initialSize free =
     (if \<not> initialSize > 0 then Inl Assertion
      else if \<not> alloc then Inl Alloc_failed
      else let n = unat (roundUpPower2 initialSize)
           in if n > INT_MAX then Inl Int_overflow
              else Inr \<lparr>tableSize = n, numEntries = 0, numDeadEntries = 0,
                        pEntries = replicate n empty_entry, freeFunc = free\<rparr>)"

text \<open>The cleared table and the items handed to the free function, in order.\<close>

definition clear_entry :: "'a HashEntry \<Rightarrow> 'a HashEntry" where
  "clear_entry e = (case data e of NULL \<Rightarrow> e | _ \<Rightarrow> e\<lparr>data := NULL\<rparr>)"

definition live :: "'a HashEntry \<Rightarrow> 'a list" where
  "live e = (case data e of Item d \<Rightarrow> [d] | _ \<Rightarrow> [])"

definition mzHashTableClear :: "'a HashTable \<Rightarrow> 'a HashTable \<times> 'a list" where
  "mzHashTableClear t =
     (t\<lparr>pEntries := map clear_entry (pEntries t), numEntries := 0, numDeadEntries := 0\<rparr>,
      if freeFunc t then concat (map live (pEntries t)) else [])"

definition mzHashTableFree :: "'a HashTable option \<Rightarrow> 'a list" where
  "mzHashTableFree t = (case t of None \<Rightarrow> [] | Some t \<Rightarrow> snd (mzHashTableClear t))"

definition countTombStones :: "'a HashTable \<Rightarrow> nat" where
  "countTombStones t = length (filter (\<lambda>e. data e = TOMBSTONE) (pEntries t))"

text \<open>\<open>hash & (size - 1)\<close>.\<close>

definition mask_index :: "u32 \<Rightarrow> nat \<Rightarrow> nat" where
  "mask_index h n = unat (h AND (of_nat n - 1))"

text \<open>\<open>while (pNewEntries[newIdx].data != NULL) newIdx = (newIdx + 1) & (newSize-1)\<close>.\<close>

partial_function (option) free_index :: "'a HashEntry list \<Rightarrow> nat \<Rightarrow> nat \<Rightarrow> nat option" where
  "free_index new newSize newIdx =
     (if data (new ! newIdx) \<noteq> NULL then free_index new newSize (mask_index (of_nat newIdx + 1) newSize)
      else Some newIdx)"

fun rehash :: "nat \<Rightarrow> 'a HashEntry list \<Rightarrow> 'a HashEntry list \<Rightarrow> 'a HashEntry list option" where
  "rehash newSize [] new = Some new"
| "rehash newSize (e # es) new =
     (case data e of
        Item d \<Rightarrow>
          (case free_index new newSize (mask_index (hashValue e) newSize) of
             None \<Rightarrow> None
           | Some i \<Rightarrow> rehash newSize es (new[i := \<lparr>hashValue = hashValue e, data = Item d\<rparr>]))
      | _ \<Rightarrow> rehash newSize es new)"

definition resizeHash :: "bool \<Rightarrow> 'a HashTable \<Rightarrow> nat \<Rightarrow> (hash_error + 'a HashTable) option" where
  "resizeHash alloc t newSize =
     (if countTombStones t \<noteq> numDeadEntries t then Some (Inl Assertion)
      else if \<not> alloc then Some (Inl Alloc_failed)
      else case rehash newSize (pEntries t) (replicate newSize empty_entry) of
             None \<Rightarrow> None
           | Some new \<Rightarrow>
               let t = t\<lparr>pEntries := new, tableSize := newSize, numDeadEntries := 0\<rparr>
               in if countTombStones t \<noteq> 0 then Some (Inl Assertion) else Some (Inr t))"

text \<open>
  The probe loop of lookup and removal: the index at which it stops, \<open>Some None\<close> if it steps
  behind a table of one entry.
\<close>

partial_function (option) probe :: "('a HashEntry \<Rightarrow> bool) \<Rightarrow> 'a HashTable \<Rightarrow> nat \<Rightarrow> nat option option" where
  "probe hit t i =
     (if data (pEntries t ! i) = NULL then Some (Some i)
      else if hit (pEntries t ! i) then Some (Some i)
      else if i + 1 = tableSize t then
        (if tableSize t = 1 then Some None else probe hit t 0)
      else probe hit t (i + 1))"

definition lookup_hit :: "u32 \<Rightarrow> 'a \<Rightarrow> ('a \<Rightarrow> 'a \<Rightarrow> int) \<Rightarrow> 'a HashEntry \<Rightarrow> bool" where
  "lookup_hit itemHash item cmpFunc e =
     (case data e of Item d \<Rightarrow> hashValue e = itemHash \<and> cmpFunc d item = 0 | _ \<Rightarrow> False)"

definition add_entry :: "bool \<Rightarrow> 'a HashTable \<Rightarrow> nat \<Rightarrow> u32 \<Rightarrow> 'a \<Rightarrow> (hash_error + 'a HashTable) option" where
  "add_entry alloc t i itemHash item =
     (let t = t\<lparr>pEntries := (pEntries t)[i := \<lparr>hashValue = itemHash, data = Item item\<rparr>],
                numEntries := numEntries t + 1\<rparr>
      in if (numEntries t + numDeadEntries t) * LOAD_DENOM > INT_MAX \<or> tableSize t * LOAD_NUMER > INT_MAX
            \<or> tableSize t * 2 > INT_MAX
         then Some (Inl Int_overflow)
         else case (if (numEntries t + numDeadEntries t) * LOAD_DENOM > tableSize t * LOAD_NUMER
                    then resizeHash alloc t (tableSize t * 2) else Some (Inr t)) of
                None \<Rightarrow> None
              | Some (Inl e) \<Rightarrow> Some (Inl e)
              | Some (Inr t) \<Rightarrow>
                  if \<not> numEntries t < tableSize t then Some (Inl Assertion) else Some (Inr t))"

text \<open>The table and the item found or added.\<close>

definition mzHashTableLookup ::
  "bool \<Rightarrow> 'a HashTable \<Rightarrow> u32 \<Rightarrow> 'a \<Rightarrow> ('a \<Rightarrow> 'a \<Rightarrow> int) \<Rightarrow> bool \<Rightarrow> (hash_error + 'a HashTable \<times> 'a option) option" where
  "mzHashTableLookup alloc t itemHash item cmpFunc doAdd =
     (if \<not> tableSize t > 0 then Some (Inl Assertion)
      else case probe (lookup_hit itemHash item cmpFunc) t (mask_index itemHash (tableSize t)) of
             None \<Rightarrow> None
           | Some None \<Rightarrow> Some (Inl Outside_table)
           | Some (Some i) \<Rightarrow>
               (case data (pEntries t ! i) of
                  NULL \<Rightarrow>
                    if doAdd then
                      (case add_entry alloc t i itemHash item of
                         None \<Rightarrow> None
                       | Some (Inl e) \<Rightarrow> Some (Inl e)
                       | Some (Inr t) \<Rightarrow> Some (Inr (t, Some item)))
                    else Some (Inr (t, None))
                | TOMBSTONE \<Rightarrow> Some (Inl Assertion) \<comment> \<open>a hit is never a tombstone\<close>
                | Item d \<Rightarrow> Some (Inr (t, Some d))))"

definition mzHashTableRemove :: "'a HashTable \<Rightarrow> u32 \<Rightarrow> 'a \<Rightarrow> (hash_error + 'a HashTable \<times> bool) option" where
  "mzHashTableRemove t itemHash item =
     (if \<not> tableSize t > 0 then Some (Inl Assertion)
      else case probe (\<lambda>e. data e = Item item) t (mask_index itemHash (tableSize t)) of
             None \<Rightarrow> None
           | Some None \<Rightarrow> Some (Inr (t, False))
           | Some (Some i) \<Rightarrow>
               if data (pEntries t ! i) = NULL then Some (Inr (t, False))
               else Some (Inr (t\<lparr>pEntries := (pEntries t)[i := (pEntries t ! i)\<lparr>data := TOMBSTONE\<rparr>],
                                 numEntries := numEntries t - 1,
                                 numDeadEntries := numDeadEntries t + 1\<rparr>, True)))"

text \<open>\<open>func\<close> threads a state and returns a value; the first nonzero value ends the walk.\<close>

fun foreach_loop :: "('a \<Rightarrow> 's \<Rightarrow> int \<times> 's) \<Rightarrow> 'a HashEntry list \<Rightarrow> 's \<Rightarrow> int \<times> 's" where
  "foreach_loop func [] s = (0, s)"
| "foreach_loop func (e # es) s =
     (case data e of
        Item d \<Rightarrow> (let (val, s) = func d s in if val \<noteq> 0 then (val, s) else foreach_loop func es s)
      | _ \<Rightarrow> foreach_loop func es s)"

definition mzHashForeach :: "'a HashTable \<Rightarrow> ('a \<Rightarrow> 's \<Rightarrow> int \<times> 's) \<Rightarrow> 's \<Rightarrow> int \<times> 's" where
  "mzHashForeach t func s = foreach_loop func (pEntries t) s"

partial_function (option) count_loop ::
  "('a HashEntry \<Rightarrow> bool) \<Rightarrow> 'a HashTable \<Rightarrow> nat \<Rightarrow> int \<Rightarrow> (nat option \<times> int) option" where
  "count_loop hit t i cnt =
     (if data (pEntries t ! i) = NULL then Some (Some i, cnt)
      else if hit (pEntries t ! i) then Some (Some i, cnt)
      else if i + 1 = tableSize t then
        (if tableSize t = 1 then Some (None, cnt) else count_loop hit t 0 (cnt + 1))
      else count_loop hit t (i + 1) (cnt + 1))"

definition countProbes :: "'a HashTable \<Rightarrow> u32 \<Rightarrow> 'a \<Rightarrow> ('a \<Rightarrow> 'a \<Rightarrow> int) \<Rightarrow> (hash_error + int) option" where
  "countProbes t itemHash item cmpFunc =
     (if \<not> tableSize t > 0 then Some (Inl Assertion)
      else case count_loop (lookup_hit itemHash item cmpFunc) t (mask_index itemHash (tableSize t)) 0 of
             None \<Rightarrow> None
           | Some (None, cnt) \<Rightarrow> Some (Inl Outside_table)
           | Some (Some i, cnt) \<Rightarrow>
               if data (pEntries t ! i) = NULL then Some (Inr (-1)) else Some (Inr cnt))"

text \<open>\<open>mzHashIterNext\<close> from index \<open>i\<close> on; \<open>mzHashIterBegin\<close>, \<open>mzHashIterDone\<close> and \<open>mzHashIterData\<close>.\<close>

fun iter_next :: "'a HashEntry list \<Rightarrow> nat \<Rightarrow> nat" where
  "iter_next [] i = i"
| "iter_next (e # es) i = (case data e of Item d \<Rightarrow> i | _ \<Rightarrow> iter_next es (i + 1))"

definition mzHashIterNext :: "'a HashTable \<Rightarrow> int \<Rightarrow> nat" where
  "mzHashIterNext t idx = iter_next (drop (nat (idx + 1)) (pEntries t)) (nat (idx + 1))"

definition mzHashIterBegin :: "'a HashTable \<Rightarrow> nat" where
  "mzHashIterBegin t = mzHashIterNext t (-1)"

definition mzHashIterDone :: "'a HashTable \<Rightarrow> nat \<Rightarrow> bool" where
  "mzHashIterDone t idx = (idx \<ge> tableSize t)"

definition mzHashIterData :: "'a HashTable \<Rightarrow> nat \<Rightarrow> 'a slot" where
  "mzHashIterData t idx = data (pEntries t ! idx)"

text \<open>The statistics \<open>mzHashTableProbeCount\<close> logs: minimum, maximum, total and number of entries.\<close>

fun probe_stats :: "'a HashTable \<Rightarrow> ('a \<Rightarrow> u32) \<Rightarrow> ('a \<Rightarrow> 'a \<Rightarrow> int) \<Rightarrow> 'a list \<Rightarrow> int \<times> int \<times> int \<times> nat
    \<Rightarrow> (hash_error + int \<times> int \<times> int \<times> nat) option" where
  "probe_stats t calcFunc cmpFunc [] s = Some (Inr s)"
| "probe_stats t calcFunc cmpFunc (d # ds) (minProbe, maxProbe, totalProbe, n) =
     (case countProbes t (calcFunc d) d cmpFunc of
        None \<Rightarrow> None
      | Some (Inl e) \<Rightarrow> Some (Inl e)
      | Some (Inr cnt) \<Rightarrow>
          probe_stats t calcFunc cmpFunc ds
            (if cnt < minProbe then cnt else minProbe, if cnt > maxProbe then cnt else maxProbe,
             totalProbe + cnt, n + 1))"

definition mzHashTableProbeCount :: "'a HashTable \<Rightarrow> ('a \<Rightarrow> u32) \<Rightarrow> ('a \<Rightarrow> 'a \<Rightarrow> int)
    \<Rightarrow> (hash_error + int \<times> int \<times> int \<times> nat) option" where
  "mzHashTableProbeCount t calcFunc cmpFunc =
     probe_stats t calcFunc cmpFunc (concat (map live (pEntries t))) (65536 * 32767, 0, 0, 0)"

end
