(* ===== verification/Minzip_Table.thy ===== *)
theory Minzip_Table
  imports Minzip_Hash
begin

text \<open>
  Correctness of the minzip hash table: probing is cyclic and always ends because the load limit
  keeps a slot free, every live item is found from its home position, insertion, removal and
  resizing act on the multiset of items the table holds, and the size rounding yields the least
  power of two. The interface \<open>hash_store\<close> states what clients rely on.
\<close>

section \<open>Cyclic probing\<close>

definition dist :: "nat \<Rightarrow> nat \<Rightarrow> nat \<Rightarrow> nat" where
  "dist n s j = (if s \<le> j then j - s else j + n - s)"

lemma dist_less: "s < n \<Longrightarrow> j < n \<Longrightarrow> dist n s j < n"
  by (auto simp: dist_def)

lemma dist_reach: "s < n \<Longrightarrow> j < n \<Longrightarrow> (s + dist n s j) mod n = j"
  by (auto simp: dist_def)

lemma dist_unique: "s < n \<Longrightarrow> d < n \<Longrightarrow> (s + d) mod n = j \<Longrightarrow> dist n s j = d"
  by (auto simp: dist_def mod_if split: if_splits)

lemma mask_index_mod:
  assumes "k < 32"
  shows "mask_index h (2 ^ k) = unat h mod 2 ^ k"
proof -
  have "(of_nat (2 ^ k) - 1 :: u32) = mask k" by (simp add: mask_eq_exp_minus_1)
  then have "h AND (of_nat (2 ^ k) - 1) = take_bit k h" by (simp add: take_bit_eq_mask)
  then have "mask_index h (2 ^ k) = unat (take_bit k h)" by (simp only: mask_index_def)
  also have "\<dots> = take_bit k (unat h)" using assms by (subst unsigned_take_bit_eq) simp
  finally show ?thesis by (simp only: take_bit_eq_mod)
qed

definition stops :: "('a HashEntry \<Rightarrow> bool) \<Rightarrow> 'a HashEntry list \<Rightarrow> nat \<Rightarrow> bool" where
  "stops hit es i \<longleftrightarrow> data (es ! i) = NULL \<or> hit (es ! i)"

lemma shift_index: "0 < n \<Longrightarrow> ((s + 1) mod n + m) mod n = (s + Suc m) mod n" for n :: nat
  by (simp add: mod_add_left_eq)

lemma probe_stop:
  assumes "s < tableSize t" "n < tableSize t" "\<forall>m<n. \<not> stops hit (pEntries t) ((s + m) mod tableSize t)"
    "stops hit (pEntries t) ((s + n) mod tableSize t)"
  shows "probe hit t s = Some (Some ((s + n) mod tableSize t))"
  using assms
proof (induction n arbitrary: s)
  case 0
  then show ?case by (subst probe.simps) (auto simp: stops_def)
next
  case (Suc n)
  let ?N = "tableSize t"
  have ns: "\<not> stops hit (pEntries t) s" using Suc.prems(1) Suc.prems(3)[rule_format, of 0] by simp
  have "probe hit t s = probe hit t ((s + 1) mod ?N)"
    using ns Suc.prems(1,2) by (subst probe.simps) (auto simp: stops_def)
  also have "\<dots> = Some (Some (((s + 1) mod ?N + n) mod ?N))"
  proof (rule Suc.IH)
    have sh: "((s + 1) mod ?N + m) mod ?N = (s + Suc m) mod ?N" for m using Suc.prems(1) by (intro shift_index) simp
    show "\<forall>m<n. \<not> stops hit (pEntries t) (((s + 1) mod ?N + m) mod ?N)"
      unfolding sh using Suc.prems(3) Suc_less_eq by blast
    show "stops hit (pEntries t) (((s + 1) mod ?N + n) mod ?N)" unfolding sh by (rule Suc.prems(4))
  qed (use Suc.prems in simp_all)
  finally show ?case using shift_index[of ?N s n] Suc.prems(1) by simp
qed

lemma probe_first:
  assumes "s < tableSize t" "\<exists>i<tableSize t. stops hit (pEntries t) i"
  obtains n where "n < tableSize t" "probe hit t s = Some (Some ((s + n) mod tableSize t))"
    "stops hit (pEntries t) ((s + n) mod tableSize t)"
    "\<forall>m<n. \<not> stops hit (pEntries t) ((s + m) mod tableSize t)"
proof -
  obtain i where i: "i < tableSize t" "stops hit (pEntries t) i" using assms(2) by blast
  let ?P = "\<lambda>n. stops hit (pEntries t) ((s + n) mod tableSize t)"
  have P: "?P (dist (tableSize t) s i)" using dist_reach[OF assms(1) i(1)] i(2) by simp
  define n where "n = (LEAST n. ?P n)"
  have n: "?P n" "\<forall>m<n. \<not> ?P m" "n \<le> dist (tableSize t) s i"
    unfolding n_def using P by (auto intro: LeastI Least_le dest: not_less_Least)
  then have lt: "n < tableSize t" using dist_less[OF assms(1) i(1)] by linarith
  show thesis using that[OF lt probe_stop[OF assms(1) lt n(2,1)] n(1,2)] .
qed

lemma free_index_stop:
  assumes "k < 32" "s < 2 ^ k" "n < 2 ^ k" "\<forall>m<n. data (es ! ((s + m) mod 2 ^ k)) \<noteq> NULL"
    "data (es ! ((s + n) mod 2 ^ k)) = NULL"
  shows "free_index es (2 ^ k) s = Some ((s + n) mod 2 ^ k)"
  using assms(2-)
proof (induction n arbitrary: s)
  case 0
  then show ?case by (subst free_index.simps) simp
next
  case (Suc n)
  let ?N = "2 ^ k :: nat"
  have ns: "data (es ! s) \<noteq> NULL" using Suc.prems(1) Suc.prems(3)[rule_format, of 0] by simp
  have "?N \<le> 2 ^ 31" using assms(1) by (intro power_increasing) simp_all
  then have "s + 1 < 2 ^ 32" using Suc.prems(1) by simp
  then have "unat (of_nat (s + 1) :: u32) = s + 1" by (simp only: unat_of_nat take_bit_nat_eq_self) simp
  then have "unat (of_nat s + 1 :: u32) = s + 1" by (simp only: of_nat_add of_nat_1)
  then have "mask_index (of_nat s + 1) ?N = (s + 1) mod ?N" using mask_index_mod[OF assms(1)] by simp
  then have "free_index es ?N s = free_index es ?N ((s + 1) mod ?N)"
    using ns by (subst free_index.simps) simp
  also have "\<dots> = Some (((s + 1) mod ?N + n) mod ?N)"
  proof (rule Suc.IH)
    have sh: "((s + 1) mod ?N + m) mod ?N = (s + Suc m) mod ?N" for m by (rule shift_index) simp
    show "\<forall>m<n. data (es ! (((s + 1) mod ?N + m) mod ?N)) \<noteq> NULL"
      unfolding sh using Suc.prems(3) Suc_less_eq by blast
    show "data (es ! (((s + 1) mod ?N + n) mod ?N)) = NULL" unfolding sh by (rule Suc.prems(4))
  qed (use Suc.prems in simp_all)
  finally show ?case using shift_index[of ?N s n] Suc.prems(1) by simp
qed

section \<open>Invariant and contents\<close>

definition pairs :: "'a HashEntry \<Rightarrow> (u32 \<times> 'a) list" where
  "pairs e = (case data e of Item d \<Rightarrow> [(hashValue e, d)] | _ \<Rightarrow> [])"

definition entries_of :: "'a HashEntry list \<Rightarrow> (u32 \<times> 'a) multiset" where
  "entries_of es = mset (concat (map pairs es))"

text \<open>What a table holds: its live items with the hashes they were added under.\<close>

definition contents :: "'a HashTable \<Rightarrow> (u32 \<times> 'a) multiset" where
  "contents t = entries_of (pEntries t)"

definition occupied :: "'a HashEntry list \<Rightarrow> nat" where
  "occupied es = length (filter (\<lambda>e. data e \<noteq> NULL) es)"

text \<open>Every slot from the home position of a live item up to the item itself is occupied.\<close>

definition chained :: "nat \<Rightarrow> 'a HashEntry list \<Rightarrow> bool" where
  "chained n es \<longleftrightarrow> (\<forall>j<n. \<forall>d. data (es ! j) = Item d \<longrightarrow>
     (\<forall>m<dist n (mask_index (hashValue (es ! j)) n) j.
        data (es ! ((mask_index (hashValue (es ! j)) n + m) mod n)) \<noteq> NULL))"

definition table_ok :: "'a HashTable \<Rightarrow> bool" where
  "table_ok t \<longleftrightarrow> (\<exists>k<31. tableSize t = 2 ^ k) \<and> length (pEntries t) = tableSize t \<and>
     numEntries t = size (contents t) \<and> numDeadEntries t = countTombStones t \<and>
     (numEntries t + numDeadEntries t) * 8 \<le> tableSize t * 5 \<and> chained (tableSize t) (pEntries t)"

lemma size_entries: "size (entries_of es) + length (filter (\<lambda>e. data e = TOMBSTONE) es) = occupied es"
  by (induction es) (auto simp: entries_of_def pairs_def occupied_def split: slot.splits)

lemma entries_update:
  "i < length es \<Longrightarrow> entries_of (es[i := e]) + mset (pairs (es ! i)) = entries_of es + mset (pairs e)"
proof (induction es arbitrary: i)
  case (Cons x xs)
  show ?case
  proof (cases i)
    case (Suc j)
    then show ?thesis using Cons.IH[of j] Cons.prems by (simp add: entries_of_def add.assoc add.commute add.left_commute)
  qed (simp add: entries_of_def add.commute add.left_commute)
qed simp

lemma in_entries: "(h, d) \<in># entries_of es \<longleftrightarrow> (\<exists>i<length es. data (es ! i) = Item d \<and> hashValue (es ! i) = h)"
proof -
  have "(h, d) \<in> set (pairs e) \<longleftrightarrow> data e = Item d \<and> hashValue e = h" for e
    by (auto simp: pairs_def split: slot.splits)
  then show ?thesis by (auto simp: entries_of_def in_set_conv_nth) (metis nth_mem)
qed

lemma occupied_empty: "occupied es < length es \<Longrightarrow> \<exists>i<length es. data (es ! i) = NULL"
proof (rule ccontr)
  assume a: "occupied es < length es" and n: "\<not> (\<exists>i<length es. data (es ! i) = NULL)"
  have "filter (\<lambda>e. data e \<noteq> NULL) es = es" using n by (intro filter_True) (auto simp: in_set_conv_nth)
  with a show False by (simp add: occupied_def)
qed

lemma mask_index_less: "k < 32 \<Longrightarrow> mask_index h (2 ^ k) < 2 ^ k"
  by (simp add: mask_index_mod)

lemma chained_keep:
  assumes "chained n es" "length es = n" "i < n" "data e \<noteq> NULL" "\<forall>d. data e = Item d \<longrightarrow> False"
  shows "chained n (es[i := e])"
  unfolding chained_def
proof (intro allI impI)
  fix j d m
  assume j: "j < n" "data (es[i := e] ! j) = Item d"
    and m: "m < dist n (mask_index (hashValue (es[i := e] ! j)) n) j"
  have ji: "j \<noteq> i" using j assms by auto
  then have e: "es[i := e] ! j = es ! j" by simp
  have "data (es ! ((mask_index (hashValue (es ! j)) n + m) mod n)) \<noteq> NULL"
    using assms(1) j m ji e unfolding chained_def by auto
  then show "data (es[i := e] ! ((mask_index (hashValue (es[i := e] ! j)) n + m) mod n)) \<noteq> NULL"
    using assms(2-4) e by (auto simp: nth_list_update)
qed

lemma chained_add:
  assumes "chained n es" "length es = n" "s = mask_index h n" "s < n" "q < n"
    "\<forall>m<q. data (es ! ((s + m) mod n)) \<noteq> NULL"
  shows "chained n (es[(s + q) mod n := \<lparr>hashValue = h, data = Item x\<rparr>])"
  unfolding chained_def
proof (intro allI impI)
  let ?i = "(s + q) mod n" and ?e = "\<lparr>hashValue = h, data = Item x\<rparr>"
  fix j d m
  assume j: "j < n" "data (es[?i := ?e] ! j) = Item d"
    and m: "m < dist n (mask_index (hashValue (es[?i := ?e] ! j)) n) j"
  have i: "?i < length es" using assms by simp
  have old: "data (es ! k) \<noteq> NULL \<Longrightarrow> data (es[?i := ?e] ! k) \<noteq> NULL" for k
    using i by (cases "k = ?i") auto
  show "data (es[?i := ?e] ! ((mask_index (hashValue (es[?i := ?e] ! j)) n + m) mod n)) \<noteq> NULL"
  proof (cases "j = ?i")
    case True
    then have "hashValue (es[?i := ?e] ! j) = h" using i by simp
    moreover have "dist n s j = q" using dist_unique[OF assms(4,5)] True by simp
    ultimately show ?thesis using m assms(3,6) old by auto
  next
    case False
    then have "es[?i := ?e] ! j = es ! j" by simp
    then show ?thesis using assms(1) j m old unfolding chained_def by auto
  qed
qed

section \<open>Lookup\<close>

lemma table_facts:
  assumes "table_ok t"
  obtains k where "k < 31" "tableSize t = 2 ^ k" "length (pEntries t) = tableSize t"
    "occupied (pEntries t) = numEntries t + numDeadEntries t" "occupied (pEntries t) < tableSize t"
    "\<And>h. mask_index h (tableSize t) < tableSize t"
proof -
  obtain k where k: "k < 31" "tableSize t = 2 ^ k" using assms by (auto simp: table_ok_def)
  have occ: "occupied (pEntries t) = numEntries t + numDeadEntries t"
    using assms size_entries[of "pEntries t"] by (simp add: table_ok_def contents_def countTombStones_def)
  have "0 < tableSize t" using k by simp
  moreover have "occupied (pEntries t) * 8 \<le> tableSize t * 5" using assms occ by (simp add: table_ok_def)
  ultimately have "occupied (pEntries t) < tableSize t" by linarith
  moreover have "mask_index h (tableSize t) < tableSize t" for h using mask_index_less[of k h] k by simp
  ultimately show thesis using that k occ assms by (simp add: table_ok_def)
qed

lemma probe_total:
  assumes "table_ok t"
  obtains q where "q < tableSize t" "probe hit t (mask_index h (tableSize t)) = Some (Some ((mask_index h (tableSize t) + q) mod tableSize t))"
    "stops hit (pEntries t) ((mask_index h (tableSize t) + q) mod tableSize t)"
    "\<forall>m<q. \<not> stops hit (pEntries t) ((mask_index h (tableSize t) + m) mod tableSize t)"
    "(mask_index h (tableSize t) + q) mod tableSize t < length (pEntries t)"
proof -
  obtain k where k: "k < 31" "tableSize t = 2 ^ k" "length (pEntries t) = tableSize t" "occupied (pEntries t) < tableSize t"
    "\<And>h. mask_index h (tableSize t) < tableSize t"
    using table_facts[OF assms] by metis
  have ex: "\<exists>i<tableSize t. stops hit (pEntries t) i"
    using occupied_empty[of "pEntries t"] k(3,4) by (auto simp: stops_def)
  obtain q where "q < tableSize t" "probe hit t (mask_index h (tableSize t)) = Some (Some ((mask_index h (tableSize t) + q) mod tableSize t))"
    "stops hit (pEntries t) ((mask_index h (tableSize t) + q) mod tableSize t)"
    "\<forall>m<q. \<not> stops hit (pEntries t) ((mask_index h (tableSize t) + m) mod tableSize t)"
    by (rule probe_first[OF k(5) ex])
  then show thesis using that[of q] k by simp
qed

text \<open>An entry added under the hash is met by the probe before any free slot.\<close>

lemma probe_meets:
  assumes "table_ok t" "j < tableSize t" "data (pEntries t ! j) = Item d" "hit (pEntries t ! j)"
    "hashValue (pEntries t ! j) = h" "q < tableSize t"
    "stops hit (pEntries t) ((mask_index h (tableSize t) + q) mod tableSize t)"
    "\<forall>m<q. \<not> stops hit (pEntries t) ((mask_index h (tableSize t) + m) mod tableSize t)"
  shows "data (pEntries t ! ((mask_index h (tableSize t) + q) mod tableSize t)) \<noteq> NULL"
proof -
  let ?n = "tableSize t" and ?s = "mask_index h (tableSize t)"
  have s: "?s < ?n" using table_facts[OF assms(1)] by metis
  have d: "(?s + dist ?n ?s j) mod ?n = j" using dist_reach[OF s assms(2)] .
  then have "stops hit (pEntries t) ((?s + dist ?n ?s j) mod ?n)" using assms(4) by (simp add: stops_def)
  then have "q \<le> dist ?n ?s j" using assms(8) by (meson not_le)
  then consider "q = dist ?n ?s j" | "q < dist ?n ?s j" by linarith
  then show ?thesis
  proof cases
    case 1
    then show ?thesis using d assms(3) by simp
  next
    case 2
    have "chained ?n (pEntries t)" using assms(1) by (simp add: table_ok_def)
    then show ?thesis using 2 assms(2,3,5) unfolding chained_def by blast
  qed
qed

lemma lookup_found:
  assumes "table_ok t" "(h, d) \<in># contents t" "cmp d item = 0"
  shows "\<exists>d'. mzHashTableLookup alloc t h item cmp doAdd = Some (Inr (t, Some d')) \<and> (h, d') \<in># contents t \<and> cmp d' item = 0"
proof -
  let ?n = "tableSize t" and ?s = "mask_index h (tableSize t)" and ?hit = "lookup_hit h item cmp"
  obtain q where q: "q < ?n" "probe ?hit t ?s = Some (Some ((?s + q) mod ?n))"
    "stops ?hit (pEntries t) ((?s + q) mod ?n)" "\<forall>m<q. \<not> stops ?hit (pEntries t) ((?s + m) mod ?n)"
    "(?s + q) mod ?n < length (pEntries t)"
    by (rule probe_total[OF assms(1)])
  obtain j where j: "j < ?n" "data (pEntries t ! j) = Item d" "hashValue (pEntries t ! j) = h"
    using assms(1,2) by (auto simp: contents_def in_entries table_ok_def)
  have "?hit (pEntries t ! j)" using j assms(3) by (simp add: lookup_hit_def)
  from probe_meets[of t, OF assms(1) j(1,2) this j(3) q(1,3,4)]
  have "?hit (pEntries t ! ((?s + q) mod ?n))" using q(3) by (simp add: stops_def)
  then obtain d' where "data (pEntries t ! ((?s + q) mod ?n)) = Item d'" "hashValue (pEntries t ! ((?s + q) mod ?n)) = h" "cmp d' item = 0"
    by (auto simp: lookup_hit_def split: slot.splits)
  moreover from this have "(h, d') \<in># contents t" using q(5) by (auto simp: contents_def in_entries)
  ultimately show ?thesis using q(1,2) by (auto simp: mzHashTableLookup_def)
qed

lemma lookup_absent:
  assumes "table_ok t" "\<forall>d. (h, d) \<in># contents t \<longrightarrow> cmp d item \<noteq> 0"
  obtains q where "q < tableSize t" "data (pEntries t ! ((mask_index h (tableSize t) + q) mod tableSize t)) = NULL"
    "\<forall>m<q. data (pEntries t ! ((mask_index h (tableSize t) + m) mod tableSize t)) \<noteq> NULL"
    "mzHashTableLookup alloc t h item cmp doAdd =
      (if doAdd then
         (case add_entry alloc t ((mask_index h (tableSize t) + q) mod tableSize t) h item of
            None \<Rightarrow> None | Some (Inl e) \<Rightarrow> Some (Inl e) | Some (Inr t) \<Rightarrow> Some (Inr (t, Some item)))
       else Some (Inr (t, None)))"
proof -
  let ?n = "tableSize t" and ?s = "mask_index h (tableSize t)" and ?hit = "lookup_hit h item cmp"
  obtain q where q: "q < ?n" "probe ?hit t ?s = Some (Some ((?s + q) mod ?n))"
    "stops ?hit (pEntries t) ((?s + q) mod ?n)" "\<forall>m<q. \<not> stops ?hit (pEntries t) ((?s + m) mod ?n)"
    "(?s + q) mod ?n < length (pEntries t)"
    by (rule probe_total[OF assms(1)])
  have "\<not> ?hit (pEntries t ! ((?s + q) mod ?n))"
  proof
    assume "?hit (pEntries t ! ((?s + q) mod ?n))"
    then obtain d where "data (pEntries t ! ((?s + q) mod ?n)) = Item d" "hashValue (pEntries t ! ((?s + q) mod ?n)) = h" "cmp d item = 0"
      by (auto simp: lookup_hit_def split: slot.splits)
    then show False using assms(2) q(5) by (auto simp: contents_def in_entries)
  qed
  then have "data (pEntries t ! ((?s + q) mod ?n)) = NULL" using q(3) by (simp add: stops_def)
  moreover have "\<forall>m<q. data (pEntries t ! ((?s + m) mod ?n)) \<noteq> NULL" using q(4) by (simp add: stops_def)
  ultimately show thesis using q(1,2) by (intro that[of q]) (auto simp: mzHashTableLookup_def)
qed

lemma lookup_miss:
  assumes "table_ok t" "\<forall>d. (h, d) \<in># contents t \<longrightarrow> cmp d item \<noteq> 0"
  shows "mzHashTableLookup alloc t h item cmp False = Some (Inr (t, None))"
  by (rule lookup_absent[of t h cmp item alloc False, OF assms]) simp

section \<open>Resizing\<close>

lemma occupied_update:
  "i < length es \<Longrightarrow> data (es ! i) = NULL \<Longrightarrow> data e \<noteq> NULL \<Longrightarrow> occupied (es[i := e]) = Suc (occupied es)"
proof (induction es arbitrary: i)
  case (Cons x xs)
  then show ?case by (cases i) (auto simp: occupied_def)
qed simp

definition dead :: "'a HashEntry list \<Rightarrow> nat" where
  "dead es = length (filter (\<lambda>e. data e = TOMBSTONE) es)"

lemma dead_update:
  "i < length es \<Longrightarrow> data (es ! i) = NULL \<Longrightarrow> data e \<noteq> TOMBSTONE \<Longrightarrow> dead (es[i := e]) = dead es"
proof (induction es arbitrary: i)
  case (Cons x xs)
  then show ?case by (cases i) (auto simp: dead_def)
qed simp

lemma rehash_correct:
  assumes "k < 32" "length new = 2 ^ k" "chained (2 ^ k) new" "dead new = 0" "occupied new + size (entries_of es) < 2 ^ k"
  shows "\<exists>new'. rehash (2 ^ k) es new = Some new' \<and> length new' = 2 ^ k \<and> chained (2 ^ k) new' \<and> dead new' = 0 \<and>
    entries_of new' = entries_of new + entries_of es"
  using assms(2-)
proof (induction es arbitrary: new)
  case Nil
  then show ?case by (simp add: entries_of_def)
next
  case (Cons e es)
  show ?case
  proof (cases "data e")
    case (Item d)
    let ?n = "2 ^ k :: nat" and ?s = "mask_index (hashValue e) (2 ^ k)" and ?e = "\<lparr>hashValue = hashValue e, data = Item d\<rparr>"
    have s: "?s < ?n" using mask_index_less[OF assms(1)] .
    have sz: "size (entries_of (e # es)) = Suc (size (entries_of es))" using Item by (simp add: entries_of_def pairs_def)
    obtain i where i: "i < ?n" "data (new ! i) = NULL" using occupied_empty[of new] Cons.prems by auto
    let ?P = "\<lambda>q. data (new ! ((?s + q) mod ?n)) = NULL"
    have P: "?P (dist ?n ?s i)" using dist_reach[OF s i(1)] i(2) by simp
    define q where "q = (LEAST q. ?P q)"
    have q: "?P q" "\<forall>m<q. \<not> ?P m" "q \<le> dist ?n ?s i"
      unfolding q_def using P by (auto intro: LeastI Least_le dest: not_less_Least)
    then have lt: "q < ?n" using dist_less[OF s i(1)] by linarith
    have f: "free_index new ?n ?s = Some ((?s + q) mod ?n)" by (rule free_index_stop[OF assms(1) s lt]) (use q in auto)
    have il: "(?s + q) mod ?n < length new" using Cons.prems(1) by simp
    let ?new = "new[(?s + q) mod ?n := ?e]"
    have "chained ?n ?new" by (rule chained_add[OF Cons.prems(2,1) refl s lt]) (use q in auto)
    moreover have "occupied ?new = Suc (occupied new)" "dead ?new = 0"
      using occupied_update[OF il q(1), of ?e] dead_update[OF il q(1), of ?e] Cons.prems(3) by simp_all
    moreover have "entries_of ?new = entries_of new + mset (pairs e)"
      using entries_update[OF il, of ?e] q(1) Item by (simp add: pairs_def)
    ultimately obtain new' where "rehash ?n es ?new = Some new'" "length new' = ?n" "chained ?n new'" "dead new' = 0"
      "entries_of new' = entries_of new + mset (pairs e) + entries_of es"
      using Cons.IH[of ?new] Cons.prems(1,4) sz by auto
    then show ?thesis using Item f by (simp add: entries_of_def)
  next
    case NULL
    then show ?thesis using Cons.IH[of new] Cons.prems by (simp add: entries_of_def pairs_def)
  next
    case TOMBSTONE
    then show ?thesis using Cons.IH[of new] Cons.prems by (simp add: entries_of_def pairs_def)
  qed
qed

lemma fresh_entries:
  "entries_of (replicate n empty_entry) = {#}" "dead (replicate n empty_entry) = 0"
  "occupied (replicate n empty_entry) = 0"
  by (induction n) (simp_all add: entries_of_def pairs_def empty_entry_def dead_def occupied_def)

lemma fresh_chained: "chained n (replicate n empty_entry)"
  by (simp add: chained_def empty_entry_def)

lemma resize_correct:
  assumes "k < 32" "countTombStones t = numDeadEntries t" "numEntries t = size (contents t)" "size (contents t) < 2 ^ k"
  shows "\<exists>new. resizeHash True t (2 ^ k) = Some (Inr (t\<lparr>pEntries := new, tableSize := 2 ^ k, numDeadEntries := 0\<rparr>)) \<and>
    length new = 2 ^ k \<and> chained (2 ^ k) new \<and> dead new = 0 \<and> entries_of new = contents t"
proof -
  obtain new where "rehash (2 ^ k) (pEntries t) (replicate (2 ^ k) empty_entry) = Some new" "length new = 2 ^ k"
    "chained (2 ^ k) new" "dead new = 0" "entries_of new = contents t"
    using rehash_correct[OF assms(1), of "replicate (2 ^ k) empty_entry" "pEntries t"] assms(4)
    by (auto simp: fresh_entries fresh_chained contents_def)
  then show ?thesis using assms(2) by (intro exI[of _ new]) (simp add: resizeHash_def countTombStones_def dead_def)
qed

section \<open>Insertion and removal\<close>

text \<open>Room for doubling: none of the size computations of an insertion overflows an \<open>int\<close>.\<close>

definition roomy :: "'a HashTable \<Rightarrow> bool" where
  "roomy t \<longleftrightarrow> tableSize t * 5 + 8 \<le> INT_MAX \<and> tableSize t * 2 \<le> INT_MAX"

lemma add_entry_correct:
  assumes ok: "table_ok t" and room: "roomy t" and q: "q < tableSize t"
    and free: "data (pEntries t ! ((mask_index h (tableSize t) + q) mod tableSize t)) = NULL"
    and run: "\<forall>m<q. data (pEntries t ! ((mask_index h (tableSize t) + m) mod tableSize t)) \<noteq> NULL"
  shows "\<exists>t'. add_entry True t ((mask_index h (tableSize t) + q) mod tableSize t) h item = Some (Inr t') \<and>
    table_ok t' \<and> contents t' = add_mset (h, item) (contents t)"
proof -
  let ?n = "tableSize t" and ?i = "(mask_index h (tableSize t) + q) mod tableSize t" and ?e = "\<lparr>hashValue = h, data = Item item\<rparr>"
  obtain k where k: "k < 31" "?n = 2 ^ k" "length (pEntries t) = ?n" "occupied (pEntries t) = numEntries t + numDeadEntries t"
    "occupied (pEntries t) < ?n" "\<And>h. mask_index h ?n < ?n"
    by (rule table_facts[OF ok]) blast
  have inv: "numEntries t = size (contents t)" "numDeadEntries t = countTombStones t" "chained ?n (pEntries t)"
    and load: "(numEntries t + numDeadEntries t) * 8 \<le> ?n * 5"
    using ok by (simp_all add: table_ok_def)
  have il: "?i < length (pEntries t)" using k by simp
  define t1 where "t1 = t\<lparr>pEntries := (pEntries t)[?i := ?e], numEntries := numEntries t + 1\<rparr>"
  have c1: "contents t1 = add_mset (h, item) (contents t)"
    using entries_update[OF il, of ?e] free by (simp add: t1_def contents_def pairs_def)
  have d1: "countTombStones t1 = numDeadEntries t1"
    using dead_update[OF il free, of ?e] inv(2) by (simp add: t1_def countTombStones_def dead_def)
  have ch1: "chained ?n (pEntries t1)"
    using chained_add[OF inv(3) k(3) refl k(6) q run, of item] by (simp add: t1_def)
  have n1: "numEntries t1 = size (contents t1)" "tableSize t1 = ?n" "length (pEntries t1) = ?n" "numDeadEntries t1 = numDeadEntries t"
    using inv(1) c1 k(3) by (simp_all add: t1_def)
  have noflow: "(numEntries t1 + numDeadEntries t1) * 8 \<le> INT_MAX" "?n * 5 \<le> INT_MAX" "?n * 2 \<le> INT_MAX"
    using room load by (simp_all add: roomy_def t1_def)
  have unf: "add_entry True t ?i h item =
    (case (if (numEntries t1 + numDeadEntries t1) * 8 > ?n * 5 then resizeHash True t1 (?n * 2) else Some (Inr t1)) of
       None \<Rightarrow> None | Some (Inl e) \<Rightarrow> Some (Inl e)
     | Some (Inr t) \<Rightarrow> if \<not> numEntries t < tableSize t then Some (Inl Assertion) else Some (Inr t))"
    unfolding add_entry_def t1_def[symmetric] LOAD_DENOM_def LOAD_NUMER_def Let_def using noflow n1(2) by simp
  show ?thesis
  proof (cases "(numEntries t1 + numDeadEntries t1) * 8 > ?n * 5")
    case False
    have "0 < ?n" using k(2) by simp
    moreover have "numEntries t1 * 8 \<le> ?n * 5" using False by simp
    ultimately have "numEntries t1 < ?n" by linarith
    moreover have "table_ok t1" using False k(1,2) n1 d1 ch1 by (auto simp: table_ok_def)
    ultimately show ?thesis using False unf n1(2) c1 by simp
  next
    case True
    have k1: "?n * 2 = 2 ^ Suc k" using k(2) by simp
    have "Suc k < 31"
    proof (rule ccontr)
      assume "\<not> Suc k < 31"
      then have "(2 :: nat) ^ 31 \<le> 2 ^ Suc k" by (intro power_increasing) simp_all
      then show False using noflow(3) k1 by (simp add: INT_MAX_def)
    qed
    have small: "numEntries t1 * 8 \<le> (?n * 2) * 5"
    proof (cases "?n = 1")
      case True
      then have "numEntries t = 0" using load by simp
      then show ?thesis using True by (simp add: t1_def)
    next
      case False
      then have "2 \<le> ?n" using k(2) by (metis One_nat_def Suc_leI k(5) less_one nat_neq_iff not_less0 numeral_2_eq_2)
      then show ?thesis using load by (simp add: t1_def)
    qed
    have lt: "numEntries t1 < ?n * 2" using small k(5) by linarith
    obtain new where r: "resizeHash True t1 (2 ^ Suc k) = Some (Inr (t1\<lparr>pEntries := new, tableSize := 2 ^ Suc k, numDeadEntries := 0\<rparr>))"
      "length new = 2 ^ Suc k" "chained (2 ^ Suc k) new" "dead new = 0" "entries_of new = contents t1"
      using resize_correct[of "Suc k" t1] d1 n1(1) lt k1 \<open>Suc k < 31\<close> by auto
    let ?t2 = "t1\<lparr>pEntries := new, tableSize := 2 ^ Suc k, numDeadEntries := 0\<rparr>"
    have "contents ?t2 = contents t1" using r(5) by (simp add: contents_def)
    moreover have "table_ok ?t2"
      using r n1(1) small k1 \<open>Suc k < 31\<close>
      by (auto simp: table_ok_def contents_def countTombStones_def dead_def intro!: exI[of _ "Suc k"])
    ultimately show ?thesis using True unf r(1) c1 lt k1 by simp
  qed
qed

lemma tombstone_counts:
  "i < length es \<Longrightarrow> data (es ! i) = Item d \<Longrightarrow> dead (es[i := e\<lparr>data := TOMBSTONE\<rparr>]) = Suc (dead es)"
proof (induction es arbitrary: i)
  case (Cons x xs)
  then show ?case by (cases i) (auto simp: dead_def)
qed simp

lemma remove_correct:
  assumes ok: "table_ok t"
  shows "(\<exists>h'. (h', item) \<in># contents t \<and> (\<exists>t'. mzHashTableRemove t h item = Some (Inr (t', True)) \<and> table_ok t' \<and>
            contents t' = contents t - {#(h', item)#})) \<or>
         (h, item) \<notin># contents t \<and> mzHashTableRemove t h item = Some (Inr (t, False))"
proof -
  let ?n = "tableSize t" and ?s = "mask_index h (tableSize t)" and ?hit = "\<lambda>e. data e = Item item"
  obtain q where q: "q < ?n" "probe ?hit t ?s = Some (Some ((?s + q) mod ?n))"
    "stops ?hit (pEntries t) ((?s + q) mod ?n)" "\<forall>m<q. \<not> stops ?hit (pEntries t) ((?s + m) mod ?n)"
    "(?s + q) mod ?n < length (pEntries t)"
    by (rule probe_total[OF ok])
  let ?i = "(?s + q) mod ?n"
  have len: "length (pEntries t) = ?n" using ok by (simp add: table_ok_def)
  show ?thesis
  proof (cases "data (pEntries t ! ?i) = NULL")
    case True
    have "(h, item) \<notin># contents t"
    proof
      assume "(h, item) \<in># contents t"
      then obtain j where "j < ?n" "data (pEntries t ! j) = Item item" "hashValue (pEntries t ! j) = h"
        using len by (auto simp: contents_def in_entries)
      then show False using probe_meets[of t j item ?hit h q] ok q True by auto
    qed
    then show ?thesis using True q(1,2) by (simp add: mzHashTableRemove_def)
  next
    case False
    then have d: "data (pEntries t ! ?i) = Item item" using q(3) by (simp add: stops_def)
    let ?e = "(pEntries t ! ?i)\<lparr>data := TOMBSTONE\<rparr>" and ?h = "hashValue (pEntries t ! ?i)"
    define t1 where "t1 = t\<lparr>pEntries := (pEntries t)[?i := ?e], numEntries := numEntries t - 1, numDeadEntries := numDeadEntries t + 1\<rparr>"
    have mem: "(?h, item) \<in># contents t" using d q(5) by (auto simp: contents_def in_entries)
    have c: "add_mset (?h, item) (contents t1) = contents t"
      using entries_update[OF q(5), of ?e] d by (simp add: t1_def contents_def pairs_def)
    then have c1: "contents t1 = contents t - {#(?h, item)#}" by (metis add_mset_remove_trivial)
    have sz: "size (contents t) = Suc (size (contents t1))" using c by (metis size_add_mset)
    have dd: "countTombStones t1 = Suc (countTombStones t)"
      using tombstone_counts[OF q(5) d, of "pEntries t ! ?i"] by (simp add: t1_def countTombStones_def dead_def)
    have ch: "chained ?n (pEntries t1)"
      using chained_keep[of ?n "pEntries t" ?i ?e] ok len q(5) by (simp add: t1_def table_ok_def)
    have "table_ok t1" using ok sz dd ch by (auto simp: table_ok_def t1_def)
    moreover have "mzHashTableRemove t h item = Some (Inr (t1, True))"
      using False q(1,2) by (simp add: mzHashTableRemove_def t1_def)
    ultimately show ?thesis using c1 mem by blast
  qed
qed

lemma lookup_add_value:
  assumes "table_ok t" "roomy t" "\<forall>d. (h, d) \<in># contents t \<longrightarrow> cmp d item \<noteq> 0"
  obtains i t' where "mzHashTableLookup True t h item cmp True = Some (Inr (t', Some item))"
    "add_entry True t i h item = Some (Inr t')" "table_ok t'" "contents t' = add_mset (h, item) (contents t)"
proof -
  let ?s = "mask_index h (tableSize t)"
  obtain q where q: "q < tableSize t" "data (pEntries t ! ((?s + q) mod tableSize t)) = NULL"
    "\<forall>m<q. data (pEntries t ! ((?s + m) mod tableSize t)) \<noteq> NULL"
    and l: "mzHashTableLookup True t h item cmp True =
      (if True then
         (case add_entry True t ((?s + q) mod tableSize t) h item of
            None \<Rightarrow> None | Some (Inl e) \<Rightarrow> Some (Inl e) | Some (Inr t) \<Rightarrow> Some (Inr (t, Some item)))
       else Some (Inr (t, None)))"
    by (rule lookup_absent[of t h cmp item True True, OF assms(1,3)])
  obtain t' where "add_entry True t ((?s + q) mod tableSize t) h item = Some (Inr t')"
    "table_ok t'" "contents t' = add_mset (h, item) (contents t)"
    using add_entry_correct[OF assms(1,2) q] by blast
  then show thesis using l by (intro that) simp_all
qed

text \<open>Below the load limit the table stays where it is.\<close>

lemma add_entry_keep:
  assumes "table_ok t" "roomy t" "(numEntries t + numDeadEntries t + 1) * 8 \<le> tableSize t * 5"
  shows "add_entry True t i h item =
    Some (Inr (t\<lparr>pEntries := (pEntries t)[i := \<lparr>hashValue = h, data = Item item\<rparr>], numEntries := numEntries t + 1\<rparr>))"
proof -
  have "numEntries t * 8 + 8 \<le> tableSize t * 5" using assms(3) by simp
  then have "numEntries t + 1 < tableSize t" by linarith
  then show ?thesis using assms by (simp add: add_entry_def roomy_def LOAD_DENOM_def LOAD_NUMER_def Let_def)
qed

section \<open>Creation and clearing\<close>

lemma smear_stage:
  assumes "\<forall>j. bit y j \<longleftrightarrow> (\<exists>m<n. bit (x :: u32) (j + m))"
  shows "\<forall>j. bit (y OR drop_bit n y) j \<longleftrightarrow> (\<exists>m<2 * n. bit x (j + m))"
proof
  fix j
  have "(\<exists>m<2 * n. bit x (j + m)) \<longleftrightarrow> (\<exists>m<n. bit x (j + m)) \<or> (\<exists>m<n. bit x (n + j + m))"
  proof
    assume "\<exists>m<2 * n. bit x (j + m)"
    then obtain m where m: "m < 2 * n" "bit x (j + m)" by blast
    show "(\<exists>m<n. bit x (j + m)) \<or> (\<exists>m<n. bit x (n + j + m))"
    proof (cases "m < n")
      case False
      then have "m - n < n" "n + j + (m - n) = j + m" using m(1) by auto
      then show ?thesis using m(2) by metis
    qed (use m in blast)
  next
    assume "(\<exists>m<n. bit x (j + m)) \<or> (\<exists>m<n. bit x (n + j + m))"
    then show "\<exists>m<2 * n. bit x (j + m)"
    proof
      assume "\<exists>m<n. bit x (n + j + m)"
      then obtain m where "m < n" "bit x (n + j + m)" by blast
      then show ?thesis by (intro exI[of _ "n + m"]) (simp add: ac_simps)
    next
      assume "\<exists>m<n. bit x (j + m)"
      then obtain m where "m < n" "bit x (j + m)" by blast
      then show ?thesis by (intro exI[of _ m]) simp
    qed
  qed
  then show "bit (y OR drop_bit n y) j \<longleftrightarrow> (\<exists>m<2 * n. bit x (j + m))"
    using assms by (simp add: bit_simps)
qed

text \<open>The five steps fill every bit below the highest one.\<close>

lemma roundUpPower2_smear:
  obtains y where "roundUpPower2 val = y + 1" "\<forall>j. bit y j \<longleftrightarrow> (\<exists>i\<ge>j. bit (val - 1) i)"
proof -
  define y where "y = roundUpPower2 val - 1"
  have "\<forall>j. bit (val - 1) j \<longleftrightarrow> (\<exists>m<1. bit (val - 1) (j + m))" by simp
  from smear_stage[OF smear_stage[OF smear_stage[OF smear_stage[OF smear_stage[OF this]]]]]
  have b: "bit y j \<longleftrightarrow> (\<exists>m<32. bit (val - 1) (j + m))" for j
    by (simp add: y_def roundUpPower2_def Let_def)
  have "(\<exists>m<32. bit (val - 1) (j + m)) \<longleftrightarrow> (\<exists>i\<ge>j. bit (val - 1) i)" for j
  proof
    assume "\<exists>i\<ge>j. bit (val - 1) i"
    then obtain i where i: "j \<le> i" "bit (val - 1) i" by blast
    then have "i - j < 32" using bit_imp_le_length[OF i(2)] by simp
    then show "\<exists>m<32. bit (val - 1) (j + m)" using i by (intro exI[of _ "i - j"]) simp
  next
    assume "\<exists>m<32. bit (val - 1) (j + m)"
    then obtain m where "bit (val - 1) (j + m)" by blast
    then show "\<exists>i\<ge>j. bit (val - 1) i" by (intro exI[of _ "j + m"]) simp
  qed
  then show thesis using that[of y] b by (simp add: y_def)
qed

lemma len32: "LENGTH(32) = 32"
  by simp

lemma unat_of_nat_u32: "n < 2 ^ 32 \<Longrightarrow> unat (of_nat n :: u32) = n"
  by (simp only: unat_of_nat take_bit_nat_eq_self len32 mod_less)

lemma roundUpPower2_value:
  assumes "0 < unat val" "unat val \<le> 2 ^ 30"
  shows "\<exists>k<31. unat (roundUpPower2 val) = 2 ^ k \<and> unat val \<le> 2 ^ k \<and> (\<forall>j. unat val \<le> 2 ^ j \<longrightarrow> k \<le> j)"
proof -
  define x where "x = unat val - 1"
  have x: "unat (val - 1) = x" using assms(1) by (simp add: x_def unat_minus_one unat_gt_0)
  obtain y where y: "roundUpPower2 val = y + 1" "\<forall>j. bit y j \<longleftrightarrow> (\<exists>i\<ge>j. bit (val - 1) i)"
    by (rule roundUpPower2_smear)
  define k where "k = (LEAST k. x < 2 ^ k)"
  have lt: "x < 2 ^ k" unfolding k_def by (rule LeastI[of _ x]) (rule less_exp)
  have least: "k \<le> j" if "x < 2 ^ j" for j unfolding k_def using that by (rule Least_le)
  have "x < 2 ^ 30" using assms by (simp add: x_def)
  then have k30: "k \<le> 30" by (rule least)
  have bits: "(\<exists>i\<ge>j. bit (val - 1) i) \<longleftrightarrow> j < k" for j
  proof -
    have "bit (val - 1) i \<longleftrightarrow> bit x i" for i by (simp add: x[symmetric] bit_unsigned_iff)
    moreover have "(\<exists>i\<ge>j. bit x i) \<longleftrightarrow> j < k"
    proof
      assume "\<exists>i\<ge>j. bit x i"
      then obtain i where i: "j \<le> i" "bit x i" by blast
      then have "\<not> k \<le> i" using lt by (metis bit_take_bit_iff leD take_bit_nat_eq_self)
      then show "j < k" using i by simp
    next
      assume "j < k"
      then have "2 ^ j \<le> x" using least[of j] by (meson leD not_le)
      then have "x div 2 ^ j \<noteq> 0" by (simp add: div_eq_0_iff)
      then obtain i where "bit (x div 2 ^ j) i" by (metis bit_eq_iff bit_0_eq bot_apply bot_bool_def)
      then show "\<exists>i\<ge>j. bit x i" by (intro exI[of _ "j + i"]) (simp add: bit_iff_odd power_add div_mult2_eq)
    qed
    ultimately show ?thesis by simp
  qed
  have "y = mask k" by (rule bit_word_eqI) (use y(2) bits in \<open>simp add: bit_mask_iff\<close>)
  then have "roundUpPower2 val = 2 ^ k" using y(1) by (simp add: mask_eq_exp_minus_1)
  moreover have "unat (2 ^ k :: u32) = 2 ^ k"
  proof -
    have "(2 :: nat) ^ k < 2 ^ 32" using k30 by (intro power_strict_increasing) simp_all
    moreover have "(2 ^ k :: u32) = of_nat (2 ^ k)" by simp
    ultimately show ?thesis by (simp only: unat_of_nat_u32)
  qed
  moreover have "unat val \<le> 2 ^ k" using lt assms(1) by (simp add: x_def)
  moreover have "k \<le> j" if "unat val \<le> 2 ^ j" for j using that assms(1) by (intro least) (simp add: x_def)
  ultimately show ?thesis using k30 by (intro exI[of _ k]) auto
qed

lemma create_value:
  assumes "0 < unat initialSize" "unat initialSize \<le> 2 ^ 30"
  obtains t k where "mzHashTableCreate True initialSize free = Inr t" "table_ok t" "contents t = {#}"
    "numEntries t = 0" "numDeadEntries t = 0" "tableSize t = 2 ^ k" "k < 31" "unat initialSize \<le> 2 ^ k"
    "\<forall>j. unat initialSize \<le> 2 ^ j \<longrightarrow> k \<le> j"
proof -
  obtain k where k: "k < 31" "unat (roundUpPower2 initialSize) = 2 ^ k" "unat initialSize \<le> 2 ^ k"
    "\<forall>j. unat initialSize \<le> 2 ^ j \<longrightarrow> k \<le> j"
    using roundUpPower2_value[OF assms] by blast
  have "(2 :: nat) ^ k \<le> 2 ^ 30" using k(1) by (intro power_increasing) simp_all
  then have small: "\<not> (2 :: nat) ^ k > INT_MAX" by (simp add: INT_MAX_def)
  define t where "t = \<lparr>tableSize = 2 ^ k, numEntries = 0, numDeadEntries = 0,
    pEntries = replicate (2 ^ k) (empty_entry :: 'a HashEntry), freeFunc = free\<rparr>"
  have "initialSize > 0" using assms(1) by (simp add: word_less_nat_alt)
  then have "mzHashTableCreate True initialSize free = Inr t"
    using k(2) small by (simp add: mzHashTableCreate_def t_def Let_def)
  moreover have c: "contents t = {#}" by (simp add: contents_def t_def fresh_entries)
  moreover have "table_ok t"
    using k(1) c fresh_chained[of "2 ^ k"] fresh_entries(2)[of "2 ^ k"]
    by (auto simp: table_ok_def t_def countTombStones_def dead_def)
  ultimately show thesis using k by (intro that[of t k]) (auto simp: t_def)
qed

lemma clear_value:
  assumes "table_ok t"
  shows "table_ok (fst (mzHashTableClear t))" "contents (fst (mzHashTableClear t)) = {#}"
    "mset (snd (mzHashTableClear t)) = (if freeFunc t then image_mset snd (contents t) else {#})"
proof -
  let ?es = "map clear_entry (pEntries t)"
  have d: "data (clear_entry e) = NULL" for e :: "'a HashEntry" by (simp add: clear_entry_def split: slot.splits)
  have e: "entries_of ?es = {#}" by (simp add: entries_of_def pairs_def d concat_eq_Nil_conv)
  then show c: "contents (fst (mzHashTableClear t)) = {#}" by (simp add: contents_def mzHashTableClear_def)
  have "length (pEntries t) = tableSize t" using assms by (simp add: table_ok_def)
  then have "chained (tableSize t) ?es" by (simp add: chained_def d)
  then show "table_ok (fst (mzHashTableClear t))"
    using assms c by (auto simp: table_ok_def mzHashTableClear_def countTombStones_def d)
  have "mset (concat (map live es)) = image_mset snd (entries_of es)" for es :: "'a HashEntry list"
    by (induction es) (auto simp: entries_of_def live_def pairs_def split: slot.splits)
  then show "mset (snd (mzHashTableClear t)) = (if freeFunc t then image_mset snd (contents t) else {#})"
    by (simp add: mzHashTableClear_def contents_def)
qed

section \<open>The interface\<close>

text \<open>
  What a client of the table relies on: lookups find an item that was added under the hash and
  compares equal, report absence otherwise, and an insertion of a new item within the capacity
  adds exactly that item and leaves the rest of the capacity.
\<close>

locale hash_store =
  fixes inv :: "'t \<Rightarrow> bool"
    and cont :: "'t \<Rightarrow> (u32 \<times> 'a) multiset"
    and room :: "'t \<Rightarrow> nat \<Rightarrow> bool"
    and look :: "'t \<Rightarrow> u32 \<Rightarrow> 'a \<Rightarrow> ('a \<Rightarrow> 'a \<Rightarrow> int) \<Rightarrow> bool \<Rightarrow> (hash_error + 't \<times> 'a option) option"
  assumes look_hit: "inv t \<Longrightarrow> (h, d) \<in># cont t \<Longrightarrow> cmp d item = 0 \<Longrightarrow>
      \<exists>d'. look t h item cmp add = Some (Inr (t, Some d')) \<and> (h, d') \<in># cont t \<and> cmp d' item = 0"
    and look_miss: "inv t \<Longrightarrow> \<forall>d. (h, d) \<in># cont t \<longrightarrow> cmp d item \<noteq> 0 \<Longrightarrow>
      look t h item cmp False = Some (Inr (t, None))"
    and look_add: "inv t \<Longrightarrow> room t (Suc n) \<Longrightarrow> \<forall>d. (h, d) \<in># cont t \<longrightarrow> cmp d item \<noteq> 0 \<Longrightarrow>
      \<exists>t'. look t h item cmp True = Some (Inr (t', Some item)) \<and> inv t' \<and> room t' n \<and>
        cont t' = add_mset (h, item) (cont t)"
    and room_less: "room t (Suc n) \<Longrightarrow> room t n"
begin

text \<open>Adding a list of items one after the other, stopping at an error.\<close>

fun add_all :: "('a \<Rightarrow> u32) \<Rightarrow> ('a \<Rightarrow> 'a \<Rightarrow> int) \<Rightarrow> 't \<Rightarrow> 'a list \<Rightarrow> (hash_error + 't) option" where
  "add_all hash cmp t [] = Some (Inr t)"
| "add_all hash cmp t (x # xs) =
     (case look t (hash x) x cmp True of
        None \<Rightarrow> None | Some (Inl e) \<Rightarrow> Some (Inl e) | Some (Inr (t, _)) \<Rightarrow> add_all hash cmp t xs)"

lemma add_all_correct:
  assumes "inv t" "room t (length xs)" "\<forall>p\<in>#cont t. fst p = hash (snd p)" "\<And>x. cmp x x = 0"
  shows "\<exists>t'. add_all hash cmp t xs = Some (Inr t') \<and> inv t' \<and> cont t \<subseteq># cont t' \<and>
    (\<forall>p\<in>#cont t'. fst p = hash (snd p) \<and> (p \<in># cont t \<or> snd p \<in> set xs)) \<and>
    (\<forall>x\<in>set xs. \<exists>d. (hash x, d) \<in># cont t' \<and> cmp d x = 0)"
  using assms(1-3)
proof (induction xs arbitrary: t)
  case Nil
  then show ?case by simp
next
  case (Cons x xs)
  obtain t1 r where t1: "look t (hash x) x cmp True = Some (Inr (t1, r))" "inv t1" "room t1 (length xs)"
    "cont t \<subseteq># cont t1" "\<exists>d. (hash x, d) \<in># cont t1 \<and> cmp d x = 0"
    "\<forall>p\<in>#cont t1. fst p = hash (snd p) \<and> (p \<in># cont t \<or> snd p = x)"
  proof (cases "\<exists>d. (hash x, d) \<in># cont t \<and> cmp d x = 0")
    case True
    then obtain d where d: "(hash x, d) \<in># cont t" "cmp d x = 0" by blast
    obtain d' where "look t (hash x) x cmp True = Some (Inr (t, Some d'))" "(hash x, d') \<in># cont t" "cmp d' x = 0"
      using look_hit[of t "hash x" d cmp x True] Cons.prems(1) d by blast
    then show thesis using that[of t] Cons.prems room_less by auto
  next
    case False
    then obtain t' where t': "look t (hash x) x cmp True = Some (Inr (t', Some x))" "inv t'" "room t' (length xs)"
      "cont t' = add_mset (hash x, x) (cont t)"
      using look_add[of t "length xs" "hash x" cmp x] Cons.prems by auto
    then show thesis using that[of t' "Some x"] Cons.prems(3) assms(4)[of x] by auto
  qed
  obtain t' where "add_all hash cmp t1 xs = Some (Inr t')" "inv t'" "cont t1 \<subseteq># cont t'"
    "\<forall>p\<in>#cont t'. fst p = hash (snd p) \<and> (p \<in># cont t1 \<or> snd p \<in> set xs)"
    "\<forall>x\<in>set xs. \<exists>d. (hash x, d) \<in># cont t' \<and> cmp d x = 0"
    using Cons.IH[OF t1(2,3)] t1(6) by blast
  then show ?case using t1 by (auto intro: subset_mset.order_trans dest: mset_subset_eqD)
qed

end

definition capacity :: "'a HashTable \<Rightarrow> nat \<Rightarrow> bool" where
  "capacity t n \<longleftrightarrow> roomy t \<and> (numEntries t + numDeadEntries t + n) * 8 \<le> tableSize t * 5"

lemma capacity_less: "capacity t (Suc n) \<Longrightarrow> capacity t n"
  by (simp add: capacity_def)

lemma lookup_add_keep:
  assumes a: "table_ok t" "capacity t (Suc n)" "\<forall>d. (h, d) \<in># contents t \<longrightarrow> cmp d item \<noteq> 0"
  shows "\<exists>t'. mzHashTableLookup True t h item cmp True = Some (Inr (t', Some item)) \<and> table_ok t' \<and>
    capacity t' n \<and> contents t' = add_mset (h, item) (contents t)"
proof -
  have room: "roomy t" "(numEntries t + numDeadEntries t + 1) * 8 \<le> tableSize t * 5"
    using a(2) by (simp_all add: capacity_def)
  obtain i t' where l: "mzHashTableLookup True t h item cmp True = Some (Inr (t', Some item))"
    and t': "add_entry True t i h item = Some (Inr t')" "table_ok t'" "contents t' = add_mset (h, item) (contents t)"
    by (rule lookup_add_value[of t h cmp item, OF a(1) room(1) a(3)])
  have "capacity t' n" using t'(1) a(2) add_entry_keep[OF a(1) room] by (auto simp: capacity_def roomy_def)
  then show ?thesis using l t' by blast
qed

interpretation mz: hash_store table_ok contents capacity "mzHashTableLookup True"
  by unfold_locales (blast intro: lookup_found lookup_miss lookup_add_keep capacity_less)+

section \<open>Properties\<close>

text \<open>
  C33. A lookup without insertion terminates on every well-formed table and finds an item exactly when
  one was added under the hash and compares equal; the table is unchanged.
\<close>

theorem mzHashTableLookup_correct:
  assumes "table_ok t"
  shows "(\<exists>d. mzHashTableLookup alloc t h item cmp False = Some (Inr (t, Some d)) \<and> (h, d) \<in># contents t \<and> cmp d item = 0) \<or>
    mzHashTableLookup alloc t h item cmp False = Some (Inr (t, None)) \<and> (\<forall>d. (h, d) \<in># contents t \<longrightarrow> cmp d item \<noteq> 0)"
proof (cases "\<exists>d. (h, d) \<in># contents t \<and> cmp d item = 0")
  case True
  then show ?thesis using lookup_found[OF assms, of h _ cmp item alloc False] by blast
next
  case False
  then show ?thesis using lookup_miss[OF assms, of h cmp item alloc] by blast
qed

definition small_table :: "nat HashTable" where
  "small_table = \<lparr>tableSize = 2, numEntries = 1, numDeadEntries = 0,
     pEntries = [\<lparr>hashValue = 0, data = NULL\<rparr>, \<lparr>hashValue = 3, data = Item 7\<rparr>], freeFunc = True\<rparr>"

lemma mask_index_3: "mask_index 3 2 = 1"
  by (simp add: mask_index_def)

lemma small_table_contents: "contents small_table = {#(3, 7)#}"
  by (simp add: small_table_def contents_def entries_of_def pairs_def)

lemma small_table_ok: "table_ok small_table"
proof -
  have "chained 2 (pEntries small_table)"
    unfolding chained_def by (auto simp: small_table_def less_2_cases_iff dist_def mask_index_3)
  then show ?thesis unfolding table_ok_def small_table_contents
    by (auto simp: small_table_def countTombStones_def intro!: exI[of _ 1])
qed

theorem mzHashTableLookup_witness:
  "(\<exists>d. mzHashTableLookup True small_table 3 7 (\<lambda>a b. int a - int b) False = Some (Inr (small_table, Some d)) \<and>
      (3, d) \<in># contents small_table \<and> int d - int 7 = 0) \<or>
   mzHashTableLookup True small_table 3 7 (\<lambda>a b. int a - int b) False = Some (Inr (small_table, None)) \<and>
      (\<forall>d. (3, d) \<in># contents small_table \<longrightarrow> int d - int 7 \<noteq> 0)"
  by (rule mzHashTableLookup_correct[OF small_table_ok])

text \<open>
  C34. Inserting an item no equal one of which is present terminates, returns the item, keeps the table
  well-formed and adds exactly the item, whether or not the table is resized.
\<close>

theorem mzHashTableLookup_add:
  assumes "table_ok t" "roomy t" "\<forall>d. (h, d) \<in># contents t \<longrightarrow> cmp d item \<noteq> 0"
  shows "\<exists>t'. mzHashTableLookup True t h item cmp True = Some (Inr (t', Some item)) \<and> table_ok t' \<and>
    contents t' = add_mset (h, item) (contents t)"
  by (rule lookup_add_value[of t h cmp item, OF assms]) blast

theorem mzHashTableLookup_add_witness:
  "\<exists>t'. mzHashTableLookup True small_table 3 8 (\<lambda>a b. int a - int b) True = Some (Inr (t', Some 8)) \<and> table_ok t' \<and>
    contents t' = add_mset (3, 8) (contents small_table)"
  by (rule mzHashTableLookup_add[OF small_table_ok])
    (simp_all add: small_table_contents, simp add: roomy_def small_table_def INT_MAX_def)

text \<open>
  C35. \<open>mzHashTableRemove\<close> terminates; it detaches one occurrence of the item and keeps the table
  well-formed, and it may fail only if the item is not in the table under the given hash.
\<close>

theorem mzHashTableRemove_correct:
  assumes "table_ok t"
  shows "(\<exists>h'. (h', item) \<in># contents t \<and> (\<exists>t'. mzHashTableRemove t h item = Some (Inr (t', True)) \<and> table_ok t' \<and>
            contents t' = contents t - {#(h', item)#})) \<or>
         (h, item) \<notin># contents t \<and> mzHashTableRemove t h item = Some (Inr (t, False))"
  using assms by (rule remove_correct)

theorem mzHashTableRemove_witness:
  "(\<exists>h'. (h', 7) \<in># contents small_table \<and> (\<exists>t'. mzHashTableRemove small_table 3 7 = Some (Inr (t', True)) \<and> table_ok t' \<and>
            contents t' = contents small_table - {#(h', 7)#})) \<or>
         (3, 7) \<notin># contents small_table \<and> mzHashTableRemove small_table 3 7 = Some (Inr (small_table, False))"
  by (rule mzHashTableRemove_correct[OF small_table_ok])

text \<open>
  \<open>roundUpPower2\<close> returns the least power of two not below its argument.
\<close>

lemma roundUpPower2_correct:
  assumes "0 < unat val" "unat val \<le> 2 ^ 30"
  shows "\<exists>k. unat (roundUpPower2 val) = 2 ^ k \<and> unat val \<le> 2 ^ k \<and> (\<forall>j. unat val \<le> 2 ^ j \<longrightarrow> k \<le> j)"
  using roundUpPower2_value[OF assms] by blast

theorem roundUpPower2_witness:
  "\<exists>k. unat (roundUpPower2 17) = 2 ^ k \<and> unat (17 :: u32) \<le> 2 ^ k \<and> (\<forall>j. unat (17 :: u32) \<le> 2 ^ j \<longrightarrow> k \<le> j)"
  by (rule roundUpPower2_correct) simp_all

text \<open>
  Clearing a table empties it, keeps it well-formed and hands each of its items exactly once to the
  free function, if there is one.
\<close>

lemma mzHashTableClear_correct:
  assumes "table_ok t"
  shows "table_ok (fst (mzHashTableClear t)) \<and> contents (fst (mzHashTableClear t)) = {#} \<and>
    mset (snd (mzHashTableClear t)) = (if freeFunc t then image_mset snd (contents t) else {#})"
  using clear_value[OF assms] by simp

theorem mzHashTableClear_witness:
  "table_ok (fst (mzHashTableClear small_table)) \<and> contents (fst (mzHashTableClear small_table)) = {#} \<and>
    mset (snd (mzHashTableClear small_table)) = (if freeFunc small_table then image_mset snd (contents small_table) else {#})"
  by (rule mzHashTableClear_correct[OF small_table_ok])

end
