(* ===== verification/Minzip_Zip.thy ===== *)
theory Minzip_Zip
  imports Minzip_Table
begin

text \<open>
  The name index of a Zip archive (\<^verbatim>\<open>Zip.c\<close>): the entries of the central directory are put into the hash
  table under the hash of their names, and \<open>mzFindZipEntry\<close> looks a name up. The proofs use
  the table only through its interface.
\<close>

section \<open>The code\<close>

text \<open>The pointers the table deals with: an entry of \<open>pEntries\<close> (its index and file name) or a C string.\<close>

datatype zitem = EntryPtr nat "u8 list" | NamePtr "u8 list"

fun name_of :: "zitem \<Rightarrow> u8 list" where
  "name_of (EntryPtr i fileName) = fileName"
| "name_of (NamePtr name) = name"

text \<open>The C library's \<open>memcmp\<close> on the common length.\<close>

fun memcmp :: "u8 list \<Rightarrow> u8 list \<Rightarrow> int" where
  "memcmp (a # as) (b # bs) = (if a = b then memcmp as bs else int (unat a) - int (unat b))"
| "memcmp _ _ = 0"

definition hashcmpZipEntry :: "zitem \<Rightarrow> zitem \<Rightarrow> int" where
  "hashcmpZipEntry entry1 entry2 =
     (let len1 = of_nat (length (name_of entry1)); len2 = of_nat (length (name_of entry2)) :: u32
      in if len1 \<noteq> len2 then sint (len1 - len2)
         else memcmp (name_of entry1) (name_of entry2))"

definition hashcmpZipName :: "zitem \<Rightarrow> zitem \<Rightarrow> int" where
  "hashcmpZipName entry name =
     (let nameLen = of_nat (length (name_of name)); fileNameLen = of_nat (length (name_of entry)) :: u32
      in if fileNameLen \<noteq> nameLen then sint (fileNameLen - nameLen)
         else memcmp (name_of entry) (name_of name))"

definition computeHash :: "u8 list \<Rightarrow> u32" where
  "computeHash name = foldl (\<lambda>hash c. hash * 31 + ucast c) 2 name"

text \<open>The table with the entry added; the flag tells whether a duplicate was met (and logged).\<close>

definition addEntryToHashTable :: "zitem HashTable \<Rightarrow> zitem \<Rightarrow> (hash_error + zitem HashTable \<times> bool) option" where
  "addEntryToHashTable pHash pEntry =
     (case mzHashTableLookup True pHash (computeHash (name_of pEntry)) pEntry hashcmpZipEntry True of
        None \<Rightarrow> None
      | Some (Inl e) \<Rightarrow> Some (Inl e)
      | Some (Inr (pHash, found)) \<Rightarrow> Some (Inr (pHash, found \<noteq> Some pEntry)))"

text \<open>The loop of \<open>parseZipArchive\<close> that adds the entries \<open>pEntries[i]\<close>, in their order.\<close>

fun index_entries :: "zitem HashTable \<Rightarrow> zitem list \<Rightarrow> (hash_error + zitem HashTable) option" where
  "index_entries pHash [] = Some (Inr pHash)"
| "index_entries pHash (e # es) =
     (case addEntryToHashTable pHash e of
        None \<Rightarrow> None
      | Some (Inl err) \<Rightarrow> Some (Inl err)
      | Some (Inr (pHash, _)) \<Rightarrow> index_entries pHash es)"

text \<open>The table of an archive whose directory lists these names: created for \<open>numEntries\<close>, then filled.\<close>

definition zip_entries :: "u8 list list \<Rightarrow> zitem list" where
  "zip_entries names = map (\<lambda>i. EntryPtr i (names ! i)) [0..<length names]"

definition build_index :: "u8 list list \<Rightarrow> (hash_error + zitem HashTable) option" where
  "build_index names =
     (case mzHashTableCreate True (mzHashSize (of_nat (length names))) False of
        Inl e \<Rightarrow> Some (Inl e)
      | Inr pHash \<Rightarrow> index_entries pHash (zip_entries names))"

definition mzFindZipEntry :: "zitem HashTable \<Rightarrow> u8 list \<Rightarrow> (hash_error + zitem option) option" where
  "mzFindZipEntry pHash entryName =
     (case mzHashTableLookup True pHash (computeHash entryName) (NamePtr entryName) hashcmpZipName False of
        None \<Rightarrow> None
      | Some (Inl e) \<Rightarrow> Some (Inl e)
      | Some (Inr (_, found)) \<Rightarrow> Some (Inr found))"

section \<open>Comparison is equality of names\<close>

lemma memcmp_eq: "length as = length bs \<Longrightarrow> memcmp as bs = 0 \<longleftrightarrow> as = bs"
  by (induction as bs rule: list_induct2) (auto simp: word_unat_eq_iff simp del: of_nat_unat)

definition short_name :: "u8 list \<Rightarrow> bool" where
  "short_name n \<longleftrightarrow> length n < 2 ^ 32"

lemma of_nat_u32_inj:
  assumes "a < 2 ^ 32" "b < 2 ^ 32"
  shows "(of_nat a :: u32) = of_nat b \<longleftrightarrow> a = b"
proof
  assume "(of_nat a :: u32) = of_nat b"
  then have "unat (of_nat a :: u32) = unat (of_nat b :: u32)" by (rule arg_cong)
  then show "a = b" by (simp only: unat_of_nat_u32[OF assms(1)] unat_of_nat_u32[OF assms(2)])
qed simp

lemma sint_zero: "sint (w :: u32) = 0 \<longleftrightarrow> w = 0"
  by (rule signed_eq_0_iff)

lemma hashcmpZipEntry_eq:
  assumes "short_name (name_of a)" "short_name (name_of b)"
  shows "hashcmpZipEntry a b = 0 \<longleftrightarrow> name_of a = name_of b"
  using assms of_nat_u32_inj[of "length (name_of a)" "length (name_of b)"] memcmp_eq[of "name_of a" "name_of b"]
  by (auto simp: hashcmpZipEntry_def short_name_def Let_def sint_zero)

lemma hashcmpZipName_eq:
  assumes "short_name (name_of a)" "short_name (name_of b)"
  shows "hashcmpZipName a b = 0 \<longleftrightarrow> name_of a = name_of b"
  using hashcmpZipEntry_eq[OF assms] by (simp add: hashcmpZipEntry_def hashcmpZipName_def Let_def)

lemma hashcmpZipEntry_refl: "hashcmpZipEntry a a = 0"
  by (simp add: hashcmpZipEntry_def memcmp_eq)

section \<open>The index\<close>

lemma index_entries_add_all:
  "index_entries t es = mz.add_all (\<lambda>e. computeHash (name_of e)) hashcmpZipEntry t es"
  by (induction es arbitrary: t) (auto simp: addEntryToHashTable_def split: option.splits sum.splits prod.splits)

lemma create_capacity:
  assumes "0 < n" "n < 2 ^ 16"
  obtains t where "mzHashTableCreate True (mzHashSize (of_nat n)) free = Inr t" "table_ok t" "contents t = {#}" "capacity t n"
proof -
  have hs: "unat (mzHashSize (of_nat n)) = n * 8 div 5 + 1"
  proof -
    have "unat (of_nat n * 8 :: u32) = n * 8"
    proof -
      have "n * 8 < 2 ^ 32" using assms(2) by simp
      moreover have "(of_nat n * 8 :: u32) = of_nat (n * 8)" by simp
      ultimately show ?thesis by (simp only: unat_of_nat_u32)
    qed
    then have "unat ((of_nat n * 8) div 5 :: u32) = n * 8 div 5" by (simp add: unat_div)
    moreover have "n * 8 div 5 + 1 < 2 ^ 32" using assms(2) by (simp add: less_mult_imp_div_less)
    ultimately show ?thesis unfolding mzHashSize_def by (subst unat_add_lem [THEN iffD1]) auto
  qed
  have le: "n * 8 div 5 + 1 \<le> 2 ^ 17" using assms(2) by (simp add: less_mult_imp_div_less Suc_le_eq)
  obtain t :: "'a HashTable" and k where t: "mzHashTableCreate True (mzHashSize (of_nat n)) free = Inr t" "table_ok t" "contents t = {#}"
    "numEntries t = 0" "numDeadEntries t = 0" "tableSize t = 2 ^ k" "k < 31" "unat (mzHashSize (of_nat n)) \<le> 2 ^ k"
    "\<forall>j. unat (mzHashSize (of_nat n)) \<le> 2 ^ j \<longrightarrow> k \<le> j"
    by (rule create_value[of "mzHashSize (of_nat n)"]) (use hs le in auto)
  have "k \<le> 17" using t(9) hs le by simp
  then have "(2 :: nat) ^ k \<le> 2 ^ 17" by (intro power_increasing) simp_all
  then have "roomy t" using t(6) by (simp add: roomy_def INT_MAX_def)
  moreover have "n * 8 \<le> 2 ^ k * 5"
  proof -
    have "n * 8 < (n * 8 div 5 + 1) * 5" by (simp add: dividend_less_div_times)
    also have "\<dots> \<le> 2 ^ k * 5" using t(8) hs by (intro mult_le_mono1) simp
    finally show ?thesis by simp
  qed
  ultimately show thesis using t by (intro that[of t]) (auto simp: capacity_def)
qed

lemma build_index_value:
  assumes "names \<noteq> []" "length names < 2 ^ 16"
  obtains t where "build_index names = Some (Inr t)" "table_ok t"
    "\<forall>p\<in>#contents t. fst p = computeHash (name_of (snd p)) \<and> snd p \<in> set (zip_entries names)"
    "\<forall>e\<in>set (zip_entries names). \<exists>d. (computeHash (name_of e), d) \<in># contents t \<and> hashcmpZipEntry d e = 0"
proof -
  have n: "0 < length names" using assms(1) by simp
  obtain t0 :: "zitem HashTable" where t0: "mzHashTableCreate True (mzHashSize (of_nat (length names))) False = Inr t0"
    "table_ok t0" "contents t0 = {#}" "capacity t0 (length names)"
    by (rule create_capacity[OF n assms(2)])
  have cap: "capacity t0 (length (zip_entries names))" using t0(4) by (simp add: zip_entries_def)
  obtain t where "mz.add_all (\<lambda>e. computeHash (name_of e)) hashcmpZipEntry t0 (zip_entries names) = Some (Inr t)" "table_ok t"
    "\<forall>p\<in>#contents t. fst p = computeHash (name_of (snd p)) \<and> (p \<in># contents t0 \<or> snd p \<in> set (zip_entries names))"
    "\<forall>e\<in>set (zip_entries names). \<exists>d. (computeHash (name_of e), d) \<in># contents t \<and> hashcmpZipEntry d e = 0"
    using mz.add_all_correct[OF t0(2) cap, of "\<lambda>e. computeHash (name_of e)" hashcmpZipEntry] t0(3) hashcmpZipEntry_refl by auto
  then show thesis using t0 by (intro that[of t]) (auto simp: build_index_def index_entries_add_all)
qed

lemma find_entry_index:
  assumes "names \<noteq> []" "length names < 2 ^ 16" "\<forall>n\<in>set names. short_name n" "short_name name"
  shows "\<exists>t. build_index names = Some (Inr t) \<and>
    (if name \<in> set names
     then \<exists>i<length names. names ! i = name \<and> mzFindZipEntry t name = Some (Inr (Some (EntryPtr i name)))
     else mzFindZipEntry t name = Some (Inr None))"
proof -
  obtain t where t: "build_index names = Some (Inr t)" "table_ok t"
    "\<forall>p\<in>#contents t. fst p = computeHash (name_of (snd p)) \<and> snd p \<in> set (zip_entries names)"
    "\<forall>e\<in>set (zip_entries names). \<exists>d. (computeHash (name_of e), d) \<in># contents t \<and> hashcmpZipEntry d e = 0"
    by (rule build_index_value[OF assms(1,2)])
  have ent: "\<exists>i<length names. d = EntryPtr i (names ! i) \<and> names ! i = name_of d" if "(h, d) \<in># contents t" for h d
    using t(3) that by (force simp: zip_entries_def)
  have cmp: "hashcmpZipName d (NamePtr name) = 0 \<longleftrightarrow> name_of d = name" if "(h, d) \<in># contents t" for h d
    using ent[OF that] assms(3,4) by (subst hashcmpZipName_eq) auto
  show ?thesis
  proof (cases "name \<in> set names")
    case True
    then obtain i where i: "i < length names" "names ! i = name" by (auto simp: in_set_conv_nth)
    then have "EntryPtr i name \<in> set (zip_entries names)" by (auto simp: zip_entries_def)
    then obtain d where d: "(computeHash name, d) \<in># contents t" "hashcmpZipEntry d (EntryPtr i name) = 0" using t(4) by fastforce
    have "name_of d = name" using ent[OF d(1)] d(2) assms(3,4) by (subst (asm) hashcmpZipEntry_eq) auto
    then obtain d' where "mzHashTableLookup True t (computeHash name) (NamePtr name) hashcmpZipName False = Some (Inr (t, Some d'))"
      "(computeHash name, d') \<in># contents t" "hashcmpZipName d' (NamePtr name) = 0"
      using mz.look_hit[OF t(2) d(1), of hashcmpZipName "NamePtr name" False] cmp[OF d(1)] by auto
    moreover from this obtain j where "j < length names" "d' = EntryPtr j name" "names ! j = name"
      using ent cmp by fastforce
    ultimately show ?thesis using t(1) True by (auto simp: mzFindZipEntry_def)
  next
    case False
    have "\<forall>d. (computeHash name, d) \<in># contents t \<longrightarrow> hashcmpZipName d (NamePtr name) \<noteq> 0"
      using cmp ent False by (metis nth_mem)
    then show ?thesis using mz.look_miss[OF t(2)] t(1) False by (auto simp: mzFindZipEntry_def)
  qed
qed

section \<open>Properties\<close>

text \<open>
  For every archive directory of 1 to 65535 names, building the index terminates without error, and looking
  up any name in it returns an entry of that name if the directory has one and nothing otherwise.
\<close>

lemma mzFindZipEntry_correct:
  assumes "names \<noteq> []" "length names < 2 ^ 16" "\<forall>n\<in>set names. short_name n" "short_name name"
  shows "\<exists>t. build_index names = Some (Inr t) \<and>
    (if name \<in> set names
     then \<exists>i<length names. names ! i = name \<and> mzFindZipEntry t name = Some (Inr (Some (EntryPtr i name)))
     else mzFindZipEntry t name = Some (Inr None))"
  using assms by (rule find_entry_index)

theorem mzFindZipEntry_witness:
  "\<exists>t. build_index [[65, 66], [67]] = Some (Inr t) \<and>
    (if [67 :: u8] \<in> set [[65, 66], [67]]
     then \<exists>i<length [[65, 66], [67 :: u8]]. [[65, 66], [67]] ! i = [67 :: u8] \<and> mzFindZipEntry t [67] = Some (Inr (Some (EntryPtr i [67])))
     else mzFindZipEntry t [67] = Some (Inr None))"
  by (rule mzFindZipEntry_correct) (simp_all add: short_name_def)

end
