(* ===== verification/Zip_Parse.thy ===== *)
theory Zip_Parse
  imports Mapped Minzip_Zip "HOL-Library.Monad_Syntax" "HOL-Library.List_Lexorder" "HOL-Library.Multiset"
begin

text \<open>
  The parser of the central directory of a Zip archive (\<open>parseZipArchive\<close>, \<open>mzOpenZipArchive\<close> and \<open>mzCloseZipArchive\<close> of
  \<^verbatim>\<open>minzip/Zip.c\<close>). The file is mapped at an address of 32 bits; pointers into it are offsets, and an access outside the file
  has no value. The arithmetic on addresses and sizes is that of the code, modulo \<open>2\<^sup>3\<^sup>2\<close> where the code computes with
  unsigned integers.
\<close>

unbundle bit_operations_syntax

section \<open>The code\<close>

definition CENSIG :: u32 where "CENSIG = 0x02014b50"
definition ENDSIG :: u32 where "ENDSIG = 0x06054b50"
definition LOCSIG :: u32 where "LOCSIG = 0x04034b50"

definition PATH_MAX :: nat where "PATH_MAX = 4096"

definition get2LE :: "u8 list \<Rightarrow> int \<Rightarrow> u32 option" where
  "get2LE mem p =
     do { a \<leftarrow> deref mem p;
          b \<leftarrow> deref mem (p + 1);
          Some (ucast a OR push_bit 8 (ucast b)) }"

definition get4LE :: "u8 list \<Rightarrow> int \<Rightarrow> u32 option" where
  "get4LE mem p =
     do { a \<leftarrow> deref mem p;
          b \<leftarrow> deref mem (p + 1);
          c \<leftarrow> deref mem (p + 2);
          d \<leftarrow> deref mem (p + 3);
          Some (ucast a OR push_bit 8 (ucast b) OR push_bit 16 (ucast c) OR push_bit 24 (ucast d)) }"

text \<open>
  An entry; \<open>fileName\<close> is the pointer into the file and \<open>name\<close> the bytes it points at. A 32-bit \<open>long\<close> takes the
  signed value of the unsigned number read.
\<close>

record ZipEntry =
  name :: "u8 list"
  fileName :: int
  offset :: int
  compLen :: int
  uncompLen :: int
  compression :: int
  modTime :: int
  crc32 :: int
  versionMadeBy :: int
  externalFileAttributes :: int

definition validFilename :: "u8 list \<Rightarrow> bool" where
  "validFilename fname \<longleftrightarrow>
     \<not> length fname \<ge> PATH_MAX \<and> \<not> list_ex (\<lambda>c. uint c < 32 \<or> uint c \<ge> 127) fname"

text \<open>The C library's \<open>strncmp\<close> on two arrays of \<open>n\<close> bytes.\<close>

fun strncmp :: "u8 list \<Rightarrow> u8 list \<Rightarrow> int" where
  "strncmp (a # as) (b # bs) = (if a \<noteq> b then uint a - uint b else if a = 0 then 0 else strncmp as bs)"
| "strncmp _ _ = 0"

definition name_diff :: "u8 list \<Rightarrow> u8 list \<Rightarrow> int" where
  "name_diff entry fname =
     (let diffLen = (if length entry < length fname then length entry else length fname);
          diff = strncmp (take diffLen entry) (take diffLen fname)
      in if diff = 0 then sint (of_nat (length entry) - of_nat (length fname) :: u32) else diff)"

text \<open>The binary search; the result is \<open>high\<close> after the loop.\<close>

function search_loop :: "ZipEntry list \<Rightarrow> u8 list \<Rightarrow> int \<Rightarrow> int \<Rightarrow> int" where
  "search_loop es fname low high =
     (if low \<le> high
      then let mid = low + (high - low) div 2;
               diff = name_diff (name (es ! nat mid)) fname
           in if diff < 0 then search_loop es fname (mid + 1) high
              else if diff > 0 then search_loop es fname low (mid - 1)
              else mid
      else high)"
  by pat_completeness auto
termination by (relation "measure (\<lambda>(es, f, low, high). nat (high - low + 1))") auto

declare search_loop.simps [simp del]

text \<open>
  The place of an entry among the \<open>i\<close> entries that are there already, and making room by \<open>memmove\<close>. The assertion
  \<open>target <= i\<close> is the \<open>None\<close> case.
\<close>

definition insert_entry :: "ZipEntry list \<Rightarrow> ZipEntry \<Rightarrow> ZipEntry list option" where
  "insert_entry es e =
     (let i = length es in
      if i > 0 then
        let target = nat (search_loop es (name e) 0 (int i - 1) + 1)
        in if target \<le> i then Some (take target es @ e # drop target es) else None
      else Some [e])"

text \<open>
  \<open>safe_add\<close> belongs to the library \<^verbatim>\<open>safe_iop\<close>; its two uses are the arguments \<open>add_ptr\<close> (on \<open>uintptr_t\<close>, with the sum) and
  \<open>add_off\<close> (on \<open>loff_t\<close>, the test only).
\<close>

definition local_header ::
  "(u32 \<Rightarrow> u32 \<Rightarrow> u32 option) \<Rightarrow> u32 \<Rightarrow> u8 list \<Rightarrow> u32 \<Rightarrow> int option option" where
  "local_header add_ptr addr mem localHdrOffset =
     (case add_ptr addr localHdrOffset of
        None \<Rightarrow> Some None
      | Some localHdr \<Rightarrow>
          if localHdr + 30 > addr + of_nat (length mem) then Some None
          else Some (Some (uint localHdr - uint addr)))"

definition parse_entry ::
  "(u32 \<Rightarrow> u32 \<Rightarrow> u32 option) \<Rightarrow> (int \<Rightarrow> int \<Rightarrow> bool) \<Rightarrow> u32 \<Rightarrow> u8 list \<Rightarrow> int \<Rightarrow> (ZipEntry \<times> int) option option" where
  "parse_entry add_ptr add_off addr mem ptr =
     (if ptr + 46 > int (length mem) then Some None
      else do {
        sig \<leftarrow> get4LE mem ptr;
        if sig \<noteq> CENSIG then Some None
        else do {
        localHdrOffset \<leftarrow> get4LE mem (ptr + 42);
        fileNameLen \<leftarrow> get2LE mem (ptr + 28);
        extraLen \<leftarrow> get2LE mem (ptr + 30);
        commentLen \<leftarrow> get2LE mem (ptr + 32);
        if ptr + 46 + uint fileNameLen > int (length mem) then Some None
        else do {
        fname \<leftarrow> piece mem (ptr + 46) (unat fileNameLen);
        if \<not> validFilename fname then Some None
        else do {
        comp \<leftarrow> get4LE mem (ptr + 20);
        uncomp \<leftarrow> get4LE mem (ptr + 24);
        how \<leftarrow> get2LE mem (ptr + 10);
        time \<leftarrow> get4LE mem (ptr + 12);
        crc \<leftarrow> get4LE mem (ptr + 16);
        made_by \<leftarrow> get2LE mem (ptr + 4);
        if made_by AND 0xff00 \<noteq> 0 \<and> made_by AND 0xff00 \<noteq> push_bit 8 3 then Some None
        else do {
        attributes \<leftarrow> get4LE mem (ptr + 38);
        hdr \<leftarrow> local_header add_ptr addr mem localHdrOffset;
        case hdr of None \<Rightarrow> Some None | Some localHdr \<Rightarrow> do {
        sig \<leftarrow> get4LE mem localHdr;
        if sig \<noteq> LOCSIG then Some None
        else do {
        nam \<leftarrow> get2LE mem (localHdr + 26);
        ext \<leftarrow> get2LE mem (localHdr + 28);
        let off = uint (localHdrOffset + 30 + nam + ext);
        if \<not> add_off off (sint comp) then Some None
        else if (word_of_int off :: u32) + comp > of_nat (length mem) then Some None
        else Some (Some (\<lparr>name = fname, fileName = ptr + 46, offset = off, compLen = sint comp, uncompLen = sint uncomp,
               compression = uint how, modTime = sint time, crc32 = sint crc, versionMadeBy = uint made_by,
               externalFileAttributes = sint attributes\<rparr>,
             ptr + 46 + uint fileNameLen + uint extraLen + uint commentLen)) } } } } } } })"

text \<open>The loop over the directory: \<open>n\<close> entries are left, \<open>es\<close> are the entries so far in their sorted order.\<close>

fun parse_entries ::
  "(u32 \<Rightarrow> u32 \<Rightarrow> u32 option) \<Rightarrow> (int \<Rightarrow> int \<Rightarrow> bool) \<Rightarrow> u32 \<Rightarrow> u8 list \<Rightarrow> nat \<Rightarrow> int \<Rightarrow> ZipEntry list \<Rightarrow> ZipEntry list option option" where
  "parse_entries add_ptr add_off addr mem 0 ptr es = Some (Some es)"
| "parse_entries add_ptr add_off addr mem (Suc n) ptr es =
     do { parsed \<leftarrow> parse_entry add_ptr add_off addr mem ptr;
          case parsed of
            None \<Rightarrow> Some None
          | Some (e, ptr) \<Rightarrow> do {
              es \<leftarrow> insert_entry es e;
              parse_entries add_ptr add_off addr mem n ptr es } }"

text \<open>The backward search for the end-of-central-directory record, with \<open>n\<close> candidates left.\<close>

fun find_eocd :: "u8 list \<Rightarrow> nat \<Rightarrow> nat option option" where
  "find_eocd mem 0 = Some None"
| "find_eocd mem (Suc ptr) =
     do { b \<leftarrow> deref mem (int ptr);
          if uint b = 0x50 then do {
            sig \<leftarrow> get4LE mem (int ptr);
            if sig = ENDSIG then Some (Some ptr) else find_eocd mem ptr }
          else find_eocd mem ptr }"

record ZipArchive =
  arc_numEntries :: u32
  arc_pEntries :: "ZipEntry list"
  arc_pHash :: "zitem HashTable option"

text \<open>
  The archive, or \<open>Some None\<close> for the return value \<open>false\<close>. \<open>ok\<close> tells whether the two allocations succeed.
\<close>

definition parseZipArchive ::
  "(u32 \<Rightarrow> u32 \<Rightarrow> u32 option) \<Rightarrow> (int \<Rightarrow> int \<Rightarrow> bool) \<Rightarrow> (nat \<Rightarrow> bool) \<Rightarrow> u32 \<Rightarrow> u8 list \<Rightarrow> ZipArchive option option" where
  "parseZipArchive add_ptr add_off ok addr mem =
     do { val \<leftarrow> get4LE mem 0;
          if val = ENDSIG then Some None
          else if val \<noteq> LOCSIG then Some None
          else do {
          found \<leftarrow> find_eocd mem (length mem - 22 + 1);
          case found of None \<Rightarrow> Some None | Some ptr \<Rightarrow> do {
          num \<leftarrow> get2LE mem (int ptr + 8);
          cdOffset \<leftarrow> get4LE mem (int ptr + 16);
          if num = 0 \<or> uint cdOffset \<ge> int (length mem) then Some None
          else if \<not> ok 0 \<or> \<not> ok 1 then Some None
          else case mzHashTableCreate True (mzHashSize num) False of Inl _ \<Rightarrow> None | Inr pHash \<Rightarrow> do {
          parsed \<leftarrow> parse_entries add_ptr add_off addr mem (unat num) (uint cdOffset) [];
          case parsed of None \<Rightarrow> Some None | Some es \<Rightarrow>
          (case index_entries pHash (zip_entries (map name es)) of
             Some (Inr pHash) \<Rightarrow> Some (Some \<lparr>arc_numEntries = num, arc_pEntries = es, arc_pHash = Some pHash\<rparr>)
           | _ \<Rightarrow> None) } } } }"

text \<open>\<open>mzCloseZipArchive\<close>, with the items it frees through the table, and \<open>mzOpenZipArchive\<close>; a failed archive is closed.\<close>

definition mzCloseZipArchive :: "ZipArchive \<Rightarrow> ZipArchive \<times> zitem list" where
  "mzCloseZipArchive pArchive =
     (pArchive\<lparr>arc_pHash := None, arc_pEntries := []\<rparr>, mzHashTableFree (arc_pHash pArchive))"

definition mzOpenZipArchive ::
  "(u32 \<Rightarrow> u32 \<Rightarrow> u32 option) \<Rightarrow> (int \<Rightarrow> int \<Rightarrow> bool) \<Rightarrow> (nat \<Rightarrow> bool) \<Rightarrow> u32 \<Rightarrow> u8 list \<Rightarrow> (int \<times> ZipArchive option) option" where
  "mzOpenZipArchive add_ptr add_off ok addr mem =
     (if length mem < 22 then Some (- 1, None)
      else do {
        parsed \<leftarrow> parseZipArchive add_ptr add_off ok addr mem;
        case parsed of None \<Rightarrow> Some (- 1, None) | Some pArchive \<Rightarrow> Some (0, Some pArchive) })"

text \<open>What \<^verbatim>\<open>safe_iop\<close> documents for the two uses of \<open>safe_add\<close>.\<close>

definition safe_add_spec :: "(u32 \<Rightarrow> u32 \<Rightarrow> u32 option) \<Rightarrow> (int \<Rightarrow> int \<Rightarrow> bool) \<Rightarrow> bool" where
  "safe_add_spec add_ptr add_off \<longleftrightarrow>
     (\<forall>a b. add_ptr a b = (if unat a + unat b < 2 ^ 32 then Some (a + b) else None)) \<and>
     (\<forall>a b. add_off a b \<longleftrightarrow> - (2 ^ 63) \<le> a + b \<and> a + b < 2 ^ 63)"

section \<open>The order of names\<close>

lemma strncmp_take: "strncmp (take (min (length a) (length b)) a) (take (min (length a) (length b)) b) = strncmp a b"
proof (induction a arbitrary: b)
  case (Cons x a)
  then show ?case by (cases b) auto
qed simp

lemma strncmp_less: "0 \<notin> set a \<Longrightarrow> strncmp a b < 0 \<or> strncmp a b = 0 \<and> length a < length b \<longleftrightarrow> a < b"
proof (induction a arbitrary: b)
  case Nil
  then show ?case by (cases b) auto
next
  case (Cons x a)
  show ?case
  proof (cases b)
    case (Cons y b')
    have "uint x = uint y \<longleftrightarrow> x = y" by (simp add: word_uint_eq_iff)
    then show ?thesis using Cons.prems Cons.IH[of b'] Cons by (auto simp: word_less_def)
  qed simp
qed

lemma strncmp_eq: "0 \<notin> set a \<Longrightarrow> strncmp a b = 0 \<and> length a = length b \<longleftrightarrow> a = b"
proof (induction a arbitrary: b)
  case Nil
  then show ?case by (cases b) auto
next
  case (Cons x a)
  show ?case
  proof (cases b)
    case (Cons y b')
    have "uint x = uint y \<longleftrightarrow> x = y" by (simp add: word_uint_eq_iff)
    then show ?thesis using Cons.prems Cons.IH[of b'] Cons by auto
  qed simp
qed

lemma sint_diff:
  assumes "m < 2 ^ 31" "n < 2 ^ 31"
  shows "sint (of_nat m - of_nat n :: u32) = int m - int n"
proof -
  have "(of_nat m - of_nat n :: u32) = word_of_int (int m - int n)" by simp
  then have "sint (of_nat m - of_nat n :: u32) = signed_take_bit 31 (int m - int n)" by (simp only: signed_of_int) simp
  also have "\<dots> = int m - int n" using assms by (intro signed_take_bit_int_eq_self) auto
  finally show ?thesis .
qed

lemma valid_name: "validFilename n \<Longrightarrow> 0 \<notin> set n" "validFilename n \<Longrightarrow> length n < 2 ^ 31"
  by (auto simp: validFilename_def list_ex_iff PATH_MAX_def)

text \<open>The comparison of the binary search is the lexicographic order of the names.\<close>

lemma name_diff_order:
  assumes "validFilename a" "validFilename b"
  shows "name_diff a b < 0 \<longleftrightarrow> a < b" "name_diff a b = 0 \<longleftrightarrow> a = b" "name_diff a b > 0 \<longleftrightarrow> b < a"
proof -
  have "(if length a < length b then length a else length b) = min (length a) (length b)" by simp
  then have d: "name_diff a b = (if strncmp a b = 0 then int (length a) - int (length b) else strncmp a b)"
    unfolding name_diff_def Let_def using strncmp_take[of a b] sint_diff[OF valid_name(2)[OF assms(1)] valid_name(2)[OF assms(2)]] by simp
  note z = valid_name(1)[OF assms(1)]
  show lt: "name_diff a b < 0 \<longleftrightarrow> a < b" using strncmp_less[OF z, of b] unfolding d by auto
  show eq: "name_diff a b = 0 \<longleftrightarrow> a = b" using strncmp_eq[OF z, of b] unfolding d by auto
  show "name_diff a b > 0 \<longleftrightarrow> b < a" using lt eq by (cases a b rule: linorder_cases) auto
qed

section \<open>Sorted insertion\<close>

abbreviation names :: "ZipEntry list \<Rightarrow> u8 list list" where "names es \<equiv> map name es"

definition valid_names :: "ZipEntry list \<Rightarrow> bool" where
  "valid_names es \<longleftrightarrow> list_all (\<lambda>e. validFilename (name e)) es"

text \<open>
  The loop keeps every entry below \<open>low\<close> at most equal to the name and every entry above \<open>high\<close> greater, so that the
  new entry fits after its result.
\<close>

lemma search_loop_splits:
  assumes "sorted (names es)" "valid_names es" "validFilename n" "0 \<le> low" "high < int (length es)" "low \<le> high + 1"
    and "\<forall>j < nat low. name (es ! j) \<le> n" "\<forall>j. high < int j \<and> j < length es \<longrightarrow> n \<le> name (es ! j)"
  shows "let h = search_loop es n low high in - 1 \<le> h \<and> h < int (length es) \<and>
    (\<forall>j < nat (h + 1). name (es ! j) \<le> n) \<and> (\<forall>j. h < int j \<and> j < length es \<longrightarrow> n \<le> name (es ! j))"
  using assms
proof (induction es n low high rule: search_loop.induct)
  case (1 es n low high)
  show ?case
  proof (cases "low \<le> high")
    case False
    then show ?thesis using "1.prems" by (subst (1) search_loop.simps) auto
  next
    case True
    define mid where "mid = low + (high - low) div 2"
    have m: "low \<le> mid" "mid \<le> high" using True by (auto simp: mid_def)
    let ?e = "name (es ! nat mid)"
    have ml: "nat mid < length es" "0 \<le> mid" using m "1.prems"(4,5) by linarith+
    have ve: "validFilename ?e" using "1.prems"(2) ml by (simp add: valid_names_def list_all_length)
    note cmp = name_diff_order[OF ve "1.prems"(3)]
    have below: "name (es ! j) \<le> ?e" if "j \<le> nat mid" for j
      using sorted_nth_mono[OF "1.prems"(1), of j "nat mid"] that ml by simp
    have above: "?e \<le> name (es ! j)" if "nat mid \<le> j" "j < length es" for j
      using sorted_nth_mono[OF "1.prems"(1), of "nat mid" j] that ml by simp
    consider "name_diff ?e n < 0" | "name_diff ?e n > 0" | "name_diff ?e n = 0" by linarith
    then show ?thesis
    proof cases
      case 1
      then have en: "?e \<le> n" using cmp by simp
      have "name (es ! j) \<le> n" if "j < nat (mid + 1)" for j by (rule order_trans[OF below en]) (use that ml in linarith)
      with "1.IH"(1)[OF True mid_def refl] 1 "1.prems" m ml show ?thesis
        by (subst (1) search_loop.simps) (simp add: True mid_def[symmetric])
    next
      case 2
      then have en: "n \<le> ?e" using cmp by simp
      have "n \<le> name (es ! j)" if "mid - 1 < int j" "j < length es" for j
        by (rule order_trans[OF en above]) (use that ml in linarith)+
      with "1.IH"(2)[OF True mid_def refl] 2 "1.prems" m ml show ?thesis
        by (subst (1) search_loop.simps) (simp add: True mid_def[symmetric])
    next
      case 3
      then have "?e = n" using cmp by simp
      then have "\<forall>j < nat (mid + 1). name (es ! j) \<le> n" "\<forall>j. mid < int j \<and> j < length es \<longrightarrow> n \<le> name (es ! j)"
        using below above ml by auto
      then show ?thesis using m ml 3 by (subst (1) search_loop.simps) (simp add: True mid_def[symmetric])
    qed
  qed
qed


lemma sorted_insert_at:
  assumes "sorted xs" "t \<le> length xs" "\<forall>j<t. xs ! j \<le> x" "\<forall>j. t \<le> j \<and> j < length xs \<longrightarrow> x \<le> xs ! j"
  shows "sorted (take t xs @ x # drop t xs)"
proof -
  have "y \<le> x" if "y \<in> set (take t xs)" for y
    using assms(3) that by (auto simp: in_set_conv_nth)
  moreover have "x \<le> y" if "y \<in> set (drop t xs)" for y
    using assms(4) that by (auto simp: in_set_conv_nth)
  ultimately show ?thesis using assms(1) by (fastforce simp: sorted_append sorted_wrt_take sorted_wrt_drop intro: order_trans)
qed

lemma insert_entry_sorted:
  assumes "sorted (names es)" "valid_names es" "validFilename (name e)"
  obtains es' where "insert_entry es e = Some es'" "sorted (names es')" "valid_names es'" "mset es' = add_mset e (mset es)"
proof (cases "es = []")
  case True
  then show ?thesis using assms(3) by (intro that[of "[e]"]) (simp_all add: insert_entry_def valid_names_def)
next
  case False
  define h where "h = search_loop es (name e) 0 (int (length es) - 1)"
  have v: "\<forall>j. int (length es) - 1 < int j \<and> j < length es \<longrightarrow> name e \<le> name (es ! j)" by (intro allI impI) linarith
  have s: "- 1 \<le> h" "h < int (length es)" "\<forall>j < nat (h + 1). name (es ! j) \<le> name e"
    "\<forall>j. h < int j \<and> j < length es \<longrightarrow> name e \<le> name (es ! j)"
    using search_loop_splits[OF assms(1,2,3) order_refl _ _ _ v] False by (auto simp: h_def Let_def)
  define t where "t = nat (h + 1)"
  have t: "t \<le> length es" using s(1,2) by (simp add: t_def)
  have "sorted (take t (names es) @ name e # drop t (names es))"
    by (rule sorted_insert_at[OF assms(1)]) (use s t in \<open>auto simp: t_def\<close>)
  then have "sorted (names (take t es @ e # drop t es))" by (simp add: take_map drop_map)
  moreover have "mset (take t es @ e # drop t es) = add_mset e (mset es)"
    by (metis append_take_drop_id mset.simps(2) mset_append union_mset_add_mset_right)
  moreover have "valid_names (take t es @ e # drop t es)"
    using assms(2,3) by (auto simp: valid_names_def list_all_iff dest: in_set_takeD in_set_dropD)
  moreover have "insert_entry es e = Some (take t es @ e # drop t es)"
    using False t by (simp add: insert_entry_def h_def[symmetric] t_def Let_def)
  ultimately show ?thesis using that by blast
qed

section \<open>The directory\<close>

text \<open>The entries of the directory in the order of the file.\<close>

fun directory ::
  "(u32 \<Rightarrow> u32 \<Rightarrow> u32 option) \<Rightarrow> (int \<Rightarrow> int \<Rightarrow> bool) \<Rightarrow> u32 \<Rightarrow> u8 list \<Rightarrow> nat \<Rightarrow> int \<Rightarrow> ZipEntry list option option" where
  "directory add_ptr add_off addr mem 0 ptr = Some (Some [])"
| "directory add_ptr add_off addr mem (Suc n) ptr =
     do { parsed \<leftarrow> parse_entry add_ptr add_off addr mem ptr;
          case parsed of
            None \<Rightarrow> Some None
          | Some (e, ptr) \<Rightarrow> do {
              ds \<leftarrow> directory add_ptr add_off addr mem n ptr;
              Some (map_option (Cons e) ds) } }"

lemma parse_entry_valid:
  assumes "parse_entry add_ptr add_off addr mem ptr = Some (Some (e, ptr'))"
  shows "validFilename (name e)"
  using assms unfolding parse_entry_def Let_def
  by (auto elim!: bind_SomeE split: if_splits option.splits)

text \<open>Sorting while parsing gives the entries of the directory, sorted.\<close>

lemma parse_entries_directory:
  assumes "sorted (names es)" "valid_names es"
  shows "case directory add_ptr add_off addr mem n ptr of
      None \<Rightarrow> parse_entries add_ptr add_off addr mem n ptr es = None
    | Some None \<Rightarrow> parse_entries add_ptr add_off addr mem n ptr es = Some None
    | Some (Some ds) \<Rightarrow> (\<exists>es'. parse_entries add_ptr add_off addr mem n ptr es = Some (Some es') \<and>
        sorted (names es') \<and> valid_names es' \<and> mset es' = mset es + mset ds)"
  using assms
proof (induction n arbitrary: ptr es)
  case (Suc n)
  consider "parse_entry add_ptr add_off addr mem ptr = None" | "parse_entry add_ptr add_off addr mem ptr = Some None"
    | e p where "parse_entry add_ptr add_off addr mem ptr = Some (Some (e, p))" by (metis option.exhaust prod.exhaust)
  then show ?case
  proof cases
    case 3
    obtain es' where es': "insert_entry es e = Some es'" "sorted (names es')" "valid_names es'" "mset es' = add_mset e (mset es)"
      by (rule insert_entry_sorted[OF Suc.prems parse_entry_valid[OF 3]])
    show ?thesis using Suc.IH[OF es'(2,3), of p] 3 es'(1,4)
      by (auto split: option.splits)
  qed simp_all
qed simp


section \<open>Little-endian numbers and the end-of-central-directory record\<close>

lemma get4LE_bytes:
  assumes "take 4 (drop q mem) = [a, b, c, d]"
  shows "get4LE mem (int q) = Some (be32 d c b a)"
proof -
  have l: "q + 4 \<le> length mem" using arg_cong[OF assms, of length] by simp
  have "take 4 (drop q mem) = map (\<lambda>i. mem ! (q + i)) [0..<4]" using l by (intro nth_equalityI) auto
  also have "[0..<4] = [0, 1, 2, 3 :: nat]" by (simp add: upt_rec)
  finally have n: "mem ! q = a" "mem ! (q + 1) = b" "mem ! (q + 2) = c" "mem ! (q + 3) = d" using assms by simp_all
  have i: "int q + 1 = int (q + 1)" "int q + 2 = int (q + 2)" "int q + 3 = int (q + 3)" by simp_all
  have "deref mem (int q) = Some a" "deref mem (int (q + 1)) = Some b" "deref mem (int (q + 2)) = Some c" "deref mem (int (q + 3)) = Some d"
    using l n by (simp_all add: deref_nth del: of_nat_add of_nat_Suc)
  then show ?thesis unfolding get4LE_def i by (simp add: be32_def or.assoc or.commute or.left_commute)
qed

lemma take_4_cases:
  assumes "q + 4 \<le> length mem"
  obtains a b c d where "take 4 (drop q mem) = [a, b, c, d]"
proof -
  have "length (take 4 (drop q mem)) = 4" using assms by simp
  then show thesis using that by (auto simp: numeral_eq_Suc length_Suc_conv simp del: length_take)
qed

lemma get4LE_ENDSIG:
  assumes "q + 4 \<le> length mem"
  shows "get4LE mem (int q) = Some ENDSIG \<longleftrightarrow> take 4 (drop q mem) = [0x50, 0x4b, 0x05, 0x06]"
    and "\<exists>w. get4LE mem (int q) = Some w"
    and "get4LE mem (int q) = Some ENDSIG \<Longrightarrow> deref mem (int q) = Some 0x50"
proof -
  obtain a b c d where t: "take 4 (drop q mem) = [a, b, c, d]" by (rule take_4_cases[OF assms])
  note g = get4LE_bytes[OF t]
  have e: "be32 0x06 0x05 0x4b 0x50 = ENDSIG" by code_simp
  have "be32 d c b a = ENDSIG \<longleftrightarrow> [d, c, b, a] = [0x06, 0x05, 0x4b, 0x50]"
    using be32_bytes_be32[of d c b a] be32_bytes_be32[of "0x06" "0x05" "0x4b" "0x50"] e by (metis list.inject)
  then show iff: "get4LE mem (int q) = Some ENDSIG \<longleftrightarrow> take 4 (drop q mem) = [0x50, 0x4b, 0x05, 0x06]" using g t by auto
  show "\<exists>w. get4LE mem (int q) = Some w" using g by blast
  have "mem ! q = hd (take 4 (drop q mem))" using assms by (simp add: hd_drop_conv_nth)
  then show "get4LE mem (int q) = Some ENDSIG \<Longrightarrow> deref mem (int q) = Some 0x50"
    using iff assms by (simp add: deref_nth)
qed

text \<open>The backward search finds the last record.\<close>

lemma find_eocd_last:
  assumes "n + 3 \<le> length mem" "e < n" "take 4 (drop e mem) = [0x50, 0x4b, 0x05, 0x06]"
    and "\<forall>q. e < q \<and> q < n \<longrightarrow> take 4 (drop q mem) \<noteq> [0x50, 0x4b, 0x05, 0x06]"
  shows "find_eocd mem n = Some (Some e)"
  using assms(1,2,4)
proof (induction n)
  case (Suc n)
  have l: "n + 4 \<le> length mem" using Suc.prems(1) by simp
  obtain b where b: "deref mem (int n) = Some b" using l by (simp add: deref_nth)
  obtain w where w: "get4LE mem (int n) = Some w" using get4LE_ENDSIG(2)[OF l] by blast
  show ?case
  proof (cases "n = e")
    case True
    then have "get4LE mem (int n) = Some ENDSIG" using get4LE_ENDSIG(1)[OF l] assms(3) by simp
    with get4LE_ENDSIG(3)[OF l this] True show ?thesis by simp
  next
    case False
    then have "find_eocd mem n = Some (Some e)" using Suc by simp
    moreover have "w \<noteq> ENDSIG" using get4LE_ENDSIG(1)[OF l] w Suc.prems(2,3) False by auto
    ultimately show ?thesis using b w by simp
  qed
qed simp


lemma get2LE_bytes:
  assumes "take 2 (drop q mem) = [a, b]"
  shows "get2LE mem (int q) = Some (be32 0 0 b a)"
proof -
  have l: "q + 2 \<le> length mem" using arg_cong[OF assms, of length] by simp
  have "take 2 (drop q mem) = map (\<lambda>i. mem ! (q + i)) [0..<2]" using l by (intro nth_equalityI) auto
  also have "[0..<2] = [0, 1 :: nat]" by (simp add: upt_rec)
  finally have n: "mem ! q = a" "mem ! (q + 1) = b" using assms by simp_all
  have i: "int q + 1 = int (q + 1)" by simp
  have "deref mem (int q) = Some a" "deref mem (int (q + 1)) = Some b" using l n by (simp_all add: deref_nth del: of_nat_add of_nat_Suc)
  then show ?thesis unfolding get2LE_def i by (simp add: be32_def or.commute)
qed

lemma get2LE_less: "get2LE mem p = Some w \<Longrightarrow> unat w < 2 ^ 16"
proof -
  assume "get2LE mem p = Some w"
  then obtain a b :: u8 where "w = ucast a OR push_bit 8 (ucast b)" unfolding get2LE_def by (elim bind_SomeE) (metis option.inject)
  then have "w = be32 0 0 b a" by (simp add: be32_def or.commute)
  then have "unat w = unat b * 256 + unat a" by (simp add: unat_be32 be_val_Cons)
  then show ?thesis using u8_less[of a] u8_less[of b] by simp
qed

end
