(* ===== verification/Zip_Archive.thy ===== *)
theory Zip_Archive
  imports Zip_Parse
begin

text \<open>
  Opened Zip archives: what \<open>mzOpenZipArchive\<close> returns is the directory named by the last end-of-central-directory record,
  sorted by name, with an index over it, and the data of the entries lies in the file as far as the tests of the parser reach.
\<close>

section \<open>Opening\<close>

lemma directory_length: "directory add_ptr add_off addr mem n ptr = Some (Some ds) \<Longrightarrow> length ds = n"
  by (induction n arbitrary: ptr ds) (auto elim!: bind_SomeE split: option.splits)

text \<open>What an opened archive is made from: the last record of the file, and the directory that it names.\<close>

lemma parseZipArchive_opened:
  assumes "parseZipArchive add_ptr add_off ok addr mem = Some (Some a)"
  obtains ptr num cdOffset ds where "find_eocd mem (length mem - 22 + 1) = Some (Some ptr)"
    "get2LE mem (int ptr + 8) = Some num" "get4LE mem (int ptr + 16) = Some cdOffset"
    "directory add_ptr add_off addr mem (unat num) (uint cdOffset) = Some (Some ds)"
    "num \<noteq> 0" "sorted (names (arc_pEntries a))" "mset (arc_pEntries a) = mset ds" "valid_names (arc_pEntries a)"
    "build_index (names (arc_pEntries a)) = map_option Inr (arc_pHash a)" "arc_numEntries a = num" "arc_pHash a \<noteq> None"
proof -
  from assms obtain ptr num cdOffset pHash es t where p: "find_eocd mem (length mem - 22 + 1) = Some (Some ptr)"
    "get2LE mem (int ptr + 8) = Some num" "get4LE mem (int ptr + 16) = Some cdOffset" "num \<noteq> 0"
    "mzHashTableCreate True (mzHashSize num) False = Inr pHash"
    "parse_entries add_ptr add_off addr mem (unat num) (uint cdOffset) [] = Some (Some es)"
    "index_entries pHash (zip_entries (map name es)) = Some (Inr t)"
    "a = \<lparr>arc_numEntries = num, arc_pEntries = es, arc_pHash = Some t\<rparr>"
    unfolding parseZipArchive_def
    by (auto elim!: bind_SomeE split: if_splits option.splits sum.splits)
  have "sorted (names [])" "valid_names []" by (simp_all add: valid_names_def)
  from parse_entries_directory[OF this, of add_ptr add_off addr mem "unat num" "uint cdOffset"] p(6)
  obtain ds where ds: "directory add_ptr add_off addr mem (unat num) (uint cdOffset) = Some (Some ds)"
    "sorted (names es)" "valid_names es" "mset es = mset ds" by (auto split: option.splits)
  have "length es = unat num" using directory_length[OF ds(1)] arg_cong[OF ds(4), of size] by simp
  then have "of_nat (length (names es)) = num" by simp
  then have "build_index (names es) = Some (Inr t)" using p(5,7) by (simp add: build_index_def)
  then show thesis using that[OF p(1-3) ds(1) p(4)] ds p(8) by simp
qed

text \<open>A file with these parts is opened.\<close>

lemma mzOpenZipArchive_opens:
  assumes "22 \<le> length mem" "get4LE mem 0 = Some LOCSIG" "find_eocd mem (length mem - 22 + 1) = Some (Some ptr)"
    and "get2LE mem (int ptr + 8) = Some num" "num \<noteq> 0" "get4LE mem (int ptr + 16) = Some cdOffset" "uint cdOffset < int (length mem)"
    and "directory add_ptr add_off addr mem (unat num) (uint cdOffset) = Some (Some ds)"
  obtains a where "mzOpenZipArchive add_ptr add_off (\<lambda>_. True) addr mem = Some (0, Some a)" "mset (arc_pEntries a) = mset ds"
proof -
  have "sorted (names [])" "valid_names []" by (simp_all add: valid_names_def)
  from parse_entries_directory[OF this, of add_ptr add_off addr mem "unat num" "uint cdOffset"] assms(8)
  obtain es where es: "parse_entries add_ptr add_off addr mem (unat num) (uint cdOffset) [] = Some (Some es)"
    "valid_names es" "mset es = mset ds" by auto
  have len: "length es = unat num" using directory_length[OF assms(8)] arg_cong[OF es(3), of size] by simp
  then have n: "of_nat (length (names es)) = num" by simp
  have "0 < unat num" using assms(5) by (simp add: unat_gt_0)
  then have "names es \<noteq> []" "length (names es) < 2 ^ 16" using len get2LE_less[OF assms(4)] by auto
  then obtain t where "build_index (names es) = Some (Inr t)" by (rule build_index_value)
  then obtain pHash where "mzHashTableCreate True (mzHashSize num) False = Inr pHash" "index_entries pHash (zip_entries (names es)) = Some (Inr t)"
    unfolding build_index_def n by (auto split: sum.splits)
  then have "parseZipArchive add_ptr add_off (\<lambda>_. True) addr mem =
      Some (Some \<lparr>arc_numEntries = num, arc_pEntries = es, arc_pHash = Some t\<rparr>)"
    using assms(2-7) es(1) by (simp add: parseZipArchive_def ENDSIG_def LOCSIG_def)
  then show thesis using that es(3) assms(1) by (simp add: mzOpenZipArchive_def)
qed

text \<open>
  An archive with one entry, named a, of the given sizes; its local header is at 0 and its directory at 31. The file ends with
  the field of the comment length and the comment.
\<close>

definition sample_zip :: "u8 list \<Rightarrow> u8 list \<Rightarrow> u8 list \<Rightarrow> u8 list" where
  "sample_zip c u comment =
     [0x50, 0x4b, 3, 4] @ replicate 22 0 @ [1, 0, 0, 0] @ [97] @
     [0x50, 0x4b, 1, 2, 0x14, 3] @ replicate 14 0 @ c @ u @ [1, 0, 0, 0, 0, 0] @ replicate 8 0 @ [0, 0, 0, 0] @ [97] @
     [0x50, 0x4b, 5, 6] @ replicate 4 0 @ [1, 0, 1, 0] @ [47, 0, 0, 0] @ [31, 0, 0, 0] @ comment"

definition checked_ptr :: "u32 \<Rightarrow> u32 \<Rightarrow> u32 option" where
  "checked_ptr a b = (if unat a + unat b < 2 ^ 32 then Some (a + b) else None)"

definition checked_off :: "int \<Rightarrow> int \<Rightarrow> bool" where
  "checked_off a b \<longleftrightarrow> - (2 ^ 63) \<le> a + b \<and> a + b < 2 ^ 63"

lemma checked_spec: "safe_add_spec checked_ptr checked_off"
  by (simp add: safe_add_spec_def checked_ptr_def checked_off_def)

lemma sample_bytes:
  fixes c0 c1 c2 c3 u0 u1 u2 u3 :: u8 and comment :: "u8 list"
  defines "z \<equiv> sample_zip [c0, c1, c2, c3] [u0, u1, u2, u3] comment"
  shows "take 4 (drop 0 z) = [0x50, 0x4b, 3, 4]" "take 4 (drop 31 z) = [0x50, 0x4b, 1, 2]" "take 2 (drop 35 z) = [0x14, 3]"
    "take 2 (drop 41 z) = [0, 0]" "take 4 (drop 43 z) = [0, 0, 0, 0]" "take 4 (drop 47 z) = [0, 0, 0, 0]"
    "take 4 (drop 51 z) = [c0, c1, c2, c3]" "take 4 (drop 55 z) = [u0, u1, u2, u3]" "take 2 (drop 59 z) = [1, 0]"
    "take 2 (drop 61 z) = [0, 0]" "take 2 (drop 63 z) = [0, 0]" "take 4 (drop 69 z) = [0, 0, 0, 0]" "take 4 (drop 73 z) = [0, 0, 0, 0]"
    "take 2 (drop 26 z) = [1, 0]" "take 2 (drop 28 z) = [0, 0]" "take 4 (drop 78 z) = [0x50, 0x4b, 5, 6]"
    "take 2 (drop 86 z) = [1, 0]" "take 4 (drop 94 z) = [31, 0, 0, 0]" "take 1 (drop 77 z) = [97]" "length z = 98 + length comment"
  unfolding z_def sample_zip_def by (simp_all, simp_all add: numeral_eq_Suc)

lemmas sample_reads = sample_bytes(1,2,5-8,12,13,16,18)[THEN get4LE_bytes] sample_bytes(3,4,9-11,14,15,17)[THEN get2LE_bytes]

definition sample_entry :: "u32 \<Rightarrow> u32 \<Rightarrow> ZipEntry" where
  "sample_entry c u = \<lparr>name = [97], fileName = 77, offset = 31, compLen = sint c, uncompLen = sint u, compression = 0, modTime = 0,
     crc32 = 0, versionMadeBy = 0x0314, externalFileAttributes = 0\<rparr>"

lemma be32_consts: "be32 0 0 0 0 = 0" "be32 0 0 0 1 = 1" "be32 0 0 3 0x14 = 0x0314" "be32 2 1 0x4b 0x50 = CENSIG" "be32 4 3 0x4b 0x50 = LOCSIG"
  "be32 0 0 0 31 = 31" "0x0314 AND 0xff00 = (push_bit 8 3 :: u32)"
  by code_simp+

lemma sample_parse:
  fixes c0 c1 c2 c3 u0 u1 u2 u3 :: u8 and comment :: "u8 list"
  defines "z \<equiv> sample_zip [c0, c1, c2, c3] [u0, u1, u2, u3] comment"
  assumes "31 + be32 c3 c2 c1 c0 \<le> of_nat (98 + length comment)" "length comment < 2 ^ 16"
  shows "parse_entry checked_ptr checked_off 0x1000 z 31 = Some (Some (sample_entry (be32 c3 c2 c1 c0) (be32 u3 u2 u1 u0), 78))"
proof -
  note reads = sample_reads[of c0 c1 c2 c3 u0 u1 u2 u3 comment, folded z_def, unfolded be32_consts of_nat_0 of_nat_numeral]
  note bytes = sample_bytes[of c0 c1 c2 c3 u0 u1 u2 u3 comment, folded z_def]
  have p: "piece z 77 1 = Some [97]" using bytes(19,20) by (simp add: piece_def)
  have v: "validFilename [97]" by code_simp
  have "unat (of_nat (length z) :: u32) = length z" "length z < 2 ^ 17" using assms(3) bytes(20) by (simp_all add: unat_of_nat_u32 del: of_nat_add)
  then have "unat (0x1000 + of_nat (length z) :: u32) = 0x1000 + length z" by (subst unat_add_lem[THEN iffD1]) simp_all
  then have "\<not> 0x1000 + of_nat (length z) < (0x101e :: u32)" by (simp add: word_less_nat_alt bytes(20))
  then have h: "local_header checked_ptr 0x1000 z 0 = Some (Some 0)"
    by (simp add: local_header_def checked_ptr_def)
  have o: "checked_off 31 (sint (be32 c3 c2 c1 c0))"
    using sint_range_size[of "be32 c3 c2 c1 c0"] by (simp add: checked_off_def word_size)
  have "\<not> (31 + be32 c3 c2 c1 c0 > of_nat (98 + length comment))" using assms(2) by simp
  then show ?thesis
    using reads p bytes(20) v h o by (simp add: parse_entry_def sample_entry_def be32_consts(7) CENSIG_def[symmetric] LOCSIG_def[symmetric])
qed

lemma sample_opens:
  fixes c0 c1 c2 c3 u0 u1 u2 u3 :: u8 and comment :: "u8 list"
  defines "z \<equiv> sample_zip [c0, c1, c2, c3] [u0, u1, u2, u3] comment"
  assumes "31 + be32 c3 c2 c1 c0 \<le> of_nat (98 + length comment)" "2 \<le> length comment" "length comment < 2 ^ 16"
    and "\<forall>q. 78 < q \<and> q < 77 + length comment \<longrightarrow> take 4 (drop q z) \<noteq> [0x50, 0x4b, 0x05, 0x06]"
  obtains a where "mzOpenZipArchive checked_ptr checked_off (\<lambda>_. True) 0x1000 z = Some (0, Some a)"
    "arc_pEntries a = [sample_entry (be32 c3 c2 c1 c0) (be32 u3 u2 u1 u0)]"
proof -
  note bytes = sample_bytes[of c0 c1 c2 c3 u0 u1 u2 u3 comment, folded z_def]
  note reads = sample_reads[of c0 c1 c2 c3 u0 u1 u2 u3 comment, folded z_def, unfolded be32_consts of_nat_0 of_nat_numeral]
  have n: "length z - 22 + 1 = 77 + length comment" using bytes(20) assms(3) by simp
  have f: "find_eocd z (length z - 22 + 1) = Some (Some 78)"
    unfolding n by (rule find_eocd_last[OF _ _ bytes(16) assms(5)]) (use bytes(20) assms(3) in \<open>simp_all\<close>)
  have d: "directory checked_ptr checked_off 0x1000 z (unat (1 :: u32)) (uint (31 :: u32)) =
      Some (Some [sample_entry (be32 c3 c2 c1 c0) (be32 u3 u2 u1 u0)])"
    using sample_parse[OF assms(2,4), of u0 u1 u2 u3] unfolding z_def by simp
  obtain a where "mzOpenZipArchive checked_ptr checked_off (\<lambda>_. True) 0x1000 z = Some (0, Some a)"
    "mset (arc_pEntries a) = mset [sample_entry (be32 c3 c2 c1 c0) (be32 u3 u2 u1 u0)]"
    by (rule mzOpenZipArchive_opens[OF _ _ f _ _ _ _ d]) (use bytes(20) reads in \<open>simp_all\<close>)
  then show thesis using that by simp
qed

section \<open>Data of the entries\<close>

lemma directory_entries:
  assumes "directory add_ptr add_off addr mem n ptr = Some (Some ds)" "e \<in> set ds"
  obtains p p' where "parse_entry add_ptr add_off addr mem p = Some (Some (e, p'))"
  using assms
proof (induction n arbitrary: ptr ds thesis)
  case (Suc n)
  from Suc.prems(2) obtain d p' ds' where d: "parse_entry add_ptr add_off addr mem ptr = Some (Some (d, p'))"
    "directory add_ptr add_off addr mem n p' = Some (Some ds')" "ds = d # ds'"
    by (auto elim!: bind_SomeE split: option.splits)
  then show ?case using Suc.IH[OF _ d(2)] Suc.prems(1,3) by auto
qed simp

lemma sint_nonneg:
  fixes w :: u32
  assumes "0 \<le> sint w"
  shows "sint w = int (unat w)" "unat w < 2 ^ 31"
proof -
  have "sint w = signed_take_bit 31 (uint w)" by (simp add: sint_uint)
  also have "\<dots> = uint w - 2 ^ 32 * of_bool (bit w 31)"
    using uint_bounded[of w] by (simp add: signed_take_bit_eq_take_bit_minus take_bit_int_eq_self bit_uint_iff)
  finally have "sint w = uint w" using assms uint_bounded[of w] by (cases "bit w 31") simp_all
  then show "sint w = int (unat w)" by simp
  then have "int (unat w) < 2 ^ 31" using sint_lt[of w] by simp
  then show "unat w < 2 ^ 31" by (simp only: of_nat_less_numeral_power_cancel_iff)
qed

lemma local_header_inside:
  assumes "safe_add_spec add_ptr add_off" "unat addr + length mem + 30 < 2 ^ 32"
    and "local_header add_ptr addr mem off = Some (Some hdr)" "get4LE mem hdr = Some w"
  shows "unat off + 30 \<le> length mem"
proof -
  from assms(1,3) have a: "unat addr + unat off < 2 ^ 32" and t: "\<not> addr + off + 30 > addr + of_nat (length mem)"
    and h: "hdr = uint (addr + off) - uint addr"
    by (auto simp: local_header_def safe_add_spec_def split: if_splits)
  have s: "unat (addr + off) = unat addr + unat off" using a by (simp add: unat_add_lem[THEN iffD1])
  then have "uint (addr + off) = int (unat addr + unat off)" by (metis of_nat_unat)
  then have hdr: "hdr = uint off" unfolding h by simp
  obtain b where "deref mem hdr = Some b" using assms(4) unfolding get4LE_def by (elim bind_SomeE)
  then have "uint off < int (length mem)" unfolding hdr by (auto simp: deref_def split: if_splits)
  then have lt: "unat off < length mem" by (metis of_nat_less_iff of_nat_unat)
  have "unat (addr + off + 30) = unat addr + unat off + 30"
    using s lt assms(2) by (subst unat_add_lem[THEN iffD1]) simp_all
  moreover have "unat (addr + of_nat (length mem)) = unat addr + length mem"
    using assms(2) by (subst unat_add_lem[THEN iffD1]) (simp_all add: unat_of_nat_u32)
  ultimately show ?thesis using t by (simp add: word_less_nat_alt)
qed

lemma parse_entry_fields:
  assumes "parse_entry add_ptr add_off addr mem p = Some (Some (e, p'))"
  obtains off comp nam ext hdr where "local_header add_ptr addr mem off = Some (Some hdr)" "get4LE mem hdr = Some LOCSIG"
    "get2LE mem (hdr + 26) = Some nam" "get2LE mem (hdr + 28) = Some ext" "offset e = uint (off + 30 + nam + ext)" "compLen e = sint comp"
    "\<not> (off + 30 + nam + ext) + comp > of_nat (length mem)"
  using assms unfolding parse_entry_def Let_def
  by (auto elim!: bind_SomeE split: if_splits option.splits intro: that)

lemma parse_entry_data:
  assumes "safe_add_spec add_ptr add_off" "unat addr + length mem + 30 < 2 ^ 32" "length mem < 2 ^ 30"
    and "parse_entry add_ptr add_off addr mem p = Some (Some (e, p'))"
  shows "0 \<le> offset e" "0 \<le> compLen e \<Longrightarrow> offset e + compLen e \<le> int (length mem)"
proof -
  obtain off comp nam ext hdr where f: "local_header add_ptr addr mem off = Some (Some hdr)" "get4LE mem hdr = Some LOCSIG"
    "get2LE mem (hdr + 26) = Some nam" "get2LE mem (hdr + 28) = Some ext" "offset e = uint (off + 30 + nam + ext)" "compLen e = sint comp"
    "\<not> (off + 30 + nam + ext) + comp > of_nat (length mem)"
    by (rule parse_entry_fields[OF assms(4)])
  show "0 \<le> offset e" by (simp add: f(5))
  assume pos: "0 \<le> compLen e"
  have b: "unat off + 30 < 2 ^ 30" "unat nam < 2 ^ 16" "unat ext < 2 ^ 16"
    using local_header_inside[OF assms(1,2) f(1,2)] assms(3) get2LE_less[OF f(3)] get2LE_less[OF f(4)] by simp_all
  then have o: "unat (off + 30 + nam + ext) = unat off + 30 + unat nam + unat ext"
    by (simp add: unat_add_lem[THEN iffD1])
  have c: "sint comp = int (unat comp)" "unat comp < 2 ^ 31" using sint_nonneg[OF pos[unfolded f(6)]] by blast+
  have "unat (off + 30 + nam + ext + comp) = unat off + 30 + unat nam + unat ext + unat comp"
    using b c(2) o by (subst unat_add_lem[THEN iffD1]) simp_all
  then have "unat (off + 30 + nam + ext) + unat comp \<le> length mem"
    using f(7) assms(3) o by (simp add: word_less_nat_alt unat_of_nat_u32)
  then show "offset e + compLen e \<le> int (length mem)" unfolding f(5,6) c(1) by (metis of_nat_add of_nat_mono of_nat_unat)
qed

section \<open>Properties\<close>

text \<open>
  C8. An archive that opens holds the entries of the directory named by the last end-of-central-directory record of the file, sorted by
  name; a lookup by name finds an entry of that name if the directory has one, and nothing otherwise.
\<close>

theorem mzOpenZipArchive_correct:
  assumes "mzOpenZipArchive add_ptr add_off ok addr mem = Some (0, Some a)"
  shows "\<exists>ptr num cdOffset ds t.
    find_eocd mem (length mem - 22 + 1) = Some (Some ptr) \<and> get2LE mem (int ptr + 8) = Some num \<and> get4LE mem (int ptr + 16) = Some cdOffset \<and>
    directory add_ptr add_off addr mem (unat num) (uint cdOffset) = Some (Some ds) \<and>
    sorted (map name (arc_pEntries a)) \<and> mset (arc_pEntries a) = mset ds \<and> arc_pHash a = Some t \<and>
    (\<forall>n. length n < 2 ^ 32 \<longrightarrow>
       (if n \<in> name ` set ds
        then \<exists>i<length (arc_pEntries a). name (arc_pEntries a ! i) = n \<and> mzFindZipEntry t n = Some (Inr (Some (EntryPtr i n)))
        else mzFindZipEntry t n = Some (Inr None)))"
proof -
  have "parseZipArchive add_ptr add_off ok addr mem = Some (Some a)"
    using assms by (auto simp: mzOpenZipArchive_def elim!: bind_SomeE split: if_splits option.splits)
  then obtain ptr num cdOffset ds where p: "find_eocd mem (length mem - 22 + 1) = Some (Some ptr)"
    "get2LE mem (int ptr + 8) = Some num" "get4LE mem (int ptr + 16) = Some cdOffset"
    "directory add_ptr add_off addr mem (unat num) (uint cdOffset) = Some (Some ds)"
    "num \<noteq> 0" "sorted (names (arc_pEntries a))" "mset (arc_pEntries a) = mset ds" "valid_names (arc_pEntries a)"
    "build_index (names (arc_pEntries a)) = map_option Inr (arc_pHash a)" "arc_pHash a \<noteq> None"
    by (rule parseZipArchive_opened) blast
  then obtain t where t: "arc_pHash a = Some t" "build_index (names (arc_pEntries a)) = Some (Inr t)" by auto
  have len: "length (arc_pEntries a) = unat num" using directory_length[OF p(4)] arg_cong[OF p(7), of size] by simp
  have "0 < unat num" using p(5) by (simp add: unat_gt_0)
  then have ne: "names (arc_pEntries a) \<noteq> []" "length (names (arc_pEntries a)) < 2 ^ 16" using len get2LE_less[OF p(2)] by auto
  have short: "\<forall>n\<in>set (names (arc_pEntries a)). short_name n"
    using p(8) by (auto simp: valid_names_def list_all_iff short_name_def validFilename_def PATH_MAX_def)
  have s: "name ` set ds = set (names (arc_pEntries a))" using arg_cong[OF p(7), of set_mset] by simp
  have find: "if n \<in> name ` set ds
        then \<exists>i<length (arc_pEntries a). name (arc_pEntries a ! i) = n \<and> mzFindZipEntry t n = Some (Inr (Some (EntryPtr i n)))
        else mzFindZipEntry t n = Some (Inr None)" if "length n < 2 ^ 32" for n
    using find_entry_index[OF ne short, of n] that t(2) unfolding s by (auto simp: short_name_def)
  then show ?thesis using p(1-4,6,7) t(1) by blast
qed


text \<open>An archive whose entry a has two bytes of data.\<close>

definition small_zip :: "u8 list" where
  "small_zip = sample_zip [2, 0, 0, 0] [2, 0, 0, 0] [0, 0]"

lemma sample_opens_plain:
  fixes c0 c1 c2 c3 u0 u1 u2 u3 :: u8
  assumes "31 + be32 c3 c2 c1 c0 \<le> 100"
  obtains a where "mzOpenZipArchive checked_ptr checked_off (\<lambda>_. True) 0x1000 (sample_zip [c0, c1, c2, c3] [u0, u1, u2, u3] [0, 0]) = Some (0, Some a)"
    "arc_pEntries a = [sample_entry (be32 c3 c2 c1 c0) (be32 u3 u2 u1 u0)]"
  by (rule sample_opens[of c3 c2 c1 c0 "[0, 0]" u0 u1 u2 u3]) (use assms that in \<open>auto\<close>)

lemma small_zip_opens:
  obtains a where "mzOpenZipArchive checked_ptr checked_off (\<lambda>_. True) 0x1000 small_zip = Some (0, Some a)" "arc_pEntries a = [sample_entry 2 2]"
proof -
  have b: "be32 0 0 0 2 = 2" by code_simp
  show thesis by (rule sample_opens_plain[of 0 0 0 2 2 0 0 0]) (use that in \<open>simp_all add: small_zip_def b\<close>)
qed

theorem mzOpenZipArchive_witness:
  "\<exists>a t. mzOpenZipArchive checked_ptr checked_off (\<lambda>_. True) 0x1000 small_zip = Some (0, Some a) \<and> arc_pHash a = Some t \<and>
     mzFindZipEntry t [97] = Some (Inr (Some (EntryPtr 0 [97]))) \<and> mzFindZipEntry t [98] = Some (Inr None)"
proof -
  obtain a where a: "mzOpenZipArchive checked_ptr checked_off (\<lambda>_. True) 0x1000 small_zip = Some (0, Some a)" "arc_pEntries a = [sample_entry 2 2]"
    by (rule small_zip_opens)
  obtain ds t where d: "mset (arc_pEntries a) = mset ds" "arc_pHash a = Some t" and f: "\<forall>n. length n < 2 ^ 32 \<longrightarrow>
       (if n \<in> name ` set ds
        then \<exists>i<length (arc_pEntries a). name (arc_pEntries a ! i) = n \<and> mzFindZipEntry t n = Some (Inr (Some (EntryPtr i n)))
        else mzFindZipEntry t n = Some (Inr None))"
    using mzOpenZipArchive_correct[OF a(1)] by blast
  have "name ` set ds = {[97]}" using mset_eq_setD[OF d(1)[symmetric]] by (simp add: a(2) sample_entry_def)
  then have "mzFindZipEntry t [97] = Some (Inr (Some (EntryPtr 0 [97])))" "mzFindZipEntry t [98] = Some (Inr None)"
    using f[rule_format, of "[97]"] f[rule_format, of "[98]"] by (simp_all add: a(2))
  then show ?thesis using a(1) d(2) by blast
qed

text \<open>
  C9. On a file below one gigabyte that is not mapped at the very end of the address space, the compressed data of every entry of
  an opened archive lies inside the file, unless its length is negative as a \<open>long\<close>.
\<close>

theorem mzOpenZipArchive_data:
  assumes "safe_add_spec add_ptr add_off" "unat addr + length mem + 30 < 2 ^ 32" "length mem < 2 ^ 30"
    and "mzOpenZipArchive add_ptr add_off ok addr mem = Some (0, Some a)" "e \<in> set (arc_pEntries a)" "0 \<le> compLen e"
  shows "piece mem (offset e) (nat (compLen e)) \<noteq> None"
proof -
  have "parseZipArchive add_ptr add_off ok addr mem = Some (Some a)"
    using assms(4) by (auto simp: mzOpenZipArchive_def elim!: bind_SomeE split: if_splits option.splits)
  then obtain ds ptr n where d: "directory add_ptr add_off addr mem n ptr = Some (Some ds)" "mset (arc_pEntries a) = mset ds"
    by (rule parseZipArchive_opened)
  have "e \<in> set ds" using assms(5) mset_eq_setD[OF d(2)] by simp
  then obtain p p' where "parse_entry add_ptr add_off addr mem p = Some (Some (e, p'))" by (rule directory_entries[OF d(1)])
  from parse_entry_data[OF assms(1-3) this] assms(6) show ?thesis by (simp add: piece_def)
qed

theorem mzOpenZipArchive_data_witness:
  "piece small_zip (offset (sample_entry 2 2)) (nat (compLen (sample_entry 2 2))) \<noteq> None"
proof -
  obtain a where a: "mzOpenZipArchive checked_ptr checked_off (\<lambda>_. True) 0x1000 small_zip = Some (0, Some a)" "arc_pEntries a = [sample_entry 2 2]"
    by (rule small_zip_opens)
  have "length small_zip = 100" unfolding small_zip_def by (simp add: sample_bytes(20))
  then show ?thesis using a by (intro mzOpenZipArchive_data[OF checked_spec _ _ a(1)]) (simp_all add: sample_entry_def)
qed

text \<open>
  C10. The test of the compressed length can be passed by a length that is not inside the file: with \<open>2\<^sup>3\<^sup>2 - 1\<close> the sum of
  offset and length wraps around, and the archive opens with an entry of length \<open>- 1\<close>.
\<close>

theorem mzOpenZipArchive_wrapped_length:
  "\<exists>a e. mzOpenZipArchive checked_ptr checked_off (\<lambda>_. True) 0x1000 (sample_zip [0xff, 0xff, 0xff, 0xff] [2, 0, 0, 0] [0, 0]) = Some (0, Some a) \<and>
     arc_pEntries a = [e] \<and> compLen e = - 1"
proof -
  have b: "be32 0xff 0xff 0xff 0xff = 0xffffffff" "be32 0 0 0 2 = 2" by code_simp+
  obtain a where "mzOpenZipArchive checked_ptr checked_off (\<lambda>_. True) 0x1000 (sample_zip [0xff, 0xff, 0xff, 0xff] [2, 0, 0, 0] [0, 0]) = Some (0, Some a)"
    "arc_pEntries a = [sample_entry 0xffffffff 2]"
    by (rule sample_opens_plain[of "0xff" "0xff" "0xff" "0xff" 2 0 0 0]) (simp_all add: b)
  then show ?thesis by (simp add: sample_entry_def)
qed

end
