(* ===== verification/Zip_Extract.thy ===== *)
theory Zip_Extract
  imports Zip_Archive
begin

text \<open>
  Reading the contents of an archive entry (\<open>mzProcessZipEntryContents\<close> and its clients in \<^verbatim>\<open>minzip/Zip.c\<close>). The bytes of an
  entry go to a callback with a cookie, once for a stored entry and in blocks of 32 kilobytes for a deflated one. A callback that
  reads or writes outside of its arrays has no value. zlib's \<open>inflateInit2\<close> and \<open>inflate\<close> and the kernel's \<open>write\<close> are
  arguments; what they promise is written out as predicates on them.
\<close>

section \<open>The code\<close>

definition STORED :: int where "STORED = 0"
definition DEFLATED :: int where "DEFLATED = 8"
definition Z_OK :: int where "Z_OK = 0"
definition Z_STREAM_END :: int where "Z_STREAM_END = 1"
definition PROC_BUF_SIZE :: nat where "PROC_BUF_SIZE = 32 * 1024"

text \<open>A callback takes a pointer (an array and an offset), the number of bytes and the cookie.\<close>

type_synonym 'c process = "u8 list \<times> int \<Rightarrow> int \<Rightarrow> 'c \<Rightarrow> (bool \<times> 'c) option"

text \<open>\<open>memcpy\<close> from a pointer, and into an array at a position.\<close>

definition copy_in :: "u8 list \<times> int \<Rightarrow> int \<Rightarrow> u8 list option" where
  "copy_in dataPtr n = (if n < 0 then None else piece (fst dataPtr) (snd dataPtr) (nat n))"

definition copy_out :: "u8 list \<Rightarrow> nat \<Rightarrow> u8 list \<Rightarrow> u8 list option" where
  "copy_out buf pos bs =
     (if pos + length bs \<le> length buf then Some (take pos buf @ bs @ drop (pos + length bs) buf) else None)"

definition processStoredEntry :: "u8 list \<Rightarrow> ZipEntry \<Rightarrow> 'c process \<Rightarrow> 'c \<Rightarrow> (bool \<times> 'c) option" where
  "processStoredEntry mem pEntry processFunction cookie = processFunction (mem, offset pEntry) (uncompLen pEntry) cookie"

text \<open>
  The loop of \<open>processDeflatedEntry\<close>: \<open>inflate\<close> is called with the space left in the buffer and gives its code, its output and
  the next state of the stream. The result is \<open>total_out\<close> after \<open>Z_STREAM_END\<close>, and \<open>None\<close> for the jump to \<open>z_bail\<close>.
\<close>

partial_function (option) inflate_loop ::
  "('z \<Rightarrow> nat \<Rightarrow> int \<times> u8 list \<times> 'z) \<Rightarrow> 'c process \<Rightarrow> 'z \<Rightarrow> u8 list \<Rightarrow> nat \<Rightarrow> 'c \<Rightarrow> (nat option \<times> 'c) option" where
  "inflate_loop inflate processFunction zstream procBuf total_out cookie =
     (case inflate zstream (PROC_BUF_SIZE - length procBuf) of (zerr, out, zstream) \<Rightarrow>
        if zerr \<noteq> Z_OK \<and> zerr \<noteq> Z_STREAM_END then Some (None, cookie)
        else if length (procBuf @ out) = PROC_BUF_SIZE \<or> zerr = Z_STREAM_END \<and> procBuf @ out \<noteq> [] then
          do { (ret, cookie) \<leftarrow> processFunction (procBuf @ out, 0) (int (length (procBuf @ out))) cookie;
               if \<not> ret then Some (None, cookie)
               else if zerr = Z_OK then inflate_loop inflate processFunction zstream [] (total_out + length out) cookie
               else Some (Some (total_out + length out), cookie) }
        else if zerr = Z_OK then inflate_loop inflate processFunction zstream (procBuf @ out) (total_out + length out) cookie
        else Some (Some (total_out + length out), cookie))"

definition processDeflatedEntry ::
  "(u8 list \<Rightarrow> 'z option) \<Rightarrow> ('z \<Rightarrow> nat \<Rightarrow> int \<times> u8 list \<times> 'z) \<Rightarrow> u8 list \<Rightarrow> ZipEntry \<Rightarrow> 'c process \<Rightarrow> 'c \<Rightarrow> (bool \<times> 'c) option" where
  "processDeflatedEntry inflateInit2 inflate mem pEntry processFunction cookie =
     do { input \<leftarrow> copy_in (mem, offset pEntry) (compLen pEntry);
          (result, cookie) \<leftarrow>
            (case inflateInit2 input of
               None \<Rightarrow> Some (- 1, cookie)
             | Some zstream \<Rightarrow> do {
                 (total_out, cookie) \<leftarrow> inflate_loop inflate processFunction zstream [] 0 cookie;
                 Some (case total_out of None \<Rightarrow> - 1 | Some n \<Rightarrow> sint (of_nat n :: u32), cookie) });
          Some (\<not> result \<noteq> uncompLen pEntry, cookie) }"

definition mzProcessZipEntryContents ::
  "(u8 list \<Rightarrow> 'z option) \<Rightarrow> ('z \<Rightarrow> nat \<Rightarrow> int \<times> u8 list \<times> 'z) \<Rightarrow> u8 list \<Rightarrow> ZipEntry \<Rightarrow> 'c process \<Rightarrow> 'c \<Rightarrow> (bool \<times> 'c) option" where
  "mzProcessZipEntryContents inflateInit2 inflate mem pEntry processFunction cookie =
     (if compression pEntry = STORED then processStoredEntry mem pEntry processFunction cookie
      else if compression pEntry = DEFLATED then processDeflatedEntry inflateInit2 inflate mem pEntry processFunction cookie
      else Some (False, cookie))"

text \<open>The cookies hold the array of the caller and the position of the pointer \<open>buf\<close> in it.\<close>

record CopyProcessArgs =
  cp_array :: "u8 list"
  cp_buf :: nat
  cp_bufLen :: int

definition copyProcessFunction :: "CopyProcessArgs process" where
  "copyProcessFunction dataPtr dataLen args =
     (if dataLen \<le> cp_bufLen args then
        do { bs \<leftarrow> copy_in dataPtr dataLen;
             array \<leftarrow> copy_out (cp_array args) (cp_buf args) bs;
             Some (True, args\<lparr>cp_array := array, cp_buf := cp_buf args + length bs, cp_bufLen := cp_bufLen args - dataLen\<rparr>) }
      else Some (False, args))"

definition mzReadZipEntry ::
  "(u8 list \<Rightarrow> 'z option) \<Rightarrow> ('z \<Rightarrow> nat \<Rightarrow> int \<times> u8 list \<times> 'z) \<Rightarrow> u8 list \<Rightarrow> ZipEntry \<Rightarrow> u8 list \<Rightarrow> int \<Rightarrow> (bool \<times> u8 list) option" where
  "mzReadZipEntry inflateInit2 inflate mem pEntry buf bufLen =
     do { (ret, args) \<leftarrow> mzProcessZipEntryContents inflateInit2 inflate mem pEntry copyProcessFunction
            \<lparr>cp_array = buf, cp_buf = 0, cp_bufLen = bufLen\<rparr>;
          Some (ret, cp_array args) }"

text \<open>
  \<open>os_write\<close> stands for \<open>TEMP_FAILURE_RETRY(write(...))\<close>; it changes the world and gives the number of bytes written, or a
  number that is not positive.
\<close>

function write_loop :: "('w \<Rightarrow> int \<Rightarrow> u8 list \<Rightarrow> 'w \<times> int) \<Rightarrow> int \<Rightarrow> u8 list \<times> int \<Rightarrow> int \<Rightarrow> int \<Rightarrow> 'w \<Rightarrow> (bool \<times> 'w) option" where
  "write_loop os_write fd dataPtr dataLen soFar w =
     do { bs \<leftarrow> copy_in (fst dataPtr, snd dataPtr + soFar) (dataLen - soFar);
          (case os_write w fd bs of (w, n) \<Rightarrow>
             if n \<le> 0 then Some (False, w)
             else if soFar + n = dataLen then Some (True, w)
             else if soFar + n > dataLen then Some (False, w)
             else write_loop os_write fd dataPtr dataLen (soFar + n) w) }"
  by pat_completeness auto
termination by (relation "measure (\<lambda>(os_write, fd, dataPtr, dataLen, soFar, w). nat (dataLen - soFar))") auto

declare write_loop.simps [simp del]

definition writeProcessFunction :: "('w \<Rightarrow> int \<Rightarrow> u8 list \<Rightarrow> 'w \<times> int) \<Rightarrow> int \<Rightarrow> 'w process" where
  "writeProcessFunction os_write fd dataPtr dataLen w =
     (if dataLen = 0 then Some (True, w) else write_loop os_write fd dataPtr dataLen 0 w)"

definition mzExtractZipEntryToFile ::
  "(u8 list \<Rightarrow> 'z option) \<Rightarrow> ('z \<Rightarrow> nat \<Rightarrow> int \<times> u8 list \<times> 'z) \<Rightarrow> ('w \<Rightarrow> int \<Rightarrow> u8 list \<Rightarrow> 'w \<times> int) \<Rightarrow>
   u8 list \<Rightarrow> ZipEntry \<Rightarrow> int \<Rightarrow> 'w \<Rightarrow> (bool \<times> 'w) option" where
  "mzExtractZipEntryToFile inflateInit2 inflate os_write mem pEntry fd w =
     mzProcessZipEntryContents inflateInit2 inflate mem pEntry (writeProcessFunction os_write fd) w"

record BufferExtractCookie =
  bec_array :: "u8 list"
  bec_buffer :: nat
  bec_len :: int

definition bufferProcessFunction :: "BufferExtractCookie process" where
  "bufferProcessFunction dataPtr dataLen bec =
     do { bs \<leftarrow> copy_in dataPtr dataLen;
          array \<leftarrow> copy_out (bec_array bec) (bec_buffer bec) bs;
          Some (True, bec\<lparr>bec_array := array, bec_buffer := bec_buffer bec + length bs, bec_len := bec_len bec - dataLen\<rparr>) }"

definition mzExtractZipEntryToBuffer ::
  "(u8 list \<Rightarrow> 'z option) \<Rightarrow> ('z \<Rightarrow> nat \<Rightarrow> int \<times> u8 list \<times> 'z) \<Rightarrow> u8 list \<Rightarrow> ZipEntry \<Rightarrow> u8 list \<Rightarrow> (bool \<times> u8 list) option" where
  "mzExtractZipEntryToBuffer inflateInit2 inflate mem pEntry buffer =
     do { (ret, bec) \<leftarrow> mzProcessZipEntryContents inflateInit2 inflate mem pEntry bufferProcessFunction
            \<lparr>bec_array = buffer, bec_buffer = 0, bec_len = uncompLen pEntry\<rparr>;
          Some (\<not> (\<not> ret \<or> bec_len bec \<noteq> 0), bec_array bec) }"

section \<open>What the libraries promise\<close>

text \<open>
  zlib: a call with space in the output buffer gives at most that many bytes. After \<open>Z_OK\<close> less is left to do; the stream of a
  valid input (\<open>fate\<close>) ends with \<open>Z_STREAM_END\<close> after its \<open>content\<close>, and that of an invalid one with another code.
\<close>

definition zlib_spec :: "('z \<Rightarrow> nat \<Rightarrow> int \<times> u8 list \<times> 'z) \<Rightarrow> ('z \<Rightarrow> bool) \<Rightarrow> ('z \<Rightarrow> u8 list) \<Rightarrow> ('z \<Rightarrow> nat) \<Rightarrow> bool" where
  "zlib_spec inflate fate content left \<longleftrightarrow>
     (\<forall>z n. 0 < n \<longrightarrow> (case inflate z n of (zerr, out, z') \<Rightarrow>
        length out \<le> n \<and>
        (zerr = Z_OK \<longrightarrow> left z' < left z \<and> fate z' = fate z \<and> (fate z \<longrightarrow> content z = out @ content z')) \<and>
        (zerr = Z_STREAM_END \<longrightarrow> fate z \<and> content z = out) \<and>
        (zerr \<noteq> Z_OK \<and> zerr \<noteq> Z_STREAM_END \<longrightarrow> \<not> fate z)))"

text \<open>\<open>write\<close>: at most all of the bytes are written, and what is written is appended to the file.\<close>

definition write_spec :: "('w \<Rightarrow> int \<Rightarrow> u8 list \<Rightarrow> 'w \<times> int) \<Rightarrow> ('w \<Rightarrow> int \<Rightarrow> u8 list) \<Rightarrow> bool" where
  "write_spec os_write file \<longleftrightarrow>
     (\<forall>w fd bs. case os_write w fd bs of (w', n) \<Rightarrow>
        n \<le> int (length bs) \<and> file w' fd = file w fd @ take (nat n) bs)"

section \<open>Blocks\<close>

text \<open>A run of blocks through a callback, and the blocks of a content.\<close>

fun feed :: "'c process \<Rightarrow> u8 list list \<Rightarrow> 'c \<Rightarrow> (bool \<times> 'c) option" where
  "feed process [] c = Some (True, c)"
| "feed process (b # bs) c =
     do { (ret, c) \<leftarrow> process (b, 0) (int (length b)) c;
          if ret then feed process bs c else Some (False, c) }"

function blocks :: "u8 list \<Rightarrow> u8 list list" where
  "blocks bs = (if bs = [] then [] else take PROC_BUF_SIZE bs # blocks (drop PROC_BUF_SIZE bs))"
  by pat_completeness auto
termination by (relation "measure length") (auto simp: PROC_BUF_SIZE_def)

declare blocks.simps [simp del]

lemma concat_blocks [simp]: "concat (blocks bs) = bs"
proof (induction bs rule: blocks.induct)
  case (1 bs)
  then show ?case by (subst blocks.simps) simp
qed

lemma blocks_simps [simp]:
  "blocks [] = []" "bs \<noteq> [] \<Longrightarrow> length bs \<le> PROC_BUF_SIZE \<Longrightarrow> blocks bs = [bs]"
  "length bs = PROC_BUF_SIZE \<Longrightarrow> blocks (bs @ cs) = bs # blocks cs"
proof -
  show nil: "blocks [] = []" by (subst blocks.simps) simp
  show "bs \<noteq> [] \<Longrightarrow> length bs \<le> PROC_BUF_SIZE \<Longrightarrow> blocks bs = [bs]" by (subst blocks.simps) (simp add: nil)
  assume "length bs = PROC_BUF_SIZE"
  then show "blocks (bs @ cs) = bs # blocks cs" by (subst blocks.simps) (auto simp: PROC_BUF_SIZE_def)
qed

text \<open>The loop feeds the blocks of the content of a valid stream to the callback.\<close>

lemma inflate_loop_feed:
  assumes "zlib_spec inflate fate content left" "fate z" "length buf < PROC_BUF_SIZE"
  shows "inflate_loop inflate process z buf n c =
    map_option (\<lambda>(ok, c'). (if ok then Some (n + length (content z)) else None, c')) (feed process (blocks (buf @ content z)) c)"
  using assms(2,3)
proof (induction "left z" arbitrary: z buf n c rule: less_induct)
  case less
  obtain zerr out z' where r: "inflate z (PROC_BUF_SIZE - length buf) = (zerr, out, z')" by (rule prod_cases3)
  have s: "length out \<le> PROC_BUF_SIZE - length buf"
    "zerr = Z_OK \<Longrightarrow> left z' < left z \<and> fate z' \<and> content z = out @ content z'"
    "zerr = Z_STREAM_END \<Longrightarrow> content z = out" "zerr = Z_OK \<or> zerr = Z_STREAM_END"
    using assms(1)[unfolded zlib_spec_def, rule_format, of "PROC_BUF_SIZE - length buf" z] less.prems r by auto
  have ne: "Z_STREAM_END \<noteq> Z_OK" by (simp add: Z_OK_def Z_STREAM_END_def)
  show ?case
  proof (cases "zerr = Z_OK")
    case ok: True
    note ih = less.hyps[of z'] s(2)[OF ok]
    have len: "length (content z) = length out + length (content z')" using s(2)[OF ok] by simp
    show ?thesis
    proof (cases "length (buf @ out) = PROC_BUF_SIZE")
      case True
      then have "blocks (buf @ content z) = (buf @ out) # blocks (content z')" using s(2)[OF ok] blocks_simps(3)[OF True, of "content z'"] by simp
      moreover have "0 < PROC_BUF_SIZE" by (simp add: PROC_BUF_SIZE_def)
      ultimately show ?thesis
        unfolding len add.assoc[symmetric] using True ok ih by (subst inflate_loop.simps)
          (auto simp: r split: option.splits bind_splits)
    next
      case False
      then have "length (buf @ out) < PROC_BUF_SIZE" using s(1) less.prems(2) by simp
      then show ?thesis unfolding len add.assoc[symmetric] using False ok ne ih by (subst inflate_loop.simps) (simp add: r add.assoc)
    qed
  next
    case False
    then have e: "zerr = Z_STREAM_END" "content z = out" using s(3,4) by auto
    show ?thesis
    proof (cases "buf @ out = []")
      case True
      then show ?thesis using e ne less.prems r by (subst inflate_loop.simps) simp
    next
      case F: False
      have "length (buf @ out) \<le> PROC_BUF_SIZE" using s(1) less.prems by simp
      with F have "blocks (buf @ content z) = [buf @ out]" using e(2) by simp
      then show ?thesis using F e ne by (subst inflate_loop.simps) (auto simp: r split: option.splits bind_splits)
    qed
  qed
qed

text \<open>On an invalid stream the loop ends with a failure, if it ends.\<close>

lemma inflate_loop_fails:
  assumes "zlib_spec inflate fate content left" "\<not> fate z" "length buf < PROC_BUF_SIZE"
    and "good c" "\<And>bs c. good c \<Longrightarrow> \<exists>ret c'. process (bs, 0) (int (length bs)) c = Some (ret, c') \<and> good c'"
  shows "\<exists>c'. inflate_loop inflate process z buf n c = Some (None, c')"
  using assms(2-4)
proof (induction "left z" arbitrary: z buf n c rule: less_induct)
  case less
  obtain zerr out z' where r: "inflate z (PROC_BUF_SIZE - length buf) = (zerr, out, z')" by (rule prod_cases3)
  have s: "length out \<le> PROC_BUF_SIZE - length buf" "zerr = Z_OK \<Longrightarrow> left z' < left z \<and> \<not> fate z'" "zerr \<noteq> Z_STREAM_END"
    using assms(1)[unfolded zlib_spec_def, rule_format, of "PROC_BUF_SIZE - length buf" z] less.prems r by auto
  show ?case
  proof (cases "zerr = Z_OK")
    case ok: True
    note ih = less.hyps[of z'] s(2)[OF ok]
    show ?thesis
    proof (cases "length (buf @ out) = PROC_BUF_SIZE")
      case True
      obtain ret c' where p: "process (buf @ out, 0) (int (length (buf @ out))) c = Some (ret, c')" "good c'"
        using assms(5)[OF less.prems(3), of "buf @ out"] by blast
      have "0 < PROC_BUF_SIZE" by (simp add: PROC_BUF_SIZE_def)
      then show ?thesis using True ok ih p by (subst inflate_loop.simps) (simp add: r)
    next
      case False
      then have "length (buf @ out) < PROC_BUF_SIZE" using s(1) less.prems(2) by simp
      then show ?thesis using False ok s(3) ih less.prems(3) by (subst inflate_loop.simps) (simp add: r)
    qed
  next
    case False
    then show ?thesis using s(3) by (subst inflate_loop.simps) (simp add: r)
  qed
qed

section \<open>The content of an entry\<close>

definition uncompressed ::
  "(u8 list \<Rightarrow> 'z option) \<Rightarrow> ('z \<Rightarrow> bool) \<Rightarrow> ('z \<Rightarrow> u8 list) \<Rightarrow> u8 list \<Rightarrow> ZipEntry \<Rightarrow> u8 list option" where
  "uncompressed inflateInit2 fate content mem e =
     (if compression e = STORED then copy_in (mem, offset e) (uncompLen e)
      else if compression e = DEFLATED then
        do { input \<leftarrow> copy_in (mem, offset e) (compLen e);
             z \<leftarrow> inflateInit2 input;
             if fate z \<and> int (length (content z)) = uncompLen e then Some (content z) else None }
      else None)"

text \<open>
  The entries that the code handles: the compressed data is in the file, a stored entry has one size, and the uncompressed length is
  not the error value. The streams are those of contents whose size is a \<open>long\<close>.
\<close>

definition regular_entry :: "u8 list \<Rightarrow> ZipEntry \<Rightarrow> bool" where
  "regular_entry mem e \<longleftrightarrow>
     copy_in (mem, offset e) (compLen e) \<noteq> None \<and> (compression e = STORED \<longrightarrow> uncompLen e = compLen e) \<and> uncompLen e \<noteq> - 1"

definition sizes_fit :: "(u8 list \<Rightarrow> 'z option) \<Rightarrow> ('z \<Rightarrow> u8 list) \<Rightarrow> bool" where
  "sizes_fit inflateInit2 content \<longleftrightarrow> (\<forall>input z. inflateInit2 input = Some z \<longrightarrow> length (content z) < 2 ^ 31)"

lemma copy_in_length: "copy_in d n = Some bs \<Longrightarrow> int (length bs) = n \<and> piece (fst d) (snd d) (length bs) = Some bs"
  by (auto simp: copy_in_def piece_def split: if_splits)

lemma sint_size: "n < 2 ^ 31 \<Longrightarrow> sint (of_nat n :: u32) = int n"
  using sint_diff[of n 0] by simp

lemma stored_not_deflated [simp]: "STORED \<noteq> DEFLATED" "DEFLATED \<noteq> STORED"
  by (simp_all add: STORED_def DEFLATED_def)

text \<open>The cases of a deflated entry.\<close>

lemma deflated_entry:
  assumes "zlib_spec inflate fate content left" "sizes_fit inflateInit2 content" "compression e = DEFLATED" "copy_in (mem, offset e) (compLen e) = Some input"
  shows "inflateInit2 input = None \<Longrightarrow>
      mzProcessZipEntryContents inflateInit2 inflate mem e process c = Some (uncompLen e = - 1, c)"
    and "inflateInit2 input = Some z \<Longrightarrow> fate z \<Longrightarrow>
      mzProcessZipEntryContents inflateInit2 inflate mem e process c =
        map_option (\<lambda>(ok, c'). (uncompLen e = (if ok then int (length (content z)) else - 1), c')) (feed process (blocks (content z)) c)"
    and "inflateInit2 input = Some z \<Longrightarrow> \<not> fate z \<Longrightarrow> good c \<Longrightarrow>
      (\<And>bs c. good c \<Longrightarrow> \<exists>ret c'. process (bs, 0) (int (length bs)) c = Some (ret, c') \<and> good c') \<Longrightarrow>
      \<exists>c'. mzProcessZipEntryContents inflateInit2 inflate mem e process c = Some (uncompLen e = - 1, c')"
proof -
  note d = mzProcessZipEntryContents_def processDeflatedEntry_def assms(3,4)
  show "inflateInit2 input = None \<Longrightarrow>
      mzProcessZipEntryContents inflateInit2 inflate mem e process c = Some (uncompLen e = - 1, c)"
    by (auto simp: d)
  have p: "length [] < PROC_BUF_SIZE" by (simp add: PROC_BUF_SIZE_def)
  { assume z: "inflateInit2 input = Some z" "fate z"
    have "sint (of_nat (length (content z)) :: u32) = int (length (content z))"
      using z(1) assms(2) by (intro sint_size) (auto simp: sizes_fit_def)
    then show "mzProcessZipEntryContents inflateInit2 inflate mem e process c =
        map_option (\<lambda>(ok, c'). (uncompLen e = (if ok then int (length (content z)) else - 1), c')) (feed process (blocks (content z)) c)"
      using z inflate_loop_feed[OF assms(1) z(2) p, of process 0 c]
      by (cases "feed process (blocks (content z)) c") (auto simp: d) }
  { assume "inflateInit2 input = Some z" "\<not> fate z" "good c"
      "\<And>bs c. good c \<Longrightarrow> \<exists>ret c'. process (bs, 0) (int (length bs)) c = Some (ret, c') \<and> good c'"
    then show "\<exists>c'. mzProcessZipEntryContents inflateInit2 inflate mem e process c = Some (uncompLen e = - 1, c')"
      using inflate_loop_fails[OF assms(1) _ p, of z good c process 0] by (auto simp: d) }
qed

section \<open>Sinks\<close>

text \<open>
  The contract of a callback that collects bytes: with room for them the bytes are stored; a bounded sink refuses more
  bytes than it has room for.
\<close>

locale sink =
  fixes process :: "'c process" and good :: "'c \<Rightarrow> bool" and stored :: "'c \<Rightarrow> u8 list" and room :: "'c \<Rightarrow> nat"
  assumes accept: "good c \<Longrightarrow> piece mem p (length bs) = Some bs \<Longrightarrow> length bs \<le> room c \<Longrightarrow>
    \<exists>c'. process (mem, p) (int (length bs)) c = Some (True, c') \<and> good c' \<and> stored c' = stored c @ bs \<and> room c = length bs + room c'"
begin

lemma feed_accepts:
  assumes "good c" "length (concat bss) \<le> room c"
  shows "\<exists>c'. feed process bss c = Some (True, c') \<and> good c' \<and> stored c' = stored c @ concat bss \<and> room c = length (concat bss) + room c'"
  using assms
proof (induction bss arbitrary: c)
  case (Cons b bss)
  have "piece b 0 (length b) = Some b" by (simp add: piece_def)
  from accept[OF Cons.prems(1) this] Cons.prems(2)
  obtain c' where c': "process (b, 0) (int (length b)) c = Some (True, c')" "good c'" "stored c' = stored c @ b" "room c = length b + room c'" by auto
  with Cons.IH[of c'] Cons.prems(2) show ?case by auto
qed simp

lemma contents_accepted:
  assumes "zlib_spec inflate fate content left" "sizes_fit inflateInit2 content"
    and "uncompressed inflateInit2 fate content mem e = Some d" "good c" "length d \<le> room c"
  shows "\<exists>c'. mzProcessZipEntryContents inflateInit2 inflate mem e process c = Some (True, c') \<and> good c' \<and>
    stored c' = stored c @ d \<and> room c = length d + room c'"
proof (cases "compression e = STORED")
  case True
  then have "copy_in (mem, offset e) (uncompLen e) = Some d" using assms(3) by (simp add: uncompressed_def)
  from copy_in_length[OF this] show ?thesis
    using True accept[OF assms(4), of mem "offset e" d] assms(5) by (simp add: mzProcessZipEntryContents_def processStoredEntry_def)
next
  case False
  then obtain input z where z: "compression e = DEFLATED" "copy_in (mem, offset e) (compLen e) = Some input" "inflateInit2 input = Some z"
    "fate z" "int (length (content z)) = uncompLen e" "d = content z"
    using assms(3) by (auto simp: uncompressed_def elim!: bind_SomeE split: if_splits)
  obtain c' where "feed process (blocks d) c = Some (True, c')" "good c'" "stored c' = stored c @ d" "room c = length d + room c'"
    using feed_accepts[OF assms(4), of "blocks d"] assms(5) by auto
  then show ?thesis using deflated_entry(2)[OF assms(1,2) z(1-4), of process c] z(5,6) by simp
qed

end

locale bounded_sink = sink +
  assumes refuse: "good c \<Longrightarrow> room c < n \<Longrightarrow> process (mem, p) (int n) c = Some (False, c)"
begin

lemma feed_refuses:
  assumes "good c" "room c < length (concat bss)"
  shows "\<exists>c'. feed process bss c = Some (False, c')"
  using assms
proof (induction bss arbitrary: c)
  case (Cons b bss)
  show ?case
  proof (cases "length b \<le> room c")
    case True
    have "piece b 0 (length b) = Some b" by (simp add: piece_def)
    from accept[OF Cons.prems(1) this True]
    obtain c' where c': "process (b, 0) (int (length b)) c = Some (True, c')" "good c'" "room c = length b + room c'" by auto
    with Cons.IH[of c'] Cons.prems(2) show ?thesis by auto
  next
    case False
    then show ?thesis using refuse[OF Cons.prems(1)] by simp
  qed
qed simp

lemma process_returns:
  assumes "good c"
  shows "\<exists>ret c'. process (bs, 0) (int (length bs)) c = Some (ret, c') \<and> good c'"
proof (cases "length bs \<le> room c")
  case True
  have "piece bs 0 (length bs) = Some bs" by (simp add: piece_def)
  from accept[OF assms this True] show ?thesis by blast
next
  case False
  then have "process (bs, 0) (int (length bs)) c = Some (False, c)" using refuse[OF assms] by simp
  then show ?thesis using assms by blast
qed

lemma contents_refused:
  assumes "zlib_spec inflate fate content left" "sizes_fit inflateInit2 content" "regular_entry mem e" "good c"
    and "\<forall>d. uncompressed inflateInit2 fate content mem e = Some d \<longrightarrow> room c < length d"
  shows "\<exists>c'. mzProcessZipEntryContents inflateInit2 inflate mem e process c = Some (False, c')"
proof -
  obtain input where i: "copy_in (mem, offset e) (compLen e) = Some input" using assms(3) by (auto simp: regular_entry_def)
  have u: "uncompLen e \<noteq> - 1" using assms(3) by (simp add: regular_entry_def)
  consider "compression e = STORED" | "compression e = DEFLATED" | "compression e \<noteq> STORED \<and> compression e \<noteq> DEFLATED" by blast
  then show ?thesis
  proof cases
    case 1
    then have s: "uncompLen e = int (length input)" "uncompressed inflateInit2 fate content mem e = Some input"
      using assms(3) i copy_in_length[OF i] by (simp_all add: regular_entry_def uncompressed_def)
    then show ?thesis
      using 1 refuse[OF assms(4), of "length input" mem "offset e"] assms(5) by (simp add: mzProcessZipEntryContents_def processStoredEntry_def)
  next
    case 2
    note d = deflated_entry[where process = process and c = c, OF assms(1,2) 2 i]
    consider "inflateInit2 input = None" | z where "inflateInit2 input = Some z" "\<not> fate z" | z where "inflateInit2 input = Some z" "fate z"
      by (cases "inflateInit2 input") auto
    then show ?thesis
    proof cases
      case 1
      then show ?thesis using d(1) u by simp
    next
      case (2 z)
      then show ?thesis using d(3)[OF 2 assms(4) process_returns] u by simp
    next
      case (3 z)
      have nd: "length (content z) > room c" if "int (length (content z)) = uncompLen e"
        using assms(5) 3 2 i that by (simp add: uncompressed_def)
      show ?thesis
      proof (cases "length (content z) \<le> room c")
        case True
        then have "int (length (content z)) \<noteq> uncompLen e" using nd by linarith
        then show ?thesis using d(2)[OF 3] feed_accepts[OF assms(4), of "blocks (content z)"] True by auto
      next
        case False
        then show ?thesis using d(2)[OF 3] feed_refuses[OF assms(4), of "blocks (content z)"] u by auto
      qed
    qed
  qed (simp add: mzProcessZipEntryContents_def)
qed

end

definition copy_wf :: "CopyProcessArgs \<Rightarrow> bool" where
  "copy_wf args \<longleftrightarrow> 0 \<le> cp_bufLen args \<and> int (cp_buf args) + cp_bufLen args = int (length (cp_array args))"

definition bec_wf :: "BufferExtractCookie \<Rightarrow> bool" where
  "bec_wf bec \<longleftrightarrow> 0 \<le> bec_len bec \<and> int (bec_buffer bec) + bec_len bec = int (length (bec_array bec))"

lemma copy_out_stores:
  assumes "pos + length bs \<le> length buf"
  shows "\<exists>buf'. copy_out buf pos bs = Some buf' \<and> length buf' = length buf \<and> take (pos + length bs) buf' = take pos buf @ bs \<and>
    drop (pos + length bs) buf' = drop (pos + length bs) buf"
  using assms by (auto simp: copy_out_def)

interpretation copy: bounded_sink copyProcessFunction copy_wf "\<lambda>args. take (cp_buf args) (cp_array args)" "\<lambda>args. nat (cp_bufLen args)"
proof
  fix args mem p and bs :: "u8 list"
  assume a: "copy_wf args" "piece mem p (length bs) = Some bs" "length bs \<le> nat (cp_bufLen args)"
  have "cp_buf args + length bs \<le> length (cp_array args)" using a(1,3) by (simp add: copy_wf_def) linarith
  then obtain buf where "copy_out (cp_array args) (cp_buf args) bs = Some buf" "length buf = length (cp_array args)"
    "take (cp_buf args + length bs) buf = take (cp_buf args) (cp_array args) @ bs"
    using copy_out_stores by blast
  then show "\<exists>args'. copyProcessFunction (mem, p) (int (length bs)) args = Some (True, args') \<and> copy_wf args' \<and>
      take (cp_buf args') (cp_array args') = take (cp_buf args) (cp_array args) @ bs \<and> nat (cp_bufLen args) = length bs + nat (cp_bufLen args')"
    using a by (auto simp: copyProcessFunction_def copy_in_def copy_wf_def)
next
  fix args mem p and n :: nat
  assume "copy_wf args" "nat (cp_bufLen args) < n"
  then show "copyProcessFunction (mem, p) (int n) args = Some (False, args)" by (auto simp: copyProcessFunction_def copy_wf_def)
qed

interpretation buffer: sink bufferProcessFunction bec_wf "\<lambda>bec. take (bec_buffer bec) (bec_array bec)" "\<lambda>bec. nat (bec_len bec)"
proof
  fix bec mem p and bs :: "u8 list"
  assume a: "bec_wf bec" "piece mem p (length bs) = Some bs" "length bs \<le> nat (bec_len bec)"
  have "bec_buffer bec + length bs \<le> length (bec_array bec)" using a(1,3) by (simp add: bec_wf_def) linarith
  then obtain buf where "copy_out (bec_array bec) (bec_buffer bec) bs = Some buf" "length buf = length (bec_array bec)"
    "take (bec_buffer bec + length bs) buf = take (bec_buffer bec) (bec_array bec) @ bs"
    using copy_out_stores by blast
  then show "\<exists>bec'. bufferProcessFunction (mem, p) (int (length bs)) bec = Some (True, bec') \<and> bec_wf bec' \<and>
      take (bec_buffer bec') (bec_array bec') = take (bec_buffer bec) (bec_array bec) @ bs \<and> nat (bec_len bec) = length bs + nat (bec_len bec')"
    using a by (auto simp: bufferProcessFunction_def copy_in_def bec_wf_def)
qed

text \<open>There is no refusal here: more bytes than the buffer holds are written past its end.\<close>

lemma buffer_overflow:
  assumes "bec_wf bec" "nat (bec_len bec) < length (concat bss)"
  shows "feed bufferProcessFunction bss bec = None"
  using assms
proof (induction bss arbitrary: bec)
  case (Cons b bss)
  have b: "piece b 0 (length b) = Some b" by (simp add: piece_def)
  show ?case
  proof (cases "length b \<le> nat (bec_len bec)")
    case True
    from buffer.accept[OF Cons.prems(1) b True] Cons.IH Cons.prems(2) show ?thesis by auto
  next
    case False
    then have "\<not> bec_buffer bec + length b \<le> length (bec_array bec)" using Cons.prems(1) by (simp add: bec_wf_def) linarith
    then show ?thesis by (simp add: bufferProcessFunction_def copy_in_def b copy_out_def)
  qed
qed simp

section \<open>Files\<close>

lemma copy_in_rest:
  assumes "copy_in d n = Some bs" "0 \<le> k" "k \<le> n"
  shows "copy_in (fst d, snd d + k) (n - k) = Some (drop (nat k) bs)"
  using assms by (auto simp: copy_in_def piece_def drop_take nat_add_distrib nat_diff_distrib add.commute split: if_splits)

lemma write_loop_true:
  assumes "write_spec os_write file" "copy_in d n = Some bs"
  shows "0 \<le> k \<Longrightarrow> k < n \<Longrightarrow> write_loop os_write fd d n k w = Some (True, w') \<Longrightarrow> file w' fd = file w fd @ drop (nat k) bs"
proof (induction "nat (n - k)" arbitrary: k w rule: less_induct)
  case less
  have l: "length bs = nat n" using copy_in_length[OF assms(2)] by linarith
  obtain w1 j where r: "os_write w fd (drop (nat k) bs) = (w1, j)" by (rule prod.exhaust)
  have j: "file w1 fd = file w fd @ take (nat j) (drop (nat k) bs)"
    using assms(1)[unfolded write_spec_def, rule_format, where w = w and fd = fd and bs = "drop (nat k) bs"] r by simp
  have step: "write_loop os_write fd d n k w = (if j \<le> 0 then Some (False, w1) else if k + j = n then Some (True, w1)
      else if k + j > n then Some (False, w1) else write_loop os_write fd d n (k + j) w1)"
    using copy_in_rest[OF assms(2) less.prems(1)] less.prems(2) r by (subst write_loop.simps) simp
  then have p: "0 < j" "k + j = n \<or> k + j < n" using less.prems(3) by (auto split: if_splits)
  have more: "k + j < n \<Longrightarrow> write_loop os_write fd d n (k + j) w1 = Some (True, w')" and last: "k + j = n \<Longrightarrow> w' = w1"
    using step p less.prems(3) by auto
  show ?case
  proof (cases "k + j = n")
    case True
    then have "length (drop (nat k) bs) = nat j" using l less.prems(1,2) by (simp add: nat_diff_distrib)
    then show ?thesis using j last[OF True] by simp
  next
    case False
    then have "k + j < n" using p by simp
    from less.hyps[OF _ _ this more[OF this]] have "file w' fd = file w1 fd @ drop (nat (k + j)) bs" using p less.prems by simp
    then show ?thesis using j p less.prems by (simp add: nat_add_distrib add.commute flip: drop_drop)
  qed
qed

lemma write_loop_returns:
  assumes "copy_in d n = Some bs"
  shows "0 \<le> k \<Longrightarrow> k \<le> n \<Longrightarrow> \<exists>r. write_loop os_write fd d n k w = Some r"
proof (induction "nat (n - k)" arbitrary: k w rule: less_induct)
  case less
  obtain w1 j where "os_write w fd (drop (nat k) bs) = (w1, j)" by (rule prod.exhaust)
  then show ?case using less.hyps[of "k + j" w1] less.prems copy_in_rest[OF assms less.prems(1)]
    by (subst write_loop.simps) auto
qed

lemma write_loop_progress:
  assumes "write_spec os_write file" "copy_in d n = Some bs" "\<And>w bs. bs \<noteq> [] \<Longrightarrow> 0 < snd (os_write w fd bs)"
  shows "0 \<le> k \<Longrightarrow> k < n \<Longrightarrow> \<exists>w'. write_loop os_write fd d n k w = Some (True, w')"
proof (induction "nat (n - k)" arbitrary: k w rule: less_induct)
  case less
  have l: "length bs = nat n" using copy_in_length[OF assms(2)] by linarith
  obtain w1 j where r: "os_write w fd (drop (nat k) bs) = (w1, j)" by (rule prod.exhaust)
  have "drop (nat k) bs \<noteq> []" using l less.prems by simp
  from assms(3)[OF this, of w] have j: "0 < j" "j \<le> n - k"
    using assms(1)[unfolded write_spec_def, rule_format, where w = w and fd = fd and bs = "drop (nat k) bs"] r l less.prems by (auto simp: nat_diff_distrib)
  then show ?case using less.hyps[of "k + j" w1] less.prems copy_in_rest[OF assms(2) less.prems(1)] r
    by (subst write_loop.simps) simp
qed

text \<open>What the callback that writes to a file does with a block, and with all blocks.\<close>

lemma writeProcessFunction_true:
  assumes "write_spec os_write file" "copy_in d n = Some bs" "writeProcessFunction os_write fd d n w = Some (True, w')"
  shows "file w' fd = file w fd @ bs"
proof (cases "n = 0")
  case True
  then show ?thesis using assms(3) copy_in_length[OF assms(2)] by (simp add: writeProcessFunction_def)
next
  case False
  then have "0 < n" using copy_in_length[OF assms(2)] by simp
  then show ?thesis using write_loop_true[OF assms(1,2), where k = 0] assms(3) False by (simp add: writeProcessFunction_def)
qed

lemma writeProcessFunction_progress:
  assumes "write_spec os_write file" "\<And>w bs. bs \<noteq> [] \<Longrightarrow> 0 < snd (os_write w fd bs)" "copy_in d n = Some bs"
  shows "\<exists>w'. writeProcessFunction os_write fd d n w = Some (True, w')"
proof (cases "n = 0")
  case False
  then have "0 < n" using copy_in_length[OF assms(3)] by simp
  then show ?thesis using write_loop_progress[OF assms(1,3,2), where k = 0] by (simp add: writeProcessFunction_def)
qed (simp add: writeProcessFunction_def)

lemma copy_in_whole: "copy_in (b, 0) (int (length b)) = Some b"
  by (simp add: copy_in_def piece_def)

lemma writeProcessFunction_returns: "\<exists>ret w'. writeProcessFunction os_write fd (b, 0) (int (length b)) w = Some (ret, w')"
  using write_loop_returns[OF copy_in_whole[of b], of 0 os_write fd w] by (auto simp: writeProcessFunction_def)

lemma feed_write_true:
  assumes "write_spec os_write file"
  shows "feed (writeProcessFunction os_write fd) bss w = Some (True, w') \<Longrightarrow> file w' fd = file w fd @ concat bss"
proof (induction bss arbitrary: w)
  case (Cons b bss)
  then obtain w1 where "writeProcessFunction os_write fd (b, 0) (int (length b)) w = Some (True, w1)"
    "feed (writeProcessFunction os_write fd) bss w1 = Some (True, w')"
    by (auto elim!: bind_SomeE split: if_splits)
  then show ?case using writeProcessFunction_true[OF assms copy_in_whole] Cons.IH by simp
qed simp

lemma feed_write_progress:
  assumes "write_spec os_write file" "\<And>w bs. bs \<noteq> [] \<Longrightarrow> 0 < snd (os_write w fd bs)"
  shows "\<exists>w'. feed (writeProcessFunction os_write fd) bss w = Some (True, w')"
proof (induction bss arbitrary: w)
  case (Cons b bss)
  obtain w1 where "writeProcessFunction os_write fd (b, 0) (int (length b)) w = Some (True, w1)"
    using writeProcessFunction_progress[OF assms copy_in_whole] by blast
  then show ?case using Cons.IH[of w1] by simp
qed simp

section \<open>Properties\<close>

text \<open>
  C14. Let the compressed data of the entry be in the file, its declared length not be \<open>2\<^sup>3\<^sup>2 - 1\<close> (which a \<open>long\<close> holds as \<open>- 1\<close>),
  its two lengths be equal if it is stored, and streams have less than \<open>2\<^sup>3\<^sup>1\<close> bytes. Then \<open>mzReadZipEntry\<close> returns and stays inside the buffer of the
  caller, and succeeds exactly when the entry is a valid one of its declared size that fits into the buffer; then the buffer begins with
  the content. The code tests none of these conditions on the lengths.
\<close>

theorem mzReadZipEntry_correct:
  assumes "zlib_spec inflate fate content left" "sizes_fit inflateInit2 content" "regular_entry mem e"
  shows "\<exists>ok buf'. mzReadZipEntry inflateInit2 inflate mem e buf (int (length buf)) = Some (ok, buf') \<and>
    (ok \<longleftrightarrow> (\<exists>d. uncompressed inflateInit2 fate content mem e = Some d \<and> length d \<le> length buf \<and> take (length d) buf' = d))"
proof -
  define args where "args = \<lparr>cp_array = buf, cp_buf = 0, cp_bufLen = int (length buf)\<rparr>"
  have a: "copy_wf args" "nat (cp_bufLen args) = length buf" "take (cp_buf args) (cp_array args) = []" by (simp_all add: args_def copy_wf_def)
  note read = mzReadZipEntry_def[of inflateInit2 inflate mem e buf "int (length buf)", folded args_def]
  show ?thesis
  proof (cases "\<exists>d. uncompressed inflateInit2 fate content mem e = Some d \<and> length d \<le> length buf")
    case True
    then obtain d where d: "uncompressed inflateInit2 fate content mem e = Some d" "length d \<le> length buf" by blast
    with copy.contents_accepted[OF assms(1,2) d(1) a(1)] a(2,3) obtain args' where
      r: "mzProcessZipEntryContents inflateInit2 inflate mem e copyProcessFunction args = Some (True, args')" "copy_wf args'"
        "take (cp_buf args') (cp_array args') = d" by auto
    then have "take (length d) (cp_array args') = d" by (auto simp: min_def)
    then show ?thesis using r(1) d by (auto simp: read)
  next
    case False
    then have "\<forall>d. uncompressed inflateInit2 fate content mem e = Some d \<longrightarrow> nat (cp_bufLen args) < length d" using a(2) by auto
    from copy.contents_refused[OF assms a(1) this] False show ?thesis by (auto simp: read)
  qed
qed

text \<open>A stream format for concrete inputs: the content itself with a flag for its validity, handed out in order.\<close>

definition raw_inflate :: "u8 list \<times> bool \<Rightarrow> nat \<Rightarrow> int \<times> u8 list \<times> u8 list \<times> bool" where
  "raw_inflate z n =
     (if length (fst z) \<le> n then (if snd z then Z_STREAM_END else - 3, fst z, [], snd z)
      else (Z_OK, take n (fst z), drop n (fst z), snd z))"

definition raw_init :: "u8 list \<Rightarrow> (u8 list \<times> bool) option" where
  "raw_init bs = (if length bs < 2 ^ 31 then Some (bs, bs \<noteq> [0]) else None)"

definition raw_entry :: "int \<Rightarrow> int \<Rightarrow> ZipEntry" where
  "raw_entry c u = (sample_entry 0 0)\<lparr>offset := 0, compLen := c, uncompLen := u, compression := DEFLATED\<rparr>"

lemma raw_zlib: "zlib_spec raw_inflate snd fst (\<lambda>z. length (fst z))" "sizes_fit raw_init fst"
  by (auto simp: zlib_spec_def raw_inflate_def Z_OK_def Z_STREAM_END_def sizes_fit_def raw_init_def split: if_splits)

lemma raw_regular: "regular_entry [7, 8, 9] (raw_entry 3 3)"
  by (simp add: regular_entry_def raw_entry_def copy_in_def piece_def)

lemma raw_content: "uncompressed raw_init snd fst [7, 8, 9] (raw_entry 3 3) = Some [7, 8, 9]"
  by (simp add: uncompressed_def raw_entry_def copy_in_def piece_def raw_init_def)

theorem mzReadZipEntry_witness:
  "\<exists>buf'. mzReadZipEntry raw_init raw_inflate [7, 8, 9] (raw_entry 3 3) [0, 0, 0, 0] 4 = Some (True, buf') \<and> take 3 buf' = [7, 8, 9]"
proof -
  let ?buf = "[0, 0, 0, 0 :: u8]"
  obtain ok buf' where r: "mzReadZipEntry raw_init raw_inflate [7, 8, 9] (raw_entry 3 3) ?buf (int (length ?buf)) = Some (ok, buf')"
    "ok \<longleftrightarrow> (\<exists>d. uncompressed raw_init snd fst [7, 8, 9] (raw_entry 3 3) = Some d \<and> length d \<le> length ?buf \<and> take (length d) buf' = d)"
    using mzReadZipEntry_correct[OF raw_zlib raw_regular, of ?buf] by blast
  have "mzReadZipEntry raw_init raw_inflate [7, 8, 9] (raw_entry 3 3) ?buf (int (length ?buf)) = Some (True, [7, 8, 9, 0])"
    by (simp add: mzReadZipEntry_def mzProcessZipEntryContents_def processDeflatedEntry_def raw_entry_def copy_in_def piece_def raw_init_def
      inflate_loop.simps raw_inflate_def PROC_BUF_SIZE_def Z_OK_def Z_STREAM_END_def copyProcessFunction_def copy_out_def)
  then show ?thesis using r by (auto simp: raw_content)
qed

text \<open>
  Without the conditions: a stored entry of declared length \<open>2\<^sup>3\<^sup>2 - 1\<close> passes the test \<open>dataLen <= bufLen\<close>, and \<open>memcpy\<close> is called with a
  negative length. Such an entry is opened, as its declared length is not compared with anything.
\<close>

lemma mzReadZipEntry_stored_overflow:
  assumes "compression e = STORED" "uncompLen e < 0"
  shows "mzReadZipEntry inflateInit2 inflate mem e buf (int (length buf)) = None"
  using assms by (simp add: mzReadZipEntry_def mzProcessZipEntryContents_def processStoredEntry_def copyProcessFunction_def copy_in_def)

lemma mzReadZipEntry_stored_overflow_opened:
  "\<exists>a e. mzOpenZipArchive checked_ptr checked_off (\<lambda>_. True) 0x1000 (sample_zip [2, 0, 0, 0] [255, 255, 255, 255] [0, 0]) = Some (0, Some a) \<and>
     arc_pEntries a = [e] \<and> mzReadZipEntry raw_init raw_inflate (sample_zip [2, 0, 0, 0] [255, 255, 255, 255] [0, 0]) e [0] 1 = None"
proof -
  have b: "be32 0 0 0 2 = 2" "be32 255 255 255 255 = - 1" by code_simp+
  obtain a where "mzOpenZipArchive checked_ptr checked_off (\<lambda>_. True) 0x1000 (sample_zip [2, 0, 0, 0] [255, 255, 255, 255] [0, 0]) = Some (0, Some a)"
    "arc_pEntries a = [sample_entry 2 (- 1)]"
    by (rule sample_opens_plain[of 0 0 0 2 255 255 255 255]) (simp_all add: b)
  moreover have "mzReadZipEntry raw_init raw_inflate (sample_zip [2, 0, 0, 0] [255, 255, 255, 255] [0, 0]) (sample_entry 2 (- 1)) [0] 1 = None"
    using mzReadZipEntry_stored_overflow[of "sample_entry 2 (- 1)" raw_init raw_inflate _ "[0]"] by (simp add: sample_entry_def STORED_def)
  ultimately show ?thesis by blast
qed

text \<open>
  C15. The error value of \<open>processDeflatedEntry\<close> is also a length: for a deflated entry that declares \<open>2\<^sup>3\<^sup>2 - 1\<close> bytes, which
  a \<open>long\<close> holds as \<open>- 1\<close>, a stream that zlib rejects is reported as read.
\<close>

theorem mzReadZipEntry_bad_stream:
  assumes "zlib_spec inflate fate content left" "sizes_fit inflateInit2 content" "compression e = DEFLATED" "uncompLen e = - 1"
    and "copy_in (mem, offset e) (compLen e) = Some input" "inflateInit2 input = Some z" "\<not> fate z"
  shows "\<exists>buf'. mzReadZipEntry inflateInit2 inflate mem e buf (int (length buf)) = Some (True, buf')"
proof -
  let ?args = "\<lparr>cp_array = buf, cp_buf = 0, cp_bufLen = int (length buf)\<rparr>"
  have "copy_wf ?args" by (simp add: copy_wf_def)
  from deflated_entry(3)[where good = copy_wf and process = copyProcessFunction, OF assms(1,2,3,5,6,7) this copy.process_returns] assms(4)
  show ?thesis by (auto simp: mzReadZipEntry_def)
qed

theorem mzReadZipEntry_bad_stream_witness:
  "\<exists>buf'. mzReadZipEntry raw_init raw_inflate [0] (raw_entry 1 (- 1)) [5] (int (length [5 :: u8])) = Some (True, buf')"
  by (rule mzReadZipEntry_bad_stream[OF raw_zlib, where input = "[0]" and z = "([0], False)"])
    (simp_all add: raw_entry_def copy_in_def piece_def raw_init_def)

text \<open>
  \<open>mzExtractZipEntryToBuffer\<close> with a buffer of the declared length extracts the content of a valid entry.
\<close>

lemma mzExtractZipEntryToBuffer_correct:
  assumes "zlib_spec inflate fate content left" "sizes_fit inflateInit2 content"
    and "uncompressed inflateInit2 fate content mem e = Some d" "length buf = nat (uncompLen e)"
  shows "mzExtractZipEntryToBuffer inflateInit2 inflate mem e buf = Some (True, d)"
proof -
  define bec where "bec = \<lparr>bec_array = buf, bec_buffer = 0, bec_len = uncompLen e\<rparr>"
  have l: "uncompLen e = int (length d)"
    using assms(3) copy_in_length[of "(mem, offset e)" "uncompLen e" d] by (auto simp: uncompressed_def elim!: bind_SomeE split: if_splits)
  have b: "bec_wf bec" "nat (bec_len bec) = length d" "take (bec_buffer bec) (bec_array bec) = []"
    using assms(4) l by (simp_all add: bec_def bec_wf_def)
  with buffer.contents_accepted[OF assms(1-3) b(1)] obtain bec' where
    r: "mzProcessZipEntryContents inflateInit2 inflate mem e bufferProcessFunction bec = Some (True, bec')" "bec_wf bec'"
      "take (bec_buffer bec') (bec_array bec') = d" "nat (bec_len bec') = 0" by auto
  then have "bec_len bec' = 0" "bec_buffer bec' = length (bec_array bec')" by (auto simp: bec_wf_def)
  then show ?thesis using r by (simp add: mzExtractZipEntryToBuffer_def bec_def[symmetric])
qed

theorem mzExtractZipEntryToBuffer_witness:
  "mzExtractZipEntryToBuffer raw_init raw_inflate [7, 8, 9] (raw_entry 3 3) [0, 0, 0] = Some (True, [7, 8, 9])"
  by (rule mzExtractZipEntryToBuffer_correct[OF raw_zlib raw_content]) (simp add: raw_entry_def)

text \<open>
  C16. A deflated entry whose stream holds more than the declared length is written past the end of such a buffer: the length is
  compared only after the data. With a stored entry that declares more than the file has, the file is read past its end.
\<close>

theorem mzExtractZipEntryToBuffer_overflow:
  assumes "zlib_spec inflate fate content left" "sizes_fit inflateInit2 content" "0 \<le> uncompLen e" "length buf = nat (uncompLen e)"
    and "(\<exists>input z. compression e = DEFLATED \<and> copy_in (mem, offset e) (compLen e) = Some input \<and> inflateInit2 input = Some z \<and> fate z \<and>
        uncompLen e < int (length (content z))) \<or>
      compression e = STORED \<and> int (length mem) < offset e + uncompLen e"
  shows "mzExtractZipEntryToBuffer inflateInit2 inflate mem e buf = None"
  using assms(5)
proof (elim disjE exE conjE)
  fix input z
  assume z: "compression e = DEFLATED" "copy_in (mem, offset e) (compLen e) = Some input" "inflateInit2 input = Some z" "fate z"
    "uncompLen e < int (length (content z))"
  let ?bec = "\<lparr>bec_array = buf, bec_buffer = 0, bec_len = uncompLen e\<rparr>"
  have "feed bufferProcessFunction (blocks (content z)) ?bec = None"
    by (rule buffer_overflow) (use assms(3,4) z(5) in \<open>simp_all add: bec_wf_def\<close>)
  then show ?thesis
    using deflated_entry(2)[OF assms(1,2) z(1-4), of bufferProcessFunction ?bec] by (simp add: mzExtractZipEntryToBuffer_def)
next
  assume "compression e = STORED" "int (length mem) < offset e + uncompLen e"
  then show ?thesis using assms(3)
    by (simp add: mzExtractZipEntryToBuffer_def mzProcessZipEntryContents_def processStoredEntry_def bufferProcessFunction_def copy_in_def piece_def)
qed

theorem mzExtractZipEntryToBuffer_overflow_witness:
  "\<exists>a e. mzOpenZipArchive checked_ptr checked_off (\<lambda>_. True) 0x1000 (sample_zip [2, 0, 0, 0] [100, 0, 0, 0] [0, 0]) = Some (0, Some a) \<and>
     arc_pEntries a = [e] \<and> mzExtractZipEntryToBuffer raw_init raw_inflate (sample_zip [2, 0, 0, 0] [100, 0, 0, 0] [0, 0]) e (replicate 100 0) = None"
proof -
  have b: "be32 0 0 0 2 = 2" "be32 0 0 0 100 = 100" by code_simp+
  obtain a where "mzOpenZipArchive checked_ptr checked_off (\<lambda>_. True) 0x1000 (sample_zip [2, 0, 0, 0] [100, 0, 0, 0] [0, 0]) = Some (0, Some a)"
    "arc_pEntries a = [sample_entry 2 100]"
    by (rule sample_opens_plain[of 0 0 0 2 100 0 0 0]) (simp_all add: b)
  moreover have "mzExtractZipEntryToBuffer raw_init raw_inflate (sample_zip [2, 0, 0, 0] [100, 0, 0, 0] [0, 0]) (sample_entry 2 100) (replicate 100 0) = None"
    by (rule mzExtractZipEntryToBuffer_overflow[OF raw_zlib]) (simp_all add: sample_entry_def STORED_def sample_bytes(20))
  ultimately show ?thesis by blast
qed

text \<open>
  C17. Let the compressed data of the entry be in the file, its declared length not be \<open>2\<^sup>3\<^sup>2 - 1\<close>, its two lengths be equal if it is
  stored, and streams have less than \<open>2\<^sup>3\<^sup>1\<close> bytes. When \<open>mzExtractZipEntryToFile\<close> then reports success, the entry is a valid one of its declared
  size and the file has grown by exactly its content, however the kernel splits the writes.
\<close>

theorem mzExtractZipEntryToFile_correct:
  assumes "zlib_spec inflate fate content left" "sizes_fit inflateInit2 content" "regular_entry mem e" "write_spec os_write file"
    and "mzExtractZipEntryToFile inflateInit2 inflate os_write mem e fd w = Some (True, w')"
  shows "\<exists>d. uncompressed inflateInit2 fate content mem e = Some d \<and> file w' fd = file w fd @ d"
proof -
  obtain input where i: "copy_in (mem, offset e) (compLen e) = Some input" using assms(3) by (auto simp: regular_entry_def)
  have u: "uncompLen e \<noteq> - 1" "compression e = STORED \<Longrightarrow> uncompLen e = compLen e" using assms(3) by (simp_all add: regular_entry_def)
  note r = assms(5)[unfolded mzExtractZipEntryToFile_def]
  consider "compression e = STORED" | "compression e = DEFLATED" using r by (auto simp: mzProcessZipEntryContents_def split: if_splits)
  then show ?thesis
  proof cases
    case 1
    then have "writeProcessFunction os_write fd (mem, offset e) (compLen e) w = Some (True, w')"
      using r u(2) by (simp add: mzProcessZipEntryContents_def processStoredEntry_def)
    from writeProcessFunction_true[OF assms(4) i this] 1 i u(2) show ?thesis by (simp add: uncompressed_def)
  next
    case 2
    note d = deflated_entry[where process = "writeProcessFunction os_write fd" and c = w, OF assms(1,2) 2 i]
    obtain z where z: "inflateInit2 input = Some z" using d(1) r u(1) by (cases "inflateInit2 input") auto
    have "fate z"
    proof (rule ccontr)
      assume "\<not> fate z"
      from d(3)[where good = "\<lambda>_. True", OF z this] writeProcessFunction_returns[of os_write fd] r u(1) show False by auto
    qed
    then obtain ok where f: "feed (writeProcessFunction os_write fd) (blocks (content z)) w = Some (ok, w')"
      "uncompLen e = (if ok then int (length (content z)) else - 1)"
      using d(2)[OF z] r by (cases "feed (writeProcessFunction os_write fd) (blocks (content z)) w") auto
    then show ?thesis using u(1) 2 i z feed_write_true[OF assms(4)] \<open>fate z\<close> by (auto simp: uncompressed_def split: if_splits)
  qed
qed

text \<open>A file system with one file, whose writes take one byte at a time.\<close>

definition slow_write :: "u8 list \<Rightarrow> int \<Rightarrow> u8 list \<Rightarrow> u8 list \<times> int" where
  "slow_write w fd bs = (w @ take 1 bs, int (length (take 1 bs)))"

lemma slow_write: "write_spec slow_write (\<lambda>w fd. w)" "bs \<noteq> [] \<Longrightarrow> 0 < snd (slow_write w fd bs)"
  by (auto simp: write_spec_def slow_write_def min_def)

lemma slow_extract:
  "mzExtractZipEntryToFile raw_init raw_inflate slow_write [7, 8, 9] (raw_entry 3 3) 4 [1] = Some (True, [1, 7, 8, 9])"
  by (simp add: mzExtractZipEntryToFile_def mzProcessZipEntryContents_def processDeflatedEntry_def raw_entry_def copy_in_def piece_def raw_init_def
    inflate_loop.simps raw_inflate_def PROC_BUF_SIZE_def Z_OK_def Z_STREAM_END_def writeProcessFunction_def write_loop.simps slow_write_def)

theorem mzExtractZipEntryToFile_witness:
  "\<exists>d. uncompressed raw_init snd fst [7, 8, 9] (raw_entry 3 3) = Some d \<and> [1, 7, 8, 9] = [1] @ d"
  by (rule mzExtractZipEntryToFile_correct[OF raw_zlib raw_regular slow_write(1) slow_extract])

text \<open>
  C18. On a kernel whose writes always make progress, \<open>mzExtractZipEntryToFile\<close> succeeds for every valid entry.
\<close>

theorem mzExtractZipEntryToFile_succeeds:
  assumes "zlib_spec inflate fate content left" "sizes_fit inflateInit2 content" "write_spec os_write file"
    and "\<And>w bs. bs \<noteq> [] \<Longrightarrow> 0 < snd (os_write w fd bs)" "uncompressed inflateInit2 fate content mem e = Some d"
  shows "\<exists>w'. mzExtractZipEntryToFile inflateInit2 inflate os_write mem e fd w = Some (True, w')"
proof (cases "compression e = STORED")
  case True
  then have "copy_in (mem, offset e) (uncompLen e) = Some d" using assms(5) by (simp add: uncompressed_def)
  from writeProcessFunction_progress[OF assms(3,4) this] True show ?thesis
    by (simp add: mzExtractZipEntryToFile_def mzProcessZipEntryContents_def processStoredEntry_def)
next
  case False
  then obtain input z where z: "compression e = DEFLATED" "copy_in (mem, offset e) (compLen e) = Some input" "inflateInit2 input = Some z"
    "fate z" "int (length (content z)) = uncompLen e"
    using assms(5) by (auto simp: uncompressed_def elim!: bind_SomeE split: if_splits)
  obtain w' where "feed (writeProcessFunction os_write fd) (blocks (content z)) w = Some (True, w')"
    using feed_write_progress[OF assms(3,4)] by blast
  then show ?thesis
    using deflated_entry(2)[OF assms(1,2) z(1-4), of "writeProcessFunction os_write fd" w] z(5) by (simp add: mzExtractZipEntryToFile_def)
qed

theorem mzExtractZipEntryToFile_succeeds_witness:
  "\<exists>w'. mzExtractZipEntryToFile raw_init raw_inflate slow_write [7, 8, 9] (raw_entry 3 3) 4 [1] = Some (True, w')"
  by (rule mzExtractZipEntryToFile_succeeds[OF raw_zlib slow_write raw_content])

end
