(* ===== verification/Zip_Files.thy ===== *)
theory Zip_Files
  imports Zip_Extract "HOL-Library.Sublist"
begin

text \<open>
  Extracting a directory of an archive to the file system (\<open>mzExtractRecursive\<close> of \<^verbatim>\<open>minzip/Zip.c\<close> and \<open>dirCreateHierarchy\<close>
  of \<^verbatim>\<open>minzip/DirUtil.c\<close>). The system calls are the fields of a record, functions on the state of the world; C strings
  are the bytes before the terminating zero.
\<close>

section \<open>The code\<close>

datatype stat_result = StatDir | StatOther | StatNoEnt | StatError

datatype DirStatus = DMISSING | DDIR | DILLEGAL

record 'w os =
  os_malloc :: "'w \<Rightarrow> nat \<Rightarrow> bool"
  os_realloc :: "'w \<Rightarrow> u8 list option \<Rightarrow> int \<Rightarrow> u8 list option"
  os_stat :: "'w \<Rightarrow> u8 list \<Rightarrow> stat_result"
  os_mkdir :: "'w \<Rightarrow> u8 list \<Rightarrow> 'w \<times> int"
  os_utime :: "'w \<Rightarrow> u8 list \<Rightarrow> 'w \<times> int"
  os_creat :: "'w \<Rightarrow> u8 list \<Rightarrow> 'w \<times> int"
  os_writes :: "'w \<Rightarrow> int \<Rightarrow> u8 list \<Rightarrow> 'w \<times> int"
  os_close :: "'w \<Rightarrow> int \<Rightarrow> 'w"
  os_label :: "u8 list \<Rightarrow> u8 list option"
  os_setfscreatecon :: "'w \<Rightarrow> u8 list option \<Rightarrow> 'w"

abbreviation slash :: u8 where "slash \<equiv> 47"

definition getPathDirStatus :: "'w os \<Rightarrow> 'w \<Rightarrow> u8 list \<Rightarrow> DirStatus" where
  "getPathDirStatus os w path =
     (case os_stat os w path of
        StatDir \<Rightarrow> DDIR
      | StatOther \<Rightarrow> DILLEGAL
      | StatError \<Rightarrow> DILLEGAL
      | StatNoEnt \<Rightarrow> DMISSING)"

text \<open>A call that creates a file, under the security context of its path if there is a handle.\<close>

definition with_context :: "'w os \<Rightarrow> bool \<Rightarrow> u8 list \<Rightarrow> ('w \<Rightarrow> 'w \<times> int) \<Rightarrow> 'w \<Rightarrow> 'w \<times> int" where
  "with_context os sehnd path create w =
     (let secontext = (if sehnd then os_label os path else None);
          w = (if sehnd then os_setfscreatecon os w secontext else w)
      in case create w of (w, r) \<Rightarrow>
           (if secontext \<noteq> None then os_setfscreatecon os w None else w, r))"

definition make_level :: "'w os \<Rightarrow> bool \<Rightarrow> bool \<Rightarrow> u8 list \<Rightarrow> 'w \<Rightarrow> bool \<times> 'w" where
  "make_level os timestamp sehnd cpath w =
     (case getPathDirStatus os w cpath of
        DILLEGAL \<Rightarrow> (False, w)
      | DMISSING \<Rightarrow>
          (case with_context os sehnd cpath (\<lambda>w. os_mkdir os w cpath) w of (w, err) \<Rightarrow>
             if err \<noteq> 0 then (False, w)
             else if timestamp then (case os_utime os w cpath of (w, err) \<Rightarrow> (err = 0, w))
             else (True, w))
      | DDIR \<Rightarrow> (True, w))"

text \<open>
  The loop of \<open>dirCreateHierarchy\<close>: \<open>pre\<close> is the path before the pointer \<open>p\<close> and \<open>rest\<close> the path from there on. Searching for a
  slash that is not there runs past the string.
\<close>

function make_levels :: "'w os \<Rightarrow> bool \<Rightarrow> bool \<Rightarrow> u8 list \<Rightarrow> u8 list \<Rightarrow> 'w \<Rightarrow> (int \<times> 'w) option" where
  "make_levels os timestamp sehnd pre rest w =
     (let slashes = takeWhile (\<lambda>c. c = slash) rest;
          p = dropWhile (\<lambda>c. c = slash) rest
      in if p = [] then Some (0, w)
         else if slash \<notin> set p then None
         else let cpath = pre @ slashes @ takeWhile (\<lambda>c. c \<noteq> slash) p
              in case make_level os timestamp sehnd cpath w of (ok, w) \<Rightarrow>
                   if ok then make_levels os timestamp sehnd cpath (dropWhile (\<lambda>c. c \<noteq> slash) p) w
                   else Some (- 1, w))"
  by pat_completeness auto

lemma next_level:
  assumes "dropWhile (\<lambda>c. c = slash) rest \<noteq> []"
  shows "length (dropWhile (\<lambda>c. c \<noteq> slash) (dropWhile (\<lambda>c. c = slash) rest)) < length rest"
proof -
  obtain c p where p: "dropWhile (\<lambda>c. c = slash) rest = c # p" using assms by (cases "dropWhile (\<lambda>c. c = slash) rest") auto
  then have "c \<noteq> slash" using hd_dropWhile[OF assms] by simp
  moreover have "length (c # p) \<le> length rest" using p length_dropWhile_le[of "\<lambda>c. c = slash" rest] by simp
  ultimately show ?thesis using length_dropWhile_le[of "\<lambda>c. c \<noteq> slash" p] unfolding p by simp
qed

termination make_levels
  by (relation "measure (\<lambda>(os, timestamp, sehnd, pre, rest, w). length rest)") (auto intro: next_level)

declare make_levels.simps [simp del]

fun strip_loop :: "u8 list \<Rightarrow> nat \<Rightarrow> nat" where
  "strip_loop cpath 0 = 0"
| "strip_loop cpath (Suc c) = (if cpath ! Suc c \<noteq> slash then strip_loop cpath c else Suc c)"

definition dirCreateHierarchy :: "'w os \<Rightarrow> u8 list \<Rightarrow> bool \<Rightarrow> bool \<Rightarrow> bool \<Rightarrow> 'w \<Rightarrow> (int \<times> 'w) option" where
  "dirCreateHierarchy os path timestamp stripFileName sehnd w =
     (if path = [] then Some (- 1, w)
      else if \<not> os_malloc os w (length path + 2) then Some (- 1, w)
      else let c = strip_loop path (length path - 1) in
        if stripFileName \<and> c = 0 then Some (- 1, w)
        else let cpath = (if stripFileName then take (c + 1) path else path @ [slash])
             in case getPathDirStatus os w cpath of
                  DDIR \<Rightarrow> Some (0, w)
                | DILLEGAL \<Rightarrow> Some (- 1, w)
                | DMISSING \<Rightarrow> make_levels os timestamp sehnd [] cpath w)"

record MzPathHelper =
  mp_targetDir :: "u8 list"
  mp_buf :: "u8 list option"
  mp_targetDirLen :: nat
  mp_zipDirLen :: nat
  mp_bufLen :: int

text \<open>Every path starts with the target directory and a slash.\<close>

definition start_path :: "MzPathHelper \<Rightarrow> u8 list \<Rightarrow> (u8 list \<times> nat) option" where
  "start_path helper buf =
     do { buf \<leftarrow> copy_out buf 0 (take (mp_targetDirLen helper) (mp_targetDir helper));
          if mp_targetDirLen helper = 0 \<or> buf ! (mp_targetDirLen helper - 1) \<noteq> slash
          then do { buf \<leftarrow> copy_out buf (mp_targetDirLen helper) [slash]; Some (buf, mp_targetDirLen helper + 1) }
          else Some (buf, mp_targetDirLen helper) }"

text \<open>The target path of an entry, or the null pointer; the writes to the buffer stay inside it or have no value.\<close>

definition targetEntryPath :: "'w os \<Rightarrow> 'w \<Rightarrow> MzPathHelper \<Rightarrow> ZipEntry \<Rightarrow> (u8 list option \<times> MzPathHelper) option" where
  "targetEntryPath os w helper pEntry =
     (let needLen = int (mp_targetDirLen helper) + 1 + int (length (name pEntry)) - int (mp_zipDirLen helper) + 1;
          buf = (if needLen > mp_bufLen helper then os_realloc os w (mp_buf helper) (needLen * 2) else mp_buf helper);
          bufLen = (if needLen > mp_bufLen helper then needLen * 2 else mp_bufLen helper)
      in case buf of
           None \<Rightarrow> Some (None, helper)
         | Some buf \<Rightarrow> do {
             (buf, targetDirLen) \<leftarrow>
               (if mp_buf helper = None then start_path helper buf else Some (buf, mp_targetDirLen helper));
             buf \<leftarrow> (if length (name pEntry) < mp_zipDirLen helper then None
                     else copy_out buf targetDirLen (drop (mp_zipDirLen helper) (name pEntry)));
             buf \<leftarrow> copy_out buf (targetDirLen + (length (name pEntry) - mp_zipDirLen helper)) [0];
             Some (Some (takeWhile (\<lambda>c. c \<noteq> 0) buf), helper\<lparr>mp_buf := Some buf, mp_targetDirLen := targetDirLen, mp_bufLen := bufLen\<rparr>) })"

text \<open>The arguments that stay the same during an extraction.\<close>

record ('w, 'z) extraction =
  x_os :: "'w os"
  x_inflateInit2 :: "u8 list \<Rightarrow> 'z option"
  x_inflate :: "'z \<Rightarrow> nat \<Rightarrow> int \<times> u8 list \<times> 'z"
  x_mem :: "u8 list"
  x_timestamp :: bool
  x_sehnd :: bool
  x_callback :: "(u8 list \<Rightarrow> 'w \<Rightarrow> 'w) option"

text \<open>
  How the body of the loop ends for a file: with the next entry, or with \<open>break\<close> and the value of the variable \<open>ok\<close> of the function.
  After \<open>mzExtractZipEntryToFile\<close> the assignments \<open>ok = false\<close> go to a variable of the block with the same name, so that the
  one of the function is still \<open>true\<close>.
\<close>

datatype outcome = Next | Break bool

definition extract_file :: "('w, 'z) extraction \<Rightarrow> ZipEntry \<Rightarrow> u8 list \<Rightarrow> 'w \<Rightarrow> (outcome \<times> 'w) option" where
  "extract_file x pEntry targetFile w =
     do { (ret, w) \<leftarrow> dirCreateHierarchy (x_os x) targetFile (x_timestamp x) True (x_sehnd x) w;
          if ret \<noteq> 0 then Some (Break False, w)
          else case with_context (x_os x) (x_sehnd x) targetFile (\<lambda>w. os_creat (x_os x) w targetFile) w of (w, fd) \<Rightarrow>
            if fd < 0 then Some (Break False, w)
            else do {
              (ok, w) \<leftarrow> mzExtractZipEntryToFile (x_inflateInit2 x) (x_inflate x) (os_writes (x_os x)) (x_mem x) pEntry fd w;
              let w = os_close (x_os x) w fd;
              if \<not> ok then Some (Break True, w)
              else if x_timestamp x then
                case os_utime (x_os x) w targetFile of (w, err) \<Rightarrow> Some (if err \<noteq> 0 then Break True else Next, w)
              else Some (Next, w) } }"

text \<open>The last character of the name; for an empty name the byte before it.\<close>

definition last_char :: "u8 list \<Rightarrow> ZipEntry \<Rightarrow> u8 option" where
  "last_char mem pEntry = (if name pEntry = [] then deref mem (fileName pEntry - 1) else Some (last (name pEntry)))"

definition extract_entry :: "('w, 'z) extraction \<Rightarrow> ZipEntry \<Rightarrow> u8 list \<Rightarrow> 'w \<Rightarrow> (outcome \<times> 'w) option" where
  "extract_entry x pEntry targetFile w =
     do { c \<leftarrow> last_char (x_mem x) pEntry;
          (outcome, w) \<leftarrow> (if c \<noteq> slash then extract_file x pEntry targetFile w else Some (Next, w));
          Some (outcome, if outcome = Next then (case x_callback x of None \<Rightarrow> w | Some callback \<Rightarrow> callback targetFile w) else w) }"

fun extract_loop :: "('w, 'z) extraction \<Rightarrow> u8 list \<Rightarrow> ZipEntry list \<Rightarrow> bool \<Rightarrow> MzPathHelper \<Rightarrow> 'w \<Rightarrow> (bool \<times> 'w) option" where
  "extract_loop x zpath [] seenMatch helper w = Some (True, w)"
| "extract_loop x zpath (pEntry # es) seenMatch helper w =
     (if length (name pEntry) < length zpath \<or> strncmp (take (length zpath) (name pEntry)) zpath \<noteq> 0
      then if seenMatch then Some (True, w) else extract_loop x zpath es seenMatch helper w
      else do {
        (targetFile, helper) \<leftarrow> targetEntryPath (x_os x) w helper pEntry;
        case targetFile of
          None \<Rightarrow> Some (False, w)
        | Some targetFile \<Rightarrow> do {
            (outcome, w) \<leftarrow> extract_entry x pEntry targetFile w;
            case outcome of Break ok \<Rightarrow> Some (ok, w) | Next \<Rightarrow> extract_loop x zpath es True helper w } })"

definition mzExtractRecursive :: "('w, 'z) extraction \<Rightarrow> ZipArchive \<Rightarrow> u8 list \<Rightarrow> u8 list \<Rightarrow> 'w \<Rightarrow> (bool \<times> 'w) option" where
  "mzExtractRecursive x pArchive zipDir targetDir w =
     (if zipDir \<noteq> [] \<and> hd zipDir = slash then Some (False, w)
      else if targetDir = [] \<or> hd targetDir \<noteq> slash then Some (False, w)
      else if \<not> os_malloc (x_os x) w (length zipDir + 2) then Some (False, w)
      else let zpath = (if zipDir \<noteq> [] \<and> last zipDir \<noteq> slash then zipDir @ [slash] else zipDir)
           in extract_loop x zpath (take (unat (arc_numEntries pArchive)) (arc_pEntries pArchive)) False
                \<lparr>mp_targetDir = targetDir, mp_buf = None, mp_targetDirLen = length targetDir, mp_zipDirLen = length zpath, mp_bufLen = 0\<rparr> w)"

section \<open>Selecting the entries\<close>

text \<open>In the order of the directory the names with a common prefix are next to each other.\<close>

lemma prefix_between:
  fixes a b c z :: "u8 list"
  assumes "a \<le> b" "b \<le> c" "prefix z a" "prefix z c"
  shows "prefix z b"
  using assms
proof (induction z arbitrary: a b c)
  case (Cons x z)
  then obtain a' c' where a: "a = x # a'" "prefix z a'" and c: "c = x # c'" "prefix z c'" by (auto simp: prefix_def)
  then obtain y b' where b: "b = y # b'" using Cons.prems(1) by (cases b) auto
  have "y = x" "a' \<le> b'" "b' \<le> c'" using Cons.prems(1,2) unfolding a c b by auto
  then show ?case using Cons.IH a(2) c(2) b by simp
qed simp

lemma match_prefix:
  assumes "0 \<notin> set n"
  shows "\<not> (length n < length z \<or> strncmp (take (length z) n) z \<noteq> 0) \<longleftrightarrow> prefix z n"
proof -
  have z: "0 \<notin> set (take (length z) n)" using assms by (auto dest: in_set_takeD)
  have "prefix z n \<longleftrightarrow> take (length z) n = z" by (auto simp: prefix_def) (metis append_take_drop_id)
  also have "\<dots> \<longleftrightarrow> length z \<le> length n \<and> strncmp (take (length z) n) z = 0"
    using strncmp_eq[OF z, of z] by (auto simp: min_def split: if_splits)
  finally show ?thesis by auto
qed

section \<open>Target paths\<close>

definition slashed :: "u8 list \<Rightarrow> u8 list" where
  "slashed dir = (if last dir = slash then dir else dir @ [slash])"

definition target_path :: "u8 list \<Rightarrow> u8 list \<Rightarrow> ZipEntry \<Rightarrow> u8 list" where
  "target_path targetDir zpath e = slashed targetDir @ drop (length zpath) (name e)"

text \<open>
  What \<open>realloc\<close> promises: the null pointer, or a block of the size asked for which begins with the old contents. \<open>realloc_total\<close>: it
  never returns the null pointer.
\<close>

definition realloc_spec :: "'w os \<Rightarrow> bool" where
  "realloc_spec os \<longleftrightarrow>
     (\<forall>w b n b'. 0 < n \<and> os_realloc os w b n = Some b' \<longrightarrow> length b' = nat n \<and>
        (\<forall>old. b = Some old \<and> length old \<le> nat n \<longrightarrow> take (length old) b' = old))"

definition realloc_total :: "'w os \<Rightarrow> bool" where
  "realloc_total os \<longleftrightarrow> (\<forall>w b n. 0 < n \<longrightarrow> os_realloc os w b n \<noteq> None)"

text \<open>The size of the first block, for the first entry to extract.\<close>

definition first_block :: "u8 list \<Rightarrow> u8 list \<Rightarrow> ZipEntry \<Rightarrow> int" where
  "first_block targetDir zpath e = 2 * (int (length targetDir) + int (length (name e)) - int (length zpath) + 2)"

definition helper_ok :: "u8 list \<Rightarrow> nat \<Rightarrow> MzPathHelper \<Rightarrow> bool" where
  "helper_ok targetDir zlen h \<longleftrightarrow>
     mp_zipDirLen h = zlen \<and>
     (case mp_buf h of
        None \<Rightarrow> mp_targetDir h = targetDir \<and> mp_targetDirLen h = length targetDir \<and> mp_bufLen h = 0
      | Some b \<Rightarrow> mp_targetDirLen h = length (slashed targetDir) \<and> mp_bufLen h = int (length b) \<and> prefix (slashed targetDir) b)"

lemma copy_out_prefix:
  assumes "prefix a buf" "length a + length bs \<le> length buf"
  obtains buf' where "copy_out buf (length a) bs = Some buf'" "prefix (a @ bs) buf'" "length buf' = length buf"
  using assms by (auto simp: copy_out_def prefix_def)

lemma start_path_value:
  assumes "mp_targetDir h = targetDir" "mp_targetDirLen h = length targetDir" "targetDir \<noteq> []" "length targetDir + 1 \<le> length buf"
  obtains buf' where "start_path h buf = Some (buf', length (slashed targetDir))" "prefix (slashed targetDir) buf'" "length buf' = length buf"
proof -
  obtain b1 where b1: "copy_out buf 0 targetDir = Some b1" "prefix targetDir b1" "length b1 = length buf"
    by (rule copy_out_prefix[of "[]" buf targetDir]) (use assms(4) in auto)
  have l: "b1 ! (length targetDir - 1) = last targetDir" using b1(2) assms(3) by (auto simp: prefix_def nth_append last_conv_nth)
  show thesis
  proof (cases "last targetDir = slash")
    case True
    then show thesis using that b1 l assms(1-3) by (simp add: start_path_def slashed_def)
  next
    case False
    obtain b2 where b2: "copy_out b1 (length targetDir) [slash] = Some b2" "prefix (targetDir @ [slash]) b2" "length b2 = length b1"
      by (rule copy_out_prefix[OF b1(2), of "[slash]"]) (use assms(4) b1(3) in auto)
    then show thesis using that b1 l assms(1-3) False by (simp add: start_path_def slashed_def)
  qed
qed

lemma takeWhile_string: "0 \<notin> set a \<Longrightarrow> prefix (a @ [0]) b \<Longrightarrow> takeWhile (\<lambda>c. c \<noteq> (0 :: u8)) b = a"
  by (auto simp: prefix_def takeWhile_append2) (metis (mono_tags, lifting) append_self_conv takeWhile_append2 takeWhile.simps(2))

lemma append_path:
  assumes "prefix a buf" "length a + length bs + 1 \<le> length buf" "0 \<notin> set a" "0 \<notin> set bs"
  obtains b1 b2 where "copy_out buf (length a) bs = Some b1" "copy_out b1 (length a + length bs) [0] = Some b2" "prefix a b2"
    "length b2 = length buf" "takeWhile (\<lambda>c. c \<noteq> 0) b2 = a @ bs"
proof -
  obtain b1 where b1: "copy_out buf (length a) bs = Some b1" "prefix (a @ bs) b1" "length b1 = length buf"
    by (rule copy_out_prefix[OF assms(1), of bs]) (use assms(2) in auto)
  obtain b2 where b2: "copy_out b1 (length (a @ bs)) [0] = Some b2" "prefix ((a @ bs) @ [0]) b2" "length b2 = length b1"
    by (rule copy_out_prefix[OF b1(2), of "[0]"]) (use assms(2) b1(3) in auto)
  have "prefix a b2" using b2(2) by (auto simp: prefix_def)
  moreover have "takeWhile (\<lambda>c. c \<noteq> 0) b2 = a @ bs" by (rule takeWhile_string[OF _ b2(2)]) (use assms(3,4) in auto)
  ultimately show thesis using that b1 b2 by simp
qed

text \<open>The buffer of the helper is always large enough, and it holds the target path afterwards.\<close>

lemma helper_buffer:
  assumes "realloc_spec os" "helper_ok targetDir zlen h" "zlen \<le> n" "targetDir \<noteq> []"
    and need: "need = int (mp_targetDirLen h) + 1 + int n - int zlen + 1"
    and len: "len = (if need > mp_bufLen h then need * 2 else mp_bufLen h)"
    and buf: "(if need > mp_bufLen h then os_realloc os w (mp_buf h) (need * 2) else mp_buf h) = Some b"
  obtains b' where "int (length b') = len" "prefix (slashed targetDir) b'" "length (slashed targetDir) + (n - zlen) + 1 \<le> length b'"
    "(if mp_buf h = None then start_path h b else Some (b, mp_targetDirLen h)) = Some (b', length (slashed targetDir))"
proof (cases "mp_buf h")
  case None
  then have h: "mp_targetDir h = targetDir" "mp_targetDirLen h = length targetDir" "mp_bufLen h = 0"
    using assms(2) by (auto simp: helper_ok_def)
  have pos: "0 < need" using assms(3) by (simp add: need)
  have b: "length b = nat (need * 2)"
    using assms(1) pos buf h(3) unfolding realloc_spec_def by (simp add: mult_pos_pos)
  obtain b' where b': "start_path h b = Some (b', length (slashed targetDir))" "prefix (slashed targetDir) b'" "length b' = length b"
    by (rule start_path_value[OF h(1,2) assms(4), of b]) (use b pos h(2) assms(3) in \<open>auto simp: need\<close>)
  have nd: "nat (need * 2) = 2 * (length targetDir + (n - zlen) + 2)" using assms(3) h(2) by (simp add: need nat_mult_distrib nat_diff_distrib)
  have "length (slashed targetDir) \<le> length targetDir + 1" by (simp add: slashed_def)
  then have bound: "length (slashed targetDir) + (n - zlen) + 1 \<le> length b'"
    using b b'(3) nd by simp
  show thesis by (rule that[OF _ b'(2) bound]) (use None b b' pos h(3) in \<open>simp_all add: len\<close>)
next
  case (Some old)
  then have h: "mp_targetDirLen h = length (slashed targetDir)" "mp_bufLen h = int (length old)" "prefix (slashed targetDir) old"
    using assms(2) by (auto simp: helper_ok_def)
  show thesis
  proof (cases "need > mp_bufLen h")
    case True
    have pos: "0 < need" using assms(3) by (simp add: need)
    have b: "length b = nat (need * 2)" "take (length old) b = old"
      using assms(1)[unfolded realloc_spec_def, rule_format, of "need * 2" w "mp_buf h" b] True Some h(2) buf by auto
    have "prefix (slashed targetDir) b" using h(3) b(2) by (metis prefix_order.trans take_is_prefix)
    then show thesis
      by (rule that[of b, rotated]) (use True Some b(1) pos h(1) assms(3) in \<open>simp_all add: len, simp add: need\<close>)
  next
    case False
    then have "b = old" using buf Some by simp
    then show thesis
      by (intro that[of old]) (use False Some h(1,2) assms(3) in \<open>simp_all add: len h(3), simp add: need\<close>)
  qed
qed

text \<open>Without a block there is no path; with one, the path is the right one. A block is there if \<open>realloc\<close> is total or gave the first one.\<close>

lemma targetEntryPath_value:
  assumes "realloc_spec os" "helper_ok targetDir zlen h" "zlen \<le> length (name e)" "0 \<notin> set (name e)" "targetDir \<noteq> []" "0 \<notin> set targetDir"
  obtains "targetEntryPath os w h e = Some (None, h)" "\<not> realloc_total os"
      "mp_buf h = None \<Longrightarrow> os_realloc os w None (2 * (int (length targetDir) + int (length (name e)) - int zlen + 2)) = None"
  | h' where "targetEntryPath os w h e = Some (Some (slashed targetDir @ drop zlen (name e)), h')" "helper_ok targetDir zlen h'"
proof -
  define need where "need = int (mp_targetDirLen h) + 1 + int (length (name e)) - int zlen + 1"
  define len where "len = (if need > mp_bufLen h then need * 2 else mp_bufLen h)"
  have z: "mp_zipDirLen h = zlen" using assms(2) by (simp add: helper_ok_def)
  have pos: "0 < need" using assms(3) by (simp add: need_def)
  note unf = targetEntryPath_def[of os w h e, unfolded Let_def z, folded need_def, folded len_def]
  show thesis
  proof (cases "if need > mp_bufLen h then os_realloc os w (mp_buf h) (need * 2) else mp_buf h")
    case None
    then have t: "targetEntryPath os w h e = Some (None, h)" unfolding unf by simp
    have n: "os_realloc os w (mp_buf h) (need * 2) = None \<and> need > mp_bufLen h"
      using None pos assms(2) by (auto simp: helper_ok_def split: if_splits)
    have nt: "\<not> realloc_total os" using n pos unfolding realloc_total_def by (metis mult_pos_pos zero_less_numeral)
    have "os_realloc os w None (2 * (int (length targetDir) + int (length (name e)) - int zlen + 2)) = None" if "mp_buf h = None"
    proof -
      have "mp_targetDirLen h = length targetDir" using that assms(2) by (simp add: helper_ok_def)
      then have "need * 2 = 2 * (int (length targetDir) + int (length (name e)) - int zlen + 2)" by (simp add: need_def)
      with n that show ?thesis by simp
    qed
    from that(1)[OF t nt this] show thesis .
  next
    case (Some b)
    obtain b' where b: "int (length b') = len" "prefix (slashed targetDir) b'" "length (slashed targetDir) + length (drop zlen (name e)) + 1 \<le> length b'"
      "(if mp_buf h = None then start_path h b else Some (b, mp_targetDirLen h)) = Some (b', length (slashed targetDir))"
      using helper_buffer[OF assms(1,2,3,5) need_def len_def Some] by auto
    have nz: "0 \<notin> set (slashed targetDir)" "0 \<notin> set (drop zlen (name e))"
      using assms(4,6) by (auto simp: slashed_def dest: in_set_dropD)
    obtain b1 b2 where b2: "copy_out b' (length (slashed targetDir)) (drop zlen (name e)) = Some b1"
      "copy_out b1 (length (slashed targetDir) + length (drop zlen (name e))) [0] = Some b2" "prefix (slashed targetDir) b2"
      "length b2 = length b'" "takeWhile (\<lambda>c. c \<noteq> 0) b2 = slashed targetDir @ drop zlen (name e)"
      by (rule append_path[OF b(2,3) nz])
    have "targetEntryPath os w h e = Some (Some (slashed targetDir @ drop zlen (name e)),
        h\<lparr>mp_buf := Some b2, mp_targetDirLen := length (slashed targetDir), mp_bufLen := len\<rparr>)"
      unfolding unf Some using b(4) b2 assms(3) by simp
    moreover have "helper_ok targetDir zlen (h\<lparr>mp_buf := Some b2, mp_targetDirLen := length (slashed targetDir), mp_bufLen := len\<rparr>)"
      using b(1) b2(3,4) z by (simp add: helper_ok_def)
    ultimately show thesis by (rule that(2))
  qed
qed

section \<open>Extracting a directory\<close>

text \<open>
  The specification: extract the entries of a list, in order, until one fails; for the entry after the first \<open>n\<close> there is no memory
  for its path.
\<close>

fun extract_upto :: "('w, 'z) extraction \<Rightarrow> (ZipEntry \<Rightarrow> u8 list) \<Rightarrow> ZipEntry list \<Rightarrow> nat \<Rightarrow> 'w \<Rightarrow> (bool \<times> 'w) option" where
  "extract_upto x path [] n w = Some (True, w)"
| "extract_upto x path (e # es) 0 w = Some (False, w)"
| "extract_upto x path (e # es) (Suc n) w =
     do { (outcome, w) \<leftarrow> extract_entry x e (path e) w;
          case outcome of Break ok \<Rightarrow> Some (ok, w) | Next \<Rightarrow> extract_upto x path es n w }"

text \<open>How far the memory reaches: up to the end with a total \<open>realloc\<close>, to the first entry at least if there is a first block.\<close>

definition memory_for :: "('w, 'z) extraction \<Rightarrow> u8 list \<Rightarrow> u8 list \<Rightarrow> 'w \<Rightarrow> bool \<Rightarrow> ZipEntry list \<Rightarrow> nat \<Rightarrow> bool" where
  "memory_for x targetDir zpath w first es n \<longleftrightarrow>
     (realloc_total (x_os x) \<longrightarrow> n = length es) \<and>
     (\<forall>e es'. first \<and> es = e # es' \<and> os_realloc (x_os x) w None (first_block targetDir zpath e) \<noteq> None \<longrightarrow> 0 < n)"

text \<open>One selected entry, given what the rest of the loop does.\<close>

lemma extract_loop_step:
  assumes "realloc_spec (x_os x)" "targetDir \<noteq> []" "0 \<notin> set targetDir" "helper_ok targetDir (length zpath) h" "0 \<notin> set (name e)"
    and "prefix zpath (name e)"
    and rest: "\<And>h' w'. helper_ok targetDir (length zpath) h' \<Longrightarrow> \<exists>n. extract_loop x zpath es True h' w' =
        extract_upto x (target_path targetDir zpath) sel n w' \<and> memory_for x targetDir zpath w' False sel n"
  shows "\<exists>n. extract_loop x zpath (e # es) seen h w = extract_upto x (target_path targetDir zpath) (e # sel) n w \<and>
    memory_for x targetDir zpath w (mp_buf h = None) (e # sel) n"
proof -
  have m: "\<not> (length (name e) < length zpath \<or> strncmp (take (length zpath) (name e)) zpath \<noteq> 0)"
    using match_prefix[OF assms(5), of zpath] assms(6) by blast
  have l: "length zpath \<le> length (name e)" using assms(6) by (simp add: prefix_length_le)
  show ?thesis
  proof (rule targetEntryPath_value[OF assms(1,4) l assms(5,2,3)])
    assume t: "targetEntryPath (x_os x) w h e = Some (None, h)" "\<not> realloc_total (x_os x)"
      "mp_buf h = None \<Longrightarrow> os_realloc (x_os x) w None (2 * (int (length targetDir) + int (length (name e)) - int (length zpath) + 2)) = None"
    have "extract_loop x zpath (e # es) seen h w = extract_upto x (target_path targetDir zpath) (e # sel) 0 w"
      unfolding extract_loop.simps if_not_P[OF m] t(1) by simp
    moreover have "memory_for x targetDir zpath w (mp_buf h = None) (e # sel) 0" 
    proof -
      have "mp_buf h = None \<longrightarrow> os_realloc (x_os x) w None (first_block targetDir zpath e) = None" unfolding first_block_def by (rule impI, rule t(3))
      then show ?thesis using t(2) by (auto simp: memory_for_def)
    qed
    ultimately show ?thesis by blast
  next
    fix h' assume t: "targetEntryPath (x_os x) w h e = Some (Some (slashed targetDir @ drop (length zpath) (name e)), h')"
      "helper_ok targetDir (length zpath) h'"
    show ?thesis
    proof (cases "extract_entry x e (target_path targetDir zpath e) w")
      case None
      then have "extract_loop x zpath (e # es) seen h w = extract_upto x (target_path targetDir zpath) (e # sel) (Suc (length sel)) w"
        unfolding extract_loop.simps if_not_P[OF m] t(1) by (simp add: target_path_def)
      then show ?thesis by (intro exI[of _ "Suc (length sel)"]) (simp add: memory_for_def)
    next
      case (Some r)
      obtain outcome w' where r: "r = (outcome, w')" by (cases r)
      obtain n where n: "extract_loop x zpath es True h' w' = extract_upto x (target_path targetDir zpath) sel n w'"
        "memory_for x targetDir zpath w' False sel n" using rest[OF t(2)] by blast
      have "extract_loop x zpath (e # es) seen h w = extract_upto x (target_path targetDir zpath) (e # sel) (Suc n) w"
        unfolding extract_loop.simps if_not_P[OF m] t(1) using Some n(1) by (simp add: target_path_def r split: outcome.split)
      then show ?thesis using n(2) by (intro exI[of _ "Suc n"]) (simp add: memory_for_def)
    qed
  qed
qed

text \<open>Leaving the loop at the first mismatch after a match skips no entry.\<close>

lemma extract_loop_all:
  assumes "realloc_spec (x_os x)" "targetDir \<noteq> []" "0 \<notin> set targetDir"
    and "sorted (names es)" "valid_names es" "helper_ok targetDir (length zpath) h"
    and "seen \<Longrightarrow> \<exists>m. prefix zpath m \<and> (\<forall>e\<in>set es. m \<le> name e)"
  shows "\<exists>n. extract_loop x zpath es seen h w = extract_upto x (target_path targetDir zpath) (filter (\<lambda>e. prefix zpath (name e)) es) n w \<and>
    memory_for x targetDir zpath w (mp_buf h = None) (filter (\<lambda>e. prefix zpath (name e)) es) n"
  using assms(4-7)
proof (induction es arbitrary: seen h w)
  case Nil
  then show ?case by (simp add: memory_for_def)
next
  case (Cons e es)
  let ?sel = "filter (\<lambda>e. prefix zpath (name e))"
  have v: "validFilename (name e)" "valid_names es" using Cons.prems(2) by (simp_all add: valid_names_def)
  have s: "sorted (names es)" "\<forall>e'\<in>set es. name e \<le> name e'" using Cons.prems(1) by simp_all
  note m = match_prefix[OF valid_name(1)[OF v(1)], of zpath]
  show ?case
  proof (cases "prefix zpath (name e)")
    case True
    have "\<exists>n. extract_loop x zpath es True h' w' = extract_upto x (target_path targetDir zpath) (?sel es) n w' \<and>
        memory_for x targetDir zpath w' False (?sel es) n" if "helper_ok targetDir (length zpath) h'" for h' w'
      using Cons.IH[OF s(1) v(2) that, of True w'] True s(2) unfolding memory_for_def by blast
    then show ?thesis using extract_loop_step[OF assms(1-3) Cons.prems(3) valid_name(1)[OF v(1)] True, of es "?sel es" seen w] True by simp
  next
    case False
    show ?thesis
    proof (cases seen)
      case True
      then obtain a where a: "prefix zpath a" "a \<le> name e" using Cons.prems(4) by auto
      have "?sel es = []"
        using prefix_between[OF a(2) _ a(1)] s(2) False by (auto simp: filter_empty_conv)
      then show ?thesis using True False m by (simp add: memory_for_def)
    next
      case F: False
      then show ?thesis using F False m Cons.IH[OF s(1) v(2) Cons.prems(3), of False w] by simp
    qed
  qed
qed

section \<open>Creating directories\<close>

text \<open>
  What the kernel promises: \<open>mkdir\<close> creates a directory, none of the calls removes one, setting the security context changes
  no file, and a path names a directory with a slash at its end exactly when it does without.
\<close>

definition fs_spec :: "'w os \<Rightarrow> bool" where
  "fs_spec os \<longleftrightarrow>
     (\<forall>w p. snd (os_mkdir os w p) = 0 \<longrightarrow> os_stat os (fst (os_mkdir os w p)) p = StatDir) \<and>
     (\<forall>w p q. os_stat os w q = StatDir \<longrightarrow>
        os_stat os (fst (os_mkdir os w p)) q = StatDir \<and> os_stat os (fst (os_utime os w p)) q = StatDir) \<and>
     (\<forall>w q con. os_stat os (os_setfscreatecon os w con) q = os_stat os w q) \<and>
     (\<forall>w p. p \<noteq> [] \<longrightarrow> (os_stat os w (p @ [slash]) = StatDir \<longleftrightarrow> os_stat os w p = StatDir))"

lemma make_level_dir:
  assumes "fs_spec os" "make_level os timestamp sehnd cpath w = (True, w')"
  shows "os_stat os w' cpath = StatDir"
proof (cases "os_stat os w cpath")
  case StatNoEnt
  then show ?thesis using assms unfolding fs_spec_def make_level_def getPathDirStatus_def with_context_def
    by (auto simp: Let_def split: prod.splits if_splits)
      (metis fst_conv snd_conv)+
qed (use assms in \<open>auto simp: make_level_def getPathDirStatus_def\<close>)

lemma stat_slashes:
  assumes "fs_spec os" "p \<noteq> []" "\<forall>c\<in>set s. c = slash"
  shows "os_stat os w (p @ s) = StatDir \<longleftrightarrow> os_stat os w p = StatDir"
  using assms(3)
proof (induction s rule: rev_induct)
  case (snoc c s)
  then have "os_stat os w ((p @ s) @ [slash]) = StatDir \<longleftrightarrow> os_stat os w (p @ s) = StatDir" using assms(1,2) unfolding fs_spec_def by blast
  then show ?case using snoc by simp
qed simp

lemma make_levels_step:
  assumes "p = dropWhile (\<lambda>c. c = slash) rest" "p \<noteq> []" "cpath = pre @ takeWhile (\<lambda>c. c = slash) rest @ takeWhile (\<lambda>c. c \<noteq> slash) p"
    and "make_level os timestamp sehnd cpath w = (ok, w1)"
  shows "make_levels os timestamp sehnd pre rest w =
    (if slash \<notin> set p then None else if ok then make_levels os timestamp sehnd cpath (dropWhile (\<lambda>c. c \<noteq> slash) p) w1 else Some (- 1, w1))"
  using assms(2,4) by (subst make_levels.simps) (simp add: assms(1,3)[symmetric] Let_def)

lemma make_levels_dir:
  assumes "fs_spec os" "make_levels os timestamp sehnd pre rest w = Some (0, w')" "pre \<noteq> [] \<Longrightarrow> os_stat os w pre = StatDir"
    and "pre \<noteq> [] \<or> (\<exists>c\<in>set rest. c \<noteq> slash)"
  shows "os_stat os w' (pre @ rest) = StatDir"
  using assms
proof (induction os timestamp sehnd pre rest w rule: make_levels.induct)
  case (1 os timestamp sehnd pre rest w)
  let ?s = "takeWhile (\<lambda>c. c = slash) rest" and ?p = "dropWhile (\<lambda>c. c = slash) rest"
  have sp: "?s @ ?p = rest" by (rule takeWhile_dropWhile_id)
  show ?case
  proof (cases "?p = []")
    case True
    then have "w' = w" using "1.prems"(2) by (subst (asm) make_levels.simps) simp
    moreover have ss: "\<forall>c\<in>set rest. c = slash" using True by simp
    moreover have pn: "pre \<noteq> []" using "1.prems"(4) ss by auto
    ultimately show ?thesis using stat_slashes[OF "1.prems"(1) pn ss, of w] "1.prems"(3) by simp
  next
    case False
    define c where "c = pre @ ?s @ takeWhile (\<lambda>c. c \<noteq> slash) ?p"
    obtain ok w1 where l: "make_level os timestamp sehnd c w = (ok, w1)" by (rule prod.exhaust)
    from make_levels_step[OF refl False c_def l] "1.prems"(2)
    have in_p: "slash \<in> set ?p" and ok: "ok" "make_levels os timestamp sehnd c (dropWhile (\<lambda>c. c \<noteq> slash) ?p) w1 = Some (0, w')"
      by (simp_all split: if_splits)
    have ne: "c \<noteq> []" using hd_dropWhile[OF False] False unfolding c_def by (cases ?p) simp_all
    have d: "os_stat os w1 c = StatDir" using make_level_dir[OF "1.prems"(1)] l ok(1) by simp
    have "os_stat os w' (c @ dropWhile (\<lambda>c. c \<noteq> slash) ?p) = StatDir"
      by (rule "1.IH"[OF refl refl False _ c_def l[symmetric] ok(1) "1.prems"(1) ok(2)]) (use in_p ne d in simp_all)
    moreover have "c @ dropWhile (\<lambda>c. c \<noteq> slash) ?p = pre @ rest" unfolding c_def using sp by (metis append.assoc takeWhile_dropWhile_id)
    ultimately show ?thesis by simp
  qed
qed

lemma make_levels_returns:
  "rest \<noteq> [] \<longrightarrow> last rest = slash \<Longrightarrow> \<exists>ret w'. make_levels os timestamp sehnd pre rest w = Some (ret, w') \<and> (ret = 0 \<or> ret = - 1)"
proof (induction os timestamp sehnd pre rest w rule: make_levels.induct)
  case (1 os timestamp sehnd pre rest w)
  let ?p = "dropWhile (\<lambda>c. c = slash) rest"
  show ?case
  proof (cases "?p = []")
    case True
    then show ?thesis by (subst make_levels.simps) simp
  next
    case False
    then have "last ?p = last rest" by (metis last_appendR takeWhile_dropWhile_id)
    then have lp: "last ?p = slash" using "1.prems" False by auto
    then have in_p: "slash \<in> set ?p" using last_in_set[OF False] by simp
    define c where "c = pre @ takeWhile (\<lambda>c. c = slash) rest @ takeWhile (\<lambda>c. c \<noteq> slash) ?p"
    have "dropWhile (\<lambda>c. c \<noteq> slash) ?p \<noteq> [] \<longrightarrow> last (dropWhile (\<lambda>c. c \<noteq> slash) ?p) = slash"
      using lp by (metis last_appendR takeWhile_dropWhile_id)
    moreover obtain ok w1 where l: "make_level os timestamp sehnd c w = (ok, w1)" by (rule prod.exhaust)
    ultimately have "ok \<Longrightarrow> \<exists>ret w'. make_levels os timestamp sehnd c (dropWhile (\<lambda>c. c \<noteq> slash) ?p) w1 = Some (ret, w') \<and> (ret = 0 \<or> ret = - 1)"
      using "1.IH"[OF refl refl False _ c_def l[symmetric]] in_p by blast
    then show ?thesis using in_p make_levels_step[OF refl False c_def l] by auto
  qed
qed

lemma strip_last: "slash \<notin> set base \<Longrightarrow> k \<le> length base \<Longrightarrow> strip_loop (dir @ slash # base) (length dir + k) = length dir"
proof (induction k)
  case 0
  then show ?case by (cases dir rule: rev_cases) (auto simp: nth_append)
next
  case (Suc k)
  have "base ! k \<in> set base" using Suc.prems(2) by simp
  then have "base ! k \<noteq> slash" using Suc.prems(1) by metis
  then show ?case using Suc by (simp add: nth_append)
qed

section \<open>Properties\<close>

lemma dir_made:
  assumes "fs_spec os" "\<exists>c\<in>set dir. c \<noteq> slash"
  shows "\<exists>ret w'. (case getPathDirStatus os w (dir @ [slash]) of
      DDIR \<Rightarrow> Some (0, w) | DILLEGAL \<Rightarrow> Some (- 1, w) | DMISSING \<Rightarrow> make_levels os timestamp sehnd [] (dir @ [slash]) w) = Some (ret, w') \<and>
    (ret = 0 \<or> ret = - 1) \<and> (ret = 0 \<longrightarrow> os_stat os w' dir = StatDir)"
proof -
  have "dir \<noteq> []" using assms(2) by auto
  then have s: "os_stat os w' (dir @ [slash]) = StatDir \<longleftrightarrow> os_stat os w' dir = StatDir" for w'
    using assms(1) unfolding fs_spec_def by blast
  have "\<exists>ret w'. make_levels os timestamp sehnd [] (dir @ [slash]) w = Some (ret, w') \<and> (ret = 0 \<or> ret = - 1) \<and>
      (ret = 0 \<longrightarrow> os_stat os w' (dir @ [slash]) = StatDir)"
    using make_levels_returns[of "dir @ [slash]" os timestamp sehnd "[]" w]
      make_levels_dir[OF assms(1), of timestamp sehnd "[]" "dir @ [slash]" w] assms(2) by auto
  then show ?thesis using s by (auto simp: getPathDirStatus_def split: stat_result.splits)
qed

text \<open>
  C13. For a directory given by its path, or, with \<open>stripFileName\<close>, by the path of a file in it, \<open>dirCreateHierarchy\<close> never runs past the
  path and returns 0 or \<open>- 1\<close>; after 0 the directory exists.
\<close>

theorem dirCreateHierarchy_correct:
  assumes "fs_spec os" "slash \<notin> set base" "\<exists>c\<in>set dir. c \<noteq> slash"
  shows "\<exists>ret w'. dirCreateHierarchy os (if stripFileName then dir @ slash # base else dir) timestamp stripFileName sehnd w = Some (ret, w') \<and>
    (ret = 0 \<or> ret = - 1) \<and> (ret = 0 \<longrightarrow> os_stat os w' dir = StatDir)"
proof (cases stripFileName)
  case True
  have "length (dir @ slash # base) - 1 = length dir + length base" by simp
  then have c: "strip_loop (dir @ slash # base) (length (dir @ slash # base) - 1) = length dir" "length dir \<noteq> 0"
    using strip_last[OF assms(2) order_refl, of dir] assms(3) by (auto simp del: length_append)
  have t: "take (length dir + 1) (dir @ slash # base) = dir @ [slash]" by simp
  show ?thesis using True c(2) dir_made[OF assms(1,3), where w = w and timestamp = timestamp and sehnd = sehnd] unfolding dirCreateHierarchy_def if_P[OF True] c(1) t Let_def by auto
next
  case False
  have "dir \<noteq> []" using assms(3) by auto
  then show ?thesis using False dir_made[OF assms(1,3), where w = w and timestamp = timestamp and sehnd = sehnd] unfolding dirCreateHierarchy_def if_not_P[OF False] Let_def by auto
qed

text \<open>
  A kernel whose state lists the directories and the regular files by the components of their paths. Only the last component can
  be created, below a directory; a slash after a file is an error.
\<close>

fun split_path :: "u8 list \<Rightarrow> u8 list list" where
  "split_path [] = [[]]"
| "split_path (c # cs) = (if c = slash then [] # split_path cs else (c # hd (split_path cs)) # tl (split_path cs))"

definition components :: "u8 list \<Rightarrow> u8 list list" where
  "components p = filter (\<lambda>c. c \<noteq> []) (split_path p)"

definition tree_stat :: "u8 list list list \<times> u8 list list list \<Rightarrow> u8 list \<Rightarrow> stat_result" where
  "tree_stat w p =
     (if p = [] then StatNoEnt
      else if components p \<in> set (fst w) then StatDir
      else if components p \<in> set (snd w) then (if last p = slash then StatError else StatOther)
      else if list_ex (\<lambda>k. take k (components p) \<in> set (snd w)) [0..<length (components p)] then StatError
      else StatNoEnt)"

definition tree_mkdir :: "u8 list list list \<times> u8 list list list \<Rightarrow> u8 list \<Rightarrow> (u8 list list list \<times> u8 list list list) \<times> int" where
  "tree_mkdir w p =
     (if tree_stat w p = StatNoEnt \<and> p \<noteq> [] \<and> butlast (components p) \<in> set (fst w) then ((components p # fst w, snd w), 0) else (w, - 1))"

definition tree_kernel :: "(u8 list list list \<times> u8 list list list) os" where
  "tree_kernel = \<lparr>os_malloc = \<lambda>w n. True,
     os_realloc = \<lambda>w b n. Some (take (nat n) ((case b of None \<Rightarrow> [] | Some old \<Rightarrow> old) @ replicate (nat n) 0)),
     os_stat = tree_stat, os_mkdir = tree_mkdir, os_utime = \<lambda>w p. (w, 0),
     os_creat = \<lambda>w p. (if butlast (components p) \<in> set (fst w) then (fst w, components p # snd w) else w, 3),
     os_writes = \<lambda>w fd bs. (w, int (length bs)), os_close = \<lambda>w fd. w, os_label = \<lambda>p. None, os_setfscreatecon = \<lambda>w con. w\<rparr>"

lemma components_slash: "components (p @ [slash]) = components p"
proof -
  have ne: "split_path q \<noteq> []" for q by (cases q) simp_all
  have "split_path (p @ [slash]) = split_path p @ [[]]"
    by (induction p) (simp_all add: ne)
  then show ?thesis by (simp add: components_def)
qed

lemma tree_kernel_spec: "fs_spec tree_kernel"
  by (auto simp: fs_spec_def tree_kernel_def tree_mkdir_def tree_stat_def components_slash)

text \<open>The directory \<open>/a/b\<close> of the file \<open>/a/b/c\<close> is created from the root alone, with the directory above it.\<close>

theorem dirCreateHierarchy_witness:
  "\<exists>ret w'. dirCreateHierarchy tree_kernel (if True then [47, 97, 47, 98] @ slash # [99] else [47, 97, 47, 98]) True True True ([[]], []) = Some (ret, w') \<and>
    (ret = 0 \<or> ret = - 1) \<and> (ret = 0 \<longrightarrow> os_stat tree_kernel w' [47, 97, 47, 98] = StatDir)"
  by (rule dirCreateHierarchy_correct[OF tree_kernel_spec]) simp_all

lemma dirCreateHierarchy_runs:
  "dirCreateHierarchy tree_kernel [47, 97, 47, 98, 47, 99] True True True ([[]], []) =
    Some (0, [[[97], [98]], [[97]], []], [])"
  by code_simp

text \<open>A kernel on which every path is a directory, every file can be opened and no write succeeds, as on a full disk.\<close>

definition full_disk :: "unit os" where
  "full_disk = \<lparr>os_malloc = \<lambda>w n. True,
     os_realloc = \<lambda>w b n. Some (take (nat n) ((case b of None \<Rightarrow> [] | Some old \<Rightarrow> old) @ replicate (nat n) 0)),
     os_stat = \<lambda>w p. StatDir, os_mkdir = \<lambda>w p. ((), 0), os_utime = \<lambda>w p. ((), 0), os_creat = \<lambda>w p. ((), 3),
     os_writes = \<lambda>w fd bs. ((), - 1), os_close = \<lambda>w fd. (), os_label = \<lambda>p. None, os_setfscreatecon = \<lambda>w con. ()\<rparr>"

lemma full_disk_spec: "fs_spec full_disk" "realloc_spec full_disk" "realloc_total full_disk" "\<And>w n. os_malloc full_disk w n"
  by (auto simp: fs_spec_def full_disk_def realloc_spec_def realloc_total_def min_def)

text \<open>
  A file directly below the root has no directory part for \<open>dirCreateHierarchy\<close>: the call fails although the root exists, so
  that no such file can be extracted.
\<close>

lemma dirCreateHierarchy_root:
  assumes "slash \<notin> set base"
  shows "dirCreateHierarchy os (slash # base) timestamp True sehnd w = Some (- 1, w)"
  using strip_last[OF assms order_refl, of "[]"] by (simp add: dirCreateHierarchy_def)

theorem dirCreateHierarchy_root_witness:
  "dirCreateHierarchy full_disk (slash # [97]) False True False () = Some (- 1, ())"
  by (rule dirCreateHierarchy_root) simp

lemma opened_entries:
  assumes "mzOpenZipArchive add_ptr add_off ok addr mem = Some (0, Some a)"
  shows "sorted (names (arc_pEntries a))" "valid_names (arc_pEntries a)" "unat (arc_numEntries a) = length (arc_pEntries a)"
proof -
  have "parseZipArchive add_ptr add_off ok addr mem = Some (Some a)"
    using assms by (auto simp: mzOpenZipArchive_def elim!: bind_SomeE split: if_splits option.splits)
  then obtain num ds ptr where "directory add_ptr add_off addr mem (unat num) ptr = Some (Some ds)" "mset (arc_pEntries a) = mset ds"
    "sorted (names (arc_pEntries a))" "valid_names (arc_pEntries a)" "arc_numEntries a = num"
    by (rule parseZipArchive_opened) (rule that)
  then show "sorted (names (arc_pEntries a))" "valid_names (arc_pEntries a)" "unat (arc_numEntries a) = length (arc_pEntries a)"
    using directory_length[of add_ptr add_off addr mem "unat num" ptr ds] mset_eq_length[of "arc_pEntries a" ds] by simp_all
qed

lemma extract_selected:
  assumes "mzOpenZipArchive add_ptr add_off ok addr mem = Some (0, Some a)" "realloc_spec (x_os x)" "os_malloc (x_os x) w (length zipDir + 2)"
    and "zipDir = [] \<or> hd zipDir \<noteq> slash" "targetDir \<noteq> []" "hd targetDir = slash" "0 \<notin> set targetDir"
    and "zpath = (if zipDir \<noteq> [] \<and> last zipDir \<noteq> slash then zipDir @ [slash] else zipDir)"
  shows "\<exists>n. mzExtractRecursive x a zipDir targetDir w =
      extract_upto x (target_path targetDir zpath) (filter (\<lambda>e. prefix zpath (name e)) (arc_pEntries a)) n w \<and>
    memory_for x targetDir zpath w True (filter (\<lambda>e. prefix zpath (name e)) (arc_pEntries a)) n"
proof -
  note o = opened_entries[OF assms(1)]
  let ?h = "\<lparr>mp_targetDir = targetDir, mp_buf = None, mp_targetDirLen = length targetDir, mp_zipDirLen = length zpath, mp_bufLen = 0\<rparr>"
  have "helper_ok targetDir (length zpath) ?h" by (simp add: helper_ok_def)
  from extract_loop_all[OF assms(2,5,7) o(1,2) this, of False w]
  have "\<exists>n. extract_loop x zpath (arc_pEntries a) False ?h w =
        extract_upto x (target_path targetDir zpath) (filter (\<lambda>e. prefix zpath (name e)) (arc_pEntries a)) n w \<and>
      memory_for x targetDir zpath w True (filter (\<lambda>e. prefix zpath (name e)) (arc_pEntries a)) n" by simp
  then show ?thesis using assms(3-6) o(3) by (auto simp: mzExtractRecursive_def assms(8)[symmetric])
qed

text \<open>
  C11. \<open>mzExtractRecursive\<close> on an opened archive handles exactly the entries below the directory, in their order, each with the
  target directory followed by the rest of its name, until one cannot be extracted, or until there is no memory for the path of the one after the
  first \<open>n\<close>, where it returns false; if \<open>realloc\<close> never fails, it goes through all of them. Leaving the loop after the last match misses
  none, and the path buffer never overflows. Entries that are symlinks are among them, and are written as regular files.
\<close>

theorem mzExtractRecursive_correct:
  assumes "mzOpenZipArchive add_ptr add_off ok addr mem = Some (0, Some a)" "realloc_spec (x_os x)" "os_malloc (x_os x) w (length zipDir + 2)"
    and "zipDir = [] \<or> hd zipDir \<noteq> slash" "targetDir \<noteq> []" "hd targetDir = slash" "0 \<notin> set targetDir"
    and "zpath = (if zipDir \<noteq> [] \<and> last zipDir \<noteq> slash then zipDir @ [slash] else zipDir)"
  shows "\<exists>n. mzExtractRecursive x a zipDir targetDir w =
      extract_upto x (target_path targetDir zpath) (filter (\<lambda>e. prefix zpath (name e)) (arc_pEntries a)) n w \<and>
    (realloc_total (x_os x) \<longrightarrow> n = length (filter (\<lambda>e. prefix zpath (name e)) (arc_pEntries a)))"
  using extract_selected[OF assms] unfolding memory_for_def by blast

definition disk_extraction :: "u8 list \<Rightarrow> (unit, u8 list \<times> bool) extraction" where
  "disk_extraction mem = \<lparr>x_os = full_disk, x_inflateInit2 = raw_init, x_inflate = raw_inflate, x_mem = mem, x_timestamp = False,
     x_sehnd = False, x_callback = None\<rparr>"

lemma disk_extraction_os: "x_os (disk_extraction mem) = full_disk"
  by (simp add: disk_extraction_def)

theorem mzExtractRecursive_witness:
  "\<exists>a. mzOpenZipArchive checked_ptr checked_off (\<lambda>_. True) 0x1000 small_zip = Some (0, Some a) \<and>
     mzExtractRecursive (disk_extraction small_zip) a [] [47, 116] () =
       extract_upto (disk_extraction small_zip) (target_path [47, 116] []) [sample_entry 2 2] 1 ()"
proof -
  obtain a where a: "mzOpenZipArchive checked_ptr checked_off (\<lambda>_. True) 0x1000 small_zip = Some (0, Some a)" "arc_pEntries a = [sample_entry 2 2]"
    by (rule small_zip_opens)
  have "\<exists>n. mzExtractRecursive (disk_extraction small_zip) a [] [47, 116] () =
      extract_upto (disk_extraction small_zip) (target_path [47, 116] []) (filter (\<lambda>e. prefix [] (name e)) (arc_pEntries a)) n () \<and>
    (realloc_total (x_os (disk_extraction small_zip)) \<longrightarrow> n = length (filter (\<lambda>e. prefix [] (name e)) (arc_pEntries a)))"
    by (rule mzExtractRecursive_correct[OF a(1)]) (simp_all add: disk_extraction_os full_disk_spec)
  then show ?thesis using a by (auto simp: disk_extraction_os full_disk_spec)
qed

text \<open>
  C12. A failure to extract the data of an entry is not reported: when the first selected entry is a file, there is memory for its path and it can be created, but its
  data cannot be written or is invalid, \<open>mzExtractRecursive\<close> stops there and returns true.
\<close>

theorem mzExtractRecursive_hides_failure:
  assumes "mzOpenZipArchive add_ptr add_off ok addr mem = Some (0, Some a)" "realloc_spec (x_os x)" "os_malloc (x_os x) w (length zipDir + 2)"
    and "zipDir = [] \<or> hd zipDir \<noteq> slash" "targetDir \<noteq> []" "hd targetDir = slash" "0 \<notin> set targetDir"
    and "zpath = (if zipDir \<noteq> [] \<and> last zipDir \<noteq> slash then zipDir @ [slash] else zipDir)"
    and "filter (\<lambda>e. prefix zpath (name e)) (arc_pEntries a) = e # es" "last_char (x_mem x) e = Some c" "c \<noteq> slash"
    and "dirCreateHierarchy (x_os x) (target_path targetDir zpath e) (x_timestamp x) True (x_sehnd x) w = Some (0, w1)"
    and "with_context (x_os x) (x_sehnd x) (target_path targetDir zpath e) (\<lambda>w. os_creat (x_os x) w (target_path targetDir zpath e)) w1 = (w2, fd)" "0 \<le> fd"
    and "mzExtractZipEntryToFile (x_inflateInit2 x) (x_inflate x) (os_writes (x_os x)) (x_mem x) e fd w2 = Some (False, w3)"
    and "os_realloc (x_os x) w None (first_block targetDir zpath e) \<noteq> None"
  shows "mzExtractRecursive x a zipDir targetDir w = Some (True, os_close (x_os x) w3 fd)"
proof -
  obtain n where n: "mzExtractRecursive x a zipDir targetDir w = extract_upto x (target_path targetDir zpath) (e # es) n w"
    "memory_for x targetDir zpath w True (e # es) n"
    using extract_selected[OF assms(1-8)] unfolding assms(9) by blast
  then have "0 < n" using assms(16) by (auto simp: memory_for_def)
  then obtain k where k: "n = Suc k" by (cases n) auto
  show ?thesis unfolding n(1) k using assms(10-15) by (simp add: extract_entry_def extract_file_def)
qed

theorem mzExtractRecursive_hides_failure_witness:
  "\<exists>a. mzOpenZipArchive checked_ptr checked_off (\<lambda>_. True) 0x1000 small_zip = Some (0, Some a) \<and>
     mzExtractRecursive (disk_extraction small_zip) a [] [47, 116] () = Some (True, ())"
proof -
  obtain a where a: "mzOpenZipArchive checked_ptr checked_off (\<lambda>_. True) 0x1000 small_zip = Some (0, Some a)" "arc_pEntries a = [sample_entry 2 2]"
    by (rule small_zip_opens)
  have t: "target_path [47, 116] [] (sample_entry 2 2) = [47, 116] @ slash # [97]" by (simp add: target_path_def slashed_def sample_entry_def)
  have s: "strip_loop [47, 116, 47, 97] 3 = 2" by code_simp
  have d: "dirCreateHierarchy full_disk ([47, 116] @ slash # [97]) False True False () = Some (0, ())"
    using s by (simp add: dirCreateHierarchy_def full_disk_def getPathDirStatus_def)
  have l: "length small_zip = 100" unfolding small_zip_def by (simp add: sample_bytes(20))
  have w: "mzExtractZipEntryToFile raw_init raw_inflate (os_writes full_disk) small_zip (sample_entry 2 2) 3 () = Some (False, ())"
    by (simp add: mzExtractZipEntryToFile_def mzProcessZipEntryContents_def processStoredEntry_def sample_entry_def STORED_def
      writeProcessFunction_def write_loop.simps copy_in_def piece_def l full_disk_def)
  have "mzExtractRecursive (disk_extraction small_zip) a [] [47, 116] () = Some (True, os_close (x_os (disk_extraction small_zip)) () 3)"
    by (rule mzExtractRecursive_hides_failure[OF a(1), where e = "sample_entry 2 2" and zpath = "[]" and es = "[]" and c = 97 and ?w1.0 = "()" and ?w2.0 = "()"])
      (use d w in \<open>simp_all add: disk_extraction_def full_disk_spec a(2) t last_char_def with_context_def\<close>, simp_all add: full_disk_def sample_entry_def)
  then show ?thesis using a(1) by auto
qed

end
