(* ===== verification/Isaac.thy ===== *)
theory Isaac
  imports Prelude
begin

text \<open>
  The ISAAC random number generator (\<^verbatim>\<open>openaes/src/isaac/rand.c\<close>, \<^verbatim>\<open>rand.h\<close>) behind the keys and
  initialisation vectors of OpenAES: the state \<open>randctx\<close>, the generation step \<open>isaac\<close>, the seeding
  \<open>randinit\<close> and the macro \<open>rand\<close>. \<open>ub4\<close> is the 32-bit \<open>unsigned long\<close> of the target. The well-formedness
  of the state is preserved by every operation, every table access is in range, and a freshly filled
  state hands out its results from the last to the first.
\<close>

section \<open>The code\<close>

definition RANDSIZL :: nat where "RANDSIZL = 8"
definition RANDSIZ :: nat where "RANDSIZ = 2 ^ RANDSIZL"

record randctx =
  randcnt :: u32
  randrsl :: "u32 list"
  randmem :: "u32 list"
  randa :: u32
  randb :: u32
  randc :: u32

text \<open>\<open>ind(mm,x)\<close>: the byte offset \<open>x & (255 << 2)\<close> into the table of 4-byte words.\<close>

definition ind :: "u32 list \<Rightarrow> u32 \<Rightarrow> u32" where
  "ind mm x = mm ! (unat (x AND push_bit 2 (of_nat (RANDSIZ - 1))) div 4)"

text \<open>The locals of \<open>isaac\<close>: \<open>mm\<close>, \<open>r\<close>, \<open>a\<close> and \<open>b\<close>; the pointers \<open>m\<close> and \<open>r\<close> move together.\<close>

type_synonym rng = "u32 list \<times> u32 list \<times> u32 \<times> u32"

definition rngstep :: "(u32 \<Rightarrow> u32) \<Rightarrow> nat \<Rightarrow> nat \<Rightarrow> rng \<Rightarrow> rng" where
  "rngstep mix m m2 = (\<lambda>(mm, r, a, b).
     let x = mm ! m;
         a = (a XOR mix a) + mm ! m2;
         y = ind mm x + a + b;
         mm = mm[m := y];
         b = ind mm (drop_bit RANDSIZL y) + x
     in (mm, r[m := b], a, b))"

definition rngstep4 :: "nat \<Rightarrow> nat \<Rightarrow> rng \<Rightarrow> rng" where
  "rngstep4 m m2 s =
     rngstep (\<lambda>a. drop_bit 16 a) (m + 3) (m2 + 3)
       (rngstep (\<lambda>a. push_bit 2 a) (m + 2) (m2 + 2)
         (rngstep (\<lambda>a. drop_bit 6 a) (m + 1) (m2 + 1)
           (rngstep (\<lambda>a. push_bit 13 a) m m2 s)))"

definition isaac :: "randctx \<Rightarrow> randctx" where
  "isaac ctx =
     (let c = randc ctx + 1;
          s = (randmem ctx, randrsl ctx, randa ctx, randb ctx + c);
          s = foldl (\<lambda>s k. rngstep4 (4 * k) (RANDSIZ div 2 + 4 * k) s) s [0..<RANDSIZ div 8];
          (mm, r, a, b) = foldl (\<lambda>s k. rngstep4 (RANDSIZ div 2 + 4 * k) (4 * k) s) s [0..<RANDSIZ div 8]
      in ctx\<lparr>randmem := mm, randrsl := r, randa := a, randb := b, randc := c\<rparr>)"

type_synonym mix8 = "u32 \<times> u32 \<times> u32 \<times> u32 \<times> u32 \<times> u32 \<times> u32 \<times> u32"

definition mix :: "mix8 \<Rightarrow> mix8" where
  "mix = (\<lambda>(a, b, c, d, e, f, g, h).
     let a = a XOR push_bit 11 b; d = d + a; b = b + c;
         b = b XOR drop_bit 2 c;  e = e + b; c = c + d;
         c = c XOR push_bit 8 d;  f = f + c; d = d + e;
         d = d XOR drop_bit 16 e; g = g + d; e = e + f;
         e = e XOR push_bit 10 f; h = h + e; f = f + g;
         f = f XOR drop_bit 4 g;  a = a + f; g = g + h;
         g = g XOR push_bit 8 h;  b = b + g; h = h + a;
         h = h XOR drop_bit 9 a;  c = c + h; a = a + b
     in (a, b, c, d, e, f, g, h))"

definition add8 :: "mix8 \<Rightarrow> u32 list \<Rightarrow> nat \<Rightarrow> mix8" where
  "add8 = (\<lambda>(a, b, c, d, e, f, g, h) r i.
     (a + r ! i, b + r ! (i + 1), c + r ! (i + 2), d + r ! (i + 3),
      e + r ! (i + 4), f + r ! (i + 5), g + r ! (i + 6), h + r ! (i + 7)))"

definition store8 :: "u32 list \<Rightarrow> nat \<Rightarrow> mix8 \<Rightarrow> u32 list" where
  "store8 m i = (\<lambda>(a, b, c, d, e, f, g, h).
     m[i := a, i + 1 := b, i + 2 := c, i + 3 := d, i + 4 := e, i + 5 := f, i + 6 := g, i + 7 := h])"

definition seed_pass :: "u32 list \<Rightarrow> mix8 \<times> u32 list \<Rightarrow> nat \<Rightarrow> mix8 \<times> u32 list" where
  "seed_pass r = (\<lambda>(v, m) i. let v = mix (add8 v r i) in (v, store8 m i v))"

definition second_pass :: "mix8 \<times> u32 list \<Rightarrow> nat \<Rightarrow> mix8 \<times> u32 list" where
  "second_pass = (\<lambda>(v, m) i. let v = mix (add8 v m i) in (v, store8 m i v))"

definition fill_pass :: "mix8 \<times> u32 list \<Rightarrow> nat \<Rightarrow> mix8 \<times> u32 list" where
  "fill_pass = (\<lambda>(v, m) i. let v = mix v in (v, store8 m i v))"

definition golden :: mix8 where
  "golden = (let g = 0x9e3779b9 in (g, g, g, g, g, g, g, g))"

definition randinit :: "randctx \<Rightarrow> bool \<Rightarrow> randctx" where
  "randinit ctx flag =
     (let ctx = ctx\<lparr>randa := 0, randb := 0, randc := 0\<rparr>;
          steps = map (\<lambda>k. 8 * k) [0..<RANDSIZ div 8];
          v = (mix ^^ 4) golden;
          (v, m) = (if flag
                    then foldl second_pass (foldl (seed_pass (randrsl ctx)) (v, randmem ctx) steps) steps
                    else foldl fill_pass (v, randmem ctx) steps);
          ctx = isaac (ctx\<lparr>randmem := m\<rparr>)
      in ctx\<lparr>randcnt := of_nat RANDSIZ\<rparr>)"

text \<open>The macro \<open>rand(r)\<close>: the counter is tested before it is decremented.\<close>

definition rand :: "randctx \<Rightarrow> u32 \<times> randctx" where
  "rand r =
     (let cnt = randcnt r; r = r\<lparr>randcnt := cnt - 1\<rparr>
      in if cnt = 0
         then let r = (isaac r)\<lparr>randcnt := of_nat (RANDSIZ - 1)\<rparr> in (randrsl r ! unat (randcnt r), r)
         else (randrsl r ! unat (randcnt r), r))"

text \<open>A loop that stores \<open>(uint8_t) rand(rctx)\<close> into \<open>n\<close> bytes.\<close>

fun rand_bytes :: "nat \<Rightarrow> randctx \<Rightarrow> u8 list \<times> randctx" where
  "rand_bytes 0 r = ([], r)"
| "rand_bytes (Suc n) r = (let (x, r) = rand r; (bs, r) = rand_bytes n r in (ucast x # bs, r))"

section \<open>Well-formed states\<close>

definition rand_ok :: "randctx \<Rightarrow> bool" where
  "rand_ok r \<longleftrightarrow> length (randrsl r) = RANDSIZ \<and> length (randmem r) = RANDSIZ \<and> unat (randcnt r) \<le> RANDSIZ"

lemma RANDSIZ_256: "RANDSIZ = 256"
  by (simp add: RANDSIZ_def RANDSIZL_def)

lemma ind_in_range: "unat ((x :: u32) AND push_bit 2 (of_nat (RANDSIZ - 1))) div 4 < RANDSIZ"
proof -
  have "unat (x AND 1020) \<le> unat (1020 :: u32)"
    by (simp only: word_le_nat_alt[symmetric] word_and_le1)
  then show ?thesis by (simp add: RANDSIZ_256 push_bit_eq_mult)
qed

definition rng_ok :: "rng \<Rightarrow> bool" where
  "rng_ok = (\<lambda>(mm, r, a, b). length mm = RANDSIZ \<and> length r = RANDSIZ)"

lemma rngstep_ok: "rng_ok s \<Longrightarrow> rng_ok (rngstep f m m2 s)"
  by (auto simp: rng_ok_def rngstep_def Let_def split: prod.splits)

lemma rngstep4_ok: "rng_ok s \<Longrightarrow> rng_ok (rngstep4 m m2 s)"
  by (simp add: rngstep4_def rngstep_ok)

lemma foldl_invariant: "P s \<Longrightarrow> (\<And>s x. P s \<Longrightarrow> P (f s x)) \<Longrightarrow> P (foldl f s xs)"
  by (induction xs arbitrary: s) auto

lemma isaac_lengths:
  assumes "length (randrsl r) = RANDSIZ" "length (randmem r) = RANDSIZ"
  shows "length (randrsl (isaac r)) = RANDSIZ \<and> length (randmem (isaac r)) = RANDSIZ \<and> randcnt (isaac r) = randcnt r"
proof -
  define s where "s = (randmem r, randrsl r, randa r, randb r + (randc r + 1))"
  have "rng_ok s" using assms by (simp add: s_def rng_ok_def)
  then have "rng_ok (foldl (\<lambda>s k. rngstep4 (RANDSIZ div 2 + 4 * k) (4 * k) s)
      (foldl (\<lambda>s k. rngstep4 (4 * k) (RANDSIZ div 2 + 4 * k) s) s [0..<RANDSIZ div 8]) [0..<RANDSIZ div 8])"
    by (intro foldl_invariant[where P = rng_ok] rngstep4_ok)
  then show ?thesis
    by (auto simp: isaac_def Let_def rng_ok_def s_def[symmetric] split: prod.splits)
qed

lemma length_store8 [simp]: "length (store8 m i v) = length m"
  by (simp add: store8_def split: prod.splits)

lemma passes_length:
  "length (snd (foldl (seed_pass r) s is)) = length (snd s)"
  "length (snd (foldl second_pass s is)) = length (snd s)"
  "length (snd (foldl fill_pass s is)) = length (snd s)"
  by (rule foldl_invariant[where P = "\<lambda>s'. length (snd s') = length (snd s)"],
      simp, auto simp: seed_pass_def second_pass_def fill_pass_def Let_def split_beta)+

lemma randinit_ok:
  assumes "length (randrsl r) = RANDSIZ" "length (randmem r) = RANDSIZ"
  shows "rand_ok (randinit r flag) \<and> randcnt (randinit r flag) = of_nat RANDSIZ"
proof -
  define steps where "steps = map (\<lambda>k. 8 * k) [0..<RANDSIZ div 8]"
  define v where "v = (mix ^^ 4) golden"
  define res where "res = (if flag then foldl second_pass (foldl (seed_pass (randrsl r)) (v, randmem r) steps) steps
      else foldl fill_pass (v, randmem r) steps)"
  have len: "length (snd res) = RANDSIZ"
    using assms by (simp add: res_def passes_length)
  define r' where "r' = r\<lparr>randa := 0, randb := 0, randc := 0, randmem := snd res\<rparr>"
  have eq: "randinit r flag = (isaac r')\<lparr>randcnt := of_nat RANDSIZ\<rparr>"
    unfolding randinit_def Let_def r'_def res_def v_def steps_def by (simp split: prod.splits)
  have "length (randrsl (isaac r')) = RANDSIZ \<and> length (randmem (isaac r')) = RANDSIZ"
    using isaac_lengths[of r'] assms len by (simp add: r'_def)
  then show ?thesis by (simp add: eq rand_ok_def RANDSIZ_256)
qed

lemma rand_ok_step: "rand_ok r \<Longrightarrow> rand_ok (snd (rand r))"
proof (cases "randcnt r = 0")
  case True
  assume "rand_ok r"
  then show ?thesis
    using True isaac_lengths[of "r\<lparr>randcnt := - 1\<rparr>"]
    by (simp add: rand_def Let_def rand_ok_def RANDSIZ_256)
next
  case False
  assume "rand_ok r"
  then show ?thesis using False
    by (auto simp: rand_def Let_def rand_ok_def RANDSIZ_256 unat_minus_one)
qed

lemma rand_bytes_ok:
  "rand_ok r \<Longrightarrow> rand_ok (snd (rand_bytes n r)) \<and> length (fst (rand_bytes n r)) = n"
proof (induction n arbitrary: r)
  case (Suc n)
  from Suc.IH[OF rand_ok_step[OF Suc.prems]] show ?case
    by (simp add: split_beta Let_def)
qed simp

section \<open>The order of the results\<close>

fun draws :: "nat \<Rightarrow> randctx \<Rightarrow> u32 list" where
  "draws 0 r = []"
| "draws (Suc n) r = (let (x, r) = rand r in x # draws n r)"

lemma draws_from_count:
  "rand_ok r \<Longrightarrow> n = unat (randcnt r) \<Longrightarrow> draws n r = rev (take n (randrsl r))"
proof (induction n arbitrary: r)
  case (Suc n)
  then have c: "randcnt r \<noteq> 0" by (metis nat.distinct(1) unat_0)
  then have n: "unat (randcnt r - 1) = n" using Suc.prems by (simp add: unat_minus_one)
  have step: "rand r = (randrsl r ! n, r\<lparr>randcnt := randcnt r - 1\<rparr>)"
    using c n by (simp add: rand_def Let_def)
  have "rand_ok (r\<lparr>randcnt := randcnt r - 1\<rparr>)" using rand_ok_step[OF Suc.prems(1)] step by simp
  from Suc.IH[OF this] n have "draws n (r\<lparr>randcnt := randcnt r - 1\<rparr>) = rev (take n (randrsl r))" by simp
  moreover have "n < length (randrsl r)" using Suc.prems by (simp add: rand_ok_def)
  ultimately show ?case by (simp add: step take_Suc_conv_app_nth)
qed simp

text \<open>
  Seeding makes a well-formed generator, and the first 256 results of \<open>rand\<close> after it are the
  freshly generated words from the last to the first, without a further generation.
\<close>

lemma randinit_draws:
  assumes "length (randrsl r) = RANDSIZ" "length (randmem r) = RANDSIZ"
  shows "rand_ok (randinit r flag) \<and> draws RANDSIZ (randinit r flag) = rev (randrsl (randinit r flag))"
proof -
  let ?r = "randinit r flag"
  have ok: "rand_ok ?r" and cnt: "randcnt ?r = of_nat RANDSIZ" using randinit_ok[OF assms] by simp_all
  then have "RANDSIZ = unat (randcnt ?r)" by (simp add: RANDSIZ_256)
  from draws_from_count[OF ok this] ok show ?thesis by (simp add: rand_ok_def)
qed

theorem randinit_draws_witness:
  "let r = randinit \<lparr>randcnt = 0, randrsl = replicate 256 0, randmem = replicate 256 0, randa = 0, randb = 0, randc = 0\<rparr> True
   in rand_ok r \<and> draws RANDSIZ r = rev (randrsl r)"
  unfolding Let_def by (rule randinit_draws) (simp_all add: RANDSIZ_256)

end
