(* ===== verification/Oaes.thy ===== *)
theory Oaes
  imports Oaes_Tables Isaac "HOL-Library.Monad_Syntax"
begin

text \<open>
  OpenAES (\<^verbatim>\<open>openaes/src/oaes_lib.c\<close>), the cipher behind encrypted backups: substitution and mixing
  steps, key expansion, key generation, import and export, options, block and message encryption.

  A pointer argument is an option, \<open>None\<close> being \<open>NULL\<close>; the byte array it points to is a list. A result
  \<open>None\<close> of an operation on messages stands for an access outside such an array. \<open>size_t\<close> has 32 bits on
  the target, and lengths wrap accordingly. Whether the \<open>k\<close>-th allocation of a call succeeds is a
  parameter \<open>mem\<close>. \<^verbatim>\<open>oaes_config.h\<close> defines \<open>OAES_HAVE_ISAAC\<close> and also \<open>OAES_DEBUG\<close> (as 0, which
  \<open>#ifdef\<close> takes as defined), so the stepping code is part of the build: the calls of the step callback
  are recorded in \<open>ctx_steps\<close>. The \<open>NULL\<close> tests of the static byte and column helpers, whose callers
  pass addresses of local arrays, are left out.
\<close>

section \<open>Types and constants\<close>

definition OAES_BLOCK_SIZE :: nat where "OAES_BLOCK_SIZE = 16"
definition OAES_RKEY_LEN :: nat where "OAES_RKEY_LEN = 4"
definition OAES_COL_LEN :: nat where "OAES_COL_LEN = 4"
definition OAES_ROUND_BASE :: nat where "OAES_ROUND_BASE = 7"

lemmas oaes_sizes = OAES_BLOCK_SIZE_def OAES_RKEY_LEN_def OAES_COL_LEN_def OAES_ROUND_BASE_def

definition OAES_FLAG_PAD :: u8 where "OAES_FLAG_PAD = 1"

datatype OAES_RET =
    OAES_RET_SUCCESS | OAES_RET_UNKNOWN | OAES_RET_ARG1 | OAES_RET_ARG2 | OAES_RET_ARG3
  | OAES_RET_ARG4 | OAES_RET_ARG5 | OAES_RET_NOKEY | OAES_RET_MEM | OAES_RET_BUF | OAES_RET_HEADER

type_synonym OAES_OPTION = "16 word"

definition OAES_OPTION_NONE :: OAES_OPTION where "OAES_OPTION_NONE = 0"
definition OAES_OPTION_ECB :: OAES_OPTION where "OAES_OPTION_ECB = 1"
definition OAES_OPTION_CBC :: OAES_OPTION where "OAES_OPTION_CBC = 2"
definition OAES_OPTION_STEP_ON :: OAES_OPTION where "OAES_OPTION_STEP_ON = 4"
definition OAES_OPTION_STEP_OFF :: OAES_OPTION where "OAES_OPTION_STEP_OFF = 8"

lemmas oaes_options = OAES_OPTION_NONE_def OAES_OPTION_ECB_def OAES_OPTION_CBC_def
  OAES_OPTION_STEP_ON_def OAES_OPTION_STEP_OFF_def

record oaes_key =
  data_len :: nat
  key_data :: "u8 list"
  exp_data_len :: nat
  exp_data :: "u8 list"
  num_keys :: nat
  key_base :: nat

text \<open>A call of the step callback: the state it is shown, the name and the number of the step.\<close>

type_synonym step = "u8 list \<times> string \<times> nat"

record oaes_ctx =
  ctx_rctx :: randctx
  ctx_step_cb :: bool \<comment> \<open>whether a callback is installed\<close>
  ctx_key :: "oaes_key option"
  ctx_options :: OAES_OPTION
  ctx_iv :: "u8 list"
  ctx_steps :: "step list" \<comment> \<open>the calls made so far\<close>

text \<open>\<open>_rc = _rc || f(...)\<close>: the call is skipped once \<open>_rc\<close> is set, and the result is 0 or 1.\<close>

definition rc_or :: "OAES_RET \<Rightarrow> OAES_RET \<Rightarrow> OAES_RET" where
  "rc_or rc r = (if rc \<noteq> OAES_RET_SUCCESS \<or> r \<noteq> OAES_RET_SUCCESS then OAES_RET_UNKNOWN else OAES_RET_SUCCESS)"

definition size_t :: "nat \<Rightarrow> nat" where
  "size_t n = n mod 2 ^ 32"

definition size_sub :: "nat \<Rightarrow> nat \<Rightarrow> nat" where
  "size_sub a b = (a + 2 ^ 32 - b) mod 2 ^ 32"

text \<open>\<open>memcpy\<close> out of and into an array at an offset.\<close>

definition load :: "'a list \<Rightarrow> nat \<Rightarrow> nat \<Rightarrow> 'a list option" where
  "load xs off n = (if off + n \<le> length xs then Some (take n (drop off xs)) else None)"

definition store :: "'a list \<Rightarrow> nat \<Rightarrow> 'a list \<Rightarrow> 'a list option" where
  "store xs off ys =
     (if off + length ys \<le> length xs then Some (take off xs @ ys @ drop (off + length ys) xs) else None)"

section \<open>Bytes, rows and columns\<close>

definition lookup_table :: "table \<Rightarrow> u8 \<Rightarrow> u8" where
  "lookup_table t b = t ! unat (drop_bit 4 (b AND 0xf0)) ! unat (b AND 0x0f)"

definition oaes_sub_byte :: "u8 \<Rightarrow> u8" where
  "oaes_sub_byte b = lookup_table oaes_sub_byte_value b"

definition oaes_inv_sub_byte :: "u8 \<Rightarrow> u8" where
  "oaes_inv_sub_byte b = lookup_table oaes_inv_sub_byte_value b"

definition oaes_word_rot_left :: "u8 list \<Rightarrow> u8 list" where
  "oaes_word_rot_left w = take (OAES_COL_LEN - 1) (drop 1 w) @ [w ! 0]"

definition oaes_shift_rows :: "u8 list \<Rightarrow> u8 list" where
  "oaes_shift_rows b =
     [b ! 0x0, b ! 0x5, b ! 0xa, b ! 0xf,
      b ! 0x4, b ! 0x9, b ! 0xe, b ! 0x3,
      b ! 0x8, b ! 0xd, b ! 0x2, b ! 0x7,
      b ! 0xc, b ! 0x1, b ! 0x6, b ! 0xb]"

definition oaes_inv_shift_rows :: "u8 list \<Rightarrow> u8 list" where
  "oaes_inv_shift_rows b =
     [b ! 0x0, b ! 0xd, b ! 0xa, b ! 0x7,
      b ! 0x4, b ! 0x1, b ! 0xe, b ! 0xb,
      b ! 0x8, b ! 0x5, b ! 0x2, b ! 0xf,
      b ! 0xc, b ! 0x9, b ! 0x6, b ! 0x3]"

definition oaes_gf_mul :: "u8 \<Rightarrow> u8 \<Rightarrow> u8" where
  "oaes_gf_mul left right =
     (if right = 0x02 then lookup_table oaes_gf_mul_2 left
      else if right = 0x03 then lookup_table oaes_gf_mul_3 left
      else if right = 0x09 then lookup_table oaes_gf_mul_9 left
      else if right = 0x0b then lookup_table oaes_gf_mul_b left
      else if right = 0x0d then lookup_table oaes_gf_mul_d left
      else if right = 0x0e then lookup_table oaes_gf_mul_e left
      else left)"

definition oaes_mix_cols :: "u8 list \<Rightarrow> u8 list" where
  "oaes_mix_cols w =
     [oaes_gf_mul (w ! 0) 0x02 XOR oaes_gf_mul (w ! 1) 0x03 XOR w ! 2 XOR w ! 3,
      w ! 0 XOR oaes_gf_mul (w ! 1) 0x02 XOR oaes_gf_mul (w ! 2) 0x03 XOR w ! 3,
      w ! 0 XOR w ! 1 XOR oaes_gf_mul (w ! 2) 0x02 XOR oaes_gf_mul (w ! 3) 0x03,
      oaes_gf_mul (w ! 0) 0x03 XOR w ! 1 XOR w ! 2 XOR oaes_gf_mul (w ! 3) 0x02]"

definition oaes_inv_mix_cols :: "u8 list \<Rightarrow> u8 list" where
  "oaes_inv_mix_cols w =
     [oaes_gf_mul (w ! 0) 0x0e XOR oaes_gf_mul (w ! 1) 0x0b XOR oaes_gf_mul (w ! 2) 0x0d XOR oaes_gf_mul (w ! 3) 0x09,
      oaes_gf_mul (w ! 0) 0x09 XOR oaes_gf_mul (w ! 1) 0x0e XOR oaes_gf_mul (w ! 2) 0x0b XOR oaes_gf_mul (w ! 3) 0x0d,
      oaes_gf_mul (w ! 0) 0x0d XOR oaes_gf_mul (w ! 1) 0x09 XOR oaes_gf_mul (w ! 2) 0x0e XOR oaes_gf_mul (w ! 3) 0x0b,
      oaes_gf_mul (w ! 0) 0x0b XOR oaes_gf_mul (w ! 1) 0x0d XOR oaes_gf_mul (w ! 2) 0x09 XOR oaes_gf_mul (w ! 3) 0x0e]"

text \<open>The four calls on \<open>c\<close>, \<open>c + 4\<close>, \<open>c + 8\<close> and \<open>c + 12\<close>.\<close>

definition on_columns :: "(u8 list \<Rightarrow> u8 list) \<Rightarrow> u8 list \<Rightarrow> u8 list" where
  "on_columns f c = f (take 4 c) @ f (take 4 (drop 4 c)) @ f (take 4 (drop 8 c)) @ f (take 4 (drop 12 c))"

section \<open>Hex dump\<close>

definition hex_digit :: "nat \<Rightarrow> char" where
  "hex_digit n = ''0123456789abcdef'' ! n"

text \<open>\<open>sprintf( _temp, "%02x ", b )\<close>\<close>

definition hex_byte :: "u8 \<Rightarrow> string" where
  "hex_byte b = [hex_digit (unat b div 16), hex_digit (unat b mod 16), CHR '' '']"

definition sprintf_step :: "u8 list \<Rightarrow> string \<Rightarrow> nat \<Rightarrow> string" where
  "sprintf_step ds buf i =
     (let buf = buf @ hex_byte (ds ! i)
      in if i \<noteq> 0 \<and> (i + 1) mod OAES_BLOCK_SIZE = 0 then buf @ [CHR 0x0A] else buf)"

text \<open>
  \<open>buf\<close> is given by the size of the array it points to; the text written is the last component. The
  terminating zero byte has to fit as well.
\<close>

definition oaes_sprintf ::
  "nat option \<Rightarrow> nat option \<Rightarrow> u8 list option \<Rightarrow> nat \<Rightarrow> (OAES_RET \<times> nat option \<times> string option) option" where
  "oaes_sprintf buf buf_len ds ds_len =
     (case buf_len of None \<Rightarrow> Some (OAES_RET_ARG2, None, None)
      | Some len_in \<Rightarrow>
        let len = size_t (ds_len * 3 + ds_len div OAES_BLOCK_SIZE + 1) in
        case buf of None \<Rightarrow> Some (OAES_RET_SUCCESS, Some len, None)
        | Some cap \<Rightarrow>
          if len > len_in then Some (OAES_RET_BUF, Some len, None)
          else case ds of None \<Rightarrow> Some (OAES_RET_ARG3, Some len, None)
          | Some ds \<Rightarrow>
            if ds_len > length ds then None
            else let text = foldl (sprintf_step ds) '''' [0..<ds_len]
                 in if length text + 1 \<le> cap then Some (OAES_RET_SUCCESS, Some len, Some text) else None)"

section \<open>Keys\<close>

definition oaes_key_destroy :: "oaes_key option \<Rightarrow> OAES_RET \<times> oaes_key option" where
  "oaes_key_destroy key = (OAES_RET_SUCCESS, None)"

text \<open>One pass of the expansion loop: column \<open>i\<close> of the expanded key from the columns before it.\<close>

definition expand_temp :: "nat \<Rightarrow> u8 list \<Rightarrow> nat \<Rightarrow> u8 list" where
  "expand_temp base ex i =
     (let temp = take OAES_COL_LEN (drop ((i - 1) * OAES_RKEY_LEN) ex)
      in if i mod base = 0
         then let temp = map oaes_sub_byte (oaes_word_rot_left temp)
              in temp[0 := temp ! 0 XOR oaes_gf_8 ! (i div base - 1)]
         else if base > 6 \<and> i mod base = 4 then map oaes_sub_byte temp
         else temp)"

definition expand_step :: "nat \<Rightarrow> u8 list \<Rightarrow> nat \<Rightarrow> u8 list" where
  "expand_step base ex i =
     (let temp = expand_temp base ex i
      in foldl (\<lambda>ex j. ex[i * OAES_RKEY_LEN + j := ex ! ((i - base) * OAES_RKEY_LEN + j) XOR temp ! j])
           ex [0..<OAES_COL_LEN])"

definition oaes_key_expand :: "bool \<Rightarrow> oaes_ctx option \<Rightarrow> OAES_RET \<times> oaes_ctx option" where
  "oaes_key_expand mem ctxp =
     (case ctxp of None \<Rightarrow> (OAES_RET_ARG1, None)
      | Some ctx \<Rightarrow>
        case ctx_key ctx of None \<Rightarrow> (OAES_RET_NOKEY, Some ctx)
        | Some key \<Rightarrow>
          let base = data_len key div OAES_RKEY_LEN;
              n = base + OAES_ROUND_BASE;
              len = n * OAES_RKEY_LEN * OAES_COL_LEN;
              key = key\<lparr>key_base := base, num_keys := n, exp_data_len := len\<rparr>
          in if \<not> mem then (OAES_RET_MEM, Some (ctx\<lparr>ctx_key := Some (key\<lparr>exp_data := []\<rparr>)\<rparr>))
             else let ex = take (data_len key) (key_data key) @ replicate (len - data_len key) 0;
                      ex = foldl (expand_step base) ex [base..<n * OAES_RKEY_LEN]
                  in (OAES_RET_SUCCESS, Some (ctx\<lparr>ctx_key := Some (key\<lparr>exp_data := ex\<rparr>)\<rparr>)))"

definition new_key :: "u8 list \<Rightarrow> oaes_key" where
  "new_key bs = \<lparr>data_len = length bs, key_data = bs, exp_data_len = 0, exp_data = [], num_keys = 0, key_base = 0\<rparr>"

text \<open>
  The common end of generation and import: the key is installed and expanded; when that fails the key
  is destroyed and the error is the collapsed \<open>_rc\<close>.
\<close>

definition install_key :: "bool \<Rightarrow> oaes_ctx \<Rightarrow> u8 list \<Rightarrow> OAES_RET \<times> oaes_ctx option" where
  "install_key mem ctx bs =
     (let (r, ctxp) = oaes_key_expand mem (Some (ctx\<lparr>ctx_key := Some (new_key bs)\<rparr>));
          rc = rc_or OAES_RET_SUCCESS r
      in if rc \<noteq> OAES_RET_SUCCESS then (rc, map_option (\<lambda>c. c\<lparr>ctx_key := None\<rparr>) ctxp) else (OAES_RET_SUCCESS, ctxp))"

definition oaes_key_gen :: "(nat \<Rightarrow> bool) \<Rightarrow> oaes_ctx option \<Rightarrow> nat \<Rightarrow> OAES_RET \<times> oaes_ctx option" where
  "oaes_key_gen mem ctxp key_size =
     (case ctxp of None \<Rightarrow> (OAES_RET_ARG1, None)
      | Some ctx \<Rightarrow>
        if \<not> mem 0 then (OAES_RET_MEM, Some ctx)
        else let ctx = ctx\<lparr>ctx_key := None\<rparr>
             in if \<not> mem 1 then (OAES_RET_MEM, Some ctx)
                else let (bs, r) = rand_bytes key_size (ctx_rctx ctx)
                     in install_key (mem 2) (ctx\<lparr>ctx_rctx := r\<rparr>) bs)"

definition oaes_key_gen_128 :: "(nat \<Rightarrow> bool) \<Rightarrow> oaes_ctx option \<Rightarrow> OAES_RET \<times> oaes_ctx option" where
  "oaes_key_gen_128 mem ctxp = oaes_key_gen mem ctxp 16"

definition oaes_key_gen_192 :: "(nat \<Rightarrow> bool) \<Rightarrow> oaes_ctx option \<Rightarrow> OAES_RET \<times> oaes_ctx option" where
  "oaes_key_gen_192 mem ctxp = oaes_key_gen mem ctxp 24"

definition oaes_key_gen_256 :: "(nat \<Rightarrow> bool) \<Rightarrow> oaes_ctx option \<Rightarrow> OAES_RET \<times> oaes_ctx option" where
  "oaes_key_gen_256 mem ctxp = oaes_key_gen mem ctxp 32"

definition oaes_key_export ::
  "oaes_ctx option \<Rightarrow> u8 list option \<Rightarrow> nat option \<Rightarrow> (OAES_RET \<times> u8 list option \<times> nat option) option" where
  "oaes_key_export ctxp buf len =
     (case ctxp of None \<Rightarrow> Some (OAES_RET_ARG1, buf, len)
      | Some ctx \<Rightarrow> case ctx_key ctx of None \<Rightarrow> Some (OAES_RET_NOKEY, buf, len)
      | Some key \<Rightarrow> case len of None \<Rightarrow> Some (OAES_RET_ARG3, buf, len)
      | Some len_in \<Rightarrow>
        let len = data_len key + OAES_BLOCK_SIZE in
        case buf of None \<Rightarrow> Some (OAES_RET_SUCCESS, None, Some len)
        | Some buf \<Rightarrow>
          if len_in < len then Some (OAES_RET_BUF, Some buf, Some len)
          else do {
            buf \<leftarrow> store buf 0 oaes_header;
            buf \<leftarrow> store buf 5 [0x01];
            buf \<leftarrow> store buf 7 [of_nat (data_len key)];
            bs \<leftarrow> load (key_data key) 0 (data_len key);
            buf \<leftarrow> store buf OAES_BLOCK_SIZE bs;
            Some (OAES_RET_SUCCESS, Some buf, Some len)
          })"

definition oaes_key_export_data ::
  "oaes_ctx option \<Rightarrow> u8 list option \<Rightarrow> nat option \<Rightarrow> (OAES_RET \<times> u8 list option \<times> nat option) option" where
  "oaes_key_export_data ctxp buf len =
     (case ctxp of None \<Rightarrow> Some (OAES_RET_ARG1, buf, len)
      | Some ctx \<Rightarrow> case ctx_key ctx of None \<Rightarrow> Some (OAES_RET_NOKEY, buf, len)
      | Some key \<Rightarrow> case len of None \<Rightarrow> Some (OAES_RET_ARG3, buf, len)
      | Some len_in \<Rightarrow>
        let len = data_len key in
        case buf of None \<Rightarrow> Some (OAES_RET_SUCCESS, None, Some len)
        | Some buf \<Rightarrow>
          if len_in < len then Some (OAES_RET_BUF, Some buf, Some len)
          else do {
            bs \<leftarrow> load (key_data key) 0 len;
            buf \<leftarrow> store buf 0 bs;
            Some (OAES_RET_SUCCESS, Some buf, Some len)
          })"

text \<open>The header tests of \<open>oaes_key_import\<close>, in their order; \<open>None\<close> when all pass.\<close>

definition import_header :: "u8 list \<Rightarrow> nat \<Rightarrow> OAES_RET option" where
  "import_header bs len =
     (if len \<noteq> 16 + OAES_BLOCK_SIZE \<and> len \<noteq> 24 + OAES_BLOCK_SIZE \<and> len \<noteq> 32 + OAES_BLOCK_SIZE
      then Some OAES_RET_ARG3
      else if take 4 bs \<noteq> take 4 oaes_header then Some OAES_RET_HEADER
      else if bs ! 4 \<noteq> 0x01 then Some OAES_RET_HEADER
      else if bs ! 5 \<noteq> 0x01 then Some OAES_RET_HEADER
      else if unat (bs ! 7) \<noteq> 16 \<and> unat (bs ! 7) \<noteq> 24 \<and> unat (bs ! 7) \<noteq> 32 then Some OAES_RET_HEADER
      else if len \<noteq> unat (bs ! 7) + OAES_BLOCK_SIZE then Some OAES_RET_ARG3
      else None)"

text \<open>
  \<open>data\<close> points to \<open>data_len\<close> bytes. The allocations are the key, its data and, in the expansion, the
  expanded key.
\<close>

definition import_bytes :: "(nat \<Rightarrow> bool) \<Rightarrow> oaes_ctx \<Rightarrow> u8 list \<Rightarrow> OAES_RET \<times> oaes_ctx option" where
  "import_bytes mem ctx bs =
     (let ctx = ctx\<lparr>ctx_key := None\<rparr>
      in if \<not> mem 0 \<or> \<not> mem 1 then (OAES_RET_MEM, Some ctx) else install_key (mem 2) ctx bs)"

definition oaes_key_import ::
  "(nat \<Rightarrow> bool) \<Rightarrow> oaes_ctx option \<Rightarrow> u8 list option \<Rightarrow> OAES_RET \<times> oaes_ctx option" where
  "oaes_key_import mem ctxp bsp =
     (case ctxp of None \<Rightarrow> (OAES_RET_ARG1, None)
      | Some ctx \<Rightarrow> case bsp of None \<Rightarrow> (OAES_RET_ARG2, Some ctx)
      | Some bs \<Rightarrow>
        case import_header bs (length bs) of Some e \<Rightarrow> (e, Some ctx)
        | None \<Rightarrow> import_bytes mem ctx (take (unat (bs ! 7)) (drop OAES_BLOCK_SIZE bs)))"

definition oaes_key_import_data ::
  "(nat \<Rightarrow> bool) \<Rightarrow> oaes_ctx option \<Rightarrow> u8 list option \<Rightarrow> OAES_RET \<times> oaes_ctx option" where
  "oaes_key_import_data mem ctxp bsp =
     (case ctxp of None \<Rightarrow> (OAES_RET_ARG1, None)
      | Some ctx \<Rightarrow> case bsp of None \<Rightarrow> (OAES_RET_ARG2, Some ctx)
      | Some bs \<Rightarrow>
        if length bs \<noteq> 16 \<and> length bs \<noteq> 24 \<and> length bs \<noteq> 32 then (OAES_RET_ARG3, Some ctx)
        else import_bytes mem ctx bs)"

section \<open>Contexts and options\<close>

text \<open>
  \<open>value\<close> is the address of the initialisation vector or of the callback; of the callback only its
  presence is kept.
\<close>

definition oaes_set_option :: "oaes_ctx option \<Rightarrow> OAES_OPTION \<Rightarrow> u8 list option \<Rightarrow> OAES_RET \<times> oaes_ctx option" where
  "oaes_set_option ctxp opt value =
     (case ctxp of None \<Rightarrow> (OAES_RET_ARG1, None)
      | Some ctx \<Rightarrow>
        let done = (\<lambda>ctx. (OAES_RET_SUCCESS, Some (ctx\<lparr>ctx_options := ctx_options ctx OR opt\<rparr>)))
        in if opt = OAES_OPTION_ECB
           then done (ctx\<lparr>ctx_options := ctx_options ctx AND NOT OAES_OPTION_CBC, ctx_iv := replicate OAES_BLOCK_SIZE 0\<rparr>)
           else if opt = OAES_OPTION_CBC
           then let ctx = ctx\<lparr>ctx_options := ctx_options ctx AND NOT OAES_OPTION_ECB\<rparr>
                in case value of Some v \<Rightarrow> done (ctx\<lparr>ctx_iv := take OAES_BLOCK_SIZE v\<rparr>)
                   | None \<Rightarrow> let (bs, r) = rand_bytes OAES_BLOCK_SIZE (ctx_rctx ctx)
                             in done (ctx\<lparr>ctx_iv := bs, ctx_rctx := r\<rparr>)
           else if opt = OAES_OPTION_STEP_ON
           then case value of Some _ \<Rightarrow>
                  done (ctx\<lparr>ctx_options := ctx_options ctx AND NOT OAES_OPTION_STEP_OFF, ctx_step_cb := True\<rparr>)
                | None \<Rightarrow>
                  (OAES_RET_ARG3, Some (ctx\<lparr>ctx_options :=
                     ctx_options ctx AND NOT OAES_OPTION_STEP_ON OR OAES_OPTION_STEP_OFF, ctx_step_cb := False\<rparr>))
           else if opt = OAES_OPTION_STEP_OFF
           then done (ctx\<lparr>ctx_options := ctx_options ctx AND NOT OAES_OPTION_STEP_ON, ctx_step_cb := False\<rparr>)
           else (OAES_RET_ARG2, Some ctx))"

text \<open>
  \<open>seed\<close> is the buffer \<open>_seed\<close> as \<open>oaes_get_seed\<close> leaves it; its first \<open>RANDSIZ\<close> bytes are copied over the
  first words of \<open>randrsl\<close>, little-endian.
\<close>

fun le_words :: "u8 list \<Rightarrow> u32 list" where
  "le_words (a # b # c # d # bs) = be32 d c b a # le_words bs"
| "le_words _ = []"

definition seeded :: "u8 list \<Rightarrow> randctx" where
  "seeded seed =
     (let ws = le_words (take RANDSIZ seed)
      in \<lparr>randcnt = 0, randrsl = ws @ replicate (RANDSIZ - length ws) 0, randmem = replicate RANDSIZ 0,
          randa = 0, randb = 0, randc = 0\<rparr>)"

definition oaes_alloc :: "(nat \<Rightarrow> bool) \<Rightarrow> u8 list \<Rightarrow> oaes_ctx option" where
  "oaes_alloc mem seed =
     (if \<not> mem 0 \<or> \<not> mem 1 then None
      else let ctx = \<lparr>ctx_rctx = randinit (seeded seed) True, ctx_step_cb = False, ctx_key = None,
                      ctx_options = 0, ctx_iv = replicate OAES_BLOCK_SIZE 0, ctx_steps = []\<rparr>;
               ctxp = snd (oaes_set_option (Some ctx) OAES_OPTION_CBC None);
               ctxp = map_option (\<lambda>c. c\<lparr>ctx_step_cb := False\<rparr>) ctxp
           in snd (oaes_set_option ctxp OAES_OPTION_STEP_OFF None))"

definition oaes_free :: "oaes_ctx option option \<Rightarrow> OAES_RET \<times> oaes_ctx option option" where
  "oaes_free ctxpp =
     (case ctxpp of None \<Rightarrow> (OAES_RET_ARG1, None) | Some _ \<Rightarrow> (OAES_RET_SUCCESS, Some None))"

section \<open>Blocks\<close>

definition step_cb :: "u8 list \<Rightarrow> string \<Rightarrow> nat \<Rightarrow> oaes_ctx \<Rightarrow> oaes_ctx" where
  "step_cb state name i ctx =
     (if ctx_step_cb ctx then ctx\<lparr>ctx_steps := ctx_steps ctx @ [(state, name, i)]\<rparr> else ctx)"

text \<open>Round key \<open>i\<close> and its addition.\<close>

definition round_key :: "oaes_key \<Rightarrow> nat \<Rightarrow> u8 list" where
  "round_key key i = take 16 (drop (i * OAES_RKEY_LEN * OAES_COL_LEN) (exp_data key))"

definition add_round_key :: "oaes_key \<Rightarrow> nat \<Rightarrow> u8 list \<Rightarrow> u8 list" where
  "add_round_key key i c = map2 (XOR) c (round_key key i)"

definition encrypt_round :: "oaes_key \<Rightarrow> oaes_ctx \<times> u8 list \<Rightarrow> nat \<Rightarrow> oaes_ctx \<times> u8 list" where
  "encrypt_round key = (\<lambda>(ctx, c) i.
     let c = map oaes_sub_byte c; ctx = step_cb c ''s_box'' i ctx;
         c = oaes_shift_rows c; ctx = step_cb c ''s_row'' i ctx;
         c = on_columns oaes_mix_cols c; ctx = step_cb c ''m_col'' i ctx;
         c = add_round_key key i c;
         ctx = step_cb c ''k_add'' i (step_cb (round_key key i) ''k_sch'' i ctx)
     in (ctx, c))"

definition oaes_encrypt_block ::
  "oaes_ctx option \<Rightarrow> u8 list option \<Rightarrow> nat \<Rightarrow> OAES_RET \<times> oaes_ctx option \<times> u8 list option" where
  "oaes_encrypt_block ctxp cp c_len =
     (case ctxp of None \<Rightarrow> (OAES_RET_ARG1, ctxp, cp)
      | Some ctx \<Rightarrow> case cp of None \<Rightarrow> (OAES_RET_ARG2, ctxp, cp)
      | Some c \<Rightarrow> if c_len \<noteq> OAES_BLOCK_SIZE then (OAES_RET_ARG3, ctxp, cp)
      else case ctx_key ctx of None \<Rightarrow> (OAES_RET_NOKEY, ctxp, cp)
      | Some key \<Rightarrow>
        let n = num_keys key;
            ctx = step_cb c ''input'' 1 ctx;
            c = add_round_key key 0 c;
            ctx = step_cb c ''k_add'' 1 (step_cb (round_key key 0) ''k_sch'' 1 ctx);
            (ctx, c) = foldl (encrypt_round key) (ctx, c) [1..<n - 1];
            c = map oaes_sub_byte c; ctx = step_cb c ''s_box'' (n - 1) ctx;
            c = oaes_shift_rows c; ctx = step_cb c ''s_row'' (n - 1) ctx;
            c = add_round_key key (n - 1) c;
            ctx = step_cb c ''output'' (n - 1) (step_cb (round_key key (n - 1)) ''k_sch'' (n - 1) ctx)
        in (OAES_RET_SUCCESS, Some ctx, Some c))"

definition decrypt_round :: "oaes_key \<Rightarrow> oaes_ctx \<times> u8 list \<Rightarrow> nat \<Rightarrow> oaes_ctx \<times> u8 list" where
  "decrypt_round key = (\<lambda>(ctx, c) i.
     let c = oaes_inv_shift_rows c; ctx = step_cb c ''is_row'' i ctx;
         c = map oaes_inv_sub_byte c; ctx = step_cb c ''is_box'' i ctx;
         c = add_round_key key i c;
         ctx = step_cb c ''ik_add'' i (step_cb (round_key key i) ''ik_sch'' i ctx);
         c = on_columns oaes_inv_mix_cols c; ctx = step_cb c ''im_col'' i ctx
     in (ctx, c))"

definition oaes_decrypt_block ::
  "oaes_ctx option \<Rightarrow> u8 list option \<Rightarrow> nat \<Rightarrow> OAES_RET \<times> oaes_ctx option \<times> u8 list option" where
  "oaes_decrypt_block ctxp cp c_len =
     (case ctxp of None \<Rightarrow> (OAES_RET_ARG1, ctxp, cp)
      | Some ctx \<Rightarrow> case cp of None \<Rightarrow> (OAES_RET_ARG2, ctxp, cp)
      | Some c \<Rightarrow> if c_len \<noteq> OAES_BLOCK_SIZE then (OAES_RET_ARG3, ctxp, cp)
      else case ctx_key ctx of None \<Rightarrow> (OAES_RET_NOKEY, ctxp, cp)
      | Some key \<Rightarrow>
        let n = num_keys key;
            ctx = step_cb c ''iinput'' (n - 1) ctx;
            c = add_round_key key (n - 1) c;
            ctx = step_cb c ''ik_add'' (n - 1) (step_cb (round_key key (n - 1)) ''ik_sch'' (n - 1) ctx);
            (ctx, c) = foldl (decrypt_round key) (ctx, c) (rev [1..<n - 1]);
            c = oaes_inv_shift_rows c; ctx = step_cb c ''is_row'' 1 ctx;
            c = map oaes_inv_sub_byte c; ctx = step_cb c ''is_box'' 1 ctx;
            c = add_round_key key 0 c;
            ctx = step_cb c ''ioutput'' 1 (step_cb (round_key key 0) ''ik_sch'' 1 ctx)
        in (OAES_RET_SUCCESS, Some ctx, Some c))"

section \<open>Messages\<close>

definition le16_bytes :: "16 word \<Rightarrow> u8 list" where
  "le16_bytes w = [ucast w, ucast (drop_bit 8 w)]"

definition le16 :: "u8 list \<Rightarrow> 16 word" where
  "le16 bs = ucast (bs ! 0) OR push_bit 8 (ucast (bs ! 1))"

definition pad_length :: "nat \<Rightarrow> nat" where
  "pad_length m_len =
     (if m_len mod OAES_BLOCK_SIZE = 0 then 0 else OAES_BLOCK_SIZE - m_len mod OAES_BLOCK_SIZE)"

text \<open>The offsets \<open>0, 16, \<dots>\<close> below \<open>len\<close> that \<open>for( _i = 0; _i < len; _i += OAES_BLOCK_SIZE )\<close> visits.\<close>

definition block_offsets :: "nat \<Rightarrow> nat list" where
  "block_offsets len = map (\<lambda>k. OAES_BLOCK_SIZE * k) [0..<(len + OAES_BLOCK_SIZE - 1) div OAES_BLOCK_SIZE]"

type_synonym enc_state = "OAES_RET \<times> oaes_ctx \<times> u8 list"

definition encrypt_step :: "nat \<Rightarrow> nat \<Rightarrow> enc_state \<Rightarrow> enc_state option" where
  "encrypt_step m_len i = (\<lambda>(rc, ctx, c).
     let block_size = min (m_len - i) OAES_BLOCK_SIZE;
         cbc = (ctx_options ctx AND OAES_OPTION_CBC \<noteq> 0)
     in do {
       block \<leftarrow> load c (2 * OAES_BLOCK_SIZE + i) block_size;
       let block = block @ map (\<lambda>j. of_nat (j + 1)) [0..<OAES_BLOCK_SIZE - block_size];
       let block = (if cbc then map2 (XOR) block (ctx_iv ctx) else block);
       let (r, ctxp, bp) = (if rc = OAES_RET_SUCCESS then oaes_encrypt_block (Some ctx) (Some block) OAES_BLOCK_SIZE
                            else (OAES_RET_SUCCESS, Some ctx, Some block));
       ctx \<leftarrow> ctxp;
       block \<leftarrow> bp;
       c \<leftarrow> store c (2 * OAES_BLOCK_SIZE + i) block;
       Some (rc_or rc r, if cbc then ctx\<lparr>ctx_iv := block\<rparr> else ctx, c)
     })"

fun encrypt_loop :: "nat \<Rightarrow> nat list \<Rightarrow> enc_state \<Rightarrow> enc_state option" where
  "encrypt_loop m_len [] s = Some s"
| "encrypt_loop m_len (i # is) s = do { s \<leftarrow> encrypt_step m_len i s; encrypt_loop m_len is s }"

type_synonym msg_result = "(OAES_RET \<times> oaes_ctx option \<times> u8 list option \<times> nat option) option"

definition encrypt_body :: "oaes_ctx \<Rightarrow> u8 list \<Rightarrow> nat \<Rightarrow> u8 list \<Rightarrow> enc_state option" where
  "encrypt_body ctx m m_len c =
     (let pad_len = pad_length m_len;
          flags = (if pad_len \<noteq> 0 then OAES_FLAG_PAD else 0)
      in do {
        c \<leftarrow> store c 0 oaes_header;
        c \<leftarrow> store c 6 (le16_bytes (ctx_options ctx));
        c \<leftarrow> store c 8 [flags];
        c \<leftarrow> store c OAES_BLOCK_SIZE (ctx_iv ctx);
        bs \<leftarrow> load m 0 m_len;
        c \<leftarrow> store c (2 * OAES_BLOCK_SIZE) bs;
        encrypt_loop m_len (block_offsets (size_t (m_len + pad_len))) (OAES_RET_SUCCESS, ctx, c)
      })"

definition oaes_encrypt ::
  "oaes_ctx option \<Rightarrow> u8 list option \<Rightarrow> nat \<Rightarrow> u8 list option \<Rightarrow> nat option \<Rightarrow> msg_result" where
  "oaes_encrypt ctxp mp m_len cp c_len =
     (case ctxp of None \<Rightarrow> Some (OAES_RET_ARG1, ctxp, cp, c_len)
      | Some ctx \<Rightarrow> case mp of None \<Rightarrow> Some (OAES_RET_ARG2, ctxp, cp, c_len)
      | Some m \<Rightarrow> case c_len of None \<Rightarrow> Some (OAES_RET_ARG5, ctxp, cp, c_len)
      | Some c_len_in \<Rightarrow>
        let len = size_t (2 * OAES_BLOCK_SIZE + m_len + pad_length m_len) in
        case cp of None \<Rightarrow> Some (OAES_RET_SUCCESS, ctxp, None, Some len)
        | Some c \<Rightarrow>
          if c_len_in < len then Some (OAES_RET_BUF, ctxp, cp, Some len)
          else if ctx_key ctx = None then Some (OAES_RET_NOKEY, ctxp, cp, Some len)
          else do {
            (rc, ctx, c) \<leftarrow> encrypt_body ctx m m_len c;
            Some (rc, Some ctx, Some c, Some len)
          })"

text \<open>The tests of the message header; \<open>Inl\<close> the error, \<open>Inr\<close> the options and the flags.\<close>

definition decrypt_header :: "u8 list \<Rightarrow> (OAES_RET + OAES_OPTION \<times> u8) option" where
  "decrypt_header c = do {
     magic \<leftarrow> load c 0 4;
     if magic \<noteq> take 4 oaes_header then Some (Inl OAES_RET_HEADER)
     else do {
       version \<leftarrow> load c 4 1;
       if version \<noteq> [0x01] then Some (Inl OAES_RET_HEADER)
       else do {
         kind \<leftarrow> load c 5 1;
         if kind \<noteq> [0x02] then Some (Inl OAES_RET_HEADER)
         else do {
           ob \<leftarrow> load c 6 2;
           let opts = le16 ob;
           if opts AND NOT (OAES_OPTION_ECB OR OAES_OPTION_CBC OR OAES_OPTION_STEP_ON OR OAES_OPTION_STEP_OFF) \<noteq> 0
           then Some (Inl OAES_RET_HEADER)
           else if opts AND OAES_OPTION_ECB \<noteq> 0 \<and> opts AND OAES_OPTION_CBC \<noteq> 0 then Some (Inl OAES_RET_HEADER)
           else if opts = OAES_OPTION_NONE then Some (Inl OAES_RET_HEADER)
           else do {
             fb \<leftarrow> load c 8 1;
             if fb ! 0 AND NOT OAES_FLAG_PAD \<noteq> 0 then Some (Inl OAES_RET_HEADER)
             else Some (Inr (opts, fb ! 0))
           }
         }
       }
     }
   }"

text \<open>State of the decryption loop: \<open>_rc\<close>, the context, \<open>_iv\<close> and the output array.\<close>

type_synonym dec_state = "OAES_RET \<times> oaes_ctx \<times> u8 list \<times> u8 list"

definition decrypt_step :: "OAES_OPTION \<Rightarrow> u8 list \<Rightarrow> nat \<Rightarrow> nat \<Rightarrow> dec_state \<Rightarrow> dec_state option" where
  "decrypt_step opts c m_len i = (\<lambda>(rc, ctx, iv, m).
     let n = min (m_len - i) OAES_BLOCK_SIZE;
         cbc = (opts AND OAES_OPTION_CBC \<noteq> 0)
     in do {
       iv \<leftarrow> (if cbc \<and> i > 0 then load c (OAES_BLOCK_SIZE + i) OAES_BLOCK_SIZE else Some iv);
       block \<leftarrow> load m i n;
       let (r, ctxp, bp) = (if rc = OAES_RET_SUCCESS then oaes_decrypt_block (Some ctx) (Some block) n
                            else (OAES_RET_SUCCESS, Some ctx, Some block));
       ctx \<leftarrow> ctxp;
       block \<leftarrow> bp;
       m \<leftarrow> store m i block;
       m \<leftarrow> (if cbc then do { b \<leftarrow> load m i OAES_BLOCK_SIZE; store m i (map2 (XOR) b iv) } else Some m);
       Some (rc_or rc r, ctx, iv, m)
     })"

fun decrypt_loop :: "OAES_OPTION \<Rightarrow> u8 list \<Rightarrow> nat \<Rightarrow> nat list \<Rightarrow> dec_state \<Rightarrow> dec_state option" where
  "decrypt_loop opts c m_len [] s = Some s"
| "decrypt_loop opts c m_len (i # is) s =
     do { s \<leftarrow> decrypt_step opts c m_len i s; decrypt_loop opts c m_len is s }"

text \<open>The bytes \<open>m[*m_len - 1 - _i]\<close> for \<open>_i = 0, \<dots>, temp - 1\<close> are \<open>temp, \<dots>, 1\<close>.\<close>

definition is_pad :: "u8 list \<Rightarrow> nat \<Rightarrow> nat \<Rightarrow> bool" where
  "is_pad m m_len temp = list_all (\<lambda>i. unat (m ! (m_len - 1 - i)) = temp - i) [0..<temp]"

definition remove_pad :: "u8 list \<Rightarrow> nat \<Rightarrow> (OAES_RET \<times> u8 list \<times> nat) option" where
  "remove_pad m m_len = do {
     tb \<leftarrow> load m (size_sub m_len 1) 1;
     let temp = unat (tb ! 0);
     if temp = 0 \<or> temp > 0x0f then Some (OAES_RET_HEADER, m, m_len)
     else if is_pad m m_len temp
     then do { m \<leftarrow> store m (m_len - temp) (replicate temp 0); Some (OAES_RET_SUCCESS, m, m_len - temp) }
     else Some (OAES_RET_HEADER, m, m_len)
   }"

definition oaes_decrypt ::
  "oaes_ctx option \<Rightarrow> u8 list option \<Rightarrow> u8 list option \<Rightarrow> nat option \<Rightarrow> msg_result" where
  "oaes_decrypt ctxp cp mp m_len =
     (case ctxp of None \<Rightarrow> Some (OAES_RET_ARG1, ctxp, mp, m_len)
      | Some ctx \<Rightarrow> case cp of None \<Rightarrow> Some (OAES_RET_ARG2, ctxp, mp, m_len)
      | Some c \<Rightarrow> if length c mod OAES_BLOCK_SIZE \<noteq> 0 then Some (OAES_RET_ARG3, ctxp, mp, m_len)
      else case m_len of None \<Rightarrow> Some (OAES_RET_ARG5, ctxp, mp, m_len)
      | Some m_len_in \<Rightarrow>
        let len = size_sub (length c) (2 * OAES_BLOCK_SIZE) in
        case mp of None \<Rightarrow> Some (OAES_RET_SUCCESS, ctxp, None, Some len)
        | Some m \<Rightarrow>
          if m_len_in < len then Some (OAES_RET_BUF, ctxp, mp, Some len)
          else if ctx_key ctx = None then Some (OAES_RET_NOKEY, ctxp, mp, Some len)
          else do {
            h \<leftarrow> decrypt_header c;
            case h of Inl e \<Rightarrow> Some (e, ctxp, mp, Some len)
            | Inr (opts, flags) \<Rightarrow> do {
                iv \<leftarrow> load c OAES_BLOCK_SIZE OAES_BLOCK_SIZE;
                bs \<leftarrow> load c (2 * OAES_BLOCK_SIZE) len;
                m \<leftarrow> store m 0 bs;
                (rc, ctx, iv, m) \<leftarrow> decrypt_loop opts c len (block_offsets len) (OAES_RET_SUCCESS, ctx, iv, m);
                if flags AND OAES_FLAG_PAD \<noteq> 0
                then do { (r, m, len) \<leftarrow> remove_pad m len; Some (r, Some ctx, Some m, Some len) }
                else Some (OAES_RET_SUCCESS, Some ctx, Some m, Some len)
              }
          })"

end
