(* ===== verification/Block_Chain.thy ===== *)
theory Block_Chain
  imports Prelude
begin

text \<open>
  The modes of operation of a block cipher, independent of the cipher: \<open>chain\<close> enciphers the blocks of a
  message one by one (ECB) or each mixed with the block before it (CBC), \<open>unchain\<close> takes them back. The
  locale \<open>block_cipher\<close> is what a cipher on blocks of 16 bytes promises the modes.
\<close>

fun chain :: "(u8 list \<Rightarrow> u8 list) \<Rightarrow> bool \<Rightarrow> u8 list \<Rightarrow> u8 list list \<Rightarrow> u8 list list" where
  "chain E cbc iv [] = []"
| "chain E cbc iv (b # bs) = (let e = E (if cbc then map2 (XOR) b iv else b) in e # chain E cbc e bs)"

fun unchain :: "(u8 list \<Rightarrow> u8 list) \<Rightarrow> bool \<Rightarrow> u8 list \<Rightarrow> u8 list list \<Rightarrow> u8 list list" where
  "unchain D cbc iv [] = []"
| "unchain D cbc iv (c # cs) = (let d = D c in (if cbc then map2 (XOR) d iv else d) # unchain D cbc c cs)"

lemma length_chain [simp]: "length (chain E cbc iv bs) = length bs"
  by (induction bs arbitrary: iv) (simp_all add: Let_def)

lemma length_unchain [simp]: "length (unchain D cbc iv cs) = length cs"
  by (induction cs arbitrary: iv) (simp_all add: Let_def)

lemma map2_xor_twice: "length c = length k \<Longrightarrow> map2 (XOR) (map2 (XOR) c k) k = (c :: u8 list)"
  by (induction c k rule: list_induct2) (simp_all add: xor.assoc)

locale block_cipher =
  fixes key_ok :: "'k \<Rightarrow> bool" and E D :: "'k \<Rightarrow> u8 list \<Rightarrow> u8 list"
  assumes length_E: "key_ok k \<Longrightarrow> length b = 16 \<Longrightarrow> length (E k b) = 16"
    and D_E: "key_ok k \<Longrightarrow> length b = 16 \<Longrightarrow> D k (E k b) = b"
begin

lemma length_E_mixed:
  "key_ok k \<Longrightarrow> length b = 16 \<Longrightarrow> length iv = 16 \<Longrightarrow> length (E k (if cbc then map2 (XOR) b iv else b)) = 16"
  by (rule length_E) simp_all

lemma chain_16:
  "key_ok k \<Longrightarrow> \<forall>b\<in>set bs. length b = 16 \<Longrightarrow> length iv = 16 \<Longrightarrow> \<forall>c\<in>set (chain (E k) cbc iv bs). length c = 16"
proof (induction bs arbitrary: iv)
  case (Cons b bs)
  have b: "length b = 16" "\<forall>b\<in>set bs. length b = 16" using Cons.prems(2) by (metis list.set_intros)+
  note e = length_E_mixed[OF Cons.prems(1) b(1) Cons.prems(3), of cbc]
  show ?case
    unfolding chain.simps Let_def list.set ball_simps(7)
    using e Cons.IH[OF Cons.prems(1) b(2) e] by (rule conjI)
qed simp

lemma unchain_chain:
  "key_ok k \<Longrightarrow> \<forall>b\<in>set bs. length b = 16 \<Longrightarrow> length iv = 16 \<Longrightarrow> unchain (D k) cbc iv (chain (E k) cbc iv bs) = bs"
  by (induction bs arbitrary: iv) (simp_all add: Let_def D_E length_E map2_xor_twice)

end

end
