(* ===== verification/Oaes_Block.thy ===== *)
theory Oaes_Block
  imports Oaes Block_Chain
begin

text \<open>
  The block cipher of OpenAES. The multiplication tables are multiplication in \<open>GF(2\<^sup>8)\<close> modulo
  \<open>x\<^sup>8 + x\<^sup>4 + x\<^sup>3 + x + 1\<close>, the substitution box is the affine image of the inverse in that field, the
  inverse steps undo the forward ones, and decrypting a block undoes encrypting it for every expanded key,
  which is what the modes of operation ask of a block cipher.
\<close>

section \<open>Tables as functions\<close>

definition tabulate :: "(u8 \<Rightarrow> u8) \<Rightarrow> table" where
  "tabulate f = map (\<lambda>y. map (\<lambda>x. f (of_nat (16 * y + x))) [0..<16]) [0..<16]"

lemma u8_less_256: "unat (b :: u8) < 256"
  using unsigned_less[of b, where ?'a = nat] by simp

text \<open>The two nibbles index the row and the column.\<close>

lemma lookup_table_index: "lookup_table t b = t ! (unat b div 16) ! (unat b mod 16)"
proof -
  have low: "b AND 0x0f = take_bit 4 b" by (simp add: take_bit_eq_mask mask_eq_exp_minus_1)
  have m: "(0x0f :: u8) = mask 4" by (simp add: mask_eq_exp_minus_1)
  have high: "drop_bit 4 (b AND 0xf0) = drop_bit 4 b"
  proof (rule bit_word_eqI)
    fix n assume "n < LENGTH(8)"
    have "drop_bit 4 (b AND 0xf0) = drop_bit 4 b AND 0x0f" by simp
    then show "bit (drop_bit 4 (b AND 0xf0)) n = bit (drop_bit 4 b) n"
      unfolding m by (auto simp: bit_simps dest: bit_imp_le_length)
  qed
  have "unat (drop_bit 4 b) = unat b div 16" "unat (take_bit 4 b) = unat b mod 16"
    by (simp_all add: drop_bit_eq_div take_bit_eq_mod unat_div unat_mod)
  then show ?thesis by (simp only: lookup_table_def low high)
qed

lemma lookup_tabulate [simp]: "lookup_table (tabulate f) b = f b"
proof -
  have "unat b div 16 < 16" using u8_less_256[of b] by simp
  moreover have "of_nat (16 * (unat b div 16) + unat b mod 16) = b" by (simp only: mult_div_mod_eq) simp
  ultimately show ?thesis
    by (simp add: lookup_table_index tabulate_def del: upt_rec_numeral of_nat_add of_nat_mult)
qed

section \<open>The field\<close>

text \<open>Multiplication by \<open>x\<close>, and the product by Horner's rule over the bits of the second factor.\<close>

definition xtime :: "u8 \<Rightarrow> u8" where
  "xtime b = push_bit 1 b XOR (if bit b 7 then 0x1b else 0)"

definition gf_times :: "u8 \<Rightarrow> u8 \<Rightarrow> u8" where
  "gf_times a b = foldl (\<lambda>acc i. xtime acc XOR (if bit b i then a else 0)) 0 [7, 6, 5, 4, 3, 2, 1, 0]"

lemma xtime_0 [simp]: "xtime 0 = 0"
  by (simp add: xtime_def)

lemma xtime_xor: "xtime (a XOR b) = xtime a XOR xtime b"
  by (simp add: xtime_def bit_xor_iff push_bit_xor ac_simps)

lemma xor_cancel: "(a :: 'a :: semiring_bit_operations) XOR (a XOR b) = b"
  by (simp flip: xor.assoc)

lemmas xor_ring = xtime_xor xor.assoc xor.commute xor.left_commute xor_cancel

lemma gf_table_2: "oaes_gf_mul_2 = tabulate xtime"
  by code_simp

lemma gf_table_3: "oaes_gf_mul_3 = tabulate (\<lambda>b. xtime b XOR b)"
  by code_simp

lemma gf_table_9: "oaes_gf_mul_9 = tabulate (\<lambda>b. xtime (xtime (xtime b)) XOR b)"
  by code_simp

lemma gf_table_b: "oaes_gf_mul_b = tabulate (\<lambda>b. xtime (xtime (xtime b) XOR b) XOR b)"
  by code_simp

lemma gf_table_d: "oaes_gf_mul_d = tabulate (\<lambda>b. xtime (xtime (xtime b XOR b)) XOR b)"
  by code_simp

lemma gf_table_e: "oaes_gf_mul_e = tabulate (\<lambda>b. xtime (xtime (xtime b XOR b) XOR b))"
  by code_simp

lemmas gf_tables = gf_table_2 gf_table_3 gf_table_9 gf_table_b gf_table_d gf_table_e

lemma oaes_gf_mul_xtime:
  "oaes_gf_mul a 2 = xtime a"
  "oaes_gf_mul a 3 = xtime a XOR a"
  "oaes_gf_mul a 9 = xtime (xtime (xtime a)) XOR a"
  "oaes_gf_mul a 11 = xtime (xtime (xtime a) XOR a) XOR a"
  "oaes_gf_mul a 13 = xtime (xtime (xtime a XOR a)) XOR a"
  "oaes_gf_mul a 14 = xtime (xtime (xtime a XOR a) XOR a)"
  by (simp_all add: oaes_gf_mul_def gf_tables)

lemma gf_times_factor:
  "gf_times a 1 = a"
  "gf_times a 2 = xtime a"
  "gf_times a 3 = xtime a XOR a"
  "gf_times a 9 = xtime (xtime (xtime a)) XOR a"
  "gf_times a 11 = xtime (xtime (xtime a) XOR a) XOR a"
  "gf_times a 13 = xtime (xtime (xtime a XOR a)) XOR a"
  "gf_times a 14 = xtime (xtime (xtime a XOR a) XOR a)"
  by (simp_all add: gf_times_def)

text \<open>
  For every factor the cipher uses, \<open>oaes_gf_mul\<close> is the product in \<open>GF(2\<^sup>8)\<close>.
\<close>

lemma oaes_gf_mul_correct:
  assumes "r \<in> {1, 2, 3, 9, 11, 13, 14}"
  shows "oaes_gf_mul a r = gf_times a r"
proof -
  have "oaes_gf_mul a 1 = a" by (simp add: oaes_gf_mul_def)
  with assms show ?thesis
    by (elim insertE emptyE; simp only: oaes_gf_mul_xtime gf_times_factor)
qed

theorem oaes_gf_mul_witness: "oaes_gf_mul 0x57 14 = gf_times 0x57 14 \<and> gf_times 0x57 14 = 0x67"
proof
  show "oaes_gf_mul 0x57 14 = gf_times 0x57 14" by (rule oaes_gf_mul_correct) simp
  show "gf_times 0x57 14 = 0x67" by (simp add: gf_times_def xtime_def)
qed

section \<open>The substitution box\<close>

definition affine :: "u8 \<Rightarrow> u8" where
  "affine i = i XOR word_rotl 1 i XOR word_rotl 2 i XOR word_rotl 3 i XOR word_rotl 4 i XOR 0x63"

text \<open>The inverses in the field, zero going to zero.\<close>

definition gf_inverses :: table where
  "gf_inverses = [
    [0x00, 0x01, 0x8d, 0xf6, 0xcb, 0x52, 0x7b, 0xd1, 0xe8, 0x4f, 0x29, 0xc0, 0xb0, 0xe1, 0xe5, 0xc7],
    [0x74, 0xb4, 0xaa, 0x4b, 0x99, 0x2b, 0x60, 0x5f, 0x58, 0x3f, 0xfd, 0xcc, 0xff, 0x40, 0xee, 0xb2],
    [0x3a, 0x6e, 0x5a, 0xf1, 0x55, 0x4d, 0xa8, 0xc9, 0xc1, 0x0a, 0x98, 0x15, 0x30, 0x44, 0xa2, 0xc2],
    [0x2c, 0x45, 0x92, 0x6c, 0xf3, 0x39, 0x66, 0x42, 0xf2, 0x35, 0x20, 0x6f, 0x77, 0xbb, 0x59, 0x19],
    [0x1d, 0xfe, 0x37, 0x67, 0x2d, 0x31, 0xf5, 0x69, 0xa7, 0x64, 0xab, 0x13, 0x54, 0x25, 0xe9, 0x09],
    [0xed, 0x5c, 0x05, 0xca, 0x4c, 0x24, 0x87, 0xbf, 0x18, 0x3e, 0x22, 0xf0, 0x51, 0xec, 0x61, 0x17],
    [0x16, 0x5e, 0xaf, 0xd3, 0x49, 0xa6, 0x36, 0x43, 0xf4, 0x47, 0x91, 0xdf, 0x33, 0x93, 0x21, 0x3b],
    [0x79, 0xb7, 0x97, 0x85, 0x10, 0xb5, 0xba, 0x3c, 0xb6, 0x70, 0xd0, 0x06, 0xa1, 0xfa, 0x81, 0x82],
    [0x83, 0x7e, 0x7f, 0x80, 0x96, 0x73, 0xbe, 0x56, 0x9b, 0x9e, 0x95, 0xd9, 0xf7, 0x02, 0xb9, 0xa4],
    [0xde, 0x6a, 0x32, 0x6d, 0xd8, 0x8a, 0x84, 0x72, 0x2a, 0x14, 0x9f, 0x88, 0xf9, 0xdc, 0x89, 0x9a],
    [0xfb, 0x7c, 0x2e, 0xc3, 0x8f, 0xb8, 0x65, 0x48, 0x26, 0xc8, 0x12, 0x4a, 0xce, 0xe7, 0xd2, 0x62],
    [0x0c, 0xe0, 0x1f, 0xef, 0x11, 0x75, 0x78, 0x71, 0xa5, 0x8e, 0x76, 0x3d, 0xbd, 0xbc, 0x86, 0x57],
    [0x0b, 0x28, 0x2f, 0xa3, 0xda, 0xd4, 0xe4, 0x0f, 0xa9, 0x27, 0x53, 0x04, 0x1b, 0xfc, 0xac, 0xe6],
    [0x7a, 0x07, 0xae, 0x63, 0xc5, 0xdb, 0xe2, 0xea, 0x94, 0x8b, 0xc4, 0xd5, 0x9d, 0xf8, 0x90, 0x6b],
    [0xb1, 0x0d, 0xd6, 0xeb, 0xc6, 0x0e, 0xcf, 0xad, 0x08, 0x4e, 0xd7, 0xe3, 0x5d, 0x50, 0x1e, 0xb3],
    [0x5b, 0x23, 0x38, 0x34, 0x68, 0x46, 0x03, 0x8c, 0xdd, 0x9c, 0x7d, 0xa0, 0xcd, 0x1a, 0x41, 0x1c]]"

lemma gf_inverses_correct:
  "map (map (\<lambda>(b, i). gf_times b i)) (map2 zip (tabulate (\<lambda>b. b)) gf_inverses)
     = tabulate (\<lambda>b. if b = 0 then 0 else 1)"
  by code_simp

lemma sub_byte_affine: "oaes_sub_byte_value = map (map affine) gf_inverses"
  by code_simp

lemma inv_sub_byte_table: "map (map oaes_sub_byte) oaes_inv_sub_byte_value = tabulate (\<lambda>b. b)"
  by code_simp

definition square :: "'a list list \<Rightarrow> bool" where
  "square t \<longleftrightarrow> length t = 16 \<and> list_all (\<lambda>row. length row = 16) t"

lemma square_row: "square t \<Longrightarrow> length (t ! (unat (b :: u8) div 16)) = 16"
  using u8_less_256[of b] by (simp add: square_def list_all_length)

lemma square_tables: "square (tabulate f)" "square gf_inverses" "square oaes_inv_sub_byte_value"
  by (simp_all add: square_def tabulate_def gf_inverses_def oaes_inv_sub_byte_value_def list_all_iff
      del: upt_rec_numeral)

lemma lookup_map: "square t \<Longrightarrow> lookup_table (map (map f) t) b = f (lookup_table t b)"
  using square_row[of t b] u8_less_256[of b] by (simp add: lookup_table_index square_def)

lemma lookup_zip:
  "square t \<Longrightarrow> square u \<Longrightarrow>
     map (map f) (map2 zip t u) ! (unat b div 16) ! (unat b mod 16) = f (lookup_table t b, lookup_table u b)"
  using square_row[of t b] square_row[of u b] u8_less_256[of b] by (simp add: lookup_table_index square_def)

lemma gf_inverse_lookup: "gf_times b (lookup_table gf_inverses b) = (if b = 0 then 0 else 1)"
proof -
  have "(\<lambda>(b, i). gf_times b i) (lookup_table (tabulate (\<lambda>b. b)) b, lookup_table gf_inverses b)
    = lookup_table (tabulate (\<lambda>b. if b = 0 then 0 else 1)) b"
    by (subst lookup_zip[OF square_tables(1,2), symmetric])
      (simp only: gf_inverses_correct lookup_table_index)
  then show ?thesis by simp
qed

text \<open>
  The substitution box is the one of FIPS 197: the affine image of the multiplicative inverse, zero
  being its own inverse.
\<close>

lemma oaes_sub_byte_correct:
  "\<exists>i. oaes_sub_byte b = affine i \<and> gf_times b i = (if b = 0 then 0 else 1)"
  using gf_inverse_lookup[of b]
  by (auto simp: oaes_sub_byte_def sub_byte_affine lookup_map square_tables)

lemma sub_inv_byte: "oaes_sub_byte (oaes_inv_sub_byte b) = b"
  using lookup_map[OF square_tables(3), of oaes_sub_byte b]
  by (simp add: inv_sub_byte_table oaes_inv_sub_byte_def)

lemma inv_sub_byte [simp]: "oaes_inv_sub_byte (oaes_sub_byte b) = b"
proof -
  have "surj oaes_sub_byte" by (rule surjI) (rule sub_inv_byte)
  then have "inj oaes_sub_byte" by (simp add: finite_UNIV_surj_inj)
  then show ?thesis by (rule injD) (rule sub_inv_byte)
qed

section \<open>Rows and columns\<close>

lemma length_16E:
  assumes "length b = 16"
  obtains b0 b1 b2 b3 b4 b5 b6 b7 b8 b9 ba bb bc bd be bf
    where "b = [b0, b1, b2, b3, b4, b5, b6, b7, b8, b9, ba, bb, bc, bd, be, bf]"
  using assms by (auto simp: numeral_eq_Suc length_Suc_conv)

lemma length_shift_rows [simp]: "length (oaes_shift_rows b) = 16" "length (oaes_inv_shift_rows b) = 16"
  by (simp_all add: oaes_shift_rows_def oaes_inv_shift_rows_def)

lemma inv_shift_rows [simp]: "length b = 16 \<Longrightarrow> oaes_inv_shift_rows (oaes_shift_rows b) = b"
  by (erule length_16E) (simp add: oaes_shift_rows_def oaes_inv_shift_rows_def)

lemma inv_mix_cols [simp]:
  assumes "length w = 4"
  shows "oaes_inv_mix_cols (oaes_mix_cols w) = w"
proof -
  obtain a b c d where w: "w = [a, b, c, d]"
    using assms by (auto simp: numeral_eq_Suc length_Suc_conv)
  show ?thesis
    unfolding w by (simp add: oaes_mix_cols_def oaes_inv_mix_cols_def oaes_gf_mul_xtime xor_ring)
qed

lemma length_mix_cols [simp]: "length (oaes_mix_cols w) = 4" "length (oaes_inv_mix_cols w) = 4"
  by (simp_all add: oaes_mix_cols_def oaes_inv_mix_cols_def)

lemma inv_mix_columns [simp]:
  assumes "length c = 16"
  shows "on_columns oaes_inv_mix_cols (on_columns oaes_mix_cols c) = c"
proof -
  have "c = take 4 c @ take 4 (drop 4 c) @ take 4 (drop 8 c) @ take 4 (drop 12 c)"
    using assms by (elim length_16E) simp
  then show ?thesis using assms by (simp add: on_columns_def)
qed

lemma length_on_columns [simp]:
  "length (on_columns oaes_mix_cols c) = 16" "length (on_columns oaes_inv_mix_cols c) = 16"
  by (simp_all add: on_columns_def)

section \<open>Blocks\<close>

text \<open>A key whose expansion holds a round key for every round, and at least two of them.\<close>

definition expanded :: "oaes_key \<Rightarrow> bool" where
  "expanded key \<longleftrightarrow> 2 \<le> num_keys key \<and> length (exp_data key) = num_keys key * 16"

lemma length_round_key: "expanded key \<Longrightarrow> i < num_keys key \<Longrightarrow> length (round_key key i) = 16"
proof -
  assume "expanded key" "i < num_keys key"
  then have "(i + 1) * 16 \<le> length (exp_data key)" unfolding expanded_def by (intro mult_le_mono1 ord_le_eq_trans[OF mult_le_mono1]) auto
  then show ?thesis by (simp add: round_key_def oaes_sizes)
qed

lemma length_add_round_key [simp]:
  "expanded key \<Longrightarrow> i < num_keys key \<Longrightarrow> length c = 16 \<Longrightarrow> length (add_round_key key i c) = 16"
  by (simp add: add_round_key_def length_round_key)

lemma add_round_key_twice [simp]:
  "expanded key \<Longrightarrow> i < num_keys key \<Longrightarrow> length c = 16 \<Longrightarrow> add_round_key key i (add_round_key key i c) = c"
  by (simp add: add_round_key_def length_round_key map2_xor_twice)

text \<open>The rounds on the block alone.\<close>

definition enc_round :: "oaes_key \<Rightarrow> u8 list \<Rightarrow> nat \<Rightarrow> u8 list" where
  "enc_round key c i = add_round_key key i (on_columns oaes_mix_cols (oaes_shift_rows (map oaes_sub_byte c)))"

definition dec_round :: "oaes_key \<Rightarrow> u8 list \<Rightarrow> nat \<Rightarrow> u8 list" where
  "dec_round key c i = on_columns oaes_inv_mix_cols (add_round_key key i (map oaes_inv_sub_byte (oaes_inv_shift_rows c)))"

definition encipher :: "oaes_key \<Rightarrow> u8 list \<Rightarrow> u8 list" where
  "encipher key c = add_round_key key (num_keys key - 1) (oaes_shift_rows (map oaes_sub_byte
     (foldl (enc_round key) (add_round_key key 0 c) [1..<num_keys key - 1])))"

definition decipher :: "oaes_key \<Rightarrow> u8 list \<Rightarrow> u8 list" where
  "decipher key c = add_round_key key 0 (map oaes_inv_sub_byte (oaes_inv_shift_rows
     (foldl (dec_round key) (add_round_key key (num_keys key - 1) c) (rev [1..<num_keys key - 1]))))"

text \<open>Two contexts that differ in the recorded callback calls only.\<close>

definition same_ctx :: "oaes_ctx \<Rightarrow> oaes_ctx \<Rightarrow> bool" where
  "same_ctx ctx ctx' \<longleftrightarrow> (\<exists>s. ctx' = ctx\<lparr>ctx_steps := s\<rparr>)"

lemma same_ctx_refl [simp]: "same_ctx ctx ctx"
  unfolding same_ctx_def by (rule exI[of _ "ctx_steps ctx"]) simp

lemma same_ctx_step_cb [simp]: "same_ctx ctx (step_cb s n i ctx') \<longleftrightarrow> same_ctx ctx ctx'"
proof
  assume "same_ctx ctx (step_cb s n i ctx')"
  then obtain t where "step_cb s n i ctx' = ctx\<lparr>ctx_steps := t\<rparr>" by (auto simp: same_ctx_def)
  then have "ctx' = ctx\<lparr>ctx_steps := ctx_steps ctx'\<rparr>"
    by (cases ctx; cases ctx') (auto simp: step_cb_def split: if_splits)
  then show "same_ctx ctx ctx'" unfolding same_ctx_def by blast
qed (auto simp: same_ctx_def step_cb_def)

lemma same_ctx_fields:
  "same_ctx ctx ctx' \<Longrightarrow> ctx_key ctx' = ctx_key ctx \<and> ctx_options ctx' = ctx_options ctx \<and> ctx_iv ctx' = ctx_iv ctx
     \<and> ctx_rctx ctx' = ctx_rctx ctx \<and> ctx_step_cb ctx' = ctx_step_cb ctx"
  by (auto simp: same_ctx_def)

lemma encrypt_rounds:
  "same_ctx ctx (fst (foldl (encrypt_round key) (ctx', c) is)) = same_ctx ctx ctx' \<and>
   snd (foldl (encrypt_round key) (ctx', c) is) = foldl (enc_round key) c is"
  by (induction "is" arbitrary: ctx' c) (simp_all add: encrypt_round_def enc_round_def Let_def)

lemma decrypt_rounds:
  "same_ctx ctx (fst (foldl (decrypt_round key) (ctx', c) is)) = same_ctx ctx ctx' \<and>
   snd (foldl (decrypt_round key) (ctx', c) is) = foldl (dec_round key) c is"
  by (induction "is" arbitrary: ctx' c) (simp_all add: decrypt_round_def dec_round_def Let_def)

lemma encrypt_block_encipher:
  assumes "ctx_key ctx = Some key"
  obtains ctx' where "oaes_encrypt_block (Some ctx) (Some c) OAES_BLOCK_SIZE = (OAES_RET_SUCCESS, Some ctx', Some (encipher key c))"
    "same_ctx ctx ctx'"
  by (rule that[of "the (fst (snd (oaes_encrypt_block (Some ctx) (Some c) OAES_BLOCK_SIZE)))"])
    (use assms in \<open>simp_all add: oaes_encrypt_block_def Let_def split_beta encrypt_rounds encipher_def\<close>)

lemma decrypt_block_decipher:
  assumes "ctx_key ctx = Some key"
  obtains ctx' where "oaes_decrypt_block (Some ctx) (Some c) OAES_BLOCK_SIZE = (OAES_RET_SUCCESS, Some ctx', Some (decipher key c))"
    "same_ctx ctx ctx'"
  by (rule that[of "the (fst (snd (oaes_decrypt_block (Some ctx) (Some c) OAES_BLOCK_SIZE)))"])
    (use assms in \<open>simp_all add: oaes_decrypt_block_def Let_def split_beta decrypt_rounds decipher_def\<close>)

lemma length_enc_round [simp]: "expanded key \<Longrightarrow> i < num_keys key \<Longrightarrow> length (enc_round key c i) = 16"
  by (simp add: enc_round_def)

lemma length_enc_rounds:
  "expanded key \<Longrightarrow> \<forall>i\<in>set is. i < num_keys key \<Longrightarrow> length c = 16 \<Longrightarrow> length (foldl (enc_round key) c is) = 16"
  by (induction "is" arbitrary: c) auto

text \<open>A decryption round takes the substituted, shifted result of an encryption round back to its input.\<close>

lemma dec_round_enc_round:
  assumes "expanded key" "i < num_keys key" "length c = 16"
  shows "dec_round key (oaes_shift_rows (map oaes_sub_byte (enc_round key c i))) i = oaes_shift_rows (map oaes_sub_byte c)"
  using assms by (simp add: dec_round_def comp_def) (simp add: enc_round_def)

lemma dec_rounds_enc_rounds:
  assumes "expanded key" "\<forall>i\<in>set is. i < num_keys key" "length c = 16"
  shows "foldl (dec_round key) (oaes_shift_rows (map oaes_sub_byte (foldl (enc_round key) c is))) (rev is)
    = oaes_shift_rows (map oaes_sub_byte c)"
  using assms(2)
proof (induction "is" rule: rev_induct)
  case (snoc i "is")
  then have "length (foldl (enc_round key) c is) = 16" using assms by (intro length_enc_rounds) auto
  then show ?case using snoc assms by (simp add: dec_round_enc_round)
qed simp

lemma decipher_encipher:
  assumes ok: "expanded key" and len: "length c = 16"
  shows "decipher key (encipher key c) = c" "length (encipher key c) = 16"
proof -
  let ?is = "[1..<num_keys key - 1]" and ?c = "add_round_key key 0 c"
  have n: "0 < num_keys key" "num_keys key - 1 < num_keys key" "\<forall>i\<in>set ?is. i < num_keys key"
    using ok by (auto simp: expanded_def)
  have c: "length ?c = 16" using ok n len by simp
  show "length (encipher key c) = 16" using ok n by (simp add: encipher_def)
  have "foldl (dec_round key) (add_round_key key (num_keys key - 1) (encipher key c)) (rev ?is)
    = oaes_shift_rows (map oaes_sub_byte ?c)"
    using ok n c by (simp add: encipher_def dec_rounds_enc_rounds)
  then show "decipher key (encipher key c) = c"
    using ok n len c by (simp add: decipher_def comp_def)
qed

interpretation aes: block_cipher expanded encipher decipher
  by unfold_locales (simp_all add: decipher_encipher)

end
