(* ===== verification/Oaes_Key.thy ===== *)
theory Oaes_Key
  imports Oaes_Block
begin

text \<open>
  Keys and contexts of OpenAES: the expanded key is the FIPS 197 key schedule, an exported key imports
  back, and every operation keeps the contexts well-formed.
\<close>

section \<open>The key schedule\<close>

definition xor_word :: "u8 list \<Rightarrow> u8 list \<Rightarrow> u8 list" where
  "xor_word a b = map2 (XOR) a b"

definition fips_rcon :: "nat \<Rightarrow> u8 list" where
  "fips_rcon j = [(xtime ^^ (j - 1)) 1, 0, 0, 0]"

text \<open>Word \<open>i\<close> of the expansion of a key of \<open>nk\<close> words.\<close>

function fips_w :: "nat \<Rightarrow> u8 list \<Rightarrow> nat \<Rightarrow> u8 list" where
  "fips_w nk k i =
     (if i < nk \<or> nk = 0 then take 4 (drop (4 * i) k)
      else xor_word (fips_w nk k (i - nk))
        (if i mod nk = 0 then xor_word (map oaes_sub_byte (rotate1 (fips_w nk k (i - 1)))) (fips_rcon (i div nk))
         else if nk > 6 \<and> i mod nk = 4 then map oaes_sub_byte (fips_w nk k (i - 1))
         else fips_w nk k (i - 1)))"
  by pat_completeness auto
termination by (relation "measure (\<lambda>(nk, k, i). i)") auto

declare fips_w.simps [simp del]

lemma length_fips_w: "4 * nk \<le> length k \<Longrightarrow> length (fips_w nk k i) = (if nk = 0 then min 4 (length k - 4 * i) else 4)"
proof (induction nk k i rule: fips_w.induct)
  case (1 nk k i)
  show ?case
  proof (cases "i < nk \<or> nk = 0")
    case True
    then show ?thesis using 1(5) by (auto simp: fips_w.simps[of nk k i])
  next
    case False
    then show ?thesis using 1 by (simp add: fips_w.simps[of nk k i] xor_word_def fips_rcon_def)
  qed
qed

lemma rcon_table: "1 \<le> j \<Longrightarrow> j \<le> 10 \<Longrightarrow> oaes_gf_8 ! (j - 1) = (xtime ^^ (j - 1)) 1"
proof -
  assume "1 \<le> j" "j \<le> 10"
  have "oaes_gf_8 = map (\<lambda>n. (xtime ^^ n) 1) [0..<10]"
    by code_simp
  then have "oaes_gf_8 ! (j - 1) = map (\<lambda>n. (xtime ^^ n) 1) [0..<10] ! (j - 1)" by (rule arg_cong)
  also have "\<dots> = (xtime ^^ (j - 1)) 1"
    using \<open>1 \<le> j\<close> \<open>j \<le> 10\<close> by (subst nth_map) (simp_all del: upt_rec_numeral)
  finally show ?thesis .
qed

text \<open>One step writes word \<open>i\<close> and leaves the rest alone.\<close>

lemma expand_step_word:
  assumes "0 < base" "base \<le> i" "4 * i + 4 \<le> length ex"
    and t: "expand_temp base ex i = [t0, t1, t2, t3]"
  shows "expand_step base ex i =
    take (4 * i) ex @ xor_word (take 4 (drop (4 * (i - base)) ex)) [t0, t1, t2, t3] @ drop (4 * i + 4) ex"
proof -
  let ?a = "4 * (i - base)"
  have a: "?a + 4 \<le> 4 * i" using assms(1,2) by simp
  have w: "take 4 (drop ?a ex) = [ex ! ?a, ex ! (?a + 1), ex ! (?a + 2), ex ! (?a + 3)]"
    using a assms(3) by (intro nth_equalityI) (auto simp: numeral_eq_Suc less_Suc_eq)
  have "expand_step base ex i =
    ex[4 * i := ex ! ?a XOR t0, 4 * i + 1 := ex ! (?a + 1) XOR t1,
       4 * i + 2 := ex ! (?a + 2) XOR t2, 4 * i + 3 := ex ! (?a + 3) XOR t3]"
    using a by (simp add: expand_step_def t oaes_sizes upt_rec mult.commute nth_list_update eval_nat_numeral)
  also have "\<dots> = take (4 * i) ex @ [ex ! ?a XOR t0, ex ! (?a + 1) XOR t1, ex ! (?a + 2) XOR t2, ex ! (?a + 3) XOR t3]
      @ drop (4 * i + 4) ex"
  proof (rule nth_equalityI)
    fix n assume "n < length (ex[4 * i := ex ! ?a XOR t0, 4 * i + 1 := ex ! (?a + 1) XOR t1,
       4 * i + 2 := ex ! (?a + 2) XOR t2, 4 * i + 3 := ex ! (?a + 3) XOR t3])"
    then have n: "n < length ex" by simp
    consider "n < 4 * i" | "n = 4 * i" | "n = 4 * i + 1" | "n = 4 * i + 2" | "n = 4 * i + 3" | "4 * i + 4 \<le> n"
      by linarith
    then show "ex[4 * i := ex ! ?a XOR t0, 4 * i + 1 := ex ! (?a + 1) XOR t1,
       4 * i + 2 := ex ! (?a + 2) XOR t2, 4 * i + 3 := ex ! (?a + 3) XOR t3] ! n =
      (take (4 * i) ex @ [ex ! ?a XOR t0, ex ! (?a + 1) XOR t1, ex ! (?a + 2) XOR t2, ex ! (?a + 3) XOR t3]
      @ drop (4 * i + 4) ex) ! n"
      using n assms(3) by cases (simp_all add: nth_append nth_list_update)
  qed (use assms(3) in simp)
  finally show ?thesis by (simp add: xor_word_def w)
qed

text \<open>The column the step adds, when the words before \<open>i\<close> are those of the schedule.\<close>

lemma expand_temp_word:
  assumes "0 < nk" "nk \<le> i" "i div nk \<le> 10"
    and prev: "take 4 (drop (4 * (i - 1)) ex) = fips_w nk k (i - 1)" and len: "length (fips_w nk k (i - 1)) = 4"
  shows "fips_w nk k i = xor_word (fips_w nk k (i - nk)) (expand_temp nk ex i) \<and> length (expand_temp nk ex i) = 4"
proof -
  obtain a b c d where w: "fips_w nk k (i - Suc 0) = [a, b, c, d]"
    using len by (auto simp: numeral_eq_Suc length_Suc_conv)
  have p: "take OAES_COL_LEN (drop ((i - 1) * OAES_RKEY_LEN) ex) = [a, b, c, d]"
    using prev w by (simp add: oaes_sizes mult.commute[of 4])
  have "1 \<le> i div nk" using assms(1,2) by (simp add: Suc_le_eq div_greater_zero_iff)
  with assms(3) have "oaes_gf_8 ! (i div nk - 1) = (xtime ^^ (i div nk - 1)) 1" by (intro rcon_table)
  then show ?thesis
    using assms(1,2) unfolding expand_temp_def p
    by (subst fips_w.simps) (auto simp: w xor_word_def fips_rcon_def oaes_word_rot_left_def oaes_sizes Let_def)
qed

lemma length_concat_words: "(\<And>j. length (w j) = 4) \<Longrightarrow> length (concat (map w [0..<n])) = 4 * n"
  by (induction n) auto

lemma take_concat_words:
  assumes "\<And>j. length (w j) = 4" "i < t"
  shows "take 4 (drop (4 * i) (concat (map w [0..<t]))) = (w i :: 'a list)"
proof -
  have "[0..<t] = [0..<i] @ i # [Suc i..<t]"
    using assms(2) upt_add_eq_append[of 0 i "t - i"] by (simp add: upt_conv_Cons)
  then show ?thesis using length_concat_words[of w i] assms(1) by simp
qed

lemma expand_loop:
  assumes nk: "0 < nk" "nk \<le> t" "4 * nk \<le> length k" and t: "t \<le> n" "(n - 1) div nk \<le> 10"
    and ex: "length ex = 4 * n" "take (4 * nk) ex = concat (map (fips_w nk k) [0..<nk])"
  shows "length (foldl (expand_step nk) ex [nk..<t]) = 4 * n \<and>
    take (4 * t) (foldl (expand_step nk) ex [nk..<t]) = concat (map (fips_w nk k) [0..<t])"
  using nk(2) t(1)
proof (induction t)
  case (Suc t)
  have len4: "length (fips_w nk k j) = 4" for j using nk length_fips_w[of nk k] by simp
  show ?case
  proof (cases "nk \<le> t")
    case True
    define e where "e = foldl (expand_step nk) ex [nk..<t]"
    have e: "length e = 4 * n" "take (4 * t) e = concat (map (fips_w nk k) [0..<t])"
      using Suc.IH True Suc.prems by (simp_all add: e_def)
    have word: "take 4 (drop (4 * j) e) = fips_w nk k j" if "j < t" for j
    proof -
      have "take 4 (drop (4 * j) (take (4 * t) e)) = take 4 (drop (4 * j) e)"
        using that by (simp add: drop_take min_def)
      then show ?thesis using take_concat_words[of "fips_w nk k", OF len4 that] e(2) by simp
    qed
    have "t \<le> n - 1" using Suc.prems(2) by simp
    then have "t div nk \<le> 10" using t(2) div_le_mono le_trans by blast
    then have temp: "fips_w nk k t = xor_word (fips_w nk k (t - nk)) (expand_temp nk e t)" "length (expand_temp nk e t) = 4"
      using expand_temp_word[OF nk(1) True _ word len4] nk(1) True by simp_all
    then obtain t0 t1 t2 t3 where tt: "expand_temp nk e t = [t0, t1, t2, t3]"
      by (auto simp: numeral_eq_Suc length_Suc_conv)
    have "expand_step nk e t = take (4 * t) e @ fips_w nk k t @ drop (4 * t + 4) e"
      using expand_step_word[OF nk(1) True _ tt] Suc.prems(2) e(1) word[of "t - nk"] nk(1) True temp(1)
      by (simp add: tt)
    moreover have "foldl (expand_step nk) ex [nk..<Suc t] = expand_step nk e t"
      using True by (simp add: e_def)
    ultimately show ?thesis
      using e len4[of t] Suc.prems(2) length_concat_words[of "fips_w nk k" t] len4 by simp
  next
    case False
    with Suc.prems have "Suc t = nk" by simp
    then show ?thesis using ex by simp
  qed
qed (use nk in simp)

lemma fips_w_key: "length k = 4 * nk \<Longrightarrow> concat (map (fips_w nk k) [0..<nk]) = k"
proof -
  assume k: "length k = 4 * nk"
  have "concat (map (fips_w nk k) [0..<n]) = take (4 * n) k" if "n \<le> nk" for n
    using that
  proof (induction n)
    case (Suc n)
    then show ?case
      by (simp add: fips_w.simps[of nk k n]) (metis add.commute take_add)
  qed simp
  then show ?thesis using k by simp
qed

text \<open>The key \<open>new_key bs\<close> with its schedule, as the expansion leaves it.\<close>

definition full_key :: "u8 list \<Rightarrow> oaes_key" where
  "full_key bs = (let nk = length bs div 4 in
     \<lparr>data_len = length bs, key_data = bs, exp_data_len = (nk + 7) * 16,
      exp_data = concat (map (fips_w nk bs) [0..<4 * (nk + 7)]), num_keys = nk + 7, key_base = nk\<rparr>)"

definition key_length_ok :: "nat \<Rightarrow> bool" where
  "key_length_ok n \<longleftrightarrow> n = 16 \<or> n = 24 \<or> n = 32"

lemma key_expand_schedule:
  assumes "key_length_ok (length bs)" "ctx_key ctx = Some (new_key bs)"
  shows "oaes_key_expand True (Some ctx) = (OAES_RET_SUCCESS, Some (ctx\<lparr>ctx_key := Some (full_key bs)\<rparr>))"
proof -
  define nk where "nk = length bs div 4"
  have nk: "length bs = 4 * nk" "0 < nk" "nk \<le> 8" "4 \<le> nk"
    using assms(1) by (auto simp: key_length_ok_def nk_def)
  define ex where "ex = bs @ replicate ((nk + 7) * 16 - 4 * nk) 0"
  have d: "(4 * (nk + 7) - 1) div nk \<le> 10" using assms(1) by (auto simp: key_length_ok_def nk_def)
  have "length ex = 4 * (4 * (nk + 7))" "take (4 * nk) ex = concat (map (fips_w nk bs) [0..<nk])"
    using nk fips_w_key[of bs nk] by (simp_all add: ex_def)
  with expand_loop[OF nk(2) _ _ order_refl d this] nk
  have "length (foldl (expand_step nk) ex [nk..<4 * (nk + 7)]) = 4 * (4 * (nk + 7))"
    "take (4 * (4 * (nk + 7))) (foldl (expand_step nk) ex [nk..<4 * (nk + 7)])
       = concat (map (fips_w nk bs) [0..<4 * (nk + 7)])" by simp_all
  then have "foldl (expand_step nk) ex [nk..<4 * (nk + 7)] = concat (map (fips_w nk bs) [0..<4 * (nk + 7)])"
    by (simp only: take_all order_refl)
  then show ?thesis
    using assms(2) nk by (simp add: oaes_key_expand_def new_key_def full_key_def oaes_sizes Let_def ex_def mult.commute)
qed

text \<open>
  C40. For keys of 16, 24 and 32 bytes \<open>oaes_key_expand\<close> stores the key schedule of FIPS 197, the words
  \<open>w\<^sub>0, w\<^sub>1, \<dots>\<close> one after the other; when the allocation of the schedule fails it reports that.
\<close>

theorem oaes_key_expand_correct:
  assumes "key_length_ok (length bs)"
  shows "oaes_key_expand True (Some (ctx\<lparr>ctx_key := Some (new_key bs)\<rparr>))
      = (OAES_RET_SUCCESS, Some (ctx\<lparr>ctx_key := Some (full_key bs)\<rparr>)) \<and>
    fst (oaes_key_expand False (Some (ctx\<lparr>ctx_key := Some (new_key bs)\<rparr>))) = OAES_RET_MEM"
  using key_expand_schedule[OF assms, of "ctx\<lparr>ctx_key := Some (new_key bs)\<rparr>"]
  by (simp_all add: oaes_key_expand_def Let_def)

theorem oaes_key_expand_witness:
  "let ctx = \<lparr>ctx_rctx = seeded [], ctx_step_cb = False, ctx_key = None, ctx_options = 2, ctx_iv = replicate 16 0, ctx_steps = []\<rparr>;
       bs = map of_nat [0..<24]
   in oaes_key_expand True (Some (ctx\<lparr>ctx_key := Some (new_key bs)\<rparr>))
      = (OAES_RET_SUCCESS, Some (ctx\<lparr>ctx_key := Some (full_key bs)\<rparr>)) \<and>
    fst (oaes_key_expand False (Some (ctx\<lparr>ctx_key := Some (new_key bs)\<rparr>))) = OAES_RET_MEM"
  unfolding Let_def by (rule oaes_key_expand_correct) (simp add: key_length_ok_def)

section \<open>Well-formed contexts\<close>

text \<open>Exactly one of the two modes is selected, and only known options are set.\<close>

definition options_ok :: "OAES_OPTION \<Rightarrow> bool" where
  "options_ok opts \<longleftrightarrow> opts AND NOT 15 = 0 \<and> (opts AND OAES_OPTION_ECB = 0) \<noteq> (opts AND OAES_OPTION_CBC = 0)"

definition ctx_well_formed :: "oaes_ctx \<Rightarrow> bool" where
  "ctx_well_formed ctx \<longleftrightarrow> rand_ok (ctx_rctx ctx) \<and> options_ok (ctx_options ctx) \<and> length (ctx_iv ctx) = 16 \<and>
     (case ctx_key ctx of None \<Rightarrow> True | Some key \<Rightarrow> \<exists>bs. key_length_ok (length bs) \<and> key = full_key bs)"

lemma expanded_full_key: "key_length_ok (length bs) \<Longrightarrow> expanded (full_key bs)"
  using length_concat_words[of "fips_w (length bs div 4) bs" "4 * (length bs div 4 + 7)"]
    length_fips_w[of "length bs div 4" bs]
  by (auto simp: expanded_def full_key_def key_length_ok_def Let_def)

lemma install_key_result:
  assumes "key_length_ok (length bs)"
  shows "install_key mem ctx bs =
    (if mem then (OAES_RET_SUCCESS, Some (ctx\<lparr>ctx_key := Some (full_key bs)\<rparr>))
     else (OAES_RET_UNKNOWN, Some (ctx\<lparr>ctx_key := None\<rparr>)))"
  using key_expand_schedule[OF assms, of "ctx\<lparr>ctx_key := Some (new_key bs)\<rparr>"]
  by (auto simp: install_key_def rc_or_def oaes_key_expand_def Let_def)

lemma install_key_well_formed:
  assumes "ctx_well_formed ctx" "key_length_ok (length bs)" "install_key mem ctx bs = (r, Some ctx')"
  shows "ctx_well_formed ctx'"
  using assms by (auto simp: install_key_result ctx_well_formed_def split: if_splits)

lemma well_formed_no_key: "ctx_well_formed ctx \<Longrightarrow> ctx_well_formed (ctx\<lparr>ctx_key := None\<rparr>)"
  by (simp add: ctx_well_formed_def)

lemma key_gen_well_formed:
  assumes "ctx_well_formed ctx" "key_length_ok n" "oaes_key_gen mem (Some ctx) n = (r, Some ctx')"
  shows "ctx_well_formed ctx'"
proof -
  obtain bs g where g: "rand_bytes n (ctx_rctx ctx) = (bs, g)" by fastforce
  have b: "rand_ok g" "length bs = n" using rand_bytes_ok[of "ctx_rctx ctx" n] assms(1) g by (auto simp: ctx_well_formed_def)
  have w: "ctx_well_formed (ctx\<lparr>ctx_key := None, ctx_rctx := g\<rparr>)"
    using assms(1) b by (simp add: ctx_well_formed_def)
  show ?thesis
    using assms install_key_well_formed[OF w, of bs "mem 2"] b well_formed_no_key[OF assms(1)]
    by (auto simp: oaes_key_gen_def g Let_def split: if_splits)
qed

lemma import_well_formed:
  assumes "ctx_well_formed ctx" "key_length_ok (length bs)" "import_bytes mem ctx bs = (r, Some ctx')"
  shows "ctx_well_formed ctx'"
  using assms install_key_well_formed[OF well_formed_no_key, of ctx bs "mem 2"] well_formed_no_key[OF assms(1)]
  by (auto simp: import_bytes_def Let_def split: if_splits)

lemma import_header_length:
  "import_header bs (length bs) = None \<Longrightarrow> key_length_ok (length (take (unat (bs ! 7)) (drop OAES_BLOCK_SIZE bs)))"
  by (auto simp: import_header_def key_length_ok_def oaes_sizes split: if_splits)

lemma options_ok_cases: "options_ok opts \<Longrightarrow> opts \<in> {1, 2, 5, 6, 9, 10, 13, 14}"
proof -
  assume ok: "options_ok opts"
  then have m: "opts AND NOT 15 = 0" by (simp add: options_ok_def)
  have "opts AND (15 OR NOT 15) = (opts AND 15) OR (opts AND NOT 15)" by (rule bit.conj_disj_distrib)
  then have "opts = opts AND 15" using m by simp
  then have "opts \<le> 15" by (metis word_and_le1)
  then have "unat opts \<le> 15" by (simp add: word_le_nat_alt)
  then have "unat opts \<in> {0, 1, 2, 3, 4, 5, 6, 7, 8, 9, 10, 11, 12, 13, 14, 15}" by (auto simp: numeral_eq_Suc le_Suc_eq)
  then have "(of_nat (unat opts) :: OAES_OPTION) \<in> of_nat ` {0, 1, 2, 3, 4, 5, 6, 7, 8, 9, 10, 11, 12, 13, 14, 15 :: nat}"
    by (rule imageI)
  then have "opts \<in> {0, 1, 2, 3, 4, 5, 6, 7, 8, 9, 10, 11, 12, 13, 14, 15}"
    by simp
  then show ?thesis using ok by (auto simp: options_ok_def oaes_options)
qed

lemma options_set:
  assumes "options_ok opts"
  shows "options_ok (opts AND NOT OAES_OPTION_CBC OR OAES_OPTION_ECB)"
    "options_ok (opts AND NOT OAES_OPTION_ECB OR OAES_OPTION_CBC)"
    "options_ok (opts AND NOT OAES_OPTION_STEP_OFF OR OAES_OPTION_STEP_ON)"
    "options_ok (opts AND NOT OAES_OPTION_STEP_ON OR OAES_OPTION_STEP_OFF)"
  using options_ok_cases[OF assms] by (auto simp: options_ok_def oaes_options)

lemma set_option_well_formed:
  assumes "ctx_well_formed ctx" "\<And>v. value = Some v \<Longrightarrow> 16 \<le> length v"
    and "oaes_set_option (Some ctx) opt value = (r, Some ctx')"
  shows "ctx_well_formed ctx'"
proof -
  obtain bs g where g: "rand_bytes 16 (ctx_rctx ctx) = (bs, g)" by fastforce
  have b: "rand_ok g" "length bs = 16"
    using rand_bytes_ok[of "ctx_rctx ctx" 16] assms(1) g by (auto simp: ctx_well_formed_def)
  show ?thesis
    using assms b options_set[of "ctx_options ctx"]
    by (auto simp: oaes_set_option_def g ctx_well_formed_def oaes_sizes Let_def split: if_splits option.splits)
qed

lemma length_le_words: "length (le_words bs) = length bs div 4"
  by (induction bs rule: le_words.induct) auto

lemma alloc_well_formed:
  assumes "oaes_alloc mem seed = Some ctx"
  shows "ctx_well_formed ctx \<and> ctx_key ctx = None \<and> ctx_options ctx = OAES_OPTION_CBC OR OAES_OPTION_STEP_OFF"
proof -
  let ?g = "randinit (seeded seed) True"
  have g: "rand_ok ?g"
    using randinit_ok[of "seeded seed"] length_le_words[of "take RANDSIZ seed"]
    by (auto simp: seeded_def Let_def RANDSIZ_256)
  obtain bs g' where b: "rand_bytes OAES_BLOCK_SIZE ?g = (bs, g')" by fastforce
  then have "rand_ok g'" "length bs = 16" using rand_bytes_ok[OF g, of OAES_BLOCK_SIZE] by (auto simp: oaes_sizes)
  then show ?thesis
    using assms b by (auto simp: oaes_alloc_def oaes_set_option_def ctx_well_formed_def options_ok_def oaes_options
        Let_def split: if_splits)
qed

section \<open>Export and import\<close>

lemma store_after: "length h = off \<Longrightarrow> length ys \<le> length t \<Longrightarrow> store (h @ t) off ys = Some (h @ ys @ drop (length ys) t)"
  by (simp add: store_def)

lemma length_oaes_header: "length oaes_header = 16"
  by (simp add: oaes_header_def)

text \<open>What \<open>oaes_key_export\<close> writes: the header with the type of a key and its length, then the key.\<close>

definition key_file :: "u8 list \<Rightarrow> u8 list" where
  "key_file bs = [0x4f, 0x41, 0x45, 0x53, 0x01, 0x01, 0x00, of_nat (length bs), 0, 0, 0, 0, 0, 0, 0, 0] @ bs"

lemma key_export_writes:
  assumes "ctx_key ctx = Some (full_key bs)" "length bs + 16 \<le> length buf" "length bs + 16 \<le> len"
  shows "oaes_key_export (Some ctx) (Some buf) (Some len) =
    Some (OAES_RET_SUCCESS, Some (key_file bs @ drop (length bs + 16) buf), Some (length bs + 16))"
proof -
  have 1: "store buf 0 oaes_header = Some (oaes_header @ drop 16 buf)"
    using assms(2) by (simp add: store_def length_oaes_header)
  have 2: "store (oaes_header @ drop 16 buf) 5 [1] =
      Some ([0x4f, 0x41, 0x45, 0x53, 1, 1, 0, 0, 0, 0, 0, 0, 0, 0, 0, 0] @ drop 16 buf)"
    by (simp add: store_def oaes_header_def)
  have 3: "store ([0x4f, 0x41, 0x45, 0x53, 1, 1, 0, 0, 0, 0, 0, 0, 0, 0, 0, 0] @ drop 16 buf) 7 [x] =
      Some ([0x4f, 0x41, 0x45, 0x53, 1, 1, 0, x, 0, 0, 0, 0, 0, 0, 0, 0] @ drop 16 buf)" for x
    by (simp add: store_def)
  have 4: "store ([0x4f, 0x41, 0x45, 0x53, 1, 1, 0, x, 0, 0, 0, 0, 0, 0, 0, 0] @ drop 16 buf) 16 bs =
      Some ([0x4f, 0x41, 0x45, 0x53, 1, 1, 0, x, 0, 0, 0, 0, 0, 0, 0, 0] @ bs @ drop (length bs + 16) buf)" for x
    using assms(2) by (subst store_after) simp_all
  show ?thesis
    using assms(1,3) 1 2 3 4
    by (simp add: oaes_key_export_def full_key_def load_def oaes_sizes key_file_def Let_def)
qed

lemma import_key_file:
  assumes "key_length_ok (length bs)"
  shows "oaes_key_import (\<lambda>_. True) (Some ctx) (Some (key_file bs)) =
    (OAES_RET_SUCCESS, Some (ctx\<lparr>ctx_key := Some (full_key bs)\<rparr>))"
proof -
  have n: "unat (of_nat (length bs) :: u8) = length bs" using assms by (auto simp: key_length_ok_def)
  have l: "length (key_file bs) = length bs + 16" by (simp add: key_file_def)
  have "key_file bs ! 7 = of_nat (length bs)" "drop 16 (key_file bs) = bs" by (simp_all add: key_file_def)
  moreover have "import_header (key_file bs) (length (key_file bs)) = None"
    using assms n l by (auto simp: import_header_def key_file_def key_length_ok_def oaes_header_def oaes_sizes)
  ultimately show ?thesis
    using install_key_result[OF assms, of True "ctx\<lparr>ctx_key := None\<rparr>"] n
    by (simp add: oaes_key_import_def import_bytes_def oaes_sizes Let_def)
qed

text \<open>
  A key survives export and import: from a well-formed context with a key, exporting into a buffer
  of the announced size succeeds within the buffer, and importing the result into any context installs
  the same key and schedule.
\<close>

lemma key_export_import:
  assumes "ctx_well_formed ctx" "ctx_key ctx = Some key" "oaes_key_export (Some ctx) None (Some 0) = Some (r, None, Some len)"
    and "length buf = len"
  shows "\<exists>buf'. oaes_key_export (Some ctx) (Some buf) (Some len) = Some (OAES_RET_SUCCESS, Some buf', Some len) \<and>
    oaes_key_import (\<lambda>_. True) (Some ctx') (Some buf') = (OAES_RET_SUCCESS, Some (ctx'\<lparr>ctx_key := Some key\<rparr>))"
proof -
  obtain bs where bs: "key_length_ok (length bs)" "key = full_key bs"
    using assms(1,2) by (auto simp: ctx_well_formed_def)
  have "len = length bs + 16"
    using assms(2,3) bs by (simp add: oaes_key_export_def full_key_def oaes_sizes Let_def)
  then show ?thesis
    using key_export_writes[of ctx bs buf len] import_key_file[OF bs(1), of ctx'] assms(2,4) bs(2) by simp
qed

text \<open>A context with a 128-bit key, fed from an empty seed.\<close>

definition sample_ctx :: oaes_ctx where
  "sample_ctx = \<lparr>ctx_rctx = randinit (seeded []) True, ctx_step_cb = False, ctx_key = Some (full_key (map of_nat [0..<16])),
     ctx_options = 10, ctx_iv = replicate 16 7, ctx_steps = []\<rparr>"

lemma sample_ctx_ok: "ctx_well_formed sample_ctx"
proof -
  have "rand_ok (randinit (seeded []) True)"
    using randinit_ok[of "seeded []"] by (simp add: seeded_def Let_def RANDSIZ_256)
  then show ?thesis
    unfolding ctx_well_formed_def sample_ctx_def
    by (auto simp: options_ok_def oaes_options key_length_ok_def intro!: exI[of _ "map of_nat [0..<16]"])
qed

theorem key_export_import_witness:
  "\<exists>buf'. oaes_key_export (Some sample_ctx) (Some (replicate 32 0)) (Some 32) = Some (OAES_RET_SUCCESS, Some buf', Some 32) \<and>
    oaes_key_import (\<lambda>_. True) (Some sample_ctx) (Some buf')
      = (OAES_RET_SUCCESS, Some (sample_ctx\<lparr>ctx_key := Some (full_key (map of_nat [0..<16]))\<rparr>))"
proof (rule key_export_import[OF sample_ctx_ok])
  show k: "ctx_key sample_ctx = Some (full_key (map of_nat [0..<16]))" by (simp add: sample_ctx_def)
  show "oaes_key_export (Some sample_ctx) None (Some 0) = Some (OAES_RET_SUCCESS, None, Some 32)"
    by (simp add: oaes_key_export_def k full_key_def oaes_sizes Let_def)
qed simp

end
