(* ===== verification/Oaes_Mode.thy ===== *)
theory Oaes_Mode
  imports Oaes_Key
begin

text \<open>
  Messages of OpenAES. \<open>oaes_encrypt\<close> writes a header block, the initialisation vector and the padded
  message enciphered block by block, in ECB or CBC mode; \<open>oaes_decrypt\<close> takes such a file back to the
  message. Both stay within their buffers.
\<close>

section \<open>Padding and chaining\<close>

definition padding :: "nat \<Rightarrow> u8 list" where
  "padding n = map (\<lambda>j. of_nat (j + 1)) [0..<n]"

function pad_blocks :: "u8 list \<Rightarrow> u8 list list" where
  "pad_blocks m =
     (if m = [] then [] else if 16 \<le> length m then take 16 m # pad_blocks (drop 16 m)
      else [m @ padding (16 - length m)])"
  by pat_completeness auto
termination by (relation "measure length") auto

declare pad_blocks.simps [simp del]

lemma pad_blocks_Nil [simp]: "pad_blocks [] = []"
  by (subst pad_blocks.simps) simp

lemma pad_blocks_long: "16 \<le> length m \<Longrightarrow> pad_blocks m = take 16 m # pad_blocks (drop 16 m)"
  by (subst pad_blocks.simps) auto

lemma pad_blocks_short: "m \<noteq> [] \<Longrightarrow> length m < 16 \<Longrightarrow> pad_blocks m = [m @ padding (16 - length m)]"
  by (subst pad_blocks.simps) auto

text \<open>Induction along the blocks of a message.\<close>

lemma blocks_induct [case_names Nil Long Short]:
  assumes "P []" "\<And>m. 16 \<le> length m \<Longrightarrow> P (drop 16 m) \<Longrightarrow> P m" "\<And>m. m \<noteq> [] \<Longrightarrow> length m < 16 \<Longrightarrow> P m"
  shows "P m"
proof (induction m rule: length_induct)
  case (1 m)
  show ?case
  proof (cases "16 \<le> length m")
    case True
    then have "P (drop 16 m)" using 1 by (simp add: diff_less)
    with True show ?thesis by (rule assms(2))
  next
    case False
    then show ?thesis using assms(1) assms(3)[of m] by (metis linorder_not_le)
  qed
qed

abbreviation enc_blocks :: "bool \<Rightarrow> oaes_key \<Rightarrow> u8 list \<Rightarrow> u8 list list \<Rightarrow> u8 list list" where
  "enc_blocks cbc key \<equiv> chain (encipher key) cbc"

abbreviation dec_blocks :: "bool \<Rightarrow> oaes_key \<Rightarrow> u8 list \<Rightarrow> u8 list list \<Rightarrow> u8 list list" where
  "dec_blocks cbc key \<equiv> unchain (decipher key) cbc"

lemma length_padding [simp]: "length (padding n) = n"
  by (simp add: padding_def)

lemma pad_length_simps:
  "pad_length 0 = 0" "16 \<le> n \<Longrightarrow> pad_length (n - 16) = pad_length n"
  "0 < n \<Longrightarrow> n < 16 \<Longrightarrow> pad_length n = 16 - n"
  by (simp_all add: pad_length_def oaes_sizes le_mod_geq)

lemma concat_pad_blocks: "concat (pad_blocks m) = m @ padding (pad_length (length m))"
proof (induction m rule: blocks_induct)
  case Nil
  show ?case by (simp add: pad_length_simps padding_def)
next
  case (Long m)
  have "concat (pad_blocks m) = take 16 m @ drop 16 m @ padding (pad_length (length m))"
    using Long(2) by (simp only: pad_blocks_long[OF Long(1)] concat.simps length_drop pad_length_simps(2)[OF Long(1)])
  then show ?case by (metis append_assoc append_take_drop_id)
next
  case (Short m)
  then show ?case by (simp add: pad_blocks_short[OF Short] pad_length_simps(3))
qed

lemma pad_blocks_16: "\<forall>b\<in>set (pad_blocks m). length b = 16"
proof (induction m rule: blocks_induct)
  case (Long m)
  have "length (take 16 m) = 16" using Long(1) by simp
  with Long(2) show ?case unfolding pad_blocks_long[OF Long(1)] by (metis set_ConsD)
next
  case (Short m)
  then have "length (m @ padding (16 - length m)) = 16" by simp
  then show ?case unfolding pad_blocks_short[OF Short] by (metis set_ConsD empty_iff empty_set)
qed simp

lemma blocks_count: "16 \<le> n \<Longrightarrow> ((n :: nat) + 15) div 16 = Suc ((n - 16 + 15) div 16)"
proof -
  assume "16 \<le> n"
  then have "n + 15 = (n - 16 + 15) + 16" by linarith
  then show ?thesis by (simp only: div_add_self2 numeral_neq_zero Suc_eq_plus1 not_False_eq_True)
qed

lemma length_pad_blocks: "length (pad_blocks m) = (length m + 15) div 16"
proof (induction m rule: blocks_induct)
  case (Long m)
  have "length (pad_blocks m) = Suc (length (pad_blocks (drop 16 m)))"
    unfolding pad_blocks_long[OF Long(1)] by (rule length_Cons)
  also have "\<dots> = (length m + 15) div 16"
    unfolding Long(2) length_drop blocks_count[OF Long(1)] by (rule refl)
  finally show ?case .
next
  case (Short m)
  then have "(length m + 15) div 16 = 1" by (cases m) auto
  moreover have "length (pad_blocks m) = 1" unfolding pad_blocks_short[OF Short] by simp
  ultimately show ?case by (rule trans[OF _ sym, rotated])
qed simp

section \<open>Encryption\<close>

text \<open>The offsets the block loops visit, by recursion.\<close>

fun offsets :: "nat \<Rightarrow> nat \<Rightarrow> nat list" where
  "offsets i 0 = []"
| "offsets i (Suc n) = i # offsets (i + 16) n"

lemma offsets_map: "offsets i n = map (\<lambda>k. i + 16 * k) [0..<n]"
proof (induction n arbitrary: i)
  case (Suc n)
  have "[0..<Suc n] = 0 # map Suc [0..<n]" by (simp only: upt_conv_Cons map_Suc_upt zero_less_Suc)
  then show ?case using Suc by (simp only: offsets.simps list.map map_map comp_def) simp
qed simp

lemma block_offsets_offsets: "block_offsets len = offsets 0 ((len + 15) div 16)"
  by (simp add: block_offsets_def offsets_map oaes_sizes add.commute)

text \<open>A context that differs in the initialisation vector and the recorded callback calls only.\<close>

definition keeps :: "oaes_ctx \<Rightarrow> oaes_ctx \<Rightarrow> bool" where
  "keeps ctx ctx' \<longleftrightarrow> (\<exists>v s. ctx' = ctx\<lparr>ctx_iv := v, ctx_steps := s\<rparr> \<and> length v = 16)"

lemma same_keeps: "same_ctx ctx ctx' \<Longrightarrow> length (ctx_iv ctx) = 16 \<Longrightarrow> keeps ctx ctx'"
  unfolding same_ctx_def keeps_def by (cases ctx) auto

lemma same_keeps_iv: "same_ctx ctx ctx' \<Longrightarrow> length v = 16 \<Longrightarrow> keeps ctx (ctx'\<lparr>ctx_iv := v\<rparr>)"
  unfolding same_ctx_def keeps_def by (cases ctx) auto

lemma keeps_trans: "keeps a b \<Longrightarrow> keeps b c \<Longrightarrow> keeps a c"
  unfolding keeps_def by (cases a) auto

lemma keeps_fields:
  "keeps ctx ctx' \<Longrightarrow> ctx_key ctx' = ctx_key ctx \<and> ctx_options ctx' = ctx_options ctx \<and> length (ctx_iv ctx') = 16
     \<and> ctx_rctx ctx' = ctx_rctx ctx"
  by (auto simp: keeps_def)

definition is_cbc :: "OAES_OPTION \<Rightarrow> bool" where
  "is_cbc opts \<longleftrightarrow> opts AND OAES_OPTION_CBC \<noteq> 0"

text \<open>The block at the front of the remaining message.\<close>

definition first_block :: "u8 list \<Rightarrow> u8 list" where
  "first_block ms = take 16 ms @ padding (16 - min (length ms) 16)"

lemma length_first_block [simp]: "length (first_block ms) = 16"
  by (simp add: first_block_def)

lemma encrypt_step_result:
  assumes key: "ctx_key ctx = Some key" "expanded key" and iv: "length (ctx_iv ctx) = 16"
    and P: "length P = 32 + i" and T: "16 \<le> length ms + length T"
  defines "e \<equiv> encipher key (if is_cbc (ctx_options ctx) then map2 (XOR) (first_block ms) (ctx_iv ctx) else first_block ms)"
  shows "\<exists>ctx'. encrypt_step (i + length ms) i (OAES_RET_SUCCESS, ctx, P @ ms @ T) =
      Some (OAES_RET_SUCCESS, ctx', (P @ e) @ drop 16 ms @ drop (16 - length ms) T) \<and> keeps ctx ctx' \<and>
      (is_cbc (ctx_options ctx) \<longrightarrow> ctx_iv ctx' = e)"
proof -
  let ?n = "min (length ms) 16" and ?cbc = "is_cbc (ctx_options ctx)"
  let ?b = "if ?cbc then map2 (XOR) (first_block ms) (ctx_iv ctx) else first_block ms"
  have ld: "load (P @ ms @ T) (32 + i) ?n = Some (take ?n ms)"
    using P by (simp add: load_def)
  have fb: "take ?n ms @ map (\<lambda>j. of_nat (j + 1)) [0..<16 - ?n] = first_block ms"
    by (simp add: first_block_def padding_def min_def)
  have e: "length e = 16" unfolding e_def using key(2) iv by (intro aes.length_E) auto
  obtain ctx1 where enc: "oaes_encrypt_block (Some ctx) (Some ?b) 16 = (OAES_RET_SUCCESS, Some ctx1, Some e)"
    and same: "same_ctx ctx ctx1"
    using encrypt_block_encipher[OF key(1), of ?b] unfolding e_def oaes_sizes by blast
  have st: "store (P @ ms @ T) (32 + i) e = Some ((P @ e) @ drop 16 ms @ drop (16 - length ms) T)"
    using P T e by (subst store_after) auto
  let ?ctx' = "if ?cbc then ctx1\<lparr>ctx_iv := e\<rparr> else ctx1"
  have "encrypt_step (i + length ms) i (OAES_RET_SUCCESS, ctx, P @ ms @ T) =
      Some (OAES_RET_SUCCESS, ?ctx', (P @ e) @ drop 16 ms @ drop (16 - length ms) T)"
    using ld enc st by (cases ?cbc) (simp_all add: encrypt_step_def oaes_sizes fb[simplified] is_cbc_def[symmetric] rc_or_def Let_def)
  moreover have "keeps ctx ?ctx'"
    using same_keeps[OF same iv] same_keeps_iv[OF same e] by simp
  ultimately show ?thesis by auto
qed

lemma pad_blocks_first:
  assumes "ms \<noteq> []"
  shows "pad_blocks ms = first_block ms # pad_blocks (drop 16 ms)"
proof (cases "16 \<le> length ms")
  case True
  then show ?thesis unfolding pad_blocks_long[OF True] by (simp add: first_block_def padding_def)
next
  case False
  then have s: "length ms < 16" by simp
  show ?thesis unfolding pad_blocks_short[OF assms s] using s by (simp add: first_block_def)
qed

lemma keeps_refl: "length (ctx_iv ctx) = 16 \<Longrightarrow> keeps ctx ctx"
  using same_keeps[OF same_ctx_refl] .

text \<open>The padding that is left after the first block, and what it leaves of the tail of the buffer.\<close>

lemma pad_length_rest:
  assumes "ms \<noteq> []" "pad_length (length ms) \<le> length T"
  shows "pad_length (length (drop 16 ms)) \<le> length (drop (16 - length ms) T)"
    "drop (pad_length (length (drop 16 ms))) (drop (16 - length ms) T) = drop (pad_length (length ms)) T"
    "16 \<le> length ms + length T"
  using assms pad_length_simps(1) pad_length_simps(2,3)[of "length ms"] by (cases "16 \<le> length ms"; simp)+

lemma encrypt_loop_result:
  assumes "ctx_key ctx = Some key" "expanded key" "length (ctx_iv ctx) = 16"
    and "length P = 32 + i" "pad_length (length ms) \<le> length T"
  shows "\<exists>ctx'. encrypt_loop (i + length ms) (offsets i (length (pad_blocks ms))) (OAES_RET_SUCCESS, ctx, P @ ms @ T) =
      Some (OAES_RET_SUCCESS, ctx',
        P @ concat (enc_blocks (is_cbc (ctx_options ctx)) key (ctx_iv ctx) (pad_blocks ms)) @ drop (pad_length (length ms)) T)
      \<and> keeps ctx ctx'"
  using assms
proof (induction "length ms" arbitrary: ms ctx P i T rule: less_induct)
  case less
  show ?case
  proof (cases "ms = []")
    case True
    then show ?thesis using keeps_refl[OF less.prems(3)] by (auto simp: pad_length_simps)
  next
    case False
    let ?cbc = "is_cbc (ctx_options ctx)" and ?T = "drop (16 - length ms) T"
    define e where "e = encipher key (if ?cbc then map2 (XOR) (first_block ms) (ctx_iv ctx) else first_block ms)"
    have e: "length e = 16"
      unfolding e_def using less.prems(2,3) by (intro aes.length_E) auto
    note rest_pad = pad_length_rest[OF False less.prems(5)]
    obtain ctx1 where step: "encrypt_step (i + length ms) i (OAES_RET_SUCCESS, ctx, P @ ms @ T) =
        Some (OAES_RET_SUCCESS, ctx1, (P @ e) @ drop 16 ms @ ?T)" and k: "keeps ctx ctx1"
      and civ: "?cbc \<longrightarrow> ctx_iv ctx1 = e"
      using encrypt_step_result[OF less.prems(1-4) rest_pad(3)] unfolding e_def by blast
    note kf = keeps_fields[OF k]
    have len: "i + length ms = (i + 16) + length (drop 16 ms) \<or> length ms < 16" by auto
    obtain ctx2 where rest: "encrypt_loop ((i + 16) + length (drop 16 ms)) (offsets (i + 16) (length (pad_blocks (drop 16 ms))))
        (OAES_RET_SUCCESS, ctx1, (P @ e) @ drop 16 ms @ ?T) =
        Some (OAES_RET_SUCCESS, ctx2, (P @ e) @ concat (enc_blocks ?cbc key (ctx_iv ctx1) (pad_blocks (drop 16 ms)))
          @ drop (pad_length (length (drop 16 ms))) ?T)" and k2: "keeps ctx1 ctx2"
    proof -
      have "length (drop 16 ms) < length ms" "length (P @ e) = 32 + (i + 16)" "ctx_key ctx1 = Some key"
        "length (ctx_iv ctx1) = 16" "ctx_options ctx1 = ctx_options ctx"
        using False less.prems e kf by simp_all
      then show thesis using that less.hyps[of "drop 16 ms" ctx1 "P @ e" "i + 16" ?T] less.prems(2) rest_pad(1) by metis
    qed
    have rest': "encrypt_loop (i + length ms) (offsets (i + 16) (length (pad_blocks (drop 16 ms))))
        (OAES_RET_SUCCESS, ctx1, (P @ e) @ drop 16 ms @ ?T) =
        Some (OAES_RET_SUCCESS, ctx2, (P @ e) @ concat (enc_blocks ?cbc key (ctx_iv ctx1) (pad_blocks (drop 16 ms)))
          @ drop (pad_length (length (drop 16 ms))) ?T)"
      using rest len by (cases "length ms < 16") (auto simp: pad_length_simps)
    have iv: "enc_blocks ?cbc key (ctx_iv ctx1) bs = enc_blocks ?cbc key e bs" for bs
      using civ by (cases ?cbc; cases bs) simp_all
    show ?thesis
      using step rest' keeps_trans[OF k k2] unfolding iv rest_pad(2) pad_blocks_first[OF False]
      by (simp add: e_def[symmetric] Let_def)
  qed
qed

text \<open>The file \<open>oaes_encrypt\<close> writes: header, initialisation vector, enciphered blocks.\<close>

definition msg_header :: "OAES_OPTION \<Rightarrow> u8 \<Rightarrow> u8 list" where
  "msg_header opts flags =
     [0x4f, 0x41, 0x45, 0x53, 0x01, 0x02, ucast opts, ucast (drop_bit 8 opts), flags, 0, 0, 0, 0, 0, 0, 0]"

definition pad_flag :: "nat \<Rightarrow> u8" where
  "pad_flag n = (if pad_length n \<noteq> 0 then OAES_FLAG_PAD else 0)"

definition cipher_file :: "oaes_key \<Rightarrow> OAES_OPTION \<Rightarrow> u8 list \<Rightarrow> u8 list \<Rightarrow> u8 list" where
  "cipher_file key opts iv m =
     msg_header opts (pad_flag (length m)) @ iv @ concat (enc_blocks (is_cbc opts) key iv (pad_blocks m))"

definition file_length :: "nat \<Rightarrow> nat" where
  "file_length n = 32 + n + pad_length n"

lemma length_msg_header [simp]: "length (msg_header opts flags) = 16"
  by (simp add: msg_header_def)

lemma length_concat_16: "\<forall>b\<in>set bs. length b = 16 \<Longrightarrow> length (concat bs) = 16 * length bs"
  by (induction bs) auto

lemma padded_length: "n + pad_length n = 16 * ((n + 15) div 16)"
proof -
  let ?m = "replicate n (0 :: u8)"
  show ?thesis
    using concat_pad_blocks[of ?m] length_concat_16[OF pad_blocks_16, of ?m] length_pad_blocks[of ?m]
    by (metis length_append length_padding length_replicate)
qed

lemma length_cipher_file:
  "expanded key \<Longrightarrow> length iv = 16 \<Longrightarrow> length (cipher_file key opts iv m) = file_length (length m)"
  using length_concat_16[OF aes.chain_16[OF _ pad_blocks_16], of key iv "is_cbc opts" m]
  by (simp add: cipher_file_def file_length_def length_pad_blocks padded_length)

lemma store_header:
  assumes "32 + n \<le> length c" "length iv = 16" "length m = n"
  shows "do {
      c \<leftarrow> store c 0 oaes_header;
      c \<leftarrow> store c 6 (le16_bytes opts);
      c \<leftarrow> store c 8 [flags];
      c \<leftarrow> store c 16 iv;
      c \<leftarrow> store c 32 m;
      f c
    } = f (msg_header opts flags @ iv @ m @ drop (32 + n) c)"
proof -
  have 1: "store c 0 oaes_header = Some (oaes_header @ drop 16 c)"
    using assms(1) by (simp add: store_def length_oaes_header)
  have 2: "store (oaes_header @ t) 6 (le16_bytes opts) = Some (msg_header opts 0 @ t)" for t
    by (simp add: store_def oaes_header_def msg_header_def le16_bytes_def)
  have 3: "store (msg_header opts 0 @ t) 8 [flags] = Some (msg_header opts flags @ t)" for t
    by (simp add: store_def msg_header_def)
  have 4: "store (msg_header opts flags @ drop 16 c) 16 iv = Some (msg_header opts flags @ iv @ drop 32 c)"
    using assms by (subst store_after) simp_all
  have "store ((msg_header opts flags @ iv) @ drop 32 c) 32 m = Some ((msg_header opts flags @ iv) @ m @ drop n (drop 32 c))"
    using assms by (subst store_after) simp_all
  with 1 2 3 4 show ?thesis by (simp add: add.commute)
qed

lemma mod_small: "n < 2 ^ 32 \<Longrightarrow> size_t n = n"
  by (simp add: size_t_def)

lemma encrypt_body_result:
  assumes "ctx_key ctx = Some key" "expanded key" "length (ctx_iv ctx) = 16"
    and "file_length (length m) \<le> length c" "file_length (length m) < 2 ^ 32"
  shows "\<exists>ctx'. encrypt_body ctx m (length m) c = Some (OAES_RET_SUCCESS, ctx',
      cipher_file key (ctx_options ctx) (ctx_iv ctx) m @ drop (file_length (length m)) c) \<and> keeps ctx ctx'"
proof -
  let ?n = "length m"
  let ?P = "msg_header (ctx_options ctx) (pad_flag ?n) @ ctx_iv ctx" and ?T = "drop (32 + ?n) c"
  have "block_offsets (size_t (?n + pad_length ?n)) = offsets 0 (length (pad_blocks m))"
  proof -
    have "size_t (?n + pad_length ?n) = 16 * ((?n + 15) div 16)"
      using assms(5) by (subst mod_small) (simp_all add: file_length_def padded_length)
    moreover have "(16 * k + 15) div 16 = k" for k :: nat by simp
    ultimately show ?thesis by (simp only: block_offsets_offsets length_pad_blocks)
  qed
  then have "encrypt_body ctx m ?n c = encrypt_loop ?n (offsets 0 (length (pad_blocks m))) (OAES_RET_SUCCESS, ctx, ?P @ m @ ?T)"
    using store_header[of ?n c "ctx_iv ctx" m "ctx_options ctx" "pad_flag ?n"] assms(3,4)
    unfolding encrypt_body_def Let_def pad_flag_def[symmetric] oaes_sizes by (simp add: load_def file_length_def)
  moreover have "length ?P = 32 + 0" "pad_length ?n \<le> length ?T"
    using assms(3,4) by (simp_all add: file_length_def)
  note encrypt_loop_result[OF assms(1-3) this]
  ultimately show ?thesis
    by (auto simp: cipher_file_def file_length_def add.commute)
qed

lemma encrypt_result:
  assumes "ctx_key ctx = Some key" "expanded key" "length (ctx_iv ctx) = 16"
    and "file_length (length m) \<le> length c" "file_length (length m) \<le> n" "file_length (length m) < 2 ^ 32"
  shows "\<exists>ctx'. oaes_encrypt (Some ctx) (Some m) (length m) (Some c) (Some n) = Some (OAES_RET_SUCCESS, Some ctx',
      Some (cipher_file key (ctx_options ctx) (ctx_iv ctx) m @ drop (file_length (length m)) c), Some (file_length (length m)))
      \<and> keeps ctx ctx'"
proof -
  have "size_t (2 * OAES_BLOCK_SIZE + length m + pad_length (length m)) = file_length (length m)"
    using mod_small[OF assms(6)] by (simp add: file_length_def oaes_sizes)
  then show ?thesis
    using encrypt_body_result[OF assms(1-4,6)] assms(1,5) by (auto simp: oaes_encrypt_def Let_def)
qed

section \<open>Decryption\<close>

lemma length_decipher: "expanded key \<Longrightarrow> length (decipher key c) = 16"
  by (simp add: decipher_def expanded_def add_round_key_def length_round_key)

lemma decrypt_step_result:
  assumes key: "ctx_key ctx = Some key" "expanded key" and b: "length b = 16" and prev: "length prev = 16"
    and Q: "length Q = 16 + i" and P: "length P = i" and iv: "i = 0 \<Longrightarrow> iv = prev"
    and n: "16 \<le> n - i"
  shows "\<exists>ctx' iv'. decrypt_step opts (Q @ prev @ U) n i (OAES_RET_SUCCESS, ctx, iv, P @ b @ T) =
      Some (OAES_RET_SUCCESS, ctx', iv', P @ (if is_cbc opts then map2 (XOR) (decipher key b) prev else decipher key b) @ T)
      \<and> same_ctx ctx ctx'"
proof -
  let ?d = "decipher key b"
  have d: "length ?d = 16" by (rule length_decipher[OF key(2)])
  obtain ctx1 where dec: "oaes_decrypt_block (Some ctx) (Some b) 16 = (OAES_RET_SUCCESS, Some ctx1, Some ?d)"
    and same: "same_ctx ctx ctx1"
    using decrypt_block_decipher[OF key(1), of b] unfolding oaes_sizes by blast
  have n16: "min (n - i) 16 = 16" using n by simp
  have "load (Q @ prev @ U) (16 + i) 16 = Some prev" using Q prev by (simp add: load_def)
  then have pv: "(if is_cbc opts \<and> i > 0 then load (Q @ prev @ U) (16 + i) 16 else Some iv) = Some (if is_cbc opts \<and> i > 0 then prev else iv)"
    by simp
  have ld: "load (P @ x @ T) i 16 = Some x" if "length x = 16" for x using P that by (simp add: load_def)
  have st: "store (P @ x @ T) i y = Some (P @ y @ T)" if "length x = 16" "length y = 16" for x y
    using P that by (subst store_after) simp_all
  have x: "is_cbc opts \<Longrightarrow> (if is_cbc opts \<and> i > 0 then prev else iv) = prev" using iv by auto
  show ?thesis
    using same dec pv ld[OF b] ld[OF d] st[OF b d] st[OF d, of "map2 (XOR) ?d prev"] d prev x n16
    by (cases "is_cbc opts"; cases "i = 0") (simp_all add: decrypt_step_def oaes_sizes is_cbc_def[symmetric] rc_or_def Let_def)
qed

lemma decrypt_loop_result:
  assumes "ctx_key ctx = Some key" "expanded key" "\<forall>c\<in>set cs. length c = 16" "length prev = 16"
    and "length Q = 16 + i" "length P = i" "i = 0 \<Longrightarrow> iv = prev" "n = i + 16 * length cs"
  shows "\<exists>ctx' iv'. decrypt_loop opts (Q @ prev @ concat cs @ U) n (offsets i (length cs))
        (OAES_RET_SUCCESS, ctx, iv, P @ concat cs @ T) =
      Some (OAES_RET_SUCCESS, ctx', iv', P @ concat (dec_blocks (is_cbc opts) key prev cs) @ T) \<and> same_ctx ctx ctx'"
  using assms
proof (induction cs arbitrary: ctx prev Q P i iv)
  case Nil
  then show ?case by auto
next
  case (Cons c cs)
  let ?d = "if is_cbc opts then map2 (XOR) (decipher key c) prev else decipher key c"
  have c: "length c = 16" "\<forall>c\<in>set cs. length c = 16" using Cons.prems(3) by (metis list.set_intros)+
  have d: "length ?d = 16" using length_decipher[OF Cons.prems(2)] Cons.prems(4) by simp
  obtain ctx1 iv1 where step: "decrypt_step opts (Q @ prev @ concat (c # cs) @ U) n i (OAES_RET_SUCCESS, ctx, iv, P @ c @ concat cs @ T) =
      Some (OAES_RET_SUCCESS, ctx1, iv1, P @ ?d @ concat cs @ T)" and s1: "same_ctx ctx ctx1"
    using decrypt_step_result[OF Cons.prems(1,2) c(1) Cons.prems(4-7), of n opts "concat (c # cs) @ U" "concat cs @ T"]
      Cons.prems(8) by auto
  have k1: "ctx_key ctx1 = Some key" using same_ctx_fields[OF s1] Cons.prems(1) by simp
  have l1: "length (Q @ prev) = 16 + (i + 16)" "length (P @ ?d) = i + 16" "i + 16 = 0 \<Longrightarrow> iv1 = c" "n = i + 16 + 16 * length cs"
    using Cons.prems(4-6,8) d by simp_all
  obtain ctx2 iv2 where rest: "decrypt_loop opts ((Q @ prev) @ c @ concat cs @ U) n (offsets (i + 16) (length cs))
      (OAES_RET_SUCCESS, ctx1, iv1, (P @ ?d) @ concat cs @ T) =
      Some (OAES_RET_SUCCESS, ctx2, iv2, (P @ ?d) @ concat (dec_blocks (is_cbc opts) key c cs) @ T)" and s2: "same_ctx ctx1 ctx2"
    using Cons.IH[OF k1 Cons.prems(2) c(2,1) l1] by blast
  have "same_ctx ctx ctx2" using s1 s2 by (auto simp: same_ctx_def)
  then show ?case using step rest by (auto simp: Let_def)
qed

lemma le16_inverse: "le16 (le16_bytes w) = w"
  unfolding le16_def le16_bytes_def
  by (rule bit_word_eqI) (auto simp: bit_simps)

lemma decrypt_header_ok:
  assumes "options_ok opts" "flags = 0 \<or> flags = OAES_FLAG_PAD"
  shows "decrypt_header (msg_header opts flags @ t) = Some (Inr (opts, flags))"
proof -
  have "load (msg_header opts flags @ t) 0 4 = Some [0x4f, 0x41, 0x45, 0x53]"
    "load (msg_header opts flags @ t) 4 1 = Some [1]" "load (msg_header opts flags @ t) 5 1 = Some [2]"
    "load (msg_header opts flags @ t) 6 2 = Some (le16_bytes opts)" "load (msg_header opts flags @ t) 8 1 = Some [flags]"
    by (simp_all add: load_def msg_header_def le16_bytes_def)
  moreover have "opts AND NOT 15 = 0" "\<not> (opts AND 1 \<noteq> 0 \<and> opts AND 2 \<noteq> 0)" "opts \<noteq> 0"
    using assms(1) by (auto simp: options_ok_def oaes_options)
  moreover have "flags AND NOT OAES_FLAG_PAD = 0" using assms(2) by (auto simp: OAES_FLAG_PAD_def)
  ultimately show ?thesis
    by (simp add: decrypt_header_def oaes_options oaes_header_def le16_inverse Let_def)
qed

lemma nth_padding: "i < p \<Longrightarrow> p \<le> 15 \<Longrightarrow> unat (padding p ! (p - 1 - i)) = p - i"
proof -
  assume "i < p" "p \<le> 15"
  then have "padding p ! (p - 1 - i) = of_nat (p - i)" by (simp add: padding_def)
  then show ?thesis using \<open>p \<le> 15\<close> by (simp add: unat_of_nat del: of_nat_diff)
qed

lemma size_sub_le: "b \<le> a \<Longrightarrow> a < 2 ^ 32 \<Longrightarrow> size_sub a b = a - b"
proof -
  assume "b \<le> a" "a < 2 ^ 32"
  then have "a + 2 ^ 32 - b = (a - b) + 2 ^ 32" "a - b < 2 ^ 32" by simp_all
  then show ?thesis by (simp only: size_sub_def mod_add_self2 mod_less)
qed

lemma load_one: "k < length xs \<Longrightarrow> load xs k 1 = Some [xs ! k]"
  by (simp add: load_def Suc_le_eq take_Suc hd_drop_conv_nth)

lemma remove_pad_result:
  assumes "0 < p" "p \<le> 15" "length m + p < 2 ^ 32"
  shows "remove_pad (m @ padding p @ T) (length m + p) = Some (OAES_RET_SUCCESS, m @ replicate p 0 @ T, length m)"
proof -
  let ?b = "m @ padding p @ T" and ?n = "length m + p"
  have byte: "?b ! (?n - 1 - i) = padding p ! (p - 1 - i)" if "i < p" for i
  proof -
    have "?n - 1 - i = length m + (p - 1 - i)" using that by linarith
    then show ?thesis using that by (simp only: nth_append_length_plus) (simp add: nth_append)
  qed
  have "size_sub ?n 1 = ?n - 1" using assms(1,3) by (intro size_sub_le) auto
  moreover have "load ?b (?n - 1) 1 = Some [?b ! (?n - 1 - 0)]"
    using assms(1) load_one[of "?n - 1" ?b] by simp
  moreover have "is_pad ?b ?n p"
    using nth_padding assms(2) byte by (auto simp: is_pad_def list_all_iff)
  moreover have "store ?b (?n - p) (replicate p 0) = Some (m @ replicate p 0 @ T)"
    by (subst store_after) simp_all
  ultimately show ?thesis
    using assms byte[of 0] nth_padding[of 0 p] by (simp add: remove_pad_def Let_def)
qed

lemma pad_length_le: "pad_length n \<le> 15"
  by (auto simp: pad_length_def oaes_sizes)

lemma decrypt_file_length:
  assumes "expanded key" "length iv = 16" "file_length (length m) < 2 ^ 32"
  shows "length (cipher_file key opts iv m) mod 16 = 0"
    "size_sub (length (cipher_file key opts iv m)) 32 = length m + pad_length (length m)"
proof -
  have len: "length (cipher_file key opts iv m) = 32 + (length m + pad_length (length m))"
    using length_cipher_file[OF assms(1,2)] by (simp add: file_length_def)
  have "32 + 16 * k = 16 * (k + 2)" for k :: nat by simp
  then show "length (cipher_file key opts iv m) mod 16 = 0" unfolding len padded_length by (metis mod_mult_self1_is_0)
  show "size_sub (length (cipher_file key opts iv m)) 32 = length m + pad_length (length m)"
    using assms(3) unfolding len by (subst size_sub_le) (simp_all add: file_length_def)
qed

lemma decrypt_body_result:
  fixes opts :: OAES_OPTION
  assumes "ctx_key ctx = Some key" "expanded key" "length iv = 16" "length m + pad_length (length m) \<le> length buf"
  defines "c \<equiv> cipher_file key opts iv m" and "L \<equiv> length m + pad_length (length m)"
  shows "\<exists>ctx' iv'. do {
      iv \<leftarrow> load c 16 16;
      bs \<leftarrow> load c 32 L;
      b \<leftarrow> store buf 0 bs;
      decrypt_loop opts c L (block_offsets L) (OAES_RET_SUCCESS, ctx, iv, b)
    } = Some (OAES_RET_SUCCESS, ctx', iv', m @ padding (pad_length (length m)) @ drop L buf) \<and> same_ctx ctx ctx'"
proof -
  let ?h = "msg_header opts (pad_flag (length m))" and ?cs = "enc_blocks (is_cbc opts) key iv (pad_blocks m)"
  have c: "c = ?h @ iv @ concat ?cs @ []" by (simp add: c_def cipher_file_def)
  have cs: "\<forall>b\<in>set ?cs. length b = 16" by (rule aes.chain_16[OF assms(2) pad_blocks_16 assms(3)])
  have n: "length ?cs = (length m + 15) div 16" by (simp only: length_chain length_pad_blocks)
  have L: "L = 0 + 16 * length ?cs" unfolding L_def padded_length n by simp
  have lc: "length (concat ?cs) = L" using length_concat_16[OF cs] L by (simp only: add_0)
  have "load c 16 16 = Some iv" using assms(3) by (simp add: c load_def)
  moreover have "load c 32 L = Some (concat ?cs)" using assms(3) lc by (simp add: c load_def)
  moreover have "store buf 0 (concat ?cs) = Some ([] @ concat ?cs @ drop L buf)"
    using assms(4) lc by (simp add: store_def L_def)
  moreover have "(16 * k + 15) div 16 = k" for k :: nat by simp
  then have "block_offsets L = offsets 0 (length ?cs)"
    unfolding block_offsets_offsets L_def padded_length n by (simp only:)
  moreover obtain ctx' iv' where "decrypt_loop opts (?h @ iv @ concat ?cs @ []) L (offsets 0 (length ?cs))
      (OAES_RET_SUCCESS, ctx, iv, [] @ concat ?cs @ drop L buf)
    = Some (OAES_RET_SUCCESS, ctx', iv', [] @ concat (dec_blocks (is_cbc opts) key iv ?cs) @ drop L buf)" "same_ctx ctx ctx'"
    using decrypt_loop_result[OF assms(1,2) cs assms(3) _ _ _ L, of ?h "[]" iv opts "[]" "drop L buf"] by auto
  ultimately show ?thesis
    using aes.unchain_chain[OF assms(2) pad_blocks_16 assms(3), of "is_cbc opts" m] concat_pad_blocks[of m] c by simp
qed

lemma decrypt_result:
  assumes "ctx_key ctx = Some key" "expanded key" "length iv = 16" "options_ok opts" "file_length (length m) < 2 ^ 32"
    and buf: "length m + pad_length (length m) \<le> length buf" "length m + pad_length (length m) \<le> n"
  shows "\<exists>ctx'. oaes_decrypt (Some ctx) (Some (cipher_file key opts iv m)) (Some buf) (Some n) =
    Some (OAES_RET_SUCCESS, Some ctx', Some (m @ replicate (pad_length (length m)) 0 @ drop (length m + pad_length (length m)) buf),
      Some (length m)) \<and> same_ctx ctx ctx'"
proof -
  let ?c = "cipher_file key opts iv m" and ?p = "pad_length (length m)"
  have hdr: "decrypt_header ?c = Some (Inr (opts, pad_flag (length m)))"
    unfolding cipher_file_def using decrypt_header_ok[OF assms(4)] by (simp add: pad_flag_def)
  have flag: "(pad_flag (length m) AND OAES_FLAG_PAD \<noteq> 0) = (?p \<noteq> 0)"
    by (simp add: pad_flag_def OAES_FLAG_PAD_def)
  obtain ctx' iv' where body: "do {
      iv \<leftarrow> load ?c 16 16;
      bs \<leftarrow> load ?c 32 (length m + ?p);
      b \<leftarrow> store buf 0 bs;
      decrypt_loop opts ?c (length m + ?p) (block_offsets (length m + ?p)) (OAES_RET_SUCCESS, ctx, iv, b)
    } = Some (OAES_RET_SUCCESS, ctx', iv', m @ padding ?p @ drop (length m + ?p) buf)" and s: "same_ctx ctx ctx'"
    using decrypt_body_result[OF assms(1-3) buf(1)] by blast
  have pad: "?p \<noteq> 0 \<Longrightarrow> remove_pad (m @ padding ?p @ drop (length m + ?p) buf) (length m + ?p)
      = Some (OAES_RET_SUCCESS, m @ replicate ?p 0 @ drop (length m + ?p) buf, length m)"
    using assms(5) pad_length_le[of "length m"] by (intro remove_pad_result) (simp_all add: file_length_def)
  have "oaes_decrypt (Some ctx) (Some ?c) (Some buf) (Some n) =
    Some (OAES_RET_SUCCESS, Some ctx', Some (m @ replicate ?p 0 @ drop (length m + ?p) buf), Some (length m))"
    using assms(1) buf(2) hdr flag body pad decrypt_file_length[OF assms(2,3,5), of opts]
    by (cases "?p = 0") (auto simp: oaes_decrypt_def oaes_sizes Let_def padding_def bind_eq_Some_conv)
  then show ?thesis using s by blast
qed

text \<open>
  C37. Decryption takes an encrypted message back: with well-formed contexts that hold the same key, in
  either mode, for every message that fits the address space, encryption into a buffer of the announced
  size succeeds within it, and decrypting the result, also within the announced buffer, returns the
  message and its length. Both contexts stay well-formed.
\<close>

theorem oaes_round_trip:
  assumes "ctx_well_formed ctx" "ctx_well_formed ctx2" "ctx_key ctx = Some key" "ctx_key ctx2 = Some key"
    and "oaes_encrypt (Some ctx) (Some m) (length m) None (Some 0) = Some (r, p, None, Some (length c))"
    and "length m + 48 < 2 ^ 32" "length buf + 32 = length c"
  shows "\<exists>ctx' c'. oaes_encrypt (Some ctx) (Some m) (length m) (Some c) (Some (length c))
        = Some (OAES_RET_SUCCESS, Some ctx', Some c', Some (length c)) \<and> ctx_well_formed ctx' \<and> length c' = length c \<and>
      (\<exists>ctx2' m'. oaes_decrypt (Some ctx2) (Some c') (Some buf) (Some (length buf))
        = Some (OAES_RET_SUCCESS, Some ctx2', Some m', Some (length m)) \<and> ctx_well_formed ctx2' \<and> take (length m) m' = m)"
proof -
  have small: "file_length (length m) < 2 ^ 32" using assms(6) pad_length_le[of "length m"] by (simp add: file_length_def)
  have c: "length c = file_length (length m)"
    using assms(5) mod_small[OF small] by (simp add: oaes_encrypt_def oaes_sizes file_length_def Let_def)
  have e: "expanded key" "options_ok (ctx_options ctx)" "length (ctx_iv ctx) = 16"
    using assms(1,3) expanded_full_key by (auto simp: ctx_well_formed_def)
  obtain ctx' where enc: "oaes_encrypt (Some ctx) (Some m) (length m) (Some c) (Some (length c)) = Some (OAES_RET_SUCCESS, Some ctx',
      Some (cipher_file key (ctx_options ctx) (ctx_iv ctx) m), Some (length c))" "keeps ctx ctx'"
    using encrypt_result[OF assms(3) e(1,3) _ _ small, of c "length c"] c by auto
  have "length m + pad_length (length m) \<le> length buf" using c assms(7) by (simp add: file_length_def)
  then obtain ctx2' where dec: "oaes_decrypt (Some ctx2) (Some (cipher_file key (ctx_options ctx) (ctx_iv ctx) m)) (Some buf) (Some (length buf)) =
      Some (OAES_RET_SUCCESS, Some ctx2', Some (m @ replicate (pad_length (length m)) 0 @ drop (length m + pad_length (length m)) buf),
        Some (length m))" "same_ctx ctx2 ctx2'"
    using decrypt_result[OF assms(4) e(1,3,2) small, of buf "length buf"] by blast
  have "ctx_well_formed ctx'" "ctx_well_formed ctx2'"
    using assms(1,2) keeps_fields[OF enc(2)] same_ctx_fields[OF dec(2)] by (simp_all add: ctx_well_formed_def)
  then show ?thesis
    using enc(1) dec(1) length_cipher_file[OF e(1,3), of "ctx_options ctx" m] c by auto
qed

theorem oaes_round_trip_witness:
  "\<exists>ctx' c'. oaes_encrypt (Some sample_ctx) (Some [1, 2, 3]) 3 (Some (replicate 48 0)) (Some 48)
        = Some (OAES_RET_SUCCESS, Some ctx', Some c', Some 48) \<and> ctx_well_formed ctx' \<and> length c' = 48 \<and>
      (\<exists>ctx2' m'. oaes_decrypt (Some sample_ctx) (Some c') (Some (replicate 16 0)) (Some 16)
        = Some (OAES_RET_SUCCESS, Some ctx2', Some m', Some 3) \<and> ctx_well_formed ctx2' \<and> take 3 m' = [1, 2, 3])"
proof -
  let ?m = "[1, 2, 3] :: u8 list"
  have l: "length ?m = 3" by simp
  have k: "ctx_key sample_ctx = Some (full_key (map of_nat [0..<16]))" by (simp add: sample_ctx_def)
  have q: "oaes_encrypt (Some sample_ctx) (Some ?m) (length ?m) None (Some 0)
      = Some (OAES_RET_SUCCESS, Some sample_ctx, None, Some (length (replicate 48 (0 :: u8))))"
    by (simp add: oaes_encrypt_def size_t_def pad_length_def oaes_sizes Let_def)
  from oaes_round_trip[OF sample_ctx_ok sample_ctx_ok k k q, of "replicate 16 0"] show ?thesis
    unfolding length_replicate l by simp
qed

section \<open>The life of a context\<close>

text \<open>Every call of the interface on a context, whatever it returns.\<close>

inductive api_step :: "oaes_ctx \<Rightarrow> oaes_ctx \<Rightarrow> bool" where
  set_option: "(\<And>v. value = Some v \<Longrightarrow> 16 \<le> length v) \<Longrightarrow> oaes_set_option (Some ctx) opt value = (r, Some ctx') \<Longrightarrow> api_step ctx ctx'"
| gen_128: "oaes_key_gen_128 mem (Some ctx) = (r, Some ctx') \<Longrightarrow> api_step ctx ctx'"
| gen_192: "oaes_key_gen_192 mem (Some ctx) = (r, Some ctx') \<Longrightarrow> api_step ctx ctx'"
| gen_256: "oaes_key_gen_256 mem (Some ctx) = (r, Some ctx') \<Longrightarrow> api_step ctx ctx'"
| key_import: "oaes_key_import mem (Some ctx) bs = (r, Some ctx') \<Longrightarrow> api_step ctx ctx'"
| key_import_data: "oaes_key_import_data mem (Some ctx) bs = (r, Some ctx') \<Longrightarrow> api_step ctx ctx'"
| encrypt: "oaes_encrypt (Some ctx) m m_len c c_len = Some (r, Some ctx', c', c_len') \<Longrightarrow> api_step ctx ctx'"
| decrypt: "oaes_decrypt (Some ctx) c m m_len = Some (r, Some ctx', m', m_len') \<Longrightarrow> api_step ctx ctx'"

inductive reachable :: "oaes_ctx \<Rightarrow> bool" where
  alloc: "oaes_alloc mem seed = Some ctx \<Longrightarrow> reachable ctx"
| step: "reachable ctx \<Longrightarrow> api_step ctx ctx' \<Longrightarrow> reachable ctx'"

lemma keeps_same: "same_ctx ctx ctx' \<Longrightarrow> ctx_well_formed ctx \<Longrightarrow> ctx_well_formed ctx'"
  using same_ctx_fields[of ctx ctx'] by (simp add: ctx_well_formed_def)

lemma well_formed_expanded: "ctx_well_formed ctx \<Longrightarrow> ctx_key ctx = Some key \<Longrightarrow> expanded key"
  using expanded_full_key by (auto simp: ctx_well_formed_def)

lemma encrypt_step_well_formed:
  assumes "encrypt_step m_len i (rc, ctx, c) = Some (rc', ctx', c')" "ctx_well_formed ctx" "ctx_key ctx \<noteq> None"
  shows "ctx_well_formed ctx' \<and> ctx_key ctx' \<noteq> None"
proof -
  obtain key where key: "ctx_key ctx = Some key" using assms(3) by auto
  have iv: "length (ctx_iv ctx) = 16" using assms(2) by (simp add: ctx_well_formed_def)
  obtain b where b: "load c (32 + i) (min (m_len - i) 16) = Some b"
    using assms(1) by (auto simp: encrypt_step_def oaes_sizes Let_def bind_eq_Some_conv)
  let ?f = "b @ map (\<lambda>j. of_nat (j + 1)) [0..<16 - min (m_len - i) 16]"
  let ?b = "if is_cbc (ctx_options ctx) then map2 (XOR) ?f (ctx_iv ctx) else ?f"
  have "length b = min (m_len - i) 16" using b by (auto simp: load_def split: if_splits)
  then have l: "length ?b = 16" using iv by simp
  obtain ctx1 where enc: "oaes_encrypt_block (Some ctx) (Some ?b) 16 = (OAES_RET_SUCCESS, Some ctx1, Some (encipher key ?b))"
    and same: "same_ctx ctx ctx1"
    using encrypt_block_encipher[OF key, of ?b] unfolding oaes_sizes by blast
  have e: "length (encipher key ?b) = 16"
    by (rule aes.length_E[OF well_formed_expanded[OF assms(2) key] l])
  have "ctx' \<in> {ctx, ctx1, ctx\<lparr>ctx_iv := ?b\<rparr>, ctx1\<lparr>ctx_iv := encipher key ?b\<rparr>}"
    using assms(1) b enc
    by (cases "is_cbc (ctx_options ctx)")
      (auto simp: encrypt_step_def oaes_sizes is_cbc_def[symmetric] Let_def bind_eq_Some_conv split: if_splits)
  then show ?thesis
    using keeps_same[OF same assms(2)] same_ctx_fields[OF same] assms(2,3) e l by (auto simp: ctx_well_formed_def)
qed

lemma encrypt_loop_well_formed:
  "encrypt_loop m_len is (rc, ctx, c) = Some (rc', ctx', c') \<Longrightarrow> ctx_well_formed ctx \<Longrightarrow> ctx_key ctx \<noteq> None \<Longrightarrow> ctx_well_formed ctx'"
proof (induction "is" arbitrary: rc ctx c)
  case (Cons i "is")
  then show ?case using encrypt_step_well_formed[of m_len i rc ctx c] by (auto simp: bind_eq_Some_conv)
qed simp

lemma decrypt_block_same:
  "oaes_decrypt_block (Some ctx) bp n = (r, Some ctx', bp') \<Longrightarrow> same_ctx ctx ctx'"
proof -
  assume d: "oaes_decrypt_block (Some ctx) bp n = (r, Some ctx', bp')"
  show ?thesis
  proof (cases "bp = None \<or> n \<noteq> OAES_BLOCK_SIZE \<or> ctx_key ctx = None")
    case True
    then show ?thesis using d by (auto simp: oaes_decrypt_block_def split: option.splits if_splits)
  next
    case False
    then obtain key c where "ctx_key ctx = Some key" "bp = Some c" "n = OAES_BLOCK_SIZE" by auto
    then show ?thesis using d decrypt_block_decipher[of ctx key c] by (metis Pair_inject option.inject)
  qed
qed

lemma decrypt_loop_same:
  "decrypt_loop opts c n is (rc, ctx, iv, m) = Some (rc', ctx', iv', m') \<Longrightarrow> same_ctx ctx ctx'"
proof (induction "is" arbitrary: rc ctx iv m)
  case (Cons i "is")
  from Cons.prems obtain rc1 ctx1 iv1 m1 where s: "decrypt_step opts c n i (rc, ctx, iv, m) = Some (rc1, ctx1, iv1, m1)"
    and l: "decrypt_loop opts c n is (rc1, ctx1, iv1, m1) = Some (rc', ctx', iv', m')"
    by (auto simp: bind_eq_Some_conv)
  have "same_ctx ctx ctx1"
    using s decrypt_block_same[of ctx]
    by (auto simp: decrypt_step_def Let_def bind_eq_Some_conv split: if_splits prod.splits)
  with Cons.IH[OF l] show ?case by (auto simp: same_ctx_def)
qed simp

lemma encrypt_well_formed:
  assumes "oaes_encrypt (Some ctx) m m_len c c_len = Some (r, Some ctx', c', c_len')" "ctx_well_formed ctx"
  shows "ctx_well_formed ctx'"
  using assms encrypt_loop_well_formed
  by (auto simp: oaes_encrypt_def encrypt_body_def Let_def bind_eq_Some_conv split: option.splits if_splits)

lemma decrypt_same:
  assumes "oaes_decrypt (Some ctx) c m m_len = Some (r, Some ctx', m', m_len')"
  shows "same_ctx ctx ctx'"
proof (cases c)
  case None
  then show ?thesis using assms by (simp add: oaes_decrypt_def)
next
  case (Some cc)
  consider "decrypt_header cc = None" | e where "decrypt_header cc = Some (Inl e)"
    | opts flags where "decrypt_header cc = Some (Inr (opts, flags))"
    by (metis option.exhaust sum.exhaust surj_pair)
  then show ?thesis
    using assms Some
    by cases (auto simp: oaes_decrypt_def Let_def bind_eq_Some_conv split: option.split_asm if_split_asm
        dest: decrypt_loop_same)
qed

lemma import_steps_well_formed:
  assumes "ctx_well_formed ctx"
  shows "oaes_key_import mem (Some ctx) bs = (r, Some ctx') \<Longrightarrow> ctx_well_formed ctx'"
    and "oaes_key_import_data mem (Some ctx) bs = (r, Some ctx') \<Longrightarrow> ctx_well_formed ctx'"
  using assms import_well_formed[OF assms import_header_length] import_well_formed[OF assms]
  by (auto simp: oaes_key_import_def oaes_key_import_data_def key_length_ok_def split: option.splits if_splits)

lemma gen_steps_well_formed:
  assumes "ctx_well_formed ctx"
  shows "oaes_key_gen_128 mem (Some ctx) = (r, Some ctx') \<Longrightarrow> ctx_well_formed ctx'"
    and "oaes_key_gen_192 mem (Some ctx) = (r, Some ctx') \<Longrightarrow> ctx_well_formed ctx'"
    and "oaes_key_gen_256 mem (Some ctx) = (r, Some ctx') \<Longrightarrow> ctx_well_formed ctx'"
  unfolding oaes_key_gen_128_def oaes_key_gen_192_def oaes_key_gen_256_def
  by (erule key_gen_well_formed[OF assms, rotated], simp add: key_length_ok_def)+

text \<open>
  C38. Every context that can arise from \<open>oaes_alloc\<close> by calls of the interface is well-formed: its
  generator is in range, exactly one mode is selected, the initialisation vector is a block, and a key it
  holds has 16, 24 or 32 bytes and its full schedule.
\<close>

theorem reachable_well_formed:
  assumes "reachable ctx"
  shows "ctx_well_formed ctx"
  using assms
proof (induction rule: reachable.induct)
  case (alloc mem seed ctx)
  then show ?case using alloc_well_formed by blast
next
  case (step ctx ctx')
  from step.hyps(2) step.IH show ?case
    by (cases rule: api_step.cases)
      (fact set_option_well_formed gen_steps_well_formed import_steps_well_formed encrypt_well_formed
        | blast intro: set_option_well_formed gen_steps_well_formed import_steps_well_formed encrypt_well_formed
            keeps_same[OF decrypt_same])+
qed

theorem reachable_witness:
  "let ctx = the (oaes_alloc (\<lambda>_. True) []); ctx' = the (snd (oaes_key_gen_128 (\<lambda>_. True) (Some ctx)))
   in ctx_well_formed ctx'"
proof -
  define ctx where "ctx = the (oaes_alloc (\<lambda>_. True) [])"
  have a: "oaes_alloc (\<lambda>_. True) [] = Some ctx"
    by (simp add: ctx_def oaes_alloc_def oaes_set_option_def oaes_options Let_def split: prod.splits)
  then have 1: "reachable ctx" by (rule reachable.alloc)
  obtain bs gen where b: "rand_bytes 16 (ctx_rctx ctx) = (bs, gen)" by fastforce
  then have "rand_ok (ctx_rctx ctx) \<Longrightarrow> length bs = 16" using rand_bytes_ok[of "ctx_rctx ctx" 16] by simp
  then have "key_length_ok (length bs)"
    using alloc_well_formed[OF a] by (simp add: ctx_well_formed_def key_length_ok_def)
  then obtain r ctx' where g: "oaes_key_gen_128 (\<lambda>_. True) (Some ctx) = (r, Some ctx')"
    by (simp add: oaes_key_gen_128_def oaes_key_gen_def b install_key_result)
  then have "reachable ctx'" by (intro reachable.step[OF 1] api_step.gen_128)
  from reachable_well_formed[OF this] show ?thesis by (simp add: ctx_def[symmetric] g)
qed

section \<open>Malformed files\<close>

text \<open>
  C39. A file of 32 bytes that carries the padding flag makes \<open>oaes_decrypt\<close> read before the start of its
  output array: the last byte of an empty message is looked at. And for an input shorter than header and
  initialisation vector the announced length wraps around to almost \<open>2\<^sup>3\<^sup>2\<close>.
\<close>

theorem oaes_decrypt_short_input:
  "oaes_decrypt (Some sample_ctx) (Some (msg_header OAES_OPTION_CBC OAES_FLAG_PAD @ replicate 16 0)) (Some []) (Some 0) = None \<and>
   oaes_decrypt (Some ctx) (Some []) None (Some 0) = Some (OAES_RET_SUCCESS, Some ctx, None, Some 4294967264)"
proof
  have h: "decrypt_header (msg_header OAES_OPTION_CBC OAES_FLAG_PAD @ replicate 16 0) = Some (Inr (OAES_OPTION_CBC, OAES_FLAG_PAD))"
    by (rule decrypt_header_ok) (simp_all add: options_ok_def oaes_options)
  have flag: "OAES_FLAG_PAD \<noteq> 0" by (simp add: OAES_FLAG_PAD_def)
  show "oaes_decrypt (Some sample_ctx) (Some (msg_header OAES_OPTION_CBC OAES_FLAG_PAD @ replicate 16 0)) (Some []) (Some 0) = None"
    by (simp add: oaes_decrypt_def h flag sample_ctx_def oaes_sizes size_sub_def load_def store_def block_offsets_def
        remove_pad_def Let_def)
  show "oaes_decrypt (Some ctx) (Some []) None (Some 0) = Some (OAES_RET_SUCCESS, Some ctx, None, Some 4294967264)"
    by (simp add: oaes_decrypt_def oaes_sizes size_sub_def Let_def)
qed

end
