(* ===== verification/Oaes_Main.thy ===== *)
theory Oaes_Main
  imports Oaes_Mode
begin

text \<open>
  The command line tool \<^verbatim>\<open>openaes\<close> (\<^verbatim>\<open>openaes/src/oaes.c\<close>) that TWRP runs on the parts of an encrypted
  backup: argument parsing, key padding and the loop over the buffers of the input. What it encrypts it
  decrypts back to the same bytes.
\<close>

section \<open>The code\<close>

definition OAES_BUF_LEN_ENC :: nat where "OAES_BUF_LEN_ENC = 4096 - 2 * OAES_BLOCK_SIZE"
definition OAES_BUF_LEN_DEC :: nat where "OAES_BUF_LEN_DEC = 4096"

datatype exit_code = EXIT_SUCCESS | EXIT_FAILURE

record cli =
  is_ecb :: bool
  cli_key :: "u8 list" \<comment> \<open>\<open>_key_data\<close>\<close>
  cli_key_len :: nat
  file_in :: "string option"
  file_out :: "string option"

text \<open>The key buffer starts as 1, 2, \<dots>, 32, which pads shorter keys.\<close>

definition cli_init :: cli where
  "cli_init = \<lparr>is_ecb = False, cli_key = map (\<lambda>j. of_nat (j + 1)) [0..<32], cli_key_len = 0,
     file_in = None, file_out = None\<rparr>"

definition bytes :: "string \<Rightarrow> u8 list" where
  "bytes = map of_char"

definition set_key :: "string \<Rightarrow> cli \<Rightarrow> cli" where
  "set_key arg c =
     (let n = length arg; k = take 32 (bytes arg)
      in c\<lparr>cli_key_len := (if n \<le> 16 then 16 else if n \<le> 24 then 24 else 32),
           cli_key := k @ drop (length k) (cli_key c)\<rparr>)"

text \<open>
  One pass of the option loop. The tests are not exclusive: after an option with a value, \<open>argv[_i]\<close> is
  that value, and the later tests look at it.
\<close>

definition value_option ::
  "string \<Rightarrow> (string \<Rightarrow> cli \<Rightarrow> cli) \<Rightarrow> (bool \<times> string \<times> string list \<times> cli) \<Rightarrow> (bool \<times> string \<times> string list \<times> cli) option" where
  "value_option name upd = (\<lambda>(found, arg, rest, c).
     if arg = name
     then (case rest of [] \<Rightarrow> None | v # rest \<Rightarrow> Some (True, v, rest, upd v c))
     else Some (found, arg, rest, c))"

definition option_step :: "string \<Rightarrow> string list \<Rightarrow> cli \<Rightarrow> (string list \<times> cli) option" where
  "option_step arg rest c = do {
     let (found, c) = (if arg = ''--ecb'' then (True, c\<lparr>is_ecb := True\<rparr>) else (False, c));
     s \<leftarrow> value_option ''--key'' set_key (found, arg, rest, c);
     s \<leftarrow> value_option ''--in'' (\<lambda>v c. c\<lparr>file_in := Some v\<rparr>) s;
     (found, arg, rest, c) \<leftarrow> value_option ''--out'' (\<lambda>v c. c\<lparr>file_out := Some v\<rparr>) s;
     if found then Some (rest, c) else None
   }"

lemma value_option_rest:
  "value_option name f (found, arg, rest, c) = Some (found', arg', rest', c') \<Longrightarrow> length rest' \<le> length rest"
  by (auto simp: value_option_def split: if_splits list.splits)

lemma option_step_rest: "option_step arg rest c = Some (rest', c') \<Longrightarrow> length rest' \<le> length rest"
  by (auto simp: option_step_def Let_def bind_eq_Some_conv split: if_splits dest!: value_option_rest)

function parse_options :: "string list \<Rightarrow> cli \<Rightarrow> cli option" where
  "parse_options [] c = Some c"
| "parse_options (arg # rest) c =
     (case option_step arg rest c of None \<Rightarrow> None | Some (rest', c') \<Rightarrow> parse_options rest' c')"
  by pat_completeness auto
termination by (relation "measure (\<lambda>(args, c). length args)") (auto dest: option_step_rest simp: le_imp_less_Suc)

text \<open>
  One buffer: the required size is asked for, a zeroed buffer of that size is allocated, filled and
  written. Errors of the library are only reported, so what follows runs on. The result is the context,
  \<open>_buf_out_len\<close> and the bytes written; \<open>Inl\<close> an exit.
\<close>

type_synonym chunk_result = "(exit_code + oaes_ctx option \<times> nat \<times> u8 list) option"

definition encrypt_chunk :: "(nat \<Rightarrow> bool) \<Rightarrow> u8 list \<Rightarrow> oaes_ctx option \<Rightarrow> nat \<Rightarrow> chunk_result" where
  "encrypt_chunk alloc chunk ctx len = do {
     (r, ctx, b, lenp) \<leftarrow> oaes_encrypt ctx (Some chunk) (length chunk) None (Some len);
     len \<leftarrow> lenp;
     if \<not> alloc len then Some (Inl EXIT_FAILURE)
     else do {
       (r, ctx, b, lenp) \<leftarrow> oaes_encrypt ctx (Some chunk) (length chunk) (Some (replicate len 0)) (Some len);
       len \<leftarrow> lenp; b \<leftarrow> b;
       out \<leftarrow> load b 0 len;
       Some (Inr (ctx, len, out))
     }
   }"

definition decrypt_chunk :: "(nat \<Rightarrow> bool) \<Rightarrow> u8 list \<Rightarrow> oaes_ctx option \<Rightarrow> nat \<Rightarrow> chunk_result" where
  "decrypt_chunk alloc chunk ctx len = do {
     (r, ctx, b, lenp) \<leftarrow> oaes_decrypt ctx (Some chunk) None (Some len);
     len \<leftarrow> lenp;
     if \<not> alloc len then Some (Inl EXIT_FAILURE)
     else do {
       (r, ctx, b, lenp) \<leftarrow> oaes_decrypt ctx (Some chunk) (Some (replicate len 0)) (Some len);
       len \<leftarrow> lenp; b \<leftarrow> b;
       out \<leftarrow> load b 0 len;
       Some (Inr (ctx, len, out))
     }
   }"

text \<open>\<open>while( (_buf_in_len = fread(_buf_in, 1, _read_len, _f_in)) )\<close>: the buffers the loop sees.\<close>

function chunks :: "nat \<Rightarrow> 'a list \<Rightarrow> 'a list list" where
  "chunks n xs = (if xs = [] \<or> n = 0 then [] else take n xs # chunks n (drop n xs))"
  by pat_completeness auto
termination by (relation "measure (\<lambda>(n, xs). length xs)") auto

declare chunks.simps [simp del]

datatype operation = Enc | Dec

fun main_loop :: "operation \<Rightarrow> (nat \<Rightarrow> bool) \<Rightarrow> u8 list list \<Rightarrow> oaes_ctx option \<Rightarrow> nat \<Rightarrow> (exit_code \<times> u8 list) option" where
  "main_loop op alloc [] ctx len = Some (EXIT_SUCCESS, [])"
| "main_loop op alloc (chunk # rest) ctx len =
     (case (case op of Enc \<Rightarrow> encrypt_chunk alloc chunk ctx len | Dec \<Rightarrow> decrypt_chunk alloc chunk ctx len) of
        None \<Rightarrow> None
      | Some (Inl e) \<Rightarrow> Some (e, [])
      | Some (Inr (ctx, len, out)) \<Rightarrow> map_option (apsnd ((@) out)) (main_loop op alloc rest ctx len))"

text \<open>
  The surroundings: the readable files, the files that can be created, the standard input, the seed, and
  the allocations, those of the library by number and those of the buffers by size.
\<close>

record env =
  env_files :: "string \<Rightarrow> u8 list option"
  env_writable :: "string \<Rightarrow> bool"
  env_stdin :: "u8 list"
  env_seed :: "u8 list"
  env_mem :: "nat \<Rightarrow> bool"
  env_alloc :: "nat \<Rightarrow> bool"

definition read_length :: "operation \<Rightarrow> nat" where
  "read_length op = (case op of Enc \<Rightarrow> OAES_BUF_LEN_ENC | Dec \<Rightarrow> OAES_BUF_LEN_DEC)"

text \<open>From \<open>oaes_alloc\<close> to the end of the loop, on the bytes of the input.\<close>

definition run_cipher :: "env \<Rightarrow> operation \<Rightarrow> cli \<Rightarrow> u8 list \<Rightarrow> (exit_code \<times> u8 list) option" where
  "run_cipher env op c input =
     (case oaes_alloc (env_mem env) (env_seed env) of None \<Rightarrow> Some (EXIT_FAILURE, [])
      | Some ctx \<Rightarrow>
        let ctxp = (if is_ecb c then snd (oaes_set_option (Some ctx) OAES_OPTION_ECB None) else Some ctx);
            ctxp = snd (oaes_key_import_data (env_mem env) ctxp (Some (take (cli_key_len c) (cli_key c))))
        in main_loop op (env_alloc env) (chunks (read_length op) input) ctxp 0)"

text \<open>
  \<open>main\<close>: the arguments are those after the program name. The result is the exit code, the file written
  (\<open>None\<close> the standard output) and its bytes. Opening the output for writing empties it, also when it is
  the input.
\<close>

definition main :: "env \<Rightarrow> string list \<Rightarrow> (exit_code \<times> string option \<times> u8 list) option" where
  "main env args =
     (case args of [] \<Rightarrow> Some (EXIT_FAILURE, None, [])
      | cmd # rest \<Rightarrow>
        let run = (\<lambda>op. case parse_options rest cli_init of None \<Rightarrow> Some (EXIT_FAILURE, None, [])
              | Some c \<Rightarrow>
                if cli_key_len c = 0 then Some (EXIT_FAILURE, None, [])
                else case (case file_in c of None \<Rightarrow> Some (env_stdin env) | Some f \<Rightarrow> env_files env f) of
                  None \<Rightarrow> Some (EXIT_FAILURE, None, [])
                | Some input \<Rightarrow>
                  case file_out c of None \<Rightarrow> map_option (\<lambda>(e, out). (e, None, out)) (run_cipher env op c input)
                  | Some f \<Rightarrow>
                    if \<not> env_writable env f then Some (EXIT_FAILURE, None, [])
                    else map_option (\<lambda>(e, out). (e, Some f, out))
                           (run_cipher env op c (if file_in c = Some f then [] else input)))
        in if cmd = ''enc'' then run Enc else if cmd = ''dec'' then run Dec else Some (EXIT_FAILURE, None, []))"

section \<open>Buffers\<close>

lemma chunks_Nil [simp]: "chunks n [] = []"
  by (subst chunks.simps) simp

lemma chunks_Cons: "xs \<noteq> [] \<Longrightarrow> 0 < n \<Longrightarrow> chunks n xs = take n xs # chunks n (drop n xs)"
  by (subst chunks.simps) simp

lemma concat_chunks: "0 < n \<Longrightarrow> concat (chunks n xs) = xs"
proof (induction xs rule: length_induct)
  case (1 xs)
  show ?case
  proof (cases "xs = []")
    case False
    then have "concat (chunks n (drop n xs)) = drop n xs" using 1 by (metis length_drop diff_less length_greater_0_conv)
    then show ?thesis using chunks_Cons[OF False 1(2)] by simp
  qed simp
qed

lemma chunks_concat:
  assumes "0 < n"
  shows "\<forall>b\<in>set bs. length b = n \<Longrightarrow> length b \<le> n \<Longrightarrow> chunks n (concat bs @ b) = bs @ (if b = [] then [] else [b])"
proof (induction bs)
  case Nil
  then show ?case using assms by (simp add: chunks_Cons)
next
  case (Cons a bs)
  have a: "length a = n" "\<forall>b\<in>set bs. length b = n" using Cons.prems(1) by (metis list.set_intros)+
  then have "a \<noteq> []" using assms by auto
  then have "chunks n (concat (a # bs) @ b) = take n (a @ concat bs @ b) # chunks n (drop n (a @ concat bs @ b))"
    using chunks_Cons[of "a @ concat bs @ b" n] assms by simp
  also have "\<dots> = a # chunks n (concat bs @ b)" using a(1) by simp
  finally show ?case using Cons.IH[OF a(2) Cons.prems(2)] by simp
qed

text \<open>All buffers but the last are full.\<close>

lemma chunks_split:
  assumes "0 < n"
  obtains bs b where "chunks n xs = bs @ (if b = [] then [] else [b])" "\<forall>b\<in>set bs. length b = n" "length b \<le> n"
proof -
  have "\<exists>bs b. chunks n xs = bs @ (if b = [] then [] else [b]) \<and> (\<forall>b\<in>set bs. length b = n) \<and> length b \<le> n"
  proof (induction xs rule: length_induct)
    case (1 xs)
    show ?case
    proof (cases "length xs \<le> n")
      case True
      then show ?thesis using assms chunks_Cons[of xs n] by (intro exI[of _ "[]"] exI[of _ xs]) simp
    next
      case False
      then have ne: "xs \<noteq> []" by auto
      have "length (drop n xs) < length xs" using ne assms by simp
      then obtain bs b where b: "chunks n (drop n xs) = bs @ (if b = [] then [] else [b])" "\<forall>b\<in>set bs. length b = n" "length b \<le> n"
        using 1 by blast
      have t: "length (take n xs) = n" using False by simp
      have "chunks n xs = (take n xs # bs) @ (if b = [] then [] else [b])" using chunks_Cons[OF ne assms] b(1) by simp
      moreover have "\<forall>b\<in>set (take n xs # bs). length b = n" using b(2) t by (metis set_ConsD)
      ultimately show ?thesis using b(3) by blast
    qed
  qed
  then show thesis using that by blast
qed

section \<open>Encrypting and decrypting\<close>

text \<open>A context ready to work with the given key.\<close>

definition ready :: "oaes_key \<Rightarrow> oaes_ctx \<Rightarrow> bool" where
  "ready key ctx \<longleftrightarrow> ctx_well_formed ctx \<and> ctx_key ctx = Some key"

lemma encrypt_chunk_result:
  assumes "ready key ctx" "\<And>n. alloc n" "length chunk \<le> 4096"
  obtains ctx' opts iv where
    "encrypt_chunk alloc chunk (Some ctx) len = Some (Inr (Some ctx', file_length (length chunk), cipher_file key opts iv chunk))"
    "ready key ctx'" "options_ok opts" "length iv = 16"
proof -
  let ?L = "file_length (length chunk)"
  have small: "?L < 2 ^ 32" using assms(3) pad_length_le[of "length chunk"] by (simp add: file_length_def)
  have e: "ctx_key ctx = Some key" "expanded key" "length (ctx_iv ctx) = 16" "options_ok (ctx_options ctx)" "ctx_well_formed ctx"
    using assms(1) well_formed_expanded by (auto simp: ready_def ctx_well_formed_def)
  obtain ctx' where enc: "oaes_encrypt (Some ctx) (Some chunk) (length chunk) (Some (replicate ?L 0)) (Some ?L) =
      Some (OAES_RET_SUCCESS, Some ctx', Some (cipher_file key (ctx_options ctx) (ctx_iv ctx) chunk), Some ?L)" "keeps ctx ctx'"
    using encrypt_result[OF e(1-3) _ _ small, of "replicate ?L 0" ?L] by auto
  have query: "oaes_encrypt (Some ctx) (Some chunk) (length chunk) None (Some len) = Some (OAES_RET_SUCCESS, Some ctx, None, Some ?L)"
    using mod_small[OF small] by (simp add: oaes_encrypt_def oaes_sizes file_length_def Let_def)
  have "ready key ctx'"
    using assms(1) keeps_fields[OF enc(2)] by (auto simp: ready_def ctx_well_formed_def)
  moreover have "encrypt_chunk alloc chunk (Some ctx) len =
      Some (Inr (Some ctx', ?L, cipher_file key (ctx_options ctx) (ctx_iv ctx) chunk))"
    using assms(2) enc(1) length_cipher_file[OF e(2,3), of "ctx_options ctx" chunk]
    by (simp add: encrypt_chunk_def query load_def)
  ultimately show thesis using that e(3,4) by blast
qed

lemma decrypt_chunk_result:
  assumes "ready key ctx" "\<And>n. alloc n" "length chunk \<le> 4096" "options_ok opts" "length iv = 16"
  obtains ctx' where
    "decrypt_chunk alloc (cipher_file key opts iv chunk) (Some ctx) len = Some (Inr (Some ctx', length chunk, chunk))"
    "ready key ctx'"
proof -
  let ?L = "length chunk + pad_length (length chunk)"
  have small: "file_length (length chunk) < 2 ^ 32" using assms(3) pad_length_le[of "length chunk"] by (simp add: file_length_def)
  have e: "ctx_key ctx = Some key" "expanded key" "ctx_well_formed ctx"
    using assms(1) well_formed_expanded by (auto simp: ready_def)
  obtain ctx' where dec: "oaes_decrypt (Some ctx) (Some (cipher_file key opts iv chunk)) (Some (replicate ?L 0)) (Some ?L) =
      Some (OAES_RET_SUCCESS, Some ctx', Some (chunk @ replicate (pad_length (length chunk)) 0), Some (length chunk))" "same_ctx ctx ctx'"
    using decrypt_result[OF e(1,2) assms(5,4) small, of "replicate ?L 0" ?L] by auto
  have query: "oaes_decrypt (Some ctx) (Some (cipher_file key opts iv chunk)) None (Some len) = Some (OAES_RET_SUCCESS, Some ctx, None, Some ?L)"
    using decrypt_file_length[OF e(2) assms(5) small, of opts] by (simp add: oaes_decrypt_def oaes_sizes Let_def)
  have "ready key ctx'" using keeps_same[OF dec(2) e(3)] same_ctx_fields[OF dec(2)] e(1) by (simp add: ready_def)
  moreover have "decrypt_chunk alloc (cipher_file key opts iv chunk) (Some ctx) len = Some (Inr (Some ctx', length chunk, chunk))"
    using assms(2) dec(1) by (simp add: decrypt_chunk_def query load_def)
  ultimately show thesis using that by blast
qed

text \<open>The files of the buffers, one after the other.\<close>

inductive encoded :: "oaes_key \<Rightarrow> u8 list list \<Rightarrow> u8 list list \<Rightarrow> bool" for key where
  "encoded key [] []"
| "encoded key bs fs \<Longrightarrow> options_ok opts \<Longrightarrow> length iv = 16 \<Longrightarrow> encoded key (b # bs) (cipher_file key opts iv b # fs)"

lemma encrypt_loop_encoded:
  assumes "ready key ctx" "\<And>n. alloc n" "\<forall>b\<in>set bs. length b \<le> 4096"
  shows "\<exists>fs. main_loop Enc alloc bs (Some ctx) len = Some (EXIT_SUCCESS, concat fs) \<and> encoded key bs fs"
  using assms(1,3)
proof (induction bs arbitrary: ctx len)
  case Nil
  show ?case by (intro exI[of _ "[]"]) (simp add: encoded.intros)
next
  case (Cons b bs)
  have b: "length b \<le> 4096" "\<forall>b\<in>set bs. length b \<le> 4096" using Cons.prems(2) by simp_all
  obtain ctx' opts iv where c: "encrypt_chunk alloc b (Some ctx) len = Some (Inr (Some ctx', file_length (length b), cipher_file key opts iv b))"
    "ready key ctx'" "options_ok opts" "length iv = 16"
    by (rule encrypt_chunk_result[OF Cons.prems(1) assms(2) b(1)])
  obtain fs where "main_loop Enc alloc bs (Some ctx') (file_length (length b)) = Some (EXIT_SUCCESS, concat fs)" "encoded key bs fs"
    using Cons.IH[OF c(2) b(2)] by blast
  then show ?case using c by (auto intro!: exI[of _ "cipher_file key opts iv b # fs"] encoded.intros)
qed

lemma decrypt_loop_encoded:
  assumes "encoded key bs fs" "ready key ctx" "\<And>n. alloc n" "\<forall>b\<in>set bs. length b \<le> 4096"
  shows "main_loop Dec alloc fs (Some ctx) len = Some (EXIT_SUCCESS, concat bs)"
  using assms(1,2,4)
proof (induction arbitrary: ctx len rule: encoded.induct)
  case (2 bs fs opts iv b)
  have b: "length b \<le> 4096" "\<forall>b\<in>set bs. length b \<le> 4096" using 2(6) by simp_all
  obtain ctx' where c: "decrypt_chunk alloc (cipher_file key opts iv b) (Some ctx) len = Some (Inr (Some ctx', length b, b))" "ready key ctx'"
    by (rule decrypt_chunk_result[OF 2(5) assms(3) b(1) 2(2,3)])
  then show ?case using 2(4)[OF c(2) b(2)] by simp
qed simp

lemma encoded_append:
  "encoded key (bs @ cs) fs \<Longrightarrow> \<exists>gs hs. fs = gs @ hs \<and> encoded key bs gs \<and> encoded key cs hs"
proof (induction bs arbitrary: fs)
  case Nil
  then show ?case by (auto intro: encoded.intros)
next
  case (Cons b bs)
  from Cons.prems obtain f fs' opts iv where f: "fs = f # fs'" "f = cipher_file key opts iv b" "options_ok opts" "length iv = 16"
    "encoded key (bs @ cs) fs'" by (auto elim: encoded.cases)
  then show ?case using Cons.IH[OF f(5)] by (metis append_Cons encoded.intros(2))
qed

lemma encoded_full:
  "encoded key bs fs \<Longrightarrow> expanded key \<Longrightarrow> \<forall>b\<in>set bs. length b = 4064 \<Longrightarrow> \<forall>f\<in>set fs. length f = 4096"
proof (induction rule: encoded.induct)
  case (2 bs fs opts iv b)
  have "length (cipher_file key opts iv b) = 4096"
    using 2(6) length_cipher_file[OF 2(5) 2(3), of opts b] by (simp add: file_length_def pad_length_def oaes_sizes)
  moreover have "\<forall>b\<in>set bs. length b = 4064" using 2(6) by (metis list.set_intros(2))
  ultimately show ?case using 2(4)[OF 2(5)] by (metis set_ConsD)
qed simp

lemma encoded_chunks:
  assumes "expanded key" "encoded key (chunks 4064 xs) fs"
  shows "chunks 4096 (concat fs) = fs"
proof -
  obtain bs b where b: "chunks 4064 xs = bs @ (if b = [] then [] else [b])" "\<forall>b\<in>set bs. length b = 4064" "length b \<le> 4064"
    by (rule chunks_split[of 4064 xs]) simp_all
  obtain gs hs where g: "fs = gs @ hs" "encoded key bs gs" "encoded key (if b = [] then [] else [b]) hs"
    using encoded_append assms(2) b(1) by metis
  have full: "\<forall>f\<in>set gs. length f = 4096" by (rule encoded_full[OF g(2) assms(1) b(2)])
  show ?thesis
  proof (cases "b = []")
    case True
    then have "hs = []" using g(3) by (auto elim: encoded.cases)
    then show ?thesis using chunks_concat[of 4096 gs "[]", OF _ full] g(1) by simp
  next
    case False
    with g(3) obtain opts iv where h: "hs = [cipher_file key opts iv b]" "length iv = 16" by (auto elim!: encoded.cases)
    let ?f = "cipher_file key opts iv b"
    have len: "length ?f = 32 + 16 * ((length b + 15) div 16)"
      using length_cipher_file[OF assms(1) h(2), of opts b] padded_length[of "length b"] by (simp add: file_length_def)
    have "(length b + 15) div 16 \<le> (4064 + 15) div 16" using b(3) by (intro div_le_mono) simp
    then have "length ?f \<le> 4096" using len by simp
    moreover have "?f \<noteq> []" using len by auto
    ultimately show ?thesis using chunks_concat[of 4096 gs ?f, OF _ full] g(1) h(1) by simp
  qed
qed

section \<open>The command line\<close>

definition cli_ok :: "cli \<Rightarrow> bool" where
  "cli_ok c \<longleftrightarrow> length (cli_key c) = 32 \<and> (cli_key_len c = 0 \<or> key_length_ok (cli_key_len c))"

lemma set_key_ok: "cli_ok c \<Longrightarrow> cli_ok (set_key v c)"
  by (auto simp: cli_ok_def set_key_def key_length_ok_def bytes_def Let_def)

lemma value_option_ok:
  "value_option name upd (found, arg, rest, c) = Some (found', arg', rest', c') \<Longrightarrow>
     (\<And>v. cli_ok (upd v c)) \<Longrightarrow> cli_ok c \<Longrightarrow> cli_ok c'"
  by (auto simp: value_option_def split: if_splits list.splits)

lemma option_step_ok: "option_step arg rest c = Some (rest', c') \<Longrightarrow> cli_ok c \<Longrightarrow> cli_ok c'"
proof -
  assume s: "option_step arg rest c = Some (rest', c')" and ok: "cli_ok c"
  obtain found0 c0 where 0: "(if arg = ''--ecb'' then (True, c\<lparr>is_ecb := True\<rparr>) else (False, c)) = (found0, c0)"
    by (metis surj_pair)
  have ok0: "cli_ok c0" using 0 ok by (auto simp: cli_ok_def split: if_splits)
  obtain f1 a1 r1 c1 f2 a2 r2 c2 f3 a3 where
    1: "value_option ''--key'' set_key (found0, arg, rest, c0) = Some (f1, a1, r1, c1)" and
    2: "value_option ''--in'' (\<lambda>v c. c\<lparr>file_in := Some v\<rparr>) (f1, a1, r1, c1) = Some (f2, a2, r2, c2)" and
    3: "value_option ''--out'' (\<lambda>v c. c\<lparr>file_out := Some v\<rparr>) (f2, a2, r2, c2) = Some (f3, a3, rest', c')"
    using s 0 by (auto simp: option_step_def bind_eq_Some_conv split: if_splits)
  have "cli_ok c1" using value_option_ok[OF 1 _ ok0] set_key_ok[OF ok0] by blast
  then have "cli_ok c2" using value_option_ok[OF 2] by (simp add: cli_ok_def)
  then show ?thesis using value_option_ok[OF 3] by (simp add: cli_ok_def)
qed

lemma parse_options_ok: "parse_options args c = Some c' \<Longrightarrow> cli_ok c \<Longrightarrow> cli_ok c'"
  by (induction args c rule: parse_options.induct) (auto split: option.splits dest: option_step_ok)

lemma alloc_succeeds:
  assumes "mem 0" "mem 1"
  shows "\<exists>ctx. oaes_alloc mem seed = Some ctx"
proof -
  obtain bs g where "rand_bytes 16 (randinit (seeded seed) True) = (bs, g)" by (metis surj_pair)
  then show ?thesis
    using assms by (simp add: oaes_alloc_def oaes_set_option_def oaes_options oaes_sizes Let_def)
qed

lemma ready_context:
  assumes "\<And>n. env_mem env n" "cli_ok c" "cli_key_len c \<noteq> 0"
  obtains ctx where "ready (full_key (take (cli_key_len c) (cli_key c))) ctx"
    "\<And>op input. run_cipher env op c input = main_loop op (env_alloc env) (chunks (read_length op) input) (Some ctx) 0"
proof -
  let ?k = "take (cli_key_len c) (cli_key c)"
  have k: "key_length_ok (length ?k)" using assms(2,3) by (auto simp: cli_ok_def key_length_ok_def)
  obtain ctx where a: "oaes_alloc (env_mem env) (env_seed env) = Some ctx"
    using alloc_succeeds[of "env_mem env"] assms(1) by blast
  obtain ctx1 where s: "(if is_ecb c then snd (oaes_set_option (Some ctx) OAES_OPTION_ECB None) else Some ctx) = Some ctx1"
    "ctx_well_formed ctx1"
  proof (cases "is_ecb c")
    case True
    obtain r ctx1 where o: "oaes_set_option (Some ctx) OAES_OPTION_ECB None = (r, Some ctx1)"
      by (simp add: oaes_set_option_def Let_def)
    then have "ctx_well_formed ctx1"
      using set_option_well_formed[of ctx None] alloc_well_formed[OF a] by auto
    then show thesis using that True o by simp
  qed (use that alloc_well_formed[OF a] in simp)
  have "oaes_key_import_data (env_mem env) (Some ctx1) (Some ?k) = (OAES_RET_SUCCESS, Some (ctx1\<lparr>ctx_key := Some (full_key ?k)\<rparr>))"
    using k assms(1) by (simp add: oaes_key_import_data_def import_bytes_def install_key_result key_length_ok_def Let_def)
  then have "run_cipher env op c input = main_loop op (env_alloc env) (chunks (read_length op) input)
      (Some (ctx1\<lparr>ctx_key := Some (full_key ?k)\<rparr>)) 0" for op input
    using a s(1) by (simp add: run_cipher_def Let_def)
  moreover have "\<exists>bs. key_length_ok (length bs) \<and> full_key ?k = full_key bs" using k by blast
  then have "ready (full_key ?k) (ctx1\<lparr>ctx_key := Some (full_key ?k)\<rparr>)"
    using s(2) by (simp add: ready_def ctx_well_formed_def)
  ultimately show thesis using that by blast
qed

text \<open>
  C36. What \<open>openaes enc\<close> writes for a key and options, \<open>openaes dec\<close> with the same arguments turns back into
  the input, whatever its length and whatever the two seeds, as long as no allocation fails: the whole
  path over option parsing, key padding, buffering, block chaining and padding is lossless.
\<close>

theorem openaes_round_trip:
  assumes "parse_options args cli_init = Some c" "cli_key_len c \<noteq> 0" "file_in c = None" "file_out c = None"
    and "\<And>n. env_mem env n" "\<And>n. env_alloc env n" "\<And>n. env_mem env2 n" "\<And>n. env_alloc env2 n"
  shows "\<exists>out. main env (''enc'' # args) = Some (EXIT_SUCCESS, None, out) \<and>
    main (env2\<lparr>env_stdin := out\<rparr>) (''dec'' # args) = Some (EXIT_SUCCESS, None, env_stdin env)"
proof -
  let ?key = "full_key (take (cli_key_len c) (cli_key c))" and ?bs = "chunks 4064 (env_stdin env)"
  have ok: "cli_ok c" by (rule parse_options_ok[OF assms(1)]) (simp add: cli_ok_def cli_init_def)
  have key: "expanded ?key"
    using expanded_full_key[of "take (cli_key_len c) (cli_key c)"] ok assms(2) by (auto simp: cli_ok_def key_length_ok_def)
  obtain bs b where "?bs = bs @ (if b = [] then [] else [b])" "\<forall>b\<in>set bs. length b = 4064" "length b \<le> 4064"
    by (rule chunks_split[of 4064 "env_stdin env"]) simp_all
  then have bnd: "\<forall>b\<in>set ?bs. length b \<le> 4096" by auto
  obtain ctx where r: "ready ?key ctx" "\<And>op input. run_cipher env op c input = main_loop op (env_alloc env) (chunks (read_length op) input) (Some ctx) 0"
    using ready_context[OF assms(5) ok assms(2)] by blast
  obtain fs where enc: "main_loop Enc (env_alloc env) ?bs (Some ctx) 0 = Some (EXIT_SUCCESS, concat fs)" "encoded ?key ?bs fs"
    using encrypt_loop_encoded[where alloc = "env_alloc env", OF r(1) assms(6) bnd] by blast
  obtain ctx2 where r2: "ready ?key ctx2"
    "\<And>op input. run_cipher (env2\<lparr>env_stdin := concat fs\<rparr>) op c input = main_loop op (env_alloc env2) (chunks (read_length op) input) (Some ctx2) 0"
    using ready_context[of "env2\<lparr>env_stdin := concat fs\<rparr>", OF _ ok assms(2)] assms(7) by (auto simp: ready_def)
  have "main_loop Dec (env_alloc env2) (chunks 4096 (concat fs)) (Some ctx2) 0 = Some (EXIT_SUCCESS, env_stdin env)"
    unfolding encoded_chunks[OF key enc(2)]
    using decrypt_loop_encoded[where alloc = "env_alloc env2", OF enc(2) r2(1) assms(8) bnd] by (simp add: concat_chunks)
  moreover have "read_length Enc = 4064" "read_length Dec = 4096"
    by (simp_all add: read_length_def OAES_BUF_LEN_ENC_def OAES_BUF_LEN_DEC_def oaes_sizes)
  ultimately have "main env (''enc'' # args) = Some (EXIT_SUCCESS, None, concat fs) \<and>
      main (env2\<lparr>env_stdin := concat fs\<rparr>) (''dec'' # args) = Some (EXIT_SUCCESS, None, env_stdin env)"
    using assms(1-4) r(2) r2(2) enc(1) by (simp add: main_def Let_def)
  then show ?thesis by blast
qed

definition sample_env :: env where
  "sample_env = \<lparr>env_files = (\<lambda>_. None), env_writable = (\<lambda>_. False), env_stdin = bytes ''backup'', env_seed = [],
     env_mem = (\<lambda>_. True), env_alloc = (\<lambda>_. True)\<rparr>"

theorem openaes_round_trip_witness:
  "\<exists>out. main sample_env [''enc'', ''--key'', ''secret''] = Some (EXIT_SUCCESS, None, out) \<and>
    main (sample_env\<lparr>env_stdin := out\<rparr>) [''dec'', ''--key'', ''secret''] = Some (EXIT_SUCCESS, None, bytes ''backup'')"
proof -
  have p: "parse_options [''--key'', ''secret''] cli_init = Some (set_key ''secret'' cli_init)"
    by (simp add: option_step_def value_option_def)
  have "cli_key_len (set_key ''secret'' cli_init) \<noteq> 0" "file_in (set_key ''secret'' cli_init) = None"
    "file_out (set_key ''secret'' cli_init) = None"
    by (simp_all add: set_key_def cli_init_def Let_def)
  from openaes_round_trip[OF p this, of sample_env sample_env] show ?thesis by (simp add: sample_env_def)
qed

end
