(* ===== verification/Spec2Isabelle.thy ===== *)
theory Spec2Isabelle
  imports Signed_Package Zip_Files Oaes_Main
begin

text \<open>
  The Safestrap recovery image: what it trusts and what it keeps secret.

  The recovery installs update packages and writes and restores backups. A package is a Zip archive; it
  is installed when the signature over its bytes verifies under a built-in key (RSA or ECDSA over P-256,
  with SHA-1 or SHA-256). Its files are then found by name and extracted. Encrypted backups are piped through
  the tool \<^verbatim>\<open>openaes\<close>. This development models the code of these parts:

  \<^item> \<^verbatim>\<open>src/libmincrypt\<close>, the signature library: \<^verbatim>\<open>sha.c\<close>, \<^verbatim>\<open>sha256.c\<close>, \<^verbatim>\<open>rsa.c\<close>, \<^verbatim>\<open>p256.c\<close>, \<^verbatim>\<open>p256_ec.c\<close>,
    \<^verbatim>\<open>p256_ecdsa.c\<close>, \<^verbatim>\<open>dsa_sig.c\<close>;
  \<^item> \<^verbatim>\<open>src/verifier24\<close>, the package verifier over that library: \<^verbatim>\<open>verifier.cpp\<close>, \<^verbatim>\<open>asn1_decoder.cpp\<close>; with the tool
    \<^verbatim>\<open>src/tools/dumpkey/DumpPublicKey.java\<close> that writes the key file it reads;
  \<^item> \<^verbatim>\<open>src/minzip\<close>, the archive reader: \<^verbatim>\<open>Hash.c\<close>, \<^verbatim>\<open>Zip.c\<close> and the creation of directories in \<^verbatim>\<open>DirUtil.c\<close>;
  \<^item> \<^verbatim>\<open>src/openaes\<close>, the backup cipher: \<^verbatim>\<open>oaes_lib.c\<close>, \<^verbatim>\<open>isaac/rand.c\<close> and the command line \<^verbatim>\<open>oaes.c\<close>.

  Theories and sources. Definitions carry the names of the functions; loop bodies that the code writes inline
  have names of their own.

  \<^item> \<open>Prelude\<close>, \<open>Digits\<close>, \<open>Mapped\<close>: C integer types as words of their width, big-endian access, the carry and
    borrow loops that \<^verbatim>\<open>rsa.c\<close> and \<^verbatim>\<open>p256.c\<close> are built from, shown exact on the numbers they denote, and files
    mapped into memory.
  \<^item> \<open>Mincrypt_Hash\<close>, \<open>Sha1\<close>, \<open>Sha256\<close>: \<open>HASH_CTX\<close> as a record, the block transforms, and the streaming update
    and final functions. The locale \<open>md_stream\<close> states what a transform owes the streaming code and proves
    once that chunking does not matter; both hashes interpret it. They equal FIPS 180-4, whose definitions
    are written out beside them (the SHA-256 constants from the cube roots of the primes).
  \<^item> \<open>Rsa\<close>: Montgomery multiplication, the exponents 3 and 65537, and \<open>RSA_verify\<close>, characterised as
    \<open>sig\<^sup>e mod n\<close> being the expected padding followed by the hash.
  \<^item> \<open>P256\<close>, \<open>P256_Linear\<close>, \<open>P256_Inverse\<close>, \<open>P256_Point\<close>: the 256-bit arithmetic of \<^verbatim>\<open>p256.c\<close>; products, comparison,
    inversion by binary Euclid with its termination, and what the curve check accepts.
  \<^item> \<open>P256_Felem\<close>, \<open>P256_Field\<close>, \<open>P256_Mont\<close>, \<open>P256_Degree\<close>, \<open>P256_Mul\<close>: the field elements of \<^verbatim>\<open>p256_ec.c\<close> in limbs of 29
    and 28 bits. Sums, differences, products, squares and inverses are exact modulo the prime and keep the
    limb bounds; \<open>P256_Degree\<close> follows the columns through \<open>felem_reduce_degree\<close>. The locale \<open>modular_product\<close> of
    \<open>Power_Chain\<close> turns a product into the meaning of a chain of squarings and products.
  \<^item> \<open>P256_Ec\<close>, \<open>P256_Select\<close>, \<open>P256_Group\<close>: Jacobian point operations, constant-time table selection and the scalar
    multiplications; selection and mask logic are equal to their branching counterparts, and the point
    operations are the tangent and chord constructions on affine points. \<open>P256_Scalar\<close>: every intermediate point of the two
    scalar multiplications keeps its limb bounds, so that \<open>p256_points_mul_vartime\<close> is total.
  \<^item> \<open>Ecdsa\<close>: the DER parser of \<^verbatim>\<open>dsa_sig.c\<close> and \<open>p256_ecdsa_verify\<close>.
  \<^item> \<open>Asn1\<close>, \<open>Pkcs7\<close>: the DER reader on windows of the mapped file, shown to read what a DER parser on the bytes
    of the window reads, and \<open>read_pkcs7\<close>, which finds the signature of an encoded SignedData structure whose first
    SignerInfo has no signed attributes.
  \<^item> \<open>Scanf\<close>, \<open>Key_File\<close>: the part of \<open>fscanf\<close> that is used, the reader \<open>load_keys\<close> and the writer
    \<open>DumpPublicKey\<close>; keys survive the file.
  \<^item> \<open>Verifier\<close>: \<open>verify_file\<close>. Its specification \<open>trusted\<close> says which files are packages signed under a key of the
    list; the proof goes through the specifications of the hashes, RSA, ECDSA, the key file and the signature block.
    The pointers into the file are integer offsets and every byte is read through \<open>deref\<close> or \<open>piece\<close>, which have no value outside of it. \<open>Rsa_Padding\<close>
    evaluates SHA-1 on the PKCS1 padding, and \<open>Signed_Package\<close> builds a package that is accepted.
  \<^item> \<open>Minzip_Hash\<close>, \<open>Minzip_Table\<close>, \<open>Minzip_Zip\<close>: the open-addressing table as a record with its array of
    slots, abstracted to the multiset of its items. The locale \<open>hash_store\<close> is the contract of the table
    and the index of \<^verbatim>\<open>Zip.c\<close> rests on its interpretation.
  \<^item> \<open>Zip_Parse\<close>, \<open>Zip_Archive\<close>: \<open>parseZipArchive\<close> with the binary search that keeps the entries sorted, and what an
    opened archive holds. \<open>Zip_Extract\<close>: reading the content of an entry into a buffer or a file; the
    locales \<open>sink\<close> and \<open>bounded_sink\<close> are the contract of the callbacks, interpreted for the two that fill
    buffers. \<open>Zip_Files\<close>: \<open>dirCreateHierarchy\<close> and \<open>mzExtractRecursive\<close>.
  \<^item> \<open>Isaac\<close>, \<open>Oaes_Tables\<close>, \<open>Oaes\<close>: the random generator and all of \<^verbatim>\<open>oaes_lib.c\<close>. \<open>Oaes_Block\<close> shows the tables
    to be those of \<open>GF(2\<^sup>8)\<close> and decryption of a block the inverse of encryption; \<open>Oaes_Key\<close> the key schedule
    to be that of FIPS 197 and keys to survive export and import; \<open>Oaes_Mode\<close> messages to survive encryption
    and decryption in ECB and CBC mode, with the reachable contexts as an inductive set; \<open>Oaes_Main\<close> the
    same for the files the tool reads and writes. The locale \<open>block_cipher\<close> of \<open>Block_Chain\<close> is the contract of
    the block functions.

  This theory shows how the verifier and the archive reader fit together: both use the same record of a package.

  Errors and partiality. Return codes are values. An \<open>option\<close> result \<open>None\<close> stands for what the code
  leaves undefined or does not survive: a failed \<open>assert\<close>, an access outside an array or a mapped file, or a
  loop that does not end. Loops whose end is not structural have a measure or are \<open>partial_function (option)\<close>, so
  that termination is the statement that the result is \<open>Some\<close>. One loop has fuel: \<open>pad_loop\<close> of the final functions
  adds at most 63 zero bytes, which always reaches byte 56 of a block. In \<open>Minzip_Hash\<close> and \<open>Ecdsa\<close> errors are
  constructors of their own. Allocation is a parameter: a predicate that says which calls succeed. Widths: digits
  are \<open>32 word\<close>, accumulators \<open>64 word\<close>, \<open>size_t\<close> and \<open>long\<close> have 32 bits as on the target. The \<open>int len\<close> of \<open>hash_update\<close> is the
  length of a list, so inputs are taken to be shorter than \<open>2\<^sup>3\<^sup>1\<close> bytes, and pointers into a mapped file are unbounded offsets: that
  \<open>ptr + CENHDR\<close> does not wrap around assumes that no archive is mapped at the top of the address space.

  Parameters. The contents of uninitialised memory (hash contexts, the seed buffer of the random
  generator beyond its text), the file system seen by \<^verbatim>\<open>openaes\<close>, the hash and comparison functions passed
  to the table, the functions of \<^verbatim>\<open>safe_iop\<close> and zlib, and the system calls of the extraction are arguments of the
  definitions; what is relied on is stated as predicates (\<open>safe_add_spec\<close>, \<open>zlib_spec\<close>, \<open>write_spec\<close>, \<open>fs_spec\<close>,
  \<open>realloc_spec\<close>), each with a concrete instance. \<open>realloc\<close> and \<open>malloc\<close> may fail.

  Not modelled. \<open>oaes_get_seed\<close> formats the time, a heap address and the process id, so that the seed is an
  arbitrary byte list here. The C++ code of the recovery (partitions, user interface, scripting) and the later
  verifier, which calls BoringSSL, are not modelled; \<^verbatim>\<open>fuse\<close>, \<^verbatim>\<open>libblkid\<close>, \<^verbatim>\<open>pigz\<close>, \<^verbatim>\<open>exfat\<close>, \<^verbatim>\<open>dosfstools\<close> and \<^verbatim>\<open>fb2png\<close> are vendored
  libraries and tools. Side channels of the constant-time code are not a subject.

  Plan. The later verifier over a parameter for BoringSSL; the header codec of \<^verbatim>\<open>libtar\<close>; the edify parser and the patch applier;
  the removal of directories.
\<close>

section \<open>Verified and opened packages\<close>

lemma deref_signed: "p < int (length msg) \<Longrightarrow> deref (msg @ rest) p = deref msg p"
  by (auto simp: deref_def nth_append)

text \<open>The record that the Zip parser finds in a signed package is the one whose first 20 bytes end the signed bytes.\<close>

lemma package_record:
  assumes "package addr msg start"
  shows "find_eocd addr (length addr - 22 + 1) = Some (Some (length msg - 20))" "20 \<le> length msg" "\<exists>rest. addr = msg @ rest"
proof -
  from assms obtain pre hdr field comment where p: "addr = msg @ field @ comment" "msg = pre @ hdr" "length hdr = 20" "length field = 2"
    "take 4 hdr = [0x50, 0x4b, 0x05, 0x06]"
    "\<forall>q. length pre < q \<and> q + 4 \<le> length addr \<longrightarrow> take 4 (drop q addr) \<noteq> [0x50, 0x4b, 0x05, 0x06]"
    unfolding package_def by blast
  have l: "length addr = length pre + 22 + length comment" "length msg - 20 = length pre" using p(1-4) by simp_all
  have "take 4 (drop (length pre) addr) = [0x50, 0x4b, 0x05, 0x06]" using p(1-3,5) by simp
  moreover have "\<forall>q. length pre < q \<and> q < length addr - 22 + 1 \<longrightarrow> take 4 (drop q addr) \<noteq> [0x50, 0x4b, 0x05, 0x06]"
    using p(6) l(1) by auto
  ultimately show "find_eocd addr (length addr - 22 + 1) = Some (Some (length msg - 20))"
    unfolding l(2) by (rule find_eocd_last[rotated 2]) (use l(1) in simp_all)
  show "20 \<le> length msg" "\<exists>rest. addr = msg @ rest" using p(1-3) by auto
qed

text \<open>
  C2. What is opened is what was signed: in a file with the layout of a signed package, \<open>mzOpenZipArchive\<close> takes the number of entries and
  the place of the directory from the signed bytes, and the archive holds the entries of that directory. A record hidden in the
  comment, behind the signed bytes, is not used.
\<close>

theorem opened_directory_signed:
  assumes "package addr msg start" "mzOpenZipArchive add_ptr add_off ok base addr = Some (0, Some a)"
  shows "\<exists>num cdOffset ds. get2LE msg (int (length msg) - 12) = Some num \<and> get4LE msg (int (length msg) - 4) = Some cdOffset \<and>
    directory add_ptr add_off base addr (unat num) (uint cdOffset) = Some (Some ds) \<and> mset (arc_pEntries a) = mset ds"
proof -
  note r = package_record[OF assms(1)]
  have "parseZipArchive add_ptr add_off ok base addr = Some (Some a)"
    using assms(2) by (auto simp: mzOpenZipArchive_def elim!: bind_SomeE split: if_splits option.splits)
  then obtain ptr num cdOffset ds where d: "find_eocd addr (length addr - 22 + 1) = Some (Some ptr)"
    "get2LE addr (int ptr + 8) = Some num" "get4LE addr (int ptr + 16) = Some cdOffset"
    "directory add_ptr add_off base addr (unat num) (uint cdOffset) = Some (Some ds)" "mset (arc_pEntries a) = mset ds"
    by (rule parseZipArchive_opened) (rule that)
  have ptr: "int ptr = int (length msg) - 20" using r(1,2) d(1) by simp
  obtain rest where rest: "addr = msg @ rest" using r(3) by blast
  have "get2LE msg (int (length msg) - 12) = Some num" "get4LE msg (int (length msg) - 4) = Some cdOffset"
    using d(2,3) unfolding ptr rest get2LE_def get4LE_def by (simp_all add: deref_signed)
  then show ?thesis using d(4,5) by blast
qed

definition signed_zip :: "u8 list" where
  "signed_zip = sample_zip [2, 0, 0, 0] [2, 0, 0, 0] [6, 0, 7, 0, 0xff, 0xff, 6, 0]"

lemma signed_zip_package: "\<exists>msg start. package signed_zip msg start"
  unfolding package_tests by code_simp

theorem opened_directory_signed_witness:
  "\<exists>msg start num cdOffset ds a. package signed_zip msg start \<and>
     mzOpenZipArchive checked_ptr checked_off (\<lambda>_. True) 0x1000 signed_zip = Some (0, Some a) \<and>
     get2LE msg (int (length msg) - 12) = Some num \<and> get4LE msg (int (length msg) - 4) = Some cdOffset \<and>
     directory checked_ptr checked_off 0x1000 signed_zip (unat num) (uint cdOffset) = Some (Some ds) \<and> mset (arc_pEntries a) = mset ds"
proof -
  obtain msg start where p: "package signed_zip msg start" using signed_zip_package by blast
  have b: "be32 0 0 0 2 = 2" by code_simp
  have r4: "replicate 4 (0 :: u8) = [0, 0, 0, 0]" by (simp add: numeral_eq_Suc)
  let ?c = "[6, 0, 7, 0, 0xff, 0xff, 6, 0] :: u8 list"
  have m: "\<forall>q. 78 < q \<and> q < 77 + length ?c \<longrightarrow> take 4 (drop q signed_zip) \<noteq> [0x50, 0x4b, 0x05, 0x06]"
  proof (intro allI impI)
    fix q assume "78 < q \<and> q < 77 + length ?c"
    then have "q \<in> {79, 80, 81, 82, 83, 84}" by auto
    then show "take 4 (drop q signed_zip) \<noteq> [0x50, 0x4b, 0x05, 0x06]"
      unfolding signed_zip_def sample_zip_def using r4 by auto
  qed
  obtain a where "mzOpenZipArchive checked_ptr checked_off (\<lambda>_. True) 0x1000 signed_zip = Some (0, Some a)"
    using sample_opens[of 0 0 0 2 ?c 2 0 0 0] m b unfolding signed_zip_def by auto
  with opened_directory_signed[OF p this] p show ?thesis by blast
qed

end
